(* ===== verification/Prelude.thy ===== *)
theory Prelude
  imports Main "HOL-Library.Word" "HOL-Library.Monad_Syntax"
begin

text \<open>
  What every component of the development shares: the names of the machine types, C's signed
  reading of a 32-bit value and its truncating division, the collections of simplification rules
  the component proofs use, and the generic facts on lists, options and words that the library
  does not have in this form.

  Throughout, a C function that can hit undefined behaviour or abort (a failed \<open>assert\<close>,
  \<open>abort()\<close>, a write past an allocated block, a dereference of a failed \<open>malloc\<close>) is modelled
  by a function into \<open>option\<close> whose value \<open>None\<close> stands for that failure, so that
  \<open>\<exists>y. f x = Some y\<close> is the statement that the code runs to completion safely.
\<close>

unbundle bit_operations_syntax

section \<open>Machine types\<close>

type_synonym byte = "8 word"
type_synonym u16 = "16 word"
type_synonym u32 = "32 word"
type_synonym u64 = "64 word"

text \<open>The value of a C \<open>int\<close> expression after conversion to 32 bits.\<close>

definition c_int32 :: "int \<Rightarrow> int" where
  "c_int32 x = signed_take_bit 31 x"

text \<open>C's \<open>/\<close> on signed operands rounds towards zero.\<close>

definition c_div :: "int \<Rightarrow> int \<Rightarrow> int" where
  "c_div a b = sgn a * sgn b * (\<bar>a\<bar> div \<bar>b\<bar>)"

section \<open>Collections of rules\<close>

named_theorems codec_simps \<open>width and append laws of the wire encoders\<close>
named_theorems frame_simps \<open>fields an operation leaves alone\<close>
named_theorems count_simps \<open>element counters and the lists they count\<close>

text \<open>Sizes and counts are compared as natural numbers throughout.\<close>

declare of_nat_unat [simp del]

lemma word_of_nat_unat [simp]: "of_nat (unat w) = (w :: 'a::len word)"
  by (simp add: of_nat_unat)

section \<open>Signed values\<close>

lemma c_int32_id: "- (2 ^ 31) \<le> x \<Longrightarrow> x < 2 ^ 31 \<Longrightarrow> c_int32 x = x"
  unfolding c_int32_def by (rule signed_take_bit_int_eq_self) simp_all

lemma c_int32_range: "- (2 ^ 31) \<le> c_int32 x \<and> c_int32 x < 2 ^ 31"
  unfolding c_int32_def
  using signed_take_bit_int_greater_eq_minus_exp [of 31 x] signed_take_bit_int_less_exp [of 31 x]
  by simp

lemma sint_u32_range: "- (2 ^ 31) \<le> sint (x :: u32) \<and> sint x < 2 ^ 31"
  using sint_greater_eq [of x] sint_less [of x] by simp

lemma sint_u32_eq: "sint (x :: u32) = (if uint x < 2 ^ 31 then uint x else uint x - 2 ^ 32)"
proof -
  have "sint x = (uint x + 2 ^ 31) mod 2 ^ 32 - 2 ^ 31"
    by (simp add: sint_uint signed_take_bit_eq_take_bit_shift take_bit_eq_mod)
  moreover have "0 \<le> uint x" "uint x < 2 ^ 32"
    using uint_lt2p [of x] by simp_all
  ultimately show ?thesis
    using mod_add_if_z [of "uint x" "2 ^ 32" "2 ^ 31"] by (simp split: if_splits)
qed

lemma sint_u32_small: "unat (x :: u32) < 2 ^ 31 \<Longrightarrow> sint x = int (unat x)"
proof -
  assume "unat x < 2 ^ 31"
  then have "int (unat x) < 2 ^ 31" by (metis of_nat_less_numeral_power_cancel_iff)
  then have "uint x < 2 ^ 31" using uint_nat [of x] by (rule ord_eq_less_trans [rotated])
  then show ?thesis using uint_nat [of x] by (simp only: sint_u32_eq if_True)
qed

lemma sint_word_of_int_u32: "sint (word_of_int x :: u32) = c_int32 x"
  by (simp add: c_int32_def sint_sbintrunc')

lemma c_div_nonneg: "0 \<le> a \<Longrightarrow> 0 < b \<Longrightarrow> c_div a b = a div b"
  by (auto simp: c_div_def sgn_if)

section \<open>Unsigned values\<close>

lemma unat_u32_lt: "unat (x :: u32) < 2 ^ 32"
  using unsigned_less [of x] by simp

lemma unat_add_u32: "unat (a :: u32) + unat b < 2 ^ 32 \<Longrightarrow> unat (a + b) = unat a + unat b"
  by (simp add: unat_word_ariths)

lemma unat_Suc_u32: "unat (a :: u32) < 2 ^ 32 - 1 \<Longrightarrow> unat (a + 1) = Suc (unat a)"
  by (simp add: unat_word_ariths)

lemma unat_pred_u32: "(a :: u32) \<noteq> 0 \<Longrightarrow> unat (a - 1) = unat a - 1"
  by (metis One_nat_def diff_Suc_1' unat_minus_one)

lemma u32_pos: "(a :: u32) \<noteq> 0 \<Longrightarrow> 1 \<le> a"
  by (simp add: word_le_nat_alt Suc_le_eq unat_gt_0)

lemma unat_of_nat_u32: "n < 2 ^ 32 \<Longrightarrow> unat (of_nat n :: u32) = n"
  by (simp add: unat_of_nat)

lemma of_nat_Suc_minus_1_u32 [simp]: "of_nat (Suc n) - (1 :: u32) = of_nat n"
  by simp

lemma unat_drop_bit: "unat (drop_bit k (w :: 'a::len word)) = unat w div 2 ^ k"
proof -
  have "take_bit LENGTH('a) (unat w) = unat w"
    by (simp add: take_bit_nat_eq_self_iff)
  then show ?thesis using unsigned_drop_bit_eq [where 'a = nat, of k w]
    by (simp add: drop_bit_eq_div)
qed

lemma unat_low_byte:
  "unat (ucast (drop_bit k (l :: 'a::len word) AND 255) :: byte) = unat l div 2 ^ k mod 256"
proof -
  have "(255 :: 'a word) = mask 8" by (simp add: mask_eq_exp_minus_1)
  then have "drop_bit k l AND 255 = take_bit 8 (drop_bit k l)" by (simp only: take_bit_eq_mask)
  then have "unat (drop_bit k l AND 255) = take_bit 8 (unat l div 2 ^ k)"
    by (simp only: unsigned_take_bit_eq unat_drop_bit)
  then show ?thesis by (simp add: unsigned_ucast_eq take_bit_eq_mod)
qed

section \<open>Lists\<close>

lemma nth_append_single [simp]: "(xs @ [x]) ! length xs = x"
  by simp

lemma take_Suc_nth: "n < length xs \<Longrightarrow> take (Suc n) xs = take n xs @ [xs ! n]"
  by (rule take_Suc_conv_app_nth)

lemma sorted_wrt_append_single:
  "sorted_wrt P (xs @ [x]) \<longleftrightarrow> sorted_wrt P xs \<and> (\<forall>y \<in> set xs. P y x)"
  by (simp add: sorted_wrt_append)

end
