(* ===== verification/Kcp_Codec.thy ===== *)
theory Kcp_Codec
  imports Prelude
begin

text \<open>
  The wire format of the KCP protocol (\<open>jiagoushi/chap5.1/kcp-20201022/ikcp.c\<close>, section
  "encode / decode", and \<open>ikcp_encode_seg\<close>): little-endian fields of 8, 16 and 32 bits and the
  24-byte segment header, with the serial-number comparison \<open>_itimediff\<close>. A write cursor is the
  list of bytes written so far; a read cursor is the list of bytes still to read, and reading past
  its end is \<open>None\<close>. The header format round-trips, and \<open>_itimediff\<close> orders any two sequence
  numbers less than \<open>2 ^ 31\<close> apart, across the wrap at \<open>2 ^ 32\<close>.
\<close>

section \<open>Constants\<close>

definition IKCP_RTO_NDL :: u32 where "IKCP_RTO_NDL = 30"
definition IKCP_RTO_MIN :: u32 where "IKCP_RTO_MIN = 100"
definition IKCP_RTO_DEF :: u32 where "IKCP_RTO_DEF = 200"
definition IKCP_RTO_MAX :: u32 where "IKCP_RTO_MAX = 60000"
definition IKCP_CMD_PUSH :: u32 where "IKCP_CMD_PUSH = 81"
definition IKCP_CMD_ACK :: u32 where "IKCP_CMD_ACK = 82"
definition IKCP_CMD_WASK :: u32 where "IKCP_CMD_WASK = 83"
definition IKCP_CMD_WINS :: u32 where "IKCP_CMD_WINS = 84"
definition IKCP_ASK_SEND :: u32 where "IKCP_ASK_SEND = 1"
definition IKCP_ASK_TELL :: u32 where "IKCP_ASK_TELL = 2"
definition IKCP_WND_SND :: u32 where "IKCP_WND_SND = 32"
definition IKCP_WND_RCV :: u32 where "IKCP_WND_RCV = 128"
definition IKCP_MTU_DEF :: u32 where "IKCP_MTU_DEF = 1400"
definition IKCP_INTERVAL :: u32 where "IKCP_INTERVAL = 100"
definition IKCP_OVERHEAD :: u32 where "IKCP_OVERHEAD = 24"
definition IKCP_DEADLINK :: u32 where "IKCP_DEADLINK = 20"
definition IKCP_THRESH_INIT :: u32 where "IKCP_THRESH_INIT = 2"
definition IKCP_THRESH_MIN :: u32 where "IKCP_THRESH_MIN = 2"
definition IKCP_PROBE_INIT :: u32 where "IKCP_PROBE_INIT = 7000"
definition IKCP_PROBE_LIMIT :: u32 where "IKCP_PROBE_LIMIT = 120000"
definition IKCP_FASTACK_LIMIT :: int where "IKCP_FASTACK_LIMIT = 5"

lemmas ikcp_consts =
  IKCP_RTO_NDL_def IKCP_RTO_MIN_def IKCP_RTO_DEF_def IKCP_RTO_MAX_def
  IKCP_CMD_PUSH_def IKCP_CMD_ACK_def IKCP_CMD_WASK_def IKCP_CMD_WINS_def
  IKCP_ASK_SEND_def IKCP_ASK_TELL_def IKCP_WND_SND_def IKCP_WND_RCV_def
  IKCP_MTU_DEF_def IKCP_INTERVAL_def IKCP_OVERHEAD_def IKCP_DEADLINK_def
  IKCP_THRESH_INIT_def IKCP_THRESH_MIN_def IKCP_PROBE_INIT_def IKCP_PROBE_LIMIT_def
  IKCP_FASTACK_LIMIT_def

section \<open>Integer fields\<close>

definition ikcp_encode8u :: "byte list \<Rightarrow> byte \<Rightarrow> byte list" where
  "ikcp_encode8u p c = p @ [c]"

fun ikcp_decode8u :: "byte list \<Rightarrow> (byte \<times> byte list) option" where
  "ikcp_decode8u (b0 # p) = Some (b0, p)"
| "ikcp_decode8u _ = None"

definition ikcp_encode16u :: "byte list \<Rightarrow> u16 \<Rightarrow> byte list" where
  "ikcp_encode16u p w = p @ [ucast (w AND 255), ucast (drop_bit 8 w)]"

fun ikcp_decode16u :: "byte list \<Rightarrow> (u16 \<times> byte list) option" where
  "ikcp_decode16u (b0 # b1 # p) =
     (let w = ucast b1 :: u16; w = ucast b0 + push_bit 8 w in Some (w, p))"
| "ikcp_decode16u _ = None"

definition ikcp_encode32u :: "byte list \<Rightarrow> u32 \<Rightarrow> byte list" where
  "ikcp_encode32u p l =
     p @ [ucast (drop_bit 0 l AND 255), ucast (drop_bit 8 l AND 255),
          ucast (drop_bit 16 l AND 255), ucast (drop_bit 24 l AND 255)]"

fun ikcp_decode32u :: "byte list \<Rightarrow> (u32 \<times> byte list) option" where
  "ikcp_decode32u (b0 # b1 # b2 # b3 # p) =
     (let l = ucast b3 :: u32;
          l = ucast b2 + push_bit 8 l;
          l = ucast b1 + push_bit 8 l;
          l = ucast b0 + push_bit 8 l
      in Some (l, p))"
| "ikcp_decode32u _ = None"

section \<open>Comparisons\<close>

definition imin :: "u32 \<Rightarrow> u32 \<Rightarrow> u32" where
  "imin a b = (if a \<le> b then a else b)"

definition imax :: "u32 \<Rightarrow> u32 \<Rightarrow> u32" where
  "imax a b = (if a \<ge> b then a else b)"

definition ibound :: "u32 \<Rightarrow> u32 \<Rightarrow> u32 \<Rightarrow> u32" where
  "ibound lower middle upper = imin (imax lower middle) upper"

definition itimediff :: "u32 \<Rightarrow> u32 \<Rightarrow> int" where
  "itimediff later earlier = sint (later - earlier)"

section \<open>Segments\<close>

record ikcpseg =
  seg_conv :: u32
  seg_cmd :: u32
  seg_frg :: u32
  seg_wnd :: u32
  seg_ts :: u32
  seg_sn :: u32
  seg_una :: u32
  seg_len :: u32
  seg_resendts :: u32
  seg_rto :: u32
  seg_fastack :: u32
  seg_xmit :: u32
  seg_data :: "byte list"

definition ikcp_encode_seg :: "byte list \<Rightarrow> ikcpseg \<Rightarrow> byte list" where
  "ikcp_encode_seg ptr seg =
     (let ptr = ikcp_encode32u ptr (seg_conv seg);
          ptr = ikcp_encode8u ptr (ucast (seg_cmd seg));
          ptr = ikcp_encode8u ptr (ucast (seg_frg seg));
          ptr = ikcp_encode16u ptr (ucast (seg_wnd seg));
          ptr = ikcp_encode32u ptr (seg_ts seg);
          ptr = ikcp_encode32u ptr (seg_sn seg);
          ptr = ikcp_encode32u ptr (seg_una seg);
          ptr = ikcp_encode32u ptr (seg_len seg)
      in ptr)"

text \<open>The header as \<open>ikcp_input\<close> reads it: eight fields at their wire widths.\<close>

record ikcphdr =
  h_conv :: u32
  h_cmd :: byte
  h_frg :: byte
  h_wnd :: u16
  h_ts :: u32
  h_sn :: u32
  h_una :: u32
  h_len :: u32

definition ikcp_decode_hdr :: "byte list \<Rightarrow> (ikcphdr \<times> byte list) option" where
  "ikcp_decode_hdr data = do {
     (conv, data) \<leftarrow> ikcp_decode32u data;
     (cmd, data) \<leftarrow> ikcp_decode8u data;
     (frg, data) \<leftarrow> ikcp_decode8u data;
     (wnd, data) \<leftarrow> ikcp_decode16u data;
     (ts, data) \<leftarrow> ikcp_decode32u data;
     (sn, data) \<leftarrow> ikcp_decode32u data;
     (una, data) \<leftarrow> ikcp_decode32u data;
     (len, data) \<leftarrow> ikcp_decode32u data;
     Some (\<lparr>h_conv = conv, h_cmd = cmd, h_frg = frg, h_wnd = wnd, h_ts = ts, h_sn = sn,
            h_una = una, h_len = len\<rparr>, data)
   }"

text \<open>What of a segment's fields survives on the wire.\<close>

definition hdr_of_seg :: "ikcpseg \<Rightarrow> ikcphdr" where
  "hdr_of_seg s = \<lparr>h_conv = seg_conv s, h_cmd = ucast (seg_cmd s), h_frg = ucast (seg_frg s),
     h_wnd = ucast (seg_wnd s), h_ts = seg_ts s, h_sn = seg_sn s, h_una = seg_una s,
     h_len = seg_len s\<rparr>"

definition ikcp_getconv :: "byte list \<Rightarrow> u32 option" where
  "ikcp_getconv ptr = map_option fst (ikcp_decode32u ptr)"

section \<open>The contract of a field codec\<close>

locale field_codec =
  fixes enc :: "byte list \<Rightarrow> 'a \<Rightarrow> byte list"
    and dec :: "byte list \<Rightarrow> ('a \<times> byte list) option"
    and width :: nat
  assumes enc_at: "enc p x = p @ enc [] x"
    and enc_width: "length (enc [] x) = width"
    and dec_enc: "dec (enc [] x @ r) = Some (x, r)"
    and dec_short: "length p < width \<Longrightarrow> dec p = None"
    and dec_consumes: "dec p = Some (x, r) \<Longrightarrow> length p = width + length r"
    and dec_total: "width \<le> length p \<Longrightarrow> dec p \<noteq> None"
begin

lemma length_enc: "length (enc p x) = length p + width"
  by (subst enc_at) (simp add: enc_width)

lemma dec_written: "dec (drop (length p) (enc p x @ r)) = Some (x, r)"
  by (subst enc_at) (simp add: dec_enc)

lemma dec_defined: "dec p \<noteq> None \<longleftrightarrow> width \<le> length p"
  using dec_short dec_total by (metis not_le)

lemma decE:
  assumes "width + n \<le> length p"
  obtains x r where "dec p = Some (x, r)" "n \<le> length r"
proof -
  from assms obtain x r where "dec p = Some (x, r)"
    using dec_total [of p] by fastforce
  moreover from this assms have "n \<le> length r" using dec_consumes by fastforce
  ultimately show thesis by (rule that)
qed

lemma enc_inj: "enc p x = enc p y \<Longrightarrow> x = y"
proof -
  assume "enc p x = enc p y"
  then have "enc [] x @ [] = enc [] y @ []"
    using enc_at [of p x] enc_at [of p y] by simp
  then have "dec (enc [] x @ []) = dec (enc [] y @ [])" by simp
  then show "x = y" by (simp only: dec_enc) simp
qed

end

section \<open>The three codecs meet it\<close>

lemma decode16u_encode16u: "ikcp_decode16u (ikcp_encode16u [] w @ r) = Some (w, r)"
proof -
  let ?b0 = "ucast (drop_bit 0 w AND 255) :: byte" and ?b1 = "ucast (drop_bit 8 w) :: byte"
  have w: "unat w < 65536" using unsigned_less [of w] by simp
  have b0: "unat ?b0 = unat w mod 256" using unat_low_byte [of 0 w] by simp
  have b1: "unat ?b1 = unat w div 256"
    using w by (simp add: unsigned_ucast_eq unat_drop_bit take_bit_eq_mod less_mult_imp_div_less)
  have "unat (ucast ?b0 + push_bit 8 (ucast ?b1) :: u16) = (unat ?b0 + 256 * unat ?b1) mod 65536"
    by (simp add: push_bit_eq_mult unat_word_ariths unsigned_ucast_eq take_bit_eq_mod mod_simps)
  also have "\<dots> = unat w" using w b0 b1 by simp
  finally have "ucast ?b0 + push_bit 8 (ucast ?b1) = w" by (rule unsigned_word_eqI)
  then show ?thesis by (simp add: ikcp_encode16u_def)
qed

lemma decode32u_encode32u: "ikcp_decode32u (ikcp_encode32u [] l @ r) = Some (l, r)"
proof -
  let ?b = "\<lambda>k. ucast (drop_bit k l AND 255) :: byte"
  have l: "unat l < 4294967296" using unat_u32_lt [of l] by simp
  have b: "unat (?b 0) = unat l mod 256" "unat (?b 8) = unat l div 256 mod 256"
    "unat (?b 16) = unat l div 65536 mod 256" "unat (?b 24) = unat l div 16777216 mod 256"
    using unat_low_byte [of 0 l] unat_low_byte [of 8 l] unat_low_byte [of 16 l]
      unat_low_byte [of 24 l] by simp_all
  have step: "unat (ucast (x :: byte) + push_bit 8 y :: u32) = (unat x + 256 * unat y) mod 4294967296"
    for x y
    by (simp add: push_bit_eq_mult unat_word_ariths unsigned_ucast_eq take_bit_eq_mod mod_simps
        mult.commute)
  have up: "unat (ucast x :: u32) = unat x" for x :: byte
  proof -
    have "unat x < 256" using unsigned_less [of x] by simp
    then show ?thesis by (simp add: unsigned_ucast_eq take_bit_eq_mod)
  qed
  have u3: "unat (ucast (?b 24) :: u32) = unat l div 16777216"
    using l b(4) up [of "?b 24"] by (simp add: less_mult_imp_div_less)
  let ?l2 = "ucast (?b 16) + push_bit 8 (ucast (?b 24)) :: u32"
  let ?l1 = "ucast (?b 8) + push_bit 8 ?l2 :: u32"
  let ?l0 = "ucast (?b 0) + push_bit 8 ?l1 :: u32"
  have join: "(a mod 256 + 256 * (a div 256)) mod 4294967296 = a" if "a < 4294967296" for a :: nat
    using that by simp
  have d: "unat l div 16777216 = unat l div 65536 div 256" "unat l div 65536 = unat l div 256 div 256"
    by (simp_all flip: div_mult2_eq)
  have le: "unat l div 65536 < 4294967296" "unat l div 256 < 4294967296"
    using l div_le_dividend [of "unat l" 65536] div_le_dividend [of "unat l" 256] by linarith+
  have "unat ?l2 = unat l div 65536" unfolding step u3 b d(1) by (rule join [OF le(1)])
  then have "unat ?l1 = unat l div 256"
    unfolding step [of "?b 8"] b by (simp only: d(2) join [OF le(2)])
  then have "unat ?l0 = unat l" unfolding step [of "?b 0"] b by (simp only: join [OF l])
  then have "?l0 = l" by (rule unsigned_word_eqI)
  then show ?thesis by (simp add: ikcp_encode32u_def)
qed

lemma decode8u_Some: "ikcp_decode8u p = Some (x, r) \<Longrightarrow> length p = 1 + length r"
  by (cases p rule: ikcp_decode8u.cases) auto

lemma decode16u_Some: "ikcp_decode16u p = Some (x, r) \<Longrightarrow> length p = 2 + length r"
  by (cases p rule: ikcp_decode16u.cases) (auto simp: Let_def)

lemma decode32u_Some: "ikcp_decode32u p = Some (x, r) \<Longrightarrow> length p = 4 + length r"
  by (cases p rule: ikcp_decode32u.cases) (auto simp: Let_def)

lemma decode8u_None: "ikcp_decode8u p = None \<longleftrightarrow> length p < 1"
  by (cases p rule: ikcp_decode8u.cases) auto

lemma decode16u_None: "ikcp_decode16u p = None \<longleftrightarrow> length p < 2"
  by (cases p rule: ikcp_decode16u.cases) (auto simp: Let_def)

lemma decode32u_None: "ikcp_decode32u p = None \<longleftrightarrow> length p < 4"
  by (cases p rule: ikcp_decode32u.cases) (auto simp: Let_def)

interpretation c8: field_codec ikcp_encode8u ikcp_decode8u 1
  by unfold_locales
    (auto simp: ikcp_encode8u_def decode8u_None decode8u_Some)

interpretation c16: field_codec ikcp_encode16u ikcp_decode16u 2
proof unfold_locales
  fix p x show "ikcp_encode16u p x = p @ ikcp_encode16u [] x" by (simp add: ikcp_encode16u_def)
  show "length (ikcp_encode16u [] x) = 2" for x by (simp add: ikcp_encode16u_def)
qed (simp_all add: decode16u_None decode16u_Some decode16u_encode16u)

interpretation c32: field_codec ikcp_encode32u ikcp_decode32u 4
proof unfold_locales
  fix p x show "ikcp_encode32u p x = p @ ikcp_encode32u [] x" by (simp add: ikcp_encode32u_def)
  show "length (ikcp_encode32u [] x) = 4" for x by (simp add: ikcp_encode32u_def)
qed (simp_all add: decode32u_None decode32u_Some decode32u_encode32u)

lemmas field_lengths [codec_simps] = c8.length_enc c16.length_enc c32.length_enc
lemmas field_decodes [codec_simps] = c8.dec_enc c16.dec_enc c32.dec_enc

section \<open>The segment header\<close>

lemma length_encode_seg [simp]: "length (ikcp_encode_seg p s) = length p + 24"
  by (simp add: ikcp_encode_seg_def Let_def codec_simps)

text \<open>The header as the concatenation of its fields, each written at the empty cursor.\<close>

lemma encode_seg_fields:
  "ikcp_encode_seg p s = p @ ikcp_encode32u [] (seg_conv s) @ ikcp_encode8u [] (ucast (seg_cmd s))
     @ ikcp_encode8u [] (ucast (seg_frg s)) @ ikcp_encode16u [] (ucast (seg_wnd s))
     @ ikcp_encode32u [] (seg_ts s) @ ikcp_encode32u [] (seg_sn s) @ ikcp_encode32u [] (seg_una s)
     @ ikcp_encode32u [] (seg_len s)"
  by (simp add: ikcp_encode_seg_def Let_def ikcp_encode8u_def ikcp_encode16u_def ikcp_encode32u_def)

lemma encode_seg_at: "ikcp_encode_seg p s = p @ ikcp_encode_seg [] s"
  by (simp add: encode_seg_fields [of p] encode_seg_fields [of "[]"])

lemma decode_hdr_encode_seg:
  "ikcp_decode_hdr (ikcp_encode_seg [] s @ r) = Some (hdr_of_seg s, r)"
  by (simp add: encode_seg_fields ikcp_decode_hdr_def hdr_of_seg_def codec_simps)

lemma decode_hdr_None: "ikcp_decode_hdr p = None \<longleftrightarrow> length p < 24"
proof -
  have "ikcp_decode_hdr p \<noteq> None" if len: "24 \<le> length p"
  proof -
    obtain conv p1 where 1: "ikcp_decode32u p = Some (conv, p1)" "20 \<le> length p1"
      by (rule c32.decE [of 20 p]) (use len in auto)
    obtain cmd p2 where 2: "ikcp_decode8u p1 = Some (cmd, p2)" "19 \<le> length p2"
      by (rule c8.decE [of 19 p1]) (use 1 in auto)
    obtain frg p3 where 3: "ikcp_decode8u p2 = Some (frg, p3)" "18 \<le> length p3"
      by (rule c8.decE [of 18 p2]) (use 2 in auto)
    obtain wnd p4 where 4: "ikcp_decode16u p3 = Some (wnd, p4)" "16 \<le> length p4"
      by (rule c16.decE [of 16 p3]) (use 3 in auto)
    obtain ts p5 where 5: "ikcp_decode32u p4 = Some (ts, p5)" "12 \<le> length p5"
      by (rule c32.decE [of 12 p4]) (use 4 in auto)
    obtain sn p6 where 6: "ikcp_decode32u p5 = Some (sn, p6)" "8 \<le> length p6"
      by (rule c32.decE [of 8 p5]) (use 5 in auto)
    obtain una p7 where 7: "ikcp_decode32u p6 = Some (una, p7)" "4 \<le> length p7"
      by (rule c32.decE [of 4 p6]) (use 6 in auto)
    obtain len p8 where 8: "ikcp_decode32u p7 = Some (len, p8)"
      by (rule c32.decE [of 0 p7]) (use 7 in auto)
    show ?thesis by (simp add: ikcp_decode_hdr_def 1 2 3 4 5 6 7 8)
  qed
  moreover have "24 \<le> length p" if "ikcp_decode_hdr p = Some (h, r)" for h r
    using that
    by (auto simp: ikcp_decode_hdr_def bind_eq_Some_conv split: prod.splits
        dest!: decode8u_Some decode16u_Some decode32u_Some)
  ultimately show ?thesis by (cases "ikcp_decode_hdr p") (force simp: not_less)+
qed

lemma decode_hdr_Some: "ikcp_decode_hdr p = Some (h, r) \<Longrightarrow> length p = 24 + length r"
  by (auto simp: ikcp_decode_hdr_def bind_eq_Some_conv
      dest!: decode8u_Some decode16u_Some decode32u_Some)

section \<open>Serial-number arithmetic\<close>

lemma itimediff_refl [simp]: "itimediff a a = 0"
  by (simp add: itimediff_def)

text \<open>On two absolute positions less than \<open>2 ^ 31\<close> apart the difference of the 32-bit images is the
  difference of the positions, whatever multiple of \<open>2 ^ 32\<close> lies between them.\<close>

lemma itimediff_of_int:
  assumes "- (2 ^ 31) \<le> m - n" and "m - n < 2 ^ 31"
  shows "itimediff (word_of_int m) (word_of_int n) = m - n"
proof -
  have "itimediff (word_of_int m) (word_of_int n) = c_int32 (m - n)"
    by (simp only: itimediff_def flip: wi_hom_sub sint_word_of_int_u32)
  then show ?thesis using assms by (simp add: c_int32_id)
qed

lemma itimediff_of_nat:
  assumes "m < n + 2 ^ 31" and "n \<le> m + 2 ^ 31"
  shows "itimediff (of_nat m) (of_nat n) = int m - int n"
  using itimediff_of_int [of "int m" "int n"] assms by simp

lemma itimediff_range: "- (2 ^ 31) \<le> itimediff a b \<and> itimediff a b < 2 ^ 31"
  by (simp add: itimediff_def sint_u32_range [simplified])

lemma itimediff_eq_0: "itimediff a b = 0 \<longleftrightarrow> a = b"
proof
  assume "itimediff a b = 0"
  then have "sint (a - b) = sint (0 :: u32)" by (simp add: itimediff_def)
  then have "a - b = 0" by (rule signed_word_eqI)
  then show "a = b" by simp
qed simp

lemma itimediff_unat:
  assumes "unat a < 2 ^ 31" and "unat b < 2 ^ 31"
  shows "itimediff a b = int (unat a) - int (unat b)"
  using itimediff_of_nat [of "unat a" "unat b"] assms by simp

end
