(* ===== verification/Kcp_Control.thy ===== *)
theory Kcp_Control
  imports Kcp_Codec
begin

text \<open>
  The KCP control block (\<open>struct IKCPCB\<close> of \<open>ikcp.h\<close>), its creation and release and the calls that
  configure it (\<open>ikcp_create\<close>, \<open>ikcp_release\<close>, \<open>ikcp_setoutput\<close>, \<open>ikcp_setmtu\<close>,
  \<open>ikcp_interval\<close>, \<open>ikcp_nodelay\<close>, \<open>ikcp_wndsize\<close>, \<open>ikcp_waitsnd\<close>).

  The four intrusive queues are lists of segments, head first. The signed fields \<open>rx_rttval\<close>,
  \<open>rx_srtt\<close>, \<open>rx_rto\<close> and \<open>rx_minrto\<close> keep their 32 bits and are read with \<open>sint\<close>. The scratch
  buffer is represented by its size in bytes, so that a write past its end can be told apart.
  Whether the output callback is installed is the field \<open>output_cb\<close>. The callback's user pointer and
  the log callback, which no operation reads to compute anything, are left out.

  The allocator behind \<open>ikcp_malloc\<close> is a parameter: a predicate that says which requests succeed.
\<close>

section \<open>State\<close>

datatype alloc_req = Req_kcb | Req_buffer nat | Req_segment nat | Req_acklist nat

type_synonym allocator = "alloc_req \<Rightarrow> bool"

record ikcpcb =
  conv :: u32
  mtu :: u32
  mss :: u32
  state :: u32
  snd_una :: u32
  snd_nxt :: u32
  rcv_nxt :: u32
  ts_recent :: u32
  ts_lastack :: u32
  ssthresh :: u32
  rx_rttval :: u32
  rx_srtt :: u32
  rx_rto :: u32
  rx_minrto :: u32
  snd_wnd :: u32
  rcv_wnd :: u32
  rmt_wnd :: u32
  cwnd :: u32
  probe :: u32
  current :: u32
  interval :: u32
  ts_flush :: u32
  xmit :: u32
  nrcv_buf :: u32
  nsnd_buf :: u32
  nrcv_que :: u32
  nsnd_que :: u32
  nodelay :: u32
  updated :: u32
  ts_probe :: u32
  probe_wait :: u32
  dead_link :: u32
  incr :: u32
  snd_queue :: "ikcpseg list"
  rcv_queue :: "ikcpseg list"
  snd_buf :: "ikcpseg list"
  rcv_buf :: "ikcpseg list"
  acklist :: "u32 list"
  ackcount :: u32
  ackblock :: u32
  buffer :: nat
  fastresend :: int
  fastlimit :: int
  nocwnd :: int
  stream_mode :: int
  output_cb :: bool

section \<open>Creation and release\<close>

definition ikcp_create :: "allocator \<Rightarrow> u32 \<Rightarrow> ikcpcb option" where
  "ikcp_create al cv =
     (if \<not> al Req_kcb then None
      else if \<not> al (Req_buffer (unat ((IKCP_MTU_DEF + IKCP_OVERHEAD) * 3))) then None
      else Some \<lparr>
        conv = cv, mtu = IKCP_MTU_DEF, mss = IKCP_MTU_DEF - IKCP_OVERHEAD, state = 0,
        snd_una = 0, snd_nxt = 0, rcv_nxt = 0, ts_recent = 0, ts_lastack = 0,
        ssthresh = IKCP_THRESH_INIT, rx_rttval = 0, rx_srtt = 0, rx_rto = IKCP_RTO_DEF,
        rx_minrto = IKCP_RTO_MIN, snd_wnd = IKCP_WND_SND, rcv_wnd = IKCP_WND_RCV,
        rmt_wnd = IKCP_WND_RCV, cwnd = 0, probe = 0, current = 0, interval = IKCP_INTERVAL,
        ts_flush = IKCP_INTERVAL, xmit = 0, nrcv_buf = 0, nsnd_buf = 0, nrcv_que = 0,
        nsnd_que = 0, nodelay = 0, updated = 0, ts_probe = 0, probe_wait = 0,
        dead_link = IKCP_DEADLINK, incr = 0, snd_queue = [], rcv_queue = [], snd_buf = [],
        rcv_buf = [], acklist = [], ackcount = 0, ackblock = 0,
        buffer = unat ((IKCP_MTU_DEF + IKCP_OVERHEAD) * 3), fastresend = 0,
        fastlimit = IKCP_FASTACK_LIMIT, nocwnd = 0, stream_mode = 0, output_cb = False\<rparr>)"

text \<open>The blocks \<open>ikcp_release\<close> hands back to \<open>ikcp_free\<close>, in order.\<close>

datatype kcp_block = Seg_block ikcpseg | Buffer_block | Acklist_block | Kcb_block

fun release_queue :: "ikcpseg list \<Rightarrow> kcp_block list" where
  "release_queue [] = []"
| "release_queue (seg # q) = Seg_block seg # release_queue q"

definition ikcp_release :: "ikcpcb \<Rightarrow> kcp_block list" where
  "ikcp_release k =
     release_queue (snd_buf k) @ release_queue (rcv_buf k) @
     release_queue (snd_queue k) @ release_queue (rcv_queue k) @
     (if buffer k \<noteq> 0 then [Buffer_block] else []) @
     (if acklist k \<noteq> [] then [Acklist_block] else []) @
     [Kcb_block]"

definition ikcp_setoutput :: "ikcpcb \<Rightarrow> bool \<Rightarrow> ikcpcb" where
  "ikcp_setoutput k cb = k\<lparr>output_cb := cb\<rparr>"

section \<open>Configuration\<close>

text \<open>The new buffer's size is an unsigned 32-bit product, which wraps for a large \<open>mtu\<close>.\<close>

definition ikcp_setmtu :: "allocator \<Rightarrow> ikcpcb \<Rightarrow> int \<Rightarrow> int \<times> ikcpcb" where
  "ikcp_setmtu al k m =
     (if m < 50 \<or> m < sint IKCP_OVERHEAD then (-1, k)
      else let size = unat ((word_of_int m + IKCP_OVERHEAD) * 3 :: u32) in
        if \<not> al (Req_buffer size) then (-2, k)
        else (0, k\<lparr>mtu := word_of_int m, mss := word_of_int m - IKCP_OVERHEAD, buffer := size\<rparr>))"

definition clamp_interval :: "int \<Rightarrow> int" where
  "clamp_interval i = (if i > 5000 then 5000 else if i < 10 then 10 else i)"

definition ikcp_interval :: "ikcpcb \<Rightarrow> int \<Rightarrow> int \<times> ikcpcb" where
  "ikcp_interval k i = (0, k\<lparr>interval := word_of_int (clamp_interval i)\<rparr>)"

definition ikcp_nodelay :: "ikcpcb \<Rightarrow> int \<Rightarrow> int \<Rightarrow> int \<Rightarrow> int \<Rightarrow> int \<times> ikcpcb" where
  "ikcp_nodelay k nd iv rs nc =
     (let k = (if nd \<ge> 0 then k\<lparr>nodelay := word_of_int nd,
                 rx_minrto := (if nd \<noteq> 0 then IKCP_RTO_NDL else IKCP_RTO_MIN)\<rparr> else k);
          k = (if iv \<ge> 0 then k\<lparr>interval := word_of_int (clamp_interval iv)\<rparr> else k);
          k = (if rs \<ge> 0 then k\<lparr>fastresend := rs\<rparr> else k);
          k = (if nc \<ge> 0 then k\<lparr>nocwnd := nc\<rparr> else k)
      in (0, k))"

definition ikcp_wndsize :: "ikcpcb \<Rightarrow> int \<Rightarrow> int \<Rightarrow> int \<times> ikcpcb" where
  "ikcp_wndsize k sndwnd rcvwnd =
     (let k = (if sndwnd > 0 then k\<lparr>snd_wnd := word_of_int sndwnd\<rparr> else k);
          k = (if rcvwnd > 0 then k\<lparr>rcv_wnd := imax (word_of_int rcvwnd) IKCP_WND_RCV\<rparr> else k)
      in (0, k))"

definition ikcp_waitsnd :: "ikcpcb \<Rightarrow> int" where
  "ikcp_waitsnd k = sint (nsnd_buf k + nsnd_que k)"

definition ikcp_wnd_unused :: "ikcpcb \<Rightarrow> u32" where
  "ikcp_wnd_unused k = (if nrcv_que k < rcv_wnd k then rcv_wnd k - nrcv_que k else 0)"

section \<open>Release frees each block once\<close>

lemma release_queue_map: "release_queue q = map Seg_block q"
  by (induction q) simp_all

text \<open>The clamped interval lies between 10 ms and 5 s, whatever the caller asked for.\<close>

lemma clamp_interval_range: "10 \<le> clamp_interval i \<and> clamp_interval i \<le> 5000"
  by (simp add: clamp_interval_def)

lemma unat_clamp_interval:
  "10 \<le> unat (word_of_int (clamp_interval i) :: u32) \<and>
   unat (word_of_int (clamp_interval i) :: u32) \<le> 5000"
proof -
  have "uint (word_of_int (clamp_interval i) :: u32) = clamp_interval i"
    using clamp_interval_range [of i] by (simp add: uint_word_of_int_eq take_bit_int_eq_self)
  then show ?thesis
    using clamp_interval_range [of i] by (simp add: unat_eq_nat_uint nat_le_iff le_nat_iff)
qed

end
