(* ===== verification/Kcp_Send.thy ===== *)
theory Kcp_Send
  imports Kcp_Control
begin

text \<open>
  \<open>ikcp_send\<close>: a message is cut into segments of at most \<open>mss\<close> bytes, numbered down to zero, and
  appended to \<open>snd_queue\<close>; in stream mode the last queued segment is topped up first. A fresh
  segment's fields that \<open>ikcp_send\<close> does not write are zero here; \<open>ikcp_flush\<close> writes each of them
  before anything reads it. A failed allocation trips the \<open>assert\<close> that follows it.
\<close>

section \<open>Operations\<close>

definition ikcp_segment_new :: "byte list \<Rightarrow> u32 \<Rightarrow> u32 \<Rightarrow> ikcpseg" where
  "ikcp_segment_new d n f = \<lparr>seg_conv = 0, seg_cmd = 0, seg_frg = f, seg_wnd = 0, seg_ts = 0,
     seg_sn = 0, seg_una = 0, seg_len = n, seg_resendts = 0, seg_rto = 0, seg_fastack = 0,
     seg_xmit = 0, seg_data = d\<rparr>"

text \<open>Stream mode: fill up the segment at the tail of \<open>snd_queue\<close>.\<close>

definition send_stream ::
    "allocator \<Rightarrow> ikcpcb \<Rightarrow> byte list \<Rightarrow> int \<Rightarrow> (ikcpcb \<times> byte list \<times> int) option" where
  "send_stream al k buf len =
     (if snd_queue k = [] then Some (k, buf, len)
      else let old = last (snd_queue k) in
        if seg_len old < mss k then
          let capacity = sint (mss k - seg_len old);
              extend = (if len < capacity then len else capacity)
          in if \<not> al (Req_segment (unat (seg_len old + word_of_int extend))) then None
             else let seg = ikcp_segment_new
                          (take (unat (seg_len old)) (seg_data old) @ take (nat extend) buf)
                          (seg_len old + word_of_int extend) 0
                  in Some (k\<lparr>snd_queue := butlast (snd_queue k) @ [seg]\<rparr>,
                           drop (nat extend) buf, len - extend)
        else Some (k, buf, len))"

text \<open>The fragment loop, by the number \<open>count - i\<close> of fragments still to make.\<close>

fun send_frags :: "allocator \<Rightarrow> nat \<Rightarrow> ikcpcb \<Rightarrow> byte list \<Rightarrow> int \<Rightarrow> ikcpcb option" where
  "send_frags al 0 k buf len = Some k"
| "send_frags al (Suc n) k buf len =
     (let size = (if len > sint (mss k) then sint (mss k) else len) in
      if \<not> al (Req_segment (nat size)) then None
      else let seg = ikcp_segment_new (if len > 0 then take (nat size) buf else [])
                       (word_of_int size) (if stream_mode k = 0 then of_nat n else 0)
           in send_frags al n (k\<lparr>snd_queue := snd_queue k @ [seg], nsnd_que := nsnd_que k + 1\<rparr>)
                (drop (nat size) buf) (len - size))"

definition send_count :: "ikcpcb \<Rightarrow> int \<Rightarrow> int" where
  "send_count k len =
     (if len \<le> sint (mss k) then 1 else sint ((word_of_int len + mss k - 1) div mss k))"

definition ikcp_send :: "allocator \<Rightarrow> ikcpcb \<Rightarrow> byte list \<Rightarrow> int \<Rightarrow> (int \<times> ikcpcb) option" where
  "ikcp_send al k buf len =
     (if \<not> mss k > 0 then None
      else if len < 0 then Some (-1, k)
      else do {
        (k, buf, len) \<leftarrow>
          (if stream_mode k \<noteq> 0 then send_stream al k buf len else Some (k, buf, len));
        if stream_mode k \<noteq> 0 \<and> len \<le> 0 then Some (0, k)
        else
          let count = send_count k len in
          if count \<ge> sint IKCP_WND_RCV then Some (-2, k)
          else do {
            k' \<leftarrow> send_frags al (nat (if count = 0 then 1 else count)) k buf len;
            Some (0, k')
          }
      })"

section \<open>Reference: cutting a message\<close>

text \<open>\<open>n\<close> pieces of at most \<open>m\<close> bytes, taken from the front.\<close>

fun pieces :: "nat \<Rightarrow> nat \<Rightarrow> byte list \<Rightarrow> byte list list" where
  "pieces m 0 bs = []"
| "pieces m (Suc n) bs = take m bs # pieces m n (drop m bs)"

text \<open>The fragments \<open>ikcp_send\<close> makes of them: numbered down to zero in message mode, all zero in
  stream mode.\<close>

definition msg_frags :: "int \<Rightarrow> nat \<Rightarrow> nat \<Rightarrow> byte list \<Rightarrow> ikcpseg list" where
  "msg_frags st m n bs =
     map (\<lambda>(i, d). ikcp_segment_new d (of_nat (length d)) (if st = 0 then of_nat i else 0))
       (zip (rev [0..<n]) (pieces m n bs))"

text \<open>How many pieces a message of \<open>l\<close> bytes needs: at least one, the last one possibly short.\<close>

definition piece_count :: "nat \<Rightarrow> nat \<Rightarrow> nat" where
  "piece_count m l = (if l \<le> m then 1 else (l + m - 1) div m)"

section \<open>Fragmentation is cutting\<close>

lemma length_pieces [simp]: "length (pieces m n bs) = n"
  by (induction m n bs rule: pieces.induct) simp_all

lemma concat_pieces: "length bs \<le> n * m \<Longrightarrow> concat (pieces m n bs) = bs"
  by (induction m n bs rule: pieces.induct) simp_all

lemma pieces_le: "d \<in> set (pieces m n bs) \<Longrightarrow> length d \<le> m"
  by (induction m n bs rule: pieces.induct) auto

lemma length_msg_frags [simp]: "length (msg_frags st m n bs) = n"
  by (simp add: msg_frags_def)

lemma msg_frags_Suc:
  "msg_frags st m (Suc n) bs =
     ikcp_segment_new (take m bs) (of_nat (min (length bs) m)) (if st = 0 then of_nat n else 0)
     # msg_frags st m n (drop m bs)"
  by (simp add: msg_frags_def min.commute)

lemma msg_frags_0 [simp]: "msg_frags st m 0 bs = []"
  by (simp add: msg_frags_def)

lemma map_data_msg_frags: "map seg_data (msg_frags st m n bs) = pieces m n bs"
  by (induction m n bs rule: pieces.induct) (simp_all add: msg_frags_Suc ikcp_segment_new_def)

lemma map_frg_msg_frags: "map seg_frg (msg_frags 0 m n bs) = map of_nat (rev [0..<n])"
  by (induction m n bs rule: pieces.induct) (simp_all add: msg_frags_Suc ikcp_segment_new_def)

lemma msg_frags_len:
  "s \<in> set (msg_frags st m n bs) \<Longrightarrow> seg_len s = of_nat (length (seg_data s)) \<and> length (seg_data s) \<le> m"
  by (induction m n bs rule: pieces.induct) (auto simp: msg_frags_Suc ikcp_segment_new_def min.commute)

lemma piece_count_enough: "0 < m \<Longrightarrow> l \<le> piece_count m l * m"
proof (cases "l \<le> m")
  case False
  assume "0 < m"
  have "l + m - 1 < ((l + m - 1) div m + 1) * m"
    using \<open>0 < m\<close> dividend_less_div_times [of m "l + m - 1"] by (simp add: algebra_simps)
  then show ?thesis using False by (simp add: piece_count_def algebra_simps)
qed (simp add: piece_count_def)

text \<open>The fragment loop appends exactly the reference cutting.\<close>

lemma send_frags_ref:
  assumes "send_frags al n k buf len = Some k'" and "unat (mss k) < 2 ^ 31"
    and "len = int (length buf)"
  shows "k' = k\<lparr>snd_queue := snd_queue k @ msg_frags (stream_mode k) (unat (mss k)) n buf,
               nsnd_que := nsnd_que k + of_nat n\<rparr>"
  using assms
proof (induction n arbitrary: k buf len)
  case 0
  then show ?case by simp
next
  case (Suc n)
  let ?m = "unat (mss k)" and ?frg = "if stream_mode k = 0 then of_nat n else 0 :: u32"
  have m: "sint (mss k) = int ?m" using Suc.prems(2) by (rule sint_u32_small)
  let ?size = "if len > sint (mss k) then sint (mss k) else len"
  have size: "?size = int (min (length buf) ?m)" using Suc.prems(3) m by (simp add: min_def)
  have sizew: "word_of_int ?size = (of_nat (min (length buf) ?m) :: u32)"
    unfolding size by simp
  have data: "(if len > 0 then take (nat ?size) buf else []) = take ?m buf"
    using Suc.prems(3) unfolding size by (auto simp: min_def)
  have rest: "drop (nat ?size) buf = drop ?m buf" unfolding size by (simp add: min_def)
  have left: "len - ?size = int (length (drop ?m buf))"
    using Suc.prems(3) unfolding size by auto
  let ?k = "k\<lparr>snd_queue := snd_queue k @ [ikcp_segment_new (take ?m buf)
              (of_nat (min (length buf) ?m)) ?frg], nsnd_que := nsnd_que k + 1\<rparr>"
  have "send_frags al n ?k (drop ?m buf) (len - ?size) = Some k'"
    using Suc.prems(1) by (simp only: send_frags.simps Let_def data sizew rest) (simp split: if_splits)
  then have "k' = ?k\<lparr>snd_queue := snd_queue ?k @ msg_frags (stream_mode ?k) (unat (mss ?k)) n (drop ?m buf),
               nsnd_que := nsnd_que ?k + of_nat n\<rparr>"
    by (rule Suc.IH) (use Suc.prems(2) left in simp_all)
  then show ?case by (simp add: msg_frags_Suc algebra_simps)
qed

lemma send_frags_total: "(\<And>r. al r) \<Longrightarrow> \<exists>k'. send_frags al n k buf len = Some k'"
  by (induction n arbitrary: k buf len) (simp_all add: Let_def)

text \<open>The number of fragments, computed by the code in 32-bit unsigned arithmetic.\<close>

lemma send_count_ref:
  assumes "0 < unat (mss k)" and "unat (mss k) < 2 ^ 31" and "l < 2 ^ 31"
  shows "send_count k (int l) = int (piece_count (unat (mss k)) l)"
proof -
  let ?m = "unat (mss k)"
  have m: "sint (mss k) = int ?m" using assms(2) by (rule sint_u32_small)
  show ?thesis
  proof (cases "l \<le> ?m")
    case True
    then show ?thesis using m by (simp add: send_count_def piece_count_def)
  next
    case False
    have "of_nat l + mss k - 1 = (of_nat (l + ?m - 1) :: u32)"
      using assms(1) by (simp add: of_nat_diff)
    then have "unat (of_nat l + mss k - 1 :: u32) = l + ?m - 1"
      using assms(2,3) by (simp add: unat_of_nat_u32)
    then have q: "unat ((of_nat l + mss k - 1) div mss k) = (l + ?m - 1) div ?m"
      by (simp add: unat_div_distrib)
    have "(l + ?m - 1) div ?m \<le> l"
    proof -
      have "l + ?m - 1 < (l + 1) * ?m"
      proof -
        have "l \<le> l * ?m" using assms(1) by simp
        then have "l + ?m \<le> (l + 1) * ?m" by (simp add: algebra_simps)
        then show ?thesis using assms(1) by linarith
      qed
      then have "(l + ?m - 1) div ?m < l + 1" using assms(1) by (simp add: div_less_iff_less_mult)
      then show ?thesis by simp
    qed
    then have "sint ((of_nat l + mss k - 1) div mss k) = int ((l + ?m - 1) div ?m)"
      using q assms(3) sint_u32_small [of "(of_nat l + mss k - 1) div mss k"] by simp
    then show ?thesis using False m by (simp add: send_count_def piece_count_def)
  qed
qed

lemma piece_count_pos: "0 < m \<Longrightarrow> 0 < piece_count m l"
  by (auto simp: piece_count_def div_greater_zero_iff)

text \<open>The outcomes of \<open>ikcp_send\<close> in message mode: too many fragments, or the cutting queued.\<close>

lemma send_message:
  assumes "ikcp_send al k buf (int (length buf)) = Some (r, k')" and "stream_mode k = 0"
    and "0 < unat (mss k)" and "unat (mss k) < 2 ^ 31" and "length buf < 2 ^ 31"
  shows "(r = -2 \<and> k' = k \<and> 128 \<le> piece_count (unat (mss k)) (length buf)) \<or>
    (r = 0 \<and> piece_count (unat (mss k)) (length buf) < 128 \<and>
     k' = k\<lparr>snd_queue := snd_queue k @
              msg_frags 0 (unat (mss k)) (piece_count (unat (mss k)) (length buf)) buf,
            nsnd_que := nsnd_que k + of_nat (piece_count (unat (mss k)) (length buf))\<rparr>)"
proof -
  let ?n = "piece_count (unat (mss k)) (length buf)"
  have c: "send_count k (int (length buf)) = int ?n" using assms(3-5) by (rule send_count_ref)
  have pos: "0 < ?n" using assms(3) by (rule piece_count_pos)
  have w: "sint IKCP_WND_RCV = 128" by (simp add: IKCP_WND_RCV_def)
  show ?thesis
  proof (cases "?n < 128")
    case False
    then show ?thesis using assms(1,2,3) c w
      by (auto simp: ikcp_send_def word_less_nat_alt split: if_splits)
  next
    case True
    then have "send_frags al ?n k buf (int (length buf)) = Some k'" "r = 0"
      using assms(1,2,3) c w pos
      by (auto simp: ikcp_send_def word_less_nat_alt bind_eq_Some_conv split: if_splits)
    with send_frags_ref [OF this(1) assms(4)] True assms(2) show ?thesis by simp
  qed
qed

end
