(* ===== verification/Kcp_Recv.thy ===== *)
theory Kcp_Recv
  imports Kcp_Send
begin

text \<open>
  The receiving half: \<open>ikcp_parse_data\<close> files an arriving segment in \<open>rcv_buf\<close> at its place by
  sequence number and moves what is next in line to \<open>rcv_queue\<close>; \<open>ikcp_peeksize\<close> and
  \<open>ikcp_recv\<close> hand complete messages to the user. A call of \<open>ikcp_recv\<close> returns the code, the bytes
  copied to the user's buffer and the new state; \<open>None\<close> is the failed assertion \<open>len == peeksize\<close>.
\<close>

section \<open>Operations\<close>

text \<open>The loop \<open>rcv_buf -> rcv_queue\<close>, shared by \<open>ikcp_recv\<close> and \<open>ikcp_parse_data\<close>.\<close>

fun move_loop :: "ikcpseg list \<Rightarrow> ikcpcb \<Rightarrow> ikcpcb" where
  "move_loop [] k = k\<lparr>rcv_buf := []\<rparr>"
| "move_loop (seg # bs) k =
     (if seg_sn seg = rcv_nxt k \<and> nrcv_que k < rcv_wnd k then
        move_loop bs (k\<lparr>nrcv_buf := nrcv_buf k - 1, rcv_queue := rcv_queue k @ [seg],
                        nrcv_que := nrcv_que k + 1, rcv_nxt := rcv_nxt k + 1\<rparr>)
      else k\<lparr>rcv_buf := seg # bs\<rparr>)"

definition move_ready :: "ikcpcb \<Rightarrow> ikcpcb" where
  "move_ready k = move_loop (rcv_buf k) k"

fun peek_sum :: "ikcpseg list \<Rightarrow> u32 \<Rightarrow> u32" where
  "peek_sum [] n = n"
| "peek_sum (seg # q) n =
     (let n = n + seg_len seg in if seg_frg seg = 0 then n else peek_sum q n)"

definition ikcp_peeksize :: "ikcpcb \<Rightarrow> int" where
  "ikcp_peeksize k =
     (case rcv_queue k of
        [] \<Rightarrow> -1
      | seg # _ \<Rightarrow>
          if seg_frg seg = 0 then sint (seg_len seg)
          else if nrcv_que k < seg_frg seg + 1 then -1
          else sint (peek_sum (rcv_queue k) 0))"

text \<open>The merge loop of \<open>ikcp_recv\<close>: bytes copied, their number, the queue and its counter.\<close>

fun recv_merge ::
    "ikcpseg list \<Rightarrow> byte list \<Rightarrow> u32 \<Rightarrow> u32 \<Rightarrow> byte list \<times> u32 \<times> ikcpseg list \<times> u32" where
  "recv_merge [] buf len n = (buf, len, [], n)"
| "recv_merge (seg # q) buf len n =
     (let buf = buf @ take (unat (seg_len seg)) (seg_data seg);
          len = len + seg_len seg;
          n = n - 1
      in if seg_frg seg = 0 then (buf, len, q, n) else recv_merge q buf len n)"

definition ikcp_recv :: "ikcpcb \<Rightarrow> int \<Rightarrow> (int \<times> byte list \<times> ikcpcb) option" where
  "ikcp_recv k len =
     (let ispeek = len < 0 in
      if rcv_queue k = [] then Some (-1, [], k)
      else
        let len = (if len < 0 then c_int32 (- len) else len);
            peeksize = ikcp_peeksize k
        in
        if peeksize < 0 then Some (-2, [], k)
        else if peeksize > len then Some (-3, [], k)
        else
          let recover = nrcv_que k \<ge> rcv_wnd k;
              (buf, n, q, c) = recv_merge (rcv_queue k) [] 0 (nrcv_que k);
              k = (if ispeek then k else k\<lparr>rcv_queue := q, nrcv_que := c\<rparr>)
          in
          if sint n \<noteq> peeksize then None
          else
            let k = move_ready k;
                k = (if nrcv_que k < rcv_wnd k \<and> recover
                     then k\<lparr>probe := probe k OR IKCP_ASK_TELL\<rparr> else k)
            in Some (sint n, buf, k))"

text \<open>The backward scan of \<open>rcv_buf\<close>, on the reversed list: whether the number is there already, the
  segments up to the insertion point (nearest first) and the segments after it.\<close>

fun scan_back :: "u32 \<Rightarrow> ikcpseg list \<Rightarrow> ikcpseg list \<Rightarrow> bool \<times> ikcpseg list \<times> ikcpseg list" where
  "scan_back sn [] rest = (False, [], rest)"
| "scan_back sn (seg # prev) rest =
     (if seg_sn seg = sn then (True, seg # prev, rest)
      else if itimediff sn (seg_sn seg) > 0 then (False, seg # prev, rest)
      else scan_back sn prev (seg # rest))"

definition ikcp_parse_data :: "ikcpcb \<Rightarrow> ikcpseg \<Rightarrow> ikcpcb" where
  "ikcp_parse_data k newseg =
     (let sn = seg_sn newseg in
      if itimediff sn (rcv_nxt k + rcv_wnd k) \<ge> 0 \<or> itimediff sn (rcv_nxt k) < 0 then k
      else
        let (repeated, front, rest) = scan_back sn (rev (rcv_buf k)) [];
            k = (if \<not> repeated
                 then k\<lparr>rcv_buf := rev front @ newseg # rest, nrcv_buf := nrcv_buf k + 1\<rparr>
                 else k)
        in move_ready k)"

section \<open>Moving what is ready\<close>

lemma move_loop_split:
  obtains m r where "bs = m @ r"
    and "move_loop bs k = k\<lparr>rcv_buf := r, rcv_queue := rcv_queue k @ m,
           nrcv_buf := nrcv_buf k - of_nat (length m), nrcv_que := nrcv_que k + of_nat (length m),
           rcv_nxt := rcv_nxt k + of_nat (length m)\<rparr>"
    and "\<forall>i < length m. seg_sn (m ! i) = rcv_nxt k + of_nat i"
    and "\<forall>i < length m. nrcv_que k + of_nat i < rcv_wnd k"
    and "r = [] \<or> seg_sn (hd r) \<noteq> rcv_nxt k + of_nat (length m) \<or>
         \<not> nrcv_que k + of_nat (length m) < rcv_wnd k"
proof (induction bs arbitrary: k thesis)
  case Nil
  show ?case by (rule Nil [of "[]" "[]"]) simp_all
next
  case (Cons seg bs)
  show ?case
  proof (cases "seg_sn seg = rcv_nxt k \<and> nrcv_que k < rcv_wnd k")
    case False
    then show ?thesis by (intro Cons.prems [of "[]" "seg # bs"]) auto
  next
    case True
    let ?k = "k\<lparr>nrcv_buf := nrcv_buf k - 1, rcv_queue := rcv_queue k @ [seg],
                nrcv_que := nrcv_que k + 1, rcv_nxt := rcv_nxt k + 1\<rparr>"
    obtain m r where mr: "bs = m @ r" "move_loop bs ?k = ?k\<lparr>rcv_buf := r,
        rcv_queue := rcv_queue ?k @ m, nrcv_buf := nrcv_buf ?k - of_nat (length m),
        nrcv_que := nrcv_que ?k + of_nat (length m), rcv_nxt := rcv_nxt ?k + of_nat (length m)\<rparr>"
      "\<forall>i < length m. seg_sn (m ! i) = rcv_nxt ?k + of_nat i"
      "\<forall>i < length m. nrcv_que ?k + of_nat i < rcv_wnd ?k"
      "r = [] \<or> seg_sn (hd r) \<noteq> rcv_nxt ?k + of_nat (length m) \<or>
         \<not> nrcv_que ?k + of_nat (length m) < rcv_wnd ?k"
      by (rule Cons.IH)
    show ?thesis
    proof (rule Cons.prems [of "seg # m" r])
      show "seg # bs = (seg # m) @ r" using mr(1) by simp
      show "move_loop (seg # bs) k = k\<lparr>rcv_buf := r, rcv_queue := rcv_queue k @ seg # m,
           nrcv_buf := nrcv_buf k - of_nat (length (seg # m)),
           nrcv_que := nrcv_que k + of_nat (length (seg # m)),
           rcv_nxt := rcv_nxt k + of_nat (length (seg # m))\<rparr>"
        using True mr(2) by (simp add: algebra_simps)
      show "\<forall>i < length (seg # m). seg_sn ((seg # m) ! i) = rcv_nxt k + of_nat i"
        using True mr(3) by (auto simp: less_Suc_eq_0_disj algebra_simps)
      show "\<forall>i < length (seg # m). nrcv_que k + of_nat i < rcv_wnd k"
        using True mr(4) by (auto simp: less_Suc_eq_0_disj algebra_simps)
      show "r = [] \<or> seg_sn (hd r) \<noteq> rcv_nxt k + of_nat (length (seg # m)) \<or>
         \<not> nrcv_que k + of_nat (length (seg # m)) < rcv_wnd k"
        using mr(5) by (simp add: algebra_simps)
    qed
  qed
qed

section \<open>The place of an arriving segment\<close>

lemma scan_back_split:
  "scan_back sn xs rest = (b, front, aft) \<Longrightarrow> rev front @ aft = rev xs @ rest"
  by (induction sn xs rest rule: scan_back.induct) (auto split: if_splits)

lemma scan_back_repeated:
  "scan_back sn xs rest = (True, front, aft) \<Longrightarrow> \<exists>s \<in> set xs. seg_sn s = sn"
  by (induction sn xs rest rule: scan_back.induct) (auto split: if_splits)

lemma scan_back_fresh:
  assumes "scan_back sn xs rest = (False, front, aft)"
  shows "(front = [] \<or> itimediff sn (seg_sn (hd front)) > 0) \<and>
         (\<exists>mid. aft = mid @ rest \<and> (\<forall>s \<in> set mid. itimediff sn (seg_sn s) \<le> 0 \<and> seg_sn s \<noteq> sn))"
  using assms
proof (induction sn xs rest rule: scan_back.induct)
  case (2 sn seg prev rest)
  show ?case
  proof (cases "seg_sn seg = sn \<or> itimediff sn (seg_sn seg) > 0")
    case False
    with "2.prems" have s: "scan_back sn prev (seg # rest) = (False, front, aft)" by auto
    from False "2.IH" [OF _ _ s] obtain mid where
      "front = [] \<or> itimediff sn (seg_sn (hd front)) > 0" "aft = mid @ seg # rest"
      "\<forall>s \<in> set mid. itimediff sn (seg_sn s) \<le> 0 \<and> seg_sn s \<noteq> sn" by auto
    with False show ?thesis by (auto intro!: exI [of _ "mid @ [seg]"])
  qed (use "2.prems" in \<open>auto split: if_splits\<close>)
qed simp

section \<open>Merging the fragments of a message\<close>

definition seg_payload :: "ikcpseg \<Rightarrow> byte list" where
  "seg_payload s = take (unat (seg_len s)) (seg_data s)"

text \<open>The fragments up to and including the first one numbered zero.\<close>

fun first_msg :: "ikcpseg list \<Rightarrow> ikcpseg list \<times> ikcpseg list" where
  "first_msg [] = ([], [])"
| "first_msg (s # q) =
     (if seg_frg s = 0 then ([s], q) else let (m, r) = first_msg q in (s # m, r))"

lemma first_msg_append: "first_msg q = (m, r) \<Longrightarrow> q = m @ r"
  by (induction q arbitrary: m r) (auto split: if_splits prod.splits)

lemma first_msg_nonempty: "first_msg q = (m, r) \<Longrightarrow> q \<noteq> [] \<Longrightarrow> m \<noteq> []"
  by (cases q) (auto split: if_splits prod.splits)

lemma recv_merge_first_msg:
  "first_msg q = (m, r) \<Longrightarrow> recv_merge q buf len n =
     (buf @ concat (map seg_payload m), len + sum_list (map seg_len m), r, n - of_nat (length m))"
  by (induction q arbitrary: m r buf len n)
    (auto simp: seg_payload_def algebra_simps split: if_splits prod.splits)

lemma peek_sum_first_msg: "first_msg q = (m, r) \<Longrightarrow> peek_sum q n = n + sum_list (map seg_len m)"
  by (induction q arbitrary: m r n) (auto simp: algebra_simps split: if_splits prod.splits)

text \<open>The size \<open>ikcp_peeksize\<close> promises is the size of the first message.\<close>

lemma peeksize_first_msg:
  assumes "first_msg (rcv_queue k) = (m, r)" and "ikcp_peeksize k \<ge> 0"
  shows "ikcp_peeksize k = sint (sum_list (map seg_len m))"
proof -
  obtain s q where q: "rcv_queue k = s # q"
    using assms(2) by (cases "rcv_queue k") (auto simp: ikcp_peeksize_def)
  show ?thesis
  proof (cases "seg_frg s = 0")
    case True
    then show ?thesis using assms(1) q by (auto simp: ikcp_peeksize_def)
  next
    case False
    then show ?thesis
      using assms q peek_sum_first_msg [OF assms(1), of 0]
      by (auto simp: ikcp_peeksize_def simp del: peek_sum.simps first_msg.simps split: if_splits)
  qed
qed

definition recv_tell :: "ikcpcb \<Rightarrow> bool \<Rightarrow> ikcpcb" where
  "recv_tell k recover =
     (if nrcv_que k < rcv_wnd k \<and> recover then k\<lparr>probe := probe k OR IKCP_ASK_TELL\<rparr> else k)"

text \<open>The outcomes of \<open>ikcp_recv\<close>; the assertion \<open>len == peeksize\<close> never fails.\<close>

lemma recv_outcome:
  assumes "first_msg (rcv_queue k) = (m, r)"
  shows "ikcp_recv k len =
    (if rcv_queue k = [] then Some (-1, [], k)
     else if ikcp_peeksize k < 0 then Some (-2, [], k)
     else if ikcp_peeksize k > (if len < 0 then c_int32 (- len) else len) then Some (-3, [], k)
     else Some (sint (sum_list (map seg_len m)), concat (map seg_payload m),
            recv_tell (move_ready (if len < 0 then k
              else k\<lparr>rcv_queue := r, nrcv_que := nrcv_que k - of_nat (length m)\<rparr>))
              (nrcv_que k \<ge> rcv_wnd k)))"
  using peeksize_first_msg [OF assms] recv_merge_first_msg [OF assms, of "[]" 0 "nrcv_que k"]
  by (simp add: ikcp_recv_def recv_tell_def Let_def not_less)

section \<open>Filing an arriving segment\<close>

text \<open>\<open>ikcp_parse_data\<close> drops the segment, or inserts it somewhere in \<open>rcv_buf\<close> and moves what is
  ready.\<close>

lemma parse_data_cases:
  obtains (dropped) "ikcp_parse_data k s = k"
  | (repeated) "ikcp_parse_data k s = move_ready k"
  | (filed) xs ys where "rcv_buf k = xs @ ys"
      "ikcp_parse_data k s = move_ready (k\<lparr>rcv_buf := xs @ s # ys, nrcv_buf := nrcv_buf k + 1\<rparr>)"
proof -
  obtain b xs ys where sc: "scan_back (seg_sn s) (rev (rcv_buf k)) [] = (b, xs, ys)"
    by (cases "scan_back (seg_sn s) (rev (rcv_buf k)) []")
  have split: "rev xs @ ys = rcv_buf k" using scan_back_split [OF sc] by simp
  consider (out) "itimediff (seg_sn s) (rcv_nxt k + rcv_wnd k) \<ge> 0 \<or> itimediff (seg_sn s) (rcv_nxt k) < 0"
    | (rep) "\<not> (itimediff (seg_sn s) (rcv_nxt k + rcv_wnd k) \<ge> 0 \<or> itimediff (seg_sn s) (rcv_nxt k) < 0)" b
    | (new) "\<not> (itimediff (seg_sn s) (rcv_nxt k + rcv_wnd k) \<ge> 0 \<or> itimediff (seg_sn s) (rcv_nxt k) < 0)" "\<not> b"
    by blast
  then show thesis
  proof cases
    case out
    then show thesis by (intro dropped) (simp add: ikcp_parse_data_def)
  next
    case rep
    then show thesis by (intro repeated) (simp add: ikcp_parse_data_def sc)
  next
    case new
    then show thesis
      by (intro filed [of "rev xs" ys]) (simp_all add: ikcp_parse_data_def sc split)
  qed
qed

lemma move_ready_split:
  obtains m r where "rcv_buf k = m @ r"
    and "move_ready k = k\<lparr>rcv_buf := r, rcv_queue := rcv_queue k @ m,
           nrcv_buf := nrcv_buf k - of_nat (length m), nrcv_que := nrcv_que k + of_nat (length m),
           rcv_nxt := rcv_nxt k + of_nat (length m)\<rparr>"
    and "\<forall>i < length m. seg_sn (m ! i) = rcv_nxt k + of_nat i"
    and "\<forall>i < length m. nrcv_que k + of_nat i < rcv_wnd k"
    and "r = [] \<or> seg_sn (hd r) \<noteq> rcv_nxt k + of_nat (length m) \<or>
         \<not> nrcv_que k + of_nat (length m) < rcv_wnd k"
  unfolding move_ready_def by (rule move_loop_split)

end
