(* ===== verification/Kcp_Input.thy ===== *)
theory Kcp_Input
  imports Kcp_Recv
begin

text \<open>
  \<open>ikcp_input\<close> and what it calls: the round-trip estimator \<open>ikcp_update_ack\<close>, the removal of
  acknowledged segments (\<open>ikcp_parse_ack\<close>, \<open>ikcp_parse_una\<close>, \<open>ikcp_shrink_buf\<close>), the
  fast-retransmit counters (\<open>ikcp_parse_fastack\<close>, without \<open>IKCP_FASTACK_CONSERVE\<close>) and the list of
  acknowledgements to send (\<open>ikcp_ack_push\<close>).

  One datagram holds several segments; an error in a later one leaves the effects of the earlier
  ones in place, so the loop returns its code together with the state reached. Signed arithmetic
  of the estimator that can overflow wraps.
\<close>

section \<open>Round-trip estimator\<close>

definition ikcp_update_ack :: "ikcpcb \<Rightarrow> u32 \<Rightarrow> ikcpcb" where
  "ikcp_update_ack k rtt =
     (let k = (if rx_srtt k = 0
               then k\<lparr>rx_srtt := rtt, rx_rttval := word_of_int (c_div (sint rtt) 2)\<rparr>
               else
                 let delta = sint (rtt - rx_srtt k);
                     delta = (if delta < 0 then - delta else delta);
                     rttval = word_of_int (c_div (sint (3 * rx_rttval k) + delta) 4);
                     srtt = word_of_int (c_div (sint (7 * rx_srtt k + rtt)) 8);
                     srtt = (if sint srtt < 1 then 1 else srtt)
                 in k\<lparr>rx_rttval := rttval, rx_srtt := srtt\<rparr>);
          rto = rx_srtt k + imax (interval k) (4 * rx_rttval k)
      in k\<lparr>rx_rto := ibound (rx_minrto k) rto IKCP_RTO_MAX\<rparr>)"

section \<open>Acknowledged segments\<close>

definition ikcp_shrink_buf :: "ikcpcb \<Rightarrow> ikcpcb" where
  "ikcp_shrink_buf k =
     (case snd_buf k of
        seg # _ \<Rightarrow> k\<lparr>snd_una := seg_sn seg\<rparr>
      | [] \<Rightarrow> k\<lparr>snd_una := snd_nxt k\<rparr>)"

fun parse_ack_loop :: "u32 \<Rightarrow> ikcpseg list \<Rightarrow> u32 \<Rightarrow> ikcpseg list \<times> u32" where
  "parse_ack_loop sn [] n = ([], n)"
| "parse_ack_loop sn (seg # b) n =
     (if sn = seg_sn seg then (b, n - 1)
      else if itimediff sn (seg_sn seg) < 0 then (seg # b, n)
      else let (b', n') = parse_ack_loop sn b n in (seg # b', n'))"

definition ikcp_parse_ack :: "ikcpcb \<Rightarrow> u32 \<Rightarrow> ikcpcb" where
  "ikcp_parse_ack k sn =
     (if itimediff sn (snd_una k) < 0 \<or> itimediff sn (snd_nxt k) \<ge> 0 then k
      else let (b, n) = parse_ack_loop sn (snd_buf k) (nsnd_buf k)
           in k\<lparr>snd_buf := b, nsnd_buf := n\<rparr>)"

fun parse_una_loop :: "u32 \<Rightarrow> ikcpseg list \<Rightarrow> u32 \<Rightarrow> ikcpseg list \<times> u32" where
  "parse_una_loop una [] n = ([], n)"
| "parse_una_loop una (seg # b) n =
     (if itimediff una (seg_sn seg) > 0 then parse_una_loop una b (n - 1) else (seg # b, n))"

definition ikcp_parse_una :: "ikcpcb \<Rightarrow> u32 \<Rightarrow> ikcpcb" where
  "ikcp_parse_una k una =
     (let (b, n) = parse_una_loop una (snd_buf k) (nsnd_buf k) in k\<lparr>snd_buf := b, nsnd_buf := n\<rparr>)"

fun parse_fastack_loop :: "u32 \<Rightarrow> ikcpseg list \<Rightarrow> ikcpseg list" where
  "parse_fastack_loop sn [] = []"
| "parse_fastack_loop sn (seg # b) =
     (if itimediff sn (seg_sn seg) < 0 then seg # b
      else if sn \<noteq> seg_sn seg
      then seg\<lparr>seg_fastack := seg_fastack seg + 1\<rparr> # parse_fastack_loop sn b
      else seg # parse_fastack_loop sn b)"

definition ikcp_parse_fastack :: "ikcpcb \<Rightarrow> u32 \<Rightarrow> u32 \<Rightarrow> ikcpcb" where
  "ikcp_parse_fastack k sn ts =
     (if itimediff sn (snd_una k) < 0 \<or> itimediff sn (snd_nxt k) \<ge> 0 then k
      else k\<lparr>snd_buf := parse_fastack_loop sn (snd_buf k)\<rparr>)"

section \<open>Acknowledgements to send\<close>

text \<open>The loop that doubles \<open>newblock\<close> until it reaches \<open>newsize\<close>. It never ends when
  \<open>newsize\<close> is above \<open>2 ^ 31\<close>, where doubling wraps to zero: running out of fuel is \<open>None\<close>. Thirty
  iterations are enough for every \<open>newsize\<close> for which it ends.\<close>

fun ack_grow :: "nat \<Rightarrow> u32 \<Rightarrow> u32 \<Rightarrow> u32 option" where
  "ack_grow 0 newsize newblock = None"
| "ack_grow (Suc fuel) newsize newblock =
     (if newblock < newsize then ack_grow fuel newsize (push_bit 1 newblock) else Some newblock)"

definition ikcp_ack_push :: "allocator \<Rightarrow> ikcpcb \<Rightarrow> u32 \<Rightarrow> u32 \<Rightarrow> ikcpcb option" where
  "ikcp_ack_push al k sn ts =
     (let newsize = ackcount k + 1 in do {
        k \<leftarrow> (if newsize > ackblock k then do {
               newblock \<leftarrow> ack_grow 30 newsize 8;
               if \<not> al (Req_acklist (unat newblock * 8)) then None
               else Some (k\<lparr>acklist := take (2 * unat (ackcount k)) (acklist k) @
                              replicate (2 * (unat newblock - unat (ackcount k))) 0,
                            ackblock := newblock\<rparr>)
             } else Some k);
        let p = 2 * unat (ackcount k) in
        if Suc p < length (acklist k)
        then Some (k\<lparr>acklist := (acklist k)[p := sn, Suc p := ts], ackcount := ackcount k + 1\<rparr>)
        else None
      })"

definition ikcp_ack_get :: "ikcpcb \<Rightarrow> nat \<Rightarrow> u32 \<times> u32" where
  "ikcp_ack_get k p = (acklist k ! (p * 2), acklist k ! (p * 2 + 1))"

section \<open>Input\<close>

text \<open>What one header and its payload do to the control block, after the header has passed the
  checks: \<open>flag\<close>, \<open>maxack\<close> and \<open>latest_ts\<close> are the loop's local variables.\<close>

definition input_ack ::
    "ikcpcb \<Rightarrow> ikcphdr \<Rightarrow> bool \<times> u32 \<times> u32 \<Rightarrow> ikcpcb \<times> bool \<times> u32 \<times> u32" where
  "input_ack k h v =
     (let (flag, maxack, latest_ts) = v;
          k = (if itimediff (current k) (h_ts h) \<ge> 0
               then ikcp_update_ack k (word_of_int (itimediff (current k) (h_ts h))) else k);
          k = ikcp_parse_ack k (h_sn h);
          k = ikcp_shrink_buf k
      in if \<not> flag then (k, True, h_sn h, h_ts h)
         else if itimediff (h_sn h) maxack > 0 then (k, flag, h_sn h, h_ts h)
         else (k, flag, maxack, latest_ts))"

definition seg_of_hdr :: "ikcphdr \<Rightarrow> byte list \<Rightarrow> ikcpseg" where
  "seg_of_hdr h d = \<lparr>seg_conv = h_conv h, seg_cmd = ucast (h_cmd h), seg_frg = ucast (h_frg h),
     seg_wnd = ucast (h_wnd h), seg_ts = h_ts h, seg_sn = h_sn h, seg_una = h_una h,
     seg_len = h_len h, seg_resendts = 0, seg_rto = 0, seg_fastack = 0, seg_xmit = 0,
     seg_data = d\<rparr>"

definition input_push :: "allocator \<Rightarrow> ikcpcb \<Rightarrow> ikcphdr \<Rightarrow> byte list \<Rightarrow> ikcpcb option" where
  "input_push al k h d =
     (if itimediff (h_sn h) (rcv_nxt k + rcv_wnd k) < 0 then do {
        k \<leftarrow> ikcp_ack_push al k (h_sn h) (h_ts h);
        if itimediff (h_sn h) (rcv_nxt k) \<ge> 0 then
          if \<not> al (Req_segment (unat (h_len h))) then None
          else Some (ikcp_parse_data k (seg_of_hdr h d))
        else Some k
      } else Some k)"

text \<open>One segment whose header has passed the checks: the header \<open>h\<close> and its payload \<open>d\<close>.\<close>

definition input_seg ::
    "allocator \<Rightarrow> ikcpcb \<Rightarrow> ikcphdr \<Rightarrow> byte list \<Rightarrow> bool \<times> u32 \<times> u32 \<Rightarrow>
     (ikcpcb \<times> bool \<times> u32 \<times> u32) option" where
  "input_seg al k h d v =
     (let cmd = ucast (h_cmd h) :: u32;
          k = k\<lparr>rmt_wnd := ucast (h_wnd h)\<rparr>;
          k = ikcp_parse_una k (h_una h);
          k = ikcp_shrink_buf k
      in if cmd = IKCP_CMD_ACK then Some (input_ack k h v)
         else if cmd = IKCP_CMD_PUSH then map_option (\<lambda>k. (k, v)) (input_push al k h d)
         else if cmd = IKCP_CMD_WASK then Some (k\<lparr>probe := probe k OR IKCP_ASK_TELL\<rparr>, v)
         else Some (k, v))"

text \<open>The loop over the segments of a datagram; \<open>size\<close> is the number of bytes left to read.\<close>

definition known_cmd :: "byte \<Rightarrow> bool" where
  "known_cmd c \<longleftrightarrow> (let cmd = ucast c :: u32 in
     \<not> (cmd \<noteq> IKCP_CMD_PUSH \<and> cmd \<noteq> IKCP_CMD_ACK \<and> cmd \<noteq> IKCP_CMD_WASK \<and> cmd \<noteq> IKCP_CMD_WINS))"

function (sequential) input_loop ::
    "allocator \<Rightarrow> byte list \<Rightarrow> ikcpcb \<Rightarrow> bool \<times> u32 \<times> u32 \<Rightarrow>
     (int \<times> ikcpcb \<times> bool \<times> u32 \<times> u32) option" where
  "input_loop al data k v =
     (if int (length data) < sint IKCP_OVERHEAD then Some (0, k, v)
      else case ikcp_decode_hdr data of
        None \<Rightarrow> None
      | Some (h, rest) \<Rightarrow>
          if h_conv h \<noteq> conv k then Some (-1, k, v)
          else if int (length rest) < int (unat (h_len h)) \<or> sint (h_len h) < 0 then Some (-2, k, v)
          else if \<not> known_cmd (h_cmd h) then Some (-3, k, v)
          else case input_seg al k h (take (unat (h_len h)) rest) v of
            None \<Rightarrow> None
          | Some (k, v) \<Rightarrow> input_loop al (drop (unat (h_len h)) rest) k v)"
  by pat_completeness auto
termination
  by (relation "measure (\<lambda>(al, data, k, v). length data)")
    (auto simp: IKCP_OVERHEAD_def dest!: decode_hdr_Some)

declare input_loop.simps [simp del]

text \<open>The congestion window grows when \<open>snd_una\<close> has moved.\<close>

definition input_cwnd :: "ikcpcb \<Rightarrow> u32 \<Rightarrow> ikcpcb" where
  "input_cwnd k prev_una =
     (if itimediff (snd_una k) prev_una > 0 \<and> cwnd k < rmt_wnd k then
        let m = mss k;
            k = (if cwnd k < ssthresh k then k\<lparr>cwnd := cwnd k + 1, incr := incr k + m\<rparr>
                 else
                   let inc = (if incr k < m then m else incr k);
                       inc = inc + ((m * m) div inc + m div 16);
                       k = k\<lparr>incr := inc\<rparr>
                   in if (cwnd k + 1) * m \<le> inc
                      then k\<lparr>cwnd := (inc + m - 1) div (if m > 0 then m else 1)\<rparr> else k)
        in if cwnd k > rmt_wnd k then k\<lparr>cwnd := rmt_wnd k, incr := rmt_wnd k * m\<rparr> else k
      else k)"

definition ikcp_input :: "allocator \<Rightarrow> ikcpcb \<Rightarrow> byte list option \<Rightarrow> (int \<times> ikcpcb) option" where
  "ikcp_input al k data =
     (case data of
        None \<Rightarrow> Some (-1, k)
      | Some bs \<Rightarrow>
          if c_int32 (int (length bs)) < sint IKCP_OVERHEAD then Some (-1, k)
          else
            let prev_una = snd_una k in
            case input_loop al bs k (False, 0, 0) of
              None \<Rightarrow> None
            | Some (ret, k, flag, maxack, latest_ts) \<Rightarrow>
                if ret \<noteq> 0 then Some (ret, k)
                else
                  let k = (if flag then ikcp_parse_fastack k maxack latest_ts else k)
                  in Some (0, input_cwnd k prev_una))"

section \<open>Rules for the input loop\<close>

lemma input_loop_elim:
  assumes "input_loop al data k v = Some (r, k', v')"
  obtains (stop) "k' = k" "v' = v"
  | (seg) h rest k1 v1 where "ikcp_decode_hdr data = Some (h, rest)" "h_conv h = conv k"
      "unat (h_len h) \<le> length rest" "sint (h_len h) \<ge> 0" "known_cmd (h_cmd h)"
      "input_seg al k h (take (unat (h_len h)) rest) v = Some (k1, v1)"
      "input_loop al (drop (unat (h_len h)) rest) k1 v1 = Some (r, k', v')"
proof -
  note loop = assms [unfolded input_loop.simps [of al data k v]]
  show thesis
  proof (cases "ikcp_decode_hdr data")
    case None
    with loop show thesis by (auto split: if_splits intro: stop)
  next
    case (Some hr)
    then obtain h rest where hr: "ikcp_decode_hdr data = Some (h, rest)" by (cases hr) auto
    show thesis
    proof (cases "input_seg al k h (take (unat (h_len h)) rest) v")
      case None
      with loop hr show thesis by (auto split: if_splits intro: stop)
    next
      case (Some kv)
      then obtain k1 v1 where "input_seg al k h (take (unat (h_len h)) rest) v = Some (k1, v1)"
        by (cases kv) auto
      with loop hr show thesis by (auto split: if_splits intro: stop seg)
    qed
  qed
qed

text \<open>A property of the control block that every accepted segment keeps is kept by the whole loop,
  whatever the bytes and wherever the loop stops.\<close>

lemma input_loop_keeps:
  assumes "input_loop al data k v = Some (r, k', v')" and "I k"
    and step: "\<And>k h d v k2 v2. I k \<Longrightarrow> input_seg al k h d v = Some (k2, v2) \<Longrightarrow>
      h_conv h = conv k \<Longrightarrow> length d = unat (h_len h) \<Longrightarrow> sint (h_len h) \<ge> 0 \<Longrightarrow> I k2"
  shows "I k'"
  using assms(1,2)
proof (induction data arbitrary: k v rule: length_induct)
  case (1 data)
  from "1.prems"(1) show ?case
  proof (cases rule: input_loop_elim)
    case stop
    with "1.prems" show ?thesis by simp
  next
    case (seg h rest k1 v1)
    have "I k1" using step [OF "1.prems"(2) seg(6)] seg by simp
    moreover have "length (drop (unat (h_len h)) rest) < length data"
      using decode_hdr_Some [OF seg(1)] by simp
    ultimately show ?thesis using "1.IH" seg(7) by blast
  qed
qed

text \<open>A datagram made of encoded segments is taken apart at the same places.\<close>

definition pkt_bytes :: "ikcpseg \<times> byte list \<Rightarrow> byte list" where
  "pkt_bytes sp = ikcp_encode_seg [] (fst sp) @ snd sp"

definition pkt_ok :: "ikcpseg \<times> byte list \<Rightarrow> bool" where
  "pkt_ok sp \<longleftrightarrow> seg_len (fst sp) = of_nat (length (snd sp)) \<and> length (snd sp) < 2 ^ 31"

lemma decode_pkt:
  "ikcp_decode_hdr (pkt_bytes (s, p) @ r) = Some (hdr_of_seg s, p @ r)"
  by (simp add: pkt_bytes_def decode_hdr_encode_seg)

lemma input_loop_pkts_keeps:
  assumes "input_loop al (concat (map pkt_bytes pkts)) k v = Some (r, k', v')" and "I k"
    and "\<forall>sp \<in> set pkts. pkt_ok sp \<and> P sp"
    and step: "\<And>k s p v k2 v2. I k \<Longrightarrow> P (s, p) \<Longrightarrow> seg_len s = of_nat (length p) \<Longrightarrow>
      length p < 2 ^ 31 \<Longrightarrow> h_conv (hdr_of_seg s) = conv k \<Longrightarrow>
      input_seg al k (hdr_of_seg s) p v = Some (k2, v2) \<Longrightarrow> I k2"
  shows "I k'"
  using assms(1-3)
proof (induction pkts arbitrary: k v)
  case Nil
  then show ?case by (simp add: input_loop.simps [of al "[]"] IKCP_OVERHEAD_def)
next
  case (Cons sp pkts)
  obtain s p where sp: "sp = (s, p)" by (cases sp)
  let ?rest = "concat (map pkt_bytes pkts)"
  have ok: "seg_len s = of_nat (length p)" "length p < 2 ^ 31" "P (s, p)"
    using Cons.prems(3) by (auto simp: sp pkt_ok_def)
  then have len: "unat (h_len (hdr_of_seg s)) = length p"
    by (simp add: hdr_of_seg_def unat_of_nat_u32)
  have loop: "input_loop al (pkt_bytes (s, p) @ ?rest) k v = Some (r, k', v')"
    using Cons.prems(1) by (simp add: sp)
  then show ?case
  proof (cases rule: input_loop_elim)
    case stop
    with Cons.prems show ?thesis by simp
  next
    case (seg h rest k1 v1)
    from seg(1) have h: "h = hdr_of_seg s" "rest = p @ ?rest" by (simp_all add: decode_pkt)
    have "I k1" using step [OF Cons.prems(2) ok(3,1,2)] seg(2,6) len by (simp add: h)
    then show ?thesis using Cons.IH [OF _ _] seg(7) Cons.prems(3) len by (simp add: h)
  qed
qed

end
