(* ===== verification/Kcp_Flush.thy ===== *)
theory Kcp_Flush
  imports Kcp_Input
begin

text \<open>
  \<open>ikcp_flush\<close>, cut at the comments of the source into its stages, with \<open>ikcp_output\<close>,
  \<open>ikcp_update\<close> and \<open>ikcp_check\<close>.

  The scratch buffer between \<open>buffer\<close> and \<open>ptr\<close> is the list of bytes written since the last
  \<open>ikcp_output\<close>; what has been handed to the output callback is the list of datagrams, in order.
  Writing past the allocated buffer, and calling \<open>ikcp_output\<close> with no callback installed (an
  assertion), are \<open>None\<close>.
\<close>

section \<open>Output\<close>

type_synonym outbuf = "byte list \<times> byte list list"

definition ikcp_output :: "ikcpcb \<Rightarrow> byte list \<Rightarrow> byte list list \<Rightarrow> byte list list option" where
  "ikcp_output k data sent =
     (if \<not> output_cb k then None else if data = [] then Some sent else Some (sent @ [data]))"

text \<open>Hand the buffer over first when \<open>need\<close> more bytes would exceed the MTU.\<close>

definition flush_room :: "ikcpcb \<Rightarrow> int \<Rightarrow> outbuf \<Rightarrow> outbuf option" where
  "flush_room k need ob =
     (let (ptr, sent) = ob in
      if int (length ptr) + need > sint (mtu k)
      then map_option (Pair []) (ikcp_output k ptr sent)
      else Some (ptr, sent))"

text \<open>Write a header and \<open>n\<close> bytes of payload at \<open>ptr\<close>, inside the allocated buffer.\<close>

definition flush_put :: "ikcpcb \<Rightarrow> ikcpseg \<Rightarrow> byte list \<Rightarrow> outbuf \<Rightarrow> outbuf option" where
  "flush_put k seg payload ob =
     (let (ptr, sent) = ob; ptr = ikcp_encode_seg ptr seg @ payload in
      if length ptr \<le> buffer k then Some (ptr, sent) else None)"

section \<open>The stages of a flush\<close>

definition flush_seg :: "ikcpcb \<Rightarrow> ikcpseg" where
  "flush_seg k = \<lparr>seg_conv = conv k, seg_cmd = IKCP_CMD_ACK, seg_frg = 0,
     seg_wnd = ikcp_wnd_unused k, seg_ts = 0, seg_sn = 0, seg_una = rcv_nxt k, seg_len = 0,
     seg_resendts = 0, seg_rto = 0, seg_fastack = 0, seg_xmit = 0, seg_data = []\<rparr>"

text \<open>Flush acknowledgements; the segment keeps the last pair for the probes that follow.\<close>

fun flush_acks :: "ikcpcb \<Rightarrow> nat list \<Rightarrow> ikcpseg \<Rightarrow> outbuf \<Rightarrow> (ikcpseg \<times> outbuf) option" where
  "flush_acks k [] seg ob = Some (seg, ob)"
| "flush_acks k (i # is) seg ob = do {
     ob \<leftarrow> flush_room k (sint IKCP_OVERHEAD) ob;
     let seg = seg\<lparr>seg_sn := fst (ikcp_ack_get k i), seg_ts := snd (ikcp_ack_get k i)\<rparr>;
     ob \<leftarrow> flush_put k seg [] ob;
     flush_acks k is seg ob
   }"

text \<open>Decide whether to probe a remote window of size zero.\<close>

definition flush_probe :: "ikcpcb \<Rightarrow> ikcpcb" where
  "flush_probe k =
     (if rmt_wnd k = 0 then
        if probe_wait k = 0
        then k\<lparr>probe_wait := IKCP_PROBE_INIT, ts_probe := current k + IKCP_PROBE_INIT\<rparr>
        else if itimediff (current k) (ts_probe k) \<ge> 0 then
          let w = (if probe_wait k < IKCP_PROBE_INIT then IKCP_PROBE_INIT else probe_wait k);
              w = w + w div 2;
              w = (if w > IKCP_PROBE_LIMIT then IKCP_PROBE_LIMIT else w)
          in k\<lparr>probe_wait := w, ts_probe := current k + w, probe := probe k OR IKCP_ASK_SEND\<rparr>
        else k
      else k\<lparr>ts_probe := 0, probe_wait := 0\<rparr>)"

text \<open>Flush one window command when its flag in \<open>probe\<close> is set.\<close>

definition flush_cmd :: "ikcpcb \<Rightarrow> u32 \<Rightarrow> u32 \<Rightarrow> ikcpseg \<times> outbuf \<Rightarrow> (ikcpseg \<times> outbuf) option" where
  "flush_cmd k ask cmd so =
     (let (seg, ob) = so in
      if probe k AND ask \<noteq> 0 then do {
        let seg = seg\<lparr>seg_cmd := cmd\<rparr>;
        ob \<leftarrow> flush_room k (sint IKCP_OVERHEAD) ob;
        ob \<leftarrow> flush_put k seg [] ob;
        Some (seg, ob)
      } else Some (seg, ob))"

definition flush_cwnd :: "ikcpcb \<Rightarrow> u32" where
  "flush_cwnd k =
     (let w = imin (snd_wnd k) (rmt_wnd k) in if nocwnd k = 0 then imin (cwnd k) w else w)"

text \<open>Move segments from \<open>snd_queue\<close> to \<open>snd_buf\<close> while the window allows, numbering them.\<close>

fun flush_move :: "ikcpseg list \<Rightarrow> u32 \<Rightarrow> u32 \<Rightarrow> ikcpcb \<Rightarrow> ikcpcb" where
  "flush_move [] w wnd k = k\<lparr>snd_queue := []\<rparr>"
| "flush_move (newseg # q) w wnd k =
     (if itimediff (snd_nxt k) (snd_una k + w) < 0 then
        let newseg = newseg\<lparr>seg_conv := conv k, seg_cmd := IKCP_CMD_PUSH, seg_wnd := wnd,
              seg_ts := current k, seg_sn := snd_nxt k, seg_una := rcv_nxt k,
              seg_resendts := current k, seg_rto := rx_rto k, seg_fastack := 0, seg_xmit := 0\<rparr>
        in flush_move q w wnd (k\<lparr>snd_buf := snd_buf k @ [newseg], nsnd_que := nsnd_que k - 1,
              nsnd_buf := nsnd_buf k + 1, snd_nxt := snd_nxt k + 1\<rparr>)
      else k\<lparr>snd_queue := newseg # q\<rparr>)"

datatype send_why = No_send | First_send | Timeout_send | Fast_send

definition flush_why :: "ikcpcb \<Rightarrow> u32 \<Rightarrow> ikcpseg \<Rightarrow> send_why" where
  "flush_why k resent s =
     (if seg_xmit s = 0 then First_send
      else if itimediff (current k) (seg_resendts s) \<ge> 0 then Timeout_send
      else if seg_fastack s \<ge> resent \<and> (sint (seg_xmit s) \<le> fastlimit k \<or> fastlimit k \<le> 0)
      then Fast_send
      else No_send)"

text \<open>The timers of a segment about to be sent, by the reason for sending it.\<close>

definition flush_timer :: "ikcpcb \<Rightarrow> u32 \<Rightarrow> send_why \<Rightarrow> ikcpseg \<Rightarrow> ikcpseg" where
  "flush_timer k rtomin why s =
     (case why of
        No_send \<Rightarrow> s
      | First_send \<Rightarrow> s\<lparr>seg_xmit := seg_xmit s + 1, seg_rto := rx_rto k,
                         seg_resendts := current k + rx_rto k + rtomin\<rparr>
      | Timeout_send \<Rightarrow>
          let rto = (if nodelay k = 0 then seg_rto s + imax (seg_rto s) (rx_rto k)
                     else let step = (if nodelay k < 2 then sint (seg_rto s) else sint (rx_rto k))
                          in seg_rto s + word_of_int (c_div step 2))
          in s\<lparr>seg_xmit := seg_xmit s + 1, seg_rto := rto, seg_resendts := current k + rto\<rparr>
      | Fast_send \<Rightarrow> s\<lparr>seg_xmit := seg_xmit s + 1, seg_fastack := 0,
                        seg_resendts := current k + seg_rto s\<rparr>)"

text \<open>The loop over \<open>snd_buf\<close>: the segments already visited, \<open>change\<close>, \<open>lost\<close> and the output.\<close>

fun flush_data :: "u32 \<Rightarrow> u32 \<Rightarrow> u32 \<Rightarrow> ikcpseg list \<Rightarrow> ikcpcb \<Rightarrow> ikcpseg list \<Rightarrow> bool \<Rightarrow> bool \<Rightarrow>
    outbuf \<Rightarrow> (ikcpcb \<times> ikcpseg list \<times> bool \<times> bool \<times> outbuf) option" where
  "flush_data resent rtomin wnd [] k seen change lost ob = Some (k, seen, change, lost, ob)"
| "flush_data resent rtomin wnd (s # b) k seen change lost ob =
     (let why = flush_why k resent s;
          s = flush_timer k rtomin why s;
          k = (if why = Timeout_send then k\<lparr>xmit := xmit k + 1\<rparr> else k);
          change = (change \<or> why = Fast_send);
          lost = (lost \<or> why = Timeout_send)
      in if why = No_send then flush_data resent rtomin wnd b k (seen @ [s]) change lost ob
         else do {
           let s = s\<lparr>seg_ts := current k, seg_wnd := wnd, seg_una := rcv_nxt k\<rparr>;
           ob \<leftarrow> flush_room k (sint (IKCP_OVERHEAD + seg_len s)) ob;
           ob \<leftarrow> flush_put k s (take (unat (seg_len s)) (seg_data s)) ob;
           let k = (if seg_xmit s \<ge> dead_link k then k\<lparr>state := -1\<rparr> else k);
           flush_data resent rtomin wnd b k (seen @ [s]) change lost ob
         })"

text \<open>The congestion window after a flush.\<close>

definition flush_ssthresh :: "ikcpcb \<Rightarrow> bool \<Rightarrow> bool \<Rightarrow> u32 \<Rightarrow> u32 \<Rightarrow> ikcpcb" where
  "flush_ssthresh k change lost resent w =
     (let k = (if change then
                 let inflight = snd_nxt k - snd_una k;
                     t = inflight div 2;
                     t = (if t < IKCP_THRESH_MIN then IKCP_THRESH_MIN else t)
                 in k\<lparr>ssthresh := t, cwnd := t + resent, incr := (t + resent) * mss k\<rparr>
               else k);
          k = (if lost then
                 let t = w div 2;
                     t = (if t < IKCP_THRESH_MIN then IKCP_THRESH_MIN else t)
                 in k\<lparr>ssthresh := t, cwnd := 1, incr := mss k\<rparr>
               else k)
      in if cwnd k < 1 then k\<lparr>cwnd := 1, incr := mss k\<rparr> else k)"

definition flush_resent :: "ikcpcb \<Rightarrow> u32" where
  "flush_resent k = (if fastresend k > 0 then word_of_int (fastresend k) else 0xffffffff)"

definition flush_rtomin :: "ikcpcb \<Rightarrow> u32" where
  "flush_rtomin k = (if nodelay k = 0 then word_of_int (drop_bit 3 (sint (rx_rto k))) else 0)"

definition ikcp_flush :: "ikcpcb \<Rightarrow> (ikcpcb \<times> byte list list) option" where
  "ikcp_flush k =
     (if updated k = 0 then Some (k, [])
      else do {
        let seg = flush_seg k;
        (seg, ob) \<leftarrow> flush_acks k [0..<unat (ackcount k)] seg ([], []);
        let k = k\<lparr>ackcount := 0\<rparr>;
        let k = flush_probe k;
        (seg, ob) \<leftarrow> flush_cmd k IKCP_ASK_SEND IKCP_CMD_WASK (seg, ob);
        (seg, ob) \<leftarrow> flush_cmd k IKCP_ASK_TELL IKCP_CMD_WINS (seg, ob);
        let k = k\<lparr>probe := 0\<rparr>;
        let w = flush_cwnd k;
        let k = flush_move (snd_queue k) w (seg_wnd seg) k;
        let resent = flush_resent k;
        let rtomin = flush_rtomin k;
        (k, b, change, lost, (ptr, sent)) \<leftarrow>
          flush_data resent rtomin (seg_wnd seg) (snd_buf k) k [] False False ob;
        let k = k\<lparr>snd_buf := b\<rparr>;
        sent \<leftarrow> (if ptr \<noteq> [] then ikcp_output k ptr sent else Some sent);
        Some (flush_ssthresh k change lost resent w, sent)
      })"

section \<open>The clock\<close>

definition ikcp_update :: "ikcpcb \<Rightarrow> u32 \<Rightarrow> (ikcpcb \<times> byte list list) option" where
  "ikcp_update k now =
     (let k = k\<lparr>current := now\<rparr>;
          k = (if updated k = 0 then k\<lparr>updated := 1, ts_flush := current k\<rparr> else k);
          slap = itimediff (current k) (ts_flush k);
          (k, slap) = (if slap \<ge> 10000 \<or> slap < -10000 then (k\<lparr>ts_flush := current k\<rparr>, 0)
                       else (k, slap))
      in if slap \<ge> 0 then
           let k = k\<lparr>ts_flush := ts_flush k + interval k\<rparr>;
               k = (if itimediff (current k) (ts_flush k) \<ge> 0
                    then k\<lparr>ts_flush := current k + interval k\<rparr> else k)
           in ikcp_flush k
         else Some (k, []))"

text \<open>The loop of \<open>ikcp_check\<close> over \<open>snd_buf\<close>: \<open>None\<close> is the early return of \<open>current\<close>.\<close>

fun check_loop :: "u32 \<Rightarrow> ikcpseg list \<Rightarrow> int \<Rightarrow> int option" where
  "check_loop now [] tm = Some tm"
| "check_loop now (s # b) tm =
     (let diff = itimediff (seg_resendts s) now in
      if diff \<le> 0 then None else check_loop now b (if diff < tm then diff else tm))"

definition ikcp_check :: "ikcpcb \<Rightarrow> u32 \<Rightarrow> u32" where
  "ikcp_check k now =
     (if updated k = 0 then now
      else
        let tsf = (if itimediff now (ts_flush k) \<ge> 10000 \<or> itimediff now (ts_flush k) < -10000
                   then now else ts_flush k)
        in if itimediff now tsf \<ge> 0 then now
           else
             let tm_flush = itimediff tsf now in
             case check_loop now (snd_buf k) 0x7fffffff of
               None \<Rightarrow> now
             | Some tm_packet \<Rightarrow>
                 let minimal = word_of_int (if tm_packet < tm_flush then tm_packet else tm_flush);
                     minimal = (if minimal \<ge> interval k then interval k else minimal)
                 in now + minimal)"

end
