(* ===== verification/Kcp_Invariant.thy ===== *)
theory Kcp_Invariant
  imports Kcp_Safety
begin

text \<open>
  Preservation of the well-formedness invariant by sending, receiving, flushing and the clock, and
  of what the acknowledgement half of \<open>ikcp_input\<close> may change (\<open>ack_frame\<close>). Each of these calls
  also completes on a well-formed control block.
\<close>

section \<open>Sending\<close>

lemma send_frags_inv:
  assumes "send_frags al n k buf (int (length buf)) = Some k'" and "kcb_inv k"
  shows "kcb_inv k'"
proof -
  have m: "unat (mss k) < 2 ^ 31" using assms(2) by (simp add: kcb_inv_def io_inv_def)
  show ?thesis
    using assms(2) msg_frags_len unfolding send_frags_ref [OF assms(1) m refl]
    by (auto simp: kcb_inv_def io_inv_def snd_inv_def rcv_inv_def ack_inv_def data_ok_def)
qed

text \<open>Topping up the last segment keeps it within the segment size and uses up a prefix of the data.\<close>

lemma send_stream_inv:
  assumes "send_stream al k buf (int (length buf)) = Some (k', buf', len')" and "kcb_inv k"
  shows "kcb_inv k' \<and> len' = int (length buf') \<and> length buf' \<le> length buf \<and>
    mss k' = mss k \<and> stream_mode k' = stream_mode k \<and> output_cb k' = output_cb k \<and> ackcount k' = ackcount k"
proof (cases "snd_queue k = [] \<or> \<not> seg_len (last (snd_queue k)) < mss k")
  case True
  then show ?thesis using assms by (auto simp: send_stream_def Let_def split: if_splits)
next
  case False
  let ?old = "last (snd_queue k)" and ?m = "unat (mss k)"
  have m: "26 \<le> ?m" "?m < 2 ^ 31" using assms(2) by (simp_all add: kcb_inv_def io_inv_def)
  have ok: "data_ok ?m ?old" using assms(2) False by (simp add: kcb_inv_def snd_inv_def)
  have u: "unat (seg_len ?old) = length (seg_data ?old)" using unat_data_ok [OF ok] m by simp
  have lt: "length (seg_data ?old) < ?m" using False u by (simp add: word_less_nat_alt)
  have cap: "unat (mss k - seg_len ?old) = ?m - length (seg_data ?old)"
    using False u by (simp add: unat_sub word_le_nat_alt word_less_nat_alt)
  then have cap: "sint (mss k - seg_len ?old) = int (?m - length (seg_data ?old))"
    using m sint_u32_small [of "mss k - seg_len ?old"] by simp
  define e where "e = min (length buf) (?m - length (seg_data ?old))"
  have ext: "(if int (length buf) < sint (mss k - seg_len ?old) then int (length buf)
      else sint (mss k - seg_len ?old)) = int e"
    using cap lt by (auto simp: e_def min_def)
  let ?seg = "ikcp_segment_new (seg_data ?old @ take e buf) (seg_len ?old + of_nat e) 0"
  have k': "k' = k\<lparr>snd_queue := butlast (snd_queue k) @ [?seg]\<rparr>" "buf' = drop e buf"
    "len' = int (length buf) - int e"
    using assms(1) False u unfolding send_stream_def Let_def ext by (auto split: if_splits)
  have seg: "data_ok ?m ?seg"
    using ok lt by (simp add: data_ok_def ikcp_segment_new_def e_def)
  have q: "length (snd_queue k) = Suc (length (butlast (snd_queue k)))"
    using False by (cases "snd_queue k" rule: rev_cases) auto
  have "kcb_inv k'"
    using assms(2) seg q
    by (auto simp: k' kcb_inv_def io_inv_def snd_inv_def rcv_inv_def ack_inv_def simp del: length_butlast
        dest: in_set_butlastD)
  then show ?thesis by (auto simp: k' e_def)
qed

text \<open>The part of \<open>ikcp_send\<close> after the stream-mode prologue.\<close>

lemma ikcp_send_unfold:
  assumes "mss k > 0" and "len \<ge> 0"
    and "(if stream_mode k \<noteq> 0 then send_stream al k buf len else Some (k, buf, len)) = Some (k1, buf1, len1)"
  shows "ikcp_send al k buf len =
    (if stream_mode k1 \<noteq> 0 \<and> len1 \<le> 0 then Some (0, k1)
     else if send_count k1 len1 \<ge> sint IKCP_WND_RCV then Some (-2, k1)
     else map_option (Pair 0)
       (send_frags al (nat (if send_count k1 len1 = 0 then 1 else send_count k1 len1)) k1 buf1 len1))"
  using assms(1,2) unfolding ikcp_send_def assms(3)
  by (cases "send_frags al (nat (if send_count k1 len1 = 0 then 1 else send_count k1 len1)) k1 buf1 len1")
    (simp_all add: Let_def)

lemma ikcp_send_elim:
  assumes "ikcp_send al k buf len = Some (r, k')"
  obtains (negative) "k' = k"
  | (queued) k1 buf1 len1 n where
      "(if stream_mode k \<noteq> 0 then send_stream al k buf len else Some (k, buf, len)) = Some (k1, buf1, len1)"
      "k' = k1 \<or> send_frags al n k1 buf1 len1 = Some k'"
proof (cases "mss k > 0 \<and> len \<ge> 0")
  case False
  then show thesis using assms by (intro negative) (auto simp: ikcp_send_def split: if_splits)
next
  case True
  let ?s = "if stream_mode k \<noteq> 0 then send_stream al k buf len else Some (k, buf, len)"
  have "?s \<noteq> None"
  proof
    assume "?s = None"
    with assms True show False unfolding ikcp_send_def \<open>?s = None\<close> by simp
  qed
  then obtain x where x: "?s = Some x" by blast
  obtain k1 buf1 len1 where "x = (k1, buf1, len1)" by (rule prod_cases3)
  with x have s: "?s = Some (k1, buf1, len1)" by (simp only:)
  define n where "n = nat (if send_count k1 len1 = 0 then 1 else send_count k1 len1)"
  note r = assms [unfolded ikcp_send_unfold [OF True [THEN conjunct1] True [THEN conjunct2] s], folded n_def]
  consider "stream_mode k1 \<noteq> 0 \<and> len1 \<le> 0" | "\<not> (stream_mode k1 \<noteq> 0 \<and> len1 \<le> 0)"
      "send_count k1 len1 \<ge> sint IKCP_WND_RCV"
    | "\<not> (stream_mode k1 \<noteq> 0 \<and> len1 \<le> 0)" "\<not> send_count k1 len1 \<ge> sint IKCP_WND_RCV" by blast
  then have "k' = k1 \<or> send_frags al n k1 buf1 len1 = Some k'"
    by cases (use r in \<open>simp_all only: if_True if_False simp_thms, auto\<close>)
  then show thesis by (rule queued [OF s])
qed

lemma send_inv:
  assumes "ikcp_send al k buf (int (length buf)) = Some (r, k')" and "kcb_inv k"
  shows "kcb_inv k' \<and> output_cb k' = output_cb k \<and> ackcount k' = ackcount k"
  using assms(1)
proof (cases rule: ikcp_send_elim)
  case negative
  then show ?thesis using assms(2) by simp
next
  case (queued k1 buf1 len1 n)
  have k1: "kcb_inv k1" "len1 = int (length buf1)" "output_cb k1 = output_cb k" "ackcount k1 = ackcount k"
    using queued(1) assms(2) send_stream_inv [of al k buf k1 buf1 len1] by (auto split: if_splits)
  have m: "unat (mss k1) < 2 ^ 31" using k1(1) by (simp add: kcb_inv_def io_inv_def)
  from queued(2) show ?thesis
  proof
    assume f: "send_frags al n k1 buf1 len1 = Some k'"
    show ?thesis
      using send_frags_inv [OF f [unfolded k1(2)] k1(1)] send_frags_ref [OF f m k1(2)] k1(3,4) by simp
  qed (use k1 in simp)
qed

lemma send_total:
  assumes "\<And>r. al r" and "kcb_inv k"
  shows "\<exists>r k'. ikcp_send al k buf len = Some (r, k')"
proof (cases "len \<ge> 0")
  case False
  then show ?thesis using assms(2) by (simp add: ikcp_send_def kcb_inv_def io_inv_def word_less_nat_alt)
next
  case True
  have m: "mss k > 0" using assms(2) by (simp add: kcb_inv_def io_inv_def word_less_nat_alt)
  have "send_stream al k buf len \<noteq> None"
    using assms(1) by (simp add: send_stream_def Let_def)
  then obtain k1 buf1 len1 where
    s: "(if stream_mode k \<noteq> 0 then send_stream al k buf len else Some (k, buf, len)) = Some (k1, buf1, len1)"
    by (cases "stream_mode k = 0") auto
  obtain k' where "send_frags al (nat (if send_count k1 len1 = 0 then 1 else send_count k1 len1)) k1 buf1 len1 = Some k'"
    using send_frags_total [of al] assms(1) by blast
  then show ?thesis unfolding ikcp_send_unfold [OF m True s] by auto
qed

section \<open>Receiving\<close>

lemma move_ready_inv:
  assumes "rcv_inv k"
  shows "rcv_inv (move_ready k)"
proof -
  obtain m r where mr: "rcv_buf k = m @ r"
    "move_ready k = k\<lparr>rcv_buf := r, rcv_queue := rcv_queue k @ m,
       nrcv_buf := nrcv_buf k - of_nat (length m), nrcv_que := nrcv_que k + of_nat (length m),
       rcv_nxt := rcv_nxt k + of_nat (length m)\<rparr>"
    "\<forall>i < length m. nrcv_que k + of_nat i < rcv_wnd k"
    by (rule move_ready_split)
  have "j \<le> length m \<Longrightarrow> unat (nrcv_que k + of_nat j) = length (rcv_queue k) + j" for j
  proof (induction j)
    case 0
    then show ?case using assms by (simp add: rcv_inv_def)
  next
    case (Suc j)
    then have "unat (nrcv_que k + of_nat j) = length (rcv_queue k) + j" by simp
    moreover have "unat (nrcv_que k + of_nat j) < 2 ^ 32 - 1"
    proof -
      have "nrcv_que k + of_nat j < rcv_wnd k" using mr(3) Suc.prems by simp
      then show ?thesis using unat_u32_lt [of "rcv_wnd k"] unfolding word_less_nat_alt by linarith
    qed
    ultimately show ?case using unat_Suc_u32 [of "nrcv_que k + of_nat j"] by (simp add: algebra_simps)
  qed
  from this [of "length m"] show ?thesis
    using assms mr(1) by (auto simp: mr(2) rcv_inv_def)
qed

lemma move_ready_frame:
  "\<exists>r q nb nq nx. move_ready k = k\<lparr>rcv_buf := r, rcv_queue := q, nrcv_buf := nb, nrcv_que := nq, rcv_nxt := nx\<rparr>"
  by (rule move_ready_split [of k]) blast

lemma recv_inv:
  assumes "ikcp_recv k len = Some (r, bs, k')" and "kcb_inv k"
  shows "kcb_inv k' \<and> output_cb k' = output_cb k \<and> ackcount k' = ackcount k"
proof -
  obtain m q where f: "first_msg (rcv_queue k) = (m, q)" by (cases "first_msg (rcv_queue k)")
  have app: "rcv_queue k = m @ q" using f by (rule first_msg_append)
  define k1 where "k1 = (if len < 0 then k else k\<lparr>rcv_queue := q, nrcv_que := nrcv_que k - of_nat (length m)\<rparr>)"
  have "rcv_inv k1"
  proof -
    have "unat (nrcv_que k) = length m + length q" using assms(2) app by (simp add: kcb_inv_def rcv_inv_def)
    then have "nrcv_que k = of_nat (length m) + of_nat (length q)" "length m + length q < 2 ^ 32"
      using unat_u32_lt [of "nrcv_que k"] by (metis of_nat_add word_of_nat_unat, simp)
    then show ?thesis using assms(2) app
      by (auto simp: k1_def kcb_inv_def rcv_inv_def unat_of_nat_u32)
  qed
  then have r1: "rcv_inv (move_ready k1)" by (rule move_ready_inv)
  obtain r q nb nq nx where mv: "move_ready k1 = k1\<lparr>rcv_buf := r, rcv_queue := q, nrcv_buf := nb, nrcv_que := nq, rcv_nxt := nx\<rparr>"
    using move_ready_frame [of k1] by blast
  have "kcb_inv (recv_tell (move_ready k1) b) \<and> output_cb (recv_tell (move_ready k1) b) = output_cb k \<and>
      ackcount (recv_tell (move_ready k1) b) = ackcount k" for b
    using assms(2) r1 unfolding mv
    by (auto simp: recv_tell_def k1_def kcb_inv_def io_inv_def snd_inv_def rcv_inv_def ack_inv_def)
  then show ?thesis
    using assms unfolding recv_outcome [OF f] k1_def by (auto split: if_splits)
qed

lemma recv_total: "\<exists>r bs k'. ikcp_recv k len = Some (r, bs, k')"
  by (cases "first_msg (rcv_queue k)") (simp add: recv_outcome)

section \<open>Flushing and the clock\<close>

lemma keys_data_ok:
  assumes "map seg_key b' = map seg_key b"
    and "\<forall>s \<in> set b. data_ok m s \<and> seg_conv s = cv \<and> seg_cmd s = IKCP_CMD_PUSH"
  shows "\<forall>s \<in> set b'. data_ok m s \<and> seg_conv s = cv \<and> seg_cmd s = IKCP_CMD_PUSH"
proof
  fix s assume "s \<in> set b'"
  then have "seg_key s \<in> set (map seg_key b)" by (simp flip: assms(1))
  then obtain t where t: "t \<in> set b" "seg_key s = seg_key t" by auto
  then have "seg_conv s = seg_conv t" "seg_cmd s = seg_cmd t" by (simp_all add: seg_key_def)
  then show "data_ok m s \<and> seg_conv s = cv \<and> seg_cmd s = IKCP_CMD_PUSH"
    using assms(2) t data_ok_key [OF t(2), of m] by simp
qed

lemma flush_post_inv:
  assumes "flush_post k k' sent m" and "kcb_inv k"
  shows "kcb_inv k'"
proof -
  note fp = assms(1) [unfolded flush_post_def flush_frame_def]
  have keys: "map seg_key (snd_buf k') = map seg_key (snd_buf k @ stamp k (ikcp_wnd_unused k) (snd_nxt k) m)"
    and q: "snd_queue k = m @ snd_queue k'" using fp by blast+
  have n: "length (snd_buf k') = length (snd_buf k) + length m"
    using arg_cong [OF keys, of length] by simp
  have ok: "\<forall>s \<in> set (snd_buf k @ stamp k (ikcp_wnd_unused k) (snd_nxt k) m).
      data_ok (unat (mss k)) s \<and> seg_conv s = conv k \<and> seg_cmd s = IKCP_CMD_PUSH"
    using assms(2) q stamp_data_ok [of m "unat (mss k)"] by (auto simp: kcb_inv_def snd_inv_def)
  have "snd_inv k'"
    using assms(2) fp n q keys_data_ok [OF keys ok] by (simp add: kcb_inv_def snd_inv_def)
  moreover have "io_inv k'" "rcv_inv k'"
    using assms(2) fp by (simp_all add: kcb_inv_def io_inv_def rcv_inv_def)
  moreover have "ack_inv k'" using assms(2) fp by (simp add: kcb_inv_def ack_inv_def)
  ultimately show ?thesis by (simp add: kcb_inv_def)
qed

lemma flush_ok:
  assumes "kcb_inv k" and "output_cb k"
  obtains k' sent where "ikcp_flush k = Some (k', sent)" "kcb_inv k'" "output_cb k'"
    "ackcount k' \<le> ackcount k" "\<forall>d \<in> set sent. length d \<le> unat (mtu k)"
proof -
  obtain k' sent m where f: "ikcp_flush k = Some (k', sent)" "flush_post k k' sent m"
    using flush_total [OF assms] by blast
  show thesis
    by (rule that [OF f(1) flush_post_inv [OF f(2) assms(1)]])
      (use f(2) assms(2) in \<open>auto simp: flush_post_def flush_frame_def\<close>)
qed

text \<open>\<open>ikcp_update\<close> advances the clock fields, then flushes or not.\<close>

lemma update_elim:
  obtains u tf where "ikcp_update k now =
     (if itimediff now (if updated k = 0 then now else ts_flush k) \<ge> 0 \<or>
         itimediff now (if updated k = 0 then now else ts_flush k) < -10000
      then ikcp_flush (k\<lparr>current := now, updated := u, ts_flush := tf\<rparr>)
      else Some (k\<lparr>current := now, updated := u, ts_flush := tf\<rparr>, []))" "u \<noteq> 0"
proof (cases "updated k = 0")
  case True
  show thesis
    by (rule that [where u = 1 and tf = "now + interval k"])
      (use True in \<open>simp_all add: ikcp_update_def Let_def\<close>)
next
  case False
  define sl where "sl = itimediff now (ts_flush k)"
  define tf where "tf = (if sl \<ge> 10000 \<or> sl < -10000 then now else ts_flush k)"
  define tf' where "tf' = (if itimediff now (tf + interval k) \<ge> 0 then now + interval k else tf + interval k)"
  show thesis
    by (rule that [where u = "updated k" and tf = "if sl \<ge> 0 \<or> sl < -10000 then tf' else tf"])
      (use False in \<open>auto simp add: ikcp_update_def Let_def sl_def tf_def tf'_def\<close>)
qed

lemma kcb_inv_clock:
  "kcb_inv (k\<lparr>current := a, updated := b, ts_flush := c\<rparr>) = kcb_inv k"
  by (simp add: kcb_inv_def io_inv_def snd_inv_def rcv_inv_def ack_inv_def)

lemma update_ok:
  assumes "kcb_inv k" and "output_cb k"
  obtains k' sent where "ikcp_update k now = Some (k', sent)" "kcb_inv k'" "output_cb k'"
    "ackcount k' \<le> ackcount k" "\<forall>d \<in> set sent. length d \<le> unat (mtu k)"
proof -
  obtain u tf where u: "ikcp_update k now =
     (if itimediff now (if updated k = 0 then now else ts_flush k) \<ge> 0 \<or>
         itimediff now (if updated k = 0 then now else ts_flush k) < -10000
      then ikcp_flush (k\<lparr>current := now, updated := u, ts_flush := tf\<rparr>)
      else Some (k\<lparr>current := now, updated := u, ts_flush := tf\<rparr>, []))"
    by (rule update_elim)
  let ?k = "k\<lparr>current := now, updated := u, ts_flush := tf\<rparr>"
  have i: "kcb_inv ?k" "output_cb ?k" using assms by (simp_all add: kcb_inv_clock)
  obtain k' sent where f: "ikcp_flush ?k = Some (k', sent)" "kcb_inv k'" "output_cb k'"
    "ackcount k' \<le> ackcount ?k" "\<forall>d \<in> set sent. length d \<le> unat (mtu ?k)"
    by (rule flush_ok [OF i])
  show thesis
  proof (cases "itimediff now (if updated k = 0 then now else ts_flush k) \<ge> 0 \<or>
         itimediff now (if updated k = 0 then now else ts_flush k) < -10000")
    case True
    then show thesis using f that unfolding u by simp
  next
    case False
    then show thesis using i that [of ?k "[]"] unfolding u by simp
  qed
qed

section \<open>Input\<close>

lemma parse_una_loop_split:
  obtains pre where "b = pre @ fst (parse_una_loop una b n)"
    "snd (parse_una_loop una b n) = n - of_nat (length pre)"
    "\<forall>s \<in> set pre. itimediff una (seg_sn s) > 0"
proof (induction b arbitrary: n thesis)
  case Nil
  show ?case by (rule Nil [of "[]"]) simp_all
next
  case (Cons s b)
  show ?case
  proof (cases "itimediff una (seg_sn s) > 0")
    case True
    obtain pre where "b = pre @ fst (parse_una_loop una b (n - 1))"
      "snd (parse_una_loop una b (n - 1)) = n - 1 - of_nat (length pre)"
      "\<forall>s \<in> set pre. itimediff una (seg_sn s) > 0"
      by (rule Cons.IH)
    then show ?thesis using True by (intro Cons.prems [of "s # pre"]) (auto simp: algebra_simps)
  qed (rule Cons.prems [of "[]"], simp_all)
qed

lemma parse_ack_loop_cases:
  obtains (none) "parse_ack_loop sn b n = (b, n)"
  | (one) xs s ys where "b = xs @ s # ys" "parse_ack_loop sn b n = (xs @ ys, n - 1)" "seg_sn s = sn"
proof (induction b arbitrary: thesis)
  case Nil
  show ?case by (rule Nil(1)) simp
next
  case (Cons s b)
  show ?case
  proof (cases "sn = seg_sn s \<or> itimediff sn (seg_sn s) < 0")
    case True
    show ?thesis
    proof (cases "sn = seg_sn s")
      case True
      then show ?thesis by (intro Cons.prems(2) [of "[]" s b]) simp_all
    next
      case False
      then show ?thesis using True by (intro Cons.prems(1)) simp
    qed
  next
    case False
    consider (none) "parse_ack_loop sn b n = (b, n)"
      | (one) xs t ys where "b = xs @ t # ys" "parse_ack_loop sn b n = (xs @ ys, n - 1)" "seg_sn t = sn"
      by (rule Cons.IH)
    then show ?thesis
    proof cases
      case none
      then show ?thesis using False by (intro Cons.prems(1)) simp
    next
      case (one xs t ys)
      then show ?thesis using False by (intro Cons.prems(2) [of "s # xs" t ys]) simp_all
    qed
  qed
qed

lemma parse_fastack_loop_key [simp]: "map seg_key (parse_fastack_loop sn b) = map seg_key b"
  by (induction sn b rule: parse_fastack_loop.induct) (simp_all add: seg_key_def)

text \<open>What the acknowledgement side of \<open>ikcp_input\<close> may do: drop segments of \<open>snd_buf\<close> and write the
  estimator, the windows and \<open>snd_una\<close>.\<close>

definition ack_frame :: "ikcpcb \<Rightarrow> ikcpcb \<Rightarrow> bool" where
  "ack_frame k k' \<longleftrightarrow> (\<exists>b n una a1 a2 a3 rw pr.
     k' = k\<lparr>snd_buf := b, nsnd_buf := n, snd_una := una, rx_rttval := a1, rx_srtt := a2, rx_rto := a3,
            rmt_wnd := rw, probe := pr\<rparr> \<and>
     set (map seg_key b) \<subseteq> set (map seg_key (snd_buf k)) \<and>
     (nsnd_buf k = of_nat (length (snd_buf k)) \<longrightarrow> n = of_nat (length b)))"

lemma ack_frame_intro:
  assumes "k' = k\<lparr>snd_buf := b, nsnd_buf := n, snd_una := una, rx_rttval := a1, rx_srtt := a2,
      rx_rto := a3, rmt_wnd := rw, probe := pr\<rparr>"
    and "set (map seg_key b) \<subseteq> set (map seg_key (snd_buf k))"
    and "nsnd_buf k = of_nat (length (snd_buf k)) \<Longrightarrow> n = of_nat (length b)"
  shows "ack_frame k k'"
  unfolding ack_frame_def using assms by blast

text \<open>The segments and their count change, the rest stays.\<close>

lemma ack_frame_buf:
  assumes "set (map seg_key b) \<subseteq> set (map seg_key (snd_buf k))"
    and "nsnd_buf k = of_nat (length (snd_buf k)) \<Longrightarrow> n = of_nat (length b)"
  shows "ack_frame k (k\<lparr>snd_buf := b, nsnd_buf := n\<rparr>)"
  by (rule ack_frame_intro [where b = b and n = n and una = "snd_una k" and ?a1.0 = "rx_rttval k" and
        ?a2.0 = "rx_srtt k" and ?a3.0 = "rx_rto k" and rw = "rmt_wnd k" and pr = "probe k"])
    (use assms in simp_all)

text \<open>The segments stay, the rest changes.\<close>

lemma ack_frame_vars:
  "ack_frame k (k\<lparr>snd_una := una, rx_rttval := a1, rx_srtt := a2, rx_rto := a3, rmt_wnd := rw, probe := pr\<rparr>)"
  by (rule ack_frame_intro [where b = "snd_buf k" and n = "nsnd_buf k" and una = una and ?a1.0 = a1 and
        ?a2.0 = a2 and ?a3.0 = a3 and rw = rw and pr = pr]) simp_all

lemma ack_frame_trans: "ack_frame k k1 \<Longrightarrow> ack_frame k1 k2 \<Longrightarrow> ack_frame k k2"
proof -
  assume "ack_frame k k1" and "ack_frame k1 k2"
  then obtain b n una a1 a2 a3 rw pr b' n' una' a1' a2' a3' rw' pr' where
    1: "k1 = k\<lparr>snd_buf := b, nsnd_buf := n, snd_una := una, rx_rttval := a1, rx_srtt := a2, rx_rto := a3,
            rmt_wnd := rw, probe := pr\<rparr>"
      "set (map seg_key b) \<subseteq> set (map seg_key (snd_buf k))"
      "nsnd_buf k = of_nat (length (snd_buf k)) \<longrightarrow> n = of_nat (length b)"
    and 2: "k2 = k1\<lparr>snd_buf := b', nsnd_buf := n', snd_una := una', rx_rttval := a1', rx_srtt := a2',
            rx_rto := a3', rmt_wnd := rw', probe := pr'\<rparr>"
      "set (map seg_key b') \<subseteq> set (map seg_key (snd_buf k1))"
      "nsnd_buf k1 = of_nat (length (snd_buf k1)) \<longrightarrow> n' = of_nat (length b')"
    unfolding ack_frame_def by blast
  show ?thesis
    unfolding ack_frame_def
  proof (intro exI conjI)
    show "k2 = k\<lparr>snd_buf := b', nsnd_buf := n', snd_una := una', rx_rttval := a1', rx_srtt := a2',
            rx_rto := a3', rmt_wnd := rw', probe := pr'\<rparr>" using 2(1) 1(1) by simp
    show "set (map seg_key b') \<subseteq> set (map seg_key (snd_buf k))" using 1 2(2) by simp
    show "nsnd_buf k = of_nat (length (snd_buf k)) \<longrightarrow> n' = of_nat (length b')" using 1 2(3) by simp
  qed
qed

lemma ack_frame_refl: "ack_frame k k"
  using ack_frame_buf [of "snd_buf k" k "nsnd_buf k"] by simp

lemma ack_frame_una: "ack_frame k (ikcp_parse_una k una)"
proof -
  obtain pre where pre: "snd_buf k = pre @ fst (parse_una_loop una (snd_buf k) (nsnd_buf k))"
    "snd (parse_una_loop una (snd_buf k) (nsnd_buf k)) = nsnd_buf k - of_nat (length pre)"
    by (rule parse_una_loop_split)
  obtain b n where bn: "parse_una_loop una (snd_buf k) (nsnd_buf k) = (b, n)" by fastforce
  have "ack_frame k (k\<lparr>snd_buf := b, nsnd_buf := n\<rparr>)"
  proof (rule ack_frame_buf)
    have b: "snd_buf k = pre @ b" and n: "n = nsnd_buf k - of_nat (length pre)"
      using pre unfolding bn by simp_all
    show "set (map seg_key b) \<subseteq> set (map seg_key (snd_buf k))" unfolding b by auto
    show "n = of_nat (length b)" if "nsnd_buf k = of_nat (length (snd_buf k))"
      unfolding n that unfolding b by simp
  qed
  then show ?thesis by (simp add: ikcp_parse_una_def bn)
qed

lemma ack_frame_ack: "ack_frame k (ikcp_parse_ack k sn)"
proof (cases "itimediff sn (snd_una k) < 0 \<or> itimediff sn (snd_nxt k) \<ge> 0")
  case True
  then show ?thesis by (simp add: ikcp_parse_ack_def ack_frame_refl)
next
  case False
  obtain b n where bn: "parse_ack_loop sn (snd_buf k) (nsnd_buf k) = (b, n)" by fastforce
  then have "ack_frame k (k\<lparr>snd_buf := b, nsnd_buf := n\<rparr>)"
    by (cases rule: parse_ack_loop_cases [of sn "snd_buf k" "nsnd_buf k"]) (auto intro!: ack_frame_buf)
  with False show ?thesis by (simp add: ikcp_parse_ack_def bn)
qed

lemma ack_frame_fastack: "ack_frame k (ikcp_parse_fastack k sn ts)"
proof -
  have "length (parse_fastack_loop sn (snd_buf k)) = length (snd_buf k)"
    by (metis length_map parse_fastack_loop_key)
  then have "ack_frame k (k\<lparr>snd_buf := parse_fastack_loop sn (snd_buf k), nsnd_buf := nsnd_buf k\<rparr>)"
    by (intro ack_frame_buf) (simp_all only: parse_fastack_loop_key subset_refl)
  then show ?thesis by (simp add: ikcp_parse_fastack_def ack_frame_refl)
qed

lemma ack_frame_shrink: "ack_frame k (ikcp_shrink_buf k)"
  using ack_frame_vars [where k = k and ?a1.0 = "rx_rttval k" and ?a2.0 = "rx_srtt k" and
      ?a3.0 = "rx_rto k" and rw = "rmt_wnd k" and pr = "probe k"]
  by (simp add: ikcp_shrink_buf_def split: list.split)

lemma update_ack_ex: "\<exists>a1 a2 a3. ikcp_update_ack k rtt = k\<lparr>rx_rttval := a1, rx_srtt := a2, rx_rto := a3\<rparr>"
proof -
  have "ikcp_update_ack k rtt = k\<lparr>rx_rttval := rx_rttval (ikcp_update_ack k rtt),
      rx_srtt := rx_srtt (ikcp_update_ack k rtt), rx_rto := rx_rto (ikcp_update_ack k rtt)\<rparr>"
    by (simp add: ikcp_update_ack_def Let_def)
  then show ?thesis by blast
qed

lemma ack_frame_update_ack: "ack_frame k (ikcp_update_ack k rtt)"
proof -
  obtain a1 a2 a3 where u: "ikcp_update_ack k rtt = k\<lparr>rx_rttval := a1, rx_srtt := a2, rx_rto := a3\<rparr>"
    using update_ack_ex by blast
  show ?thesis
    using ack_frame_vars [where k = k and una = "snd_una k" and ?a1.0 = a1 and ?a2.0 = a2 and
        ?a3.0 = a3 and rw = "rmt_wnd k" and pr = "probe k"] by (simp add: u)
qed

lemma ack_frame_input_ack: "ack_frame k (fst (input_ack k h v))"
proof -
  define k1 where "k1 = (if itimediff (current k) (h_ts h) \<ge> 0
     then ikcp_update_ack k (word_of_int (itimediff (current k) (h_ts h))) else k)"
  have "ack_frame k k1" by (simp add: k1_def ack_frame_update_ack ack_frame_refl)
  then have "ack_frame k (ikcp_shrink_buf (ikcp_parse_ack k1 (h_sn h)))"
    using ack_frame_trans ack_frame_ack ack_frame_shrink by blast
  moreover have "fst (input_ack k h v) = ikcp_shrink_buf (ikcp_parse_ack k1 (h_sn h))"
    by (cases v) (simp add: input_ack_def Let_def flip: k1_def)
  ultimately show ?thesis by simp
qed

lemma ack_frame_inv:
  assumes "ack_frame k k'" and "kcb_inv k"
  shows "kcb_inv k' \<and> output_cb k' = output_cb k \<and> ackcount k' = ackcount k"
proof -
  obtain b n una a1 a2 a3 rw pr where
    1: "k' = k\<lparr>snd_buf := b, nsnd_buf := n, snd_una := una, rx_rttval := a1, rx_srtt := a2, rx_rto := a3,
            rmt_wnd := rw, probe := pr\<rparr>"
      "set (map seg_key b) \<subseteq> set (map seg_key (snd_buf k))"
      "nsnd_buf k = of_nat (length (snd_buf k)) \<longrightarrow> n = of_nat (length b)"
    using assms(1) unfolding ack_frame_def by blast
  have ok: "\<forall>s \<in> set (snd_buf k). data_ok (unat (mss k)) s \<and> seg_conv s = conv k \<and> seg_cmd s = IKCP_CMD_PUSH"
    using assms(2) by (simp add: kcb_inv_def snd_inv_def)
  have "\<forall>s \<in> set b. data_ok (unat (mss k)) s \<and> seg_conv s = conv k \<and> seg_cmd s = IKCP_CMD_PUSH"
  proof
    fix s assume "s \<in> set b"
    then obtain t where t: "t \<in> set (snd_buf k)" "seg_key s = seg_key t" using 1(2) by (auto 0 3)
    then have "seg_conv s = seg_conv t" "seg_cmd s = seg_cmd t" by (simp_all add: seg_key_def)
    then show "data_ok (unat (mss k)) s \<and> seg_conv s = conv k \<and> seg_cmd s = IKCP_CMD_PUSH"
      using ok t data_ok_key [OF t(2), of "unat (mss k)"] by simp
  qed
  then show ?thesis
    using assms(2) 1(3) by (simp add: 1(1) kcb_inv_def io_inv_def snd_inv_def rcv_inv_def ack_inv_def)
qed

end
