(* ===== verification/Guarded_Machine.thy ===== *)
theory Guarded_Machine
  imports Main
begin

text \<open>
  The contract of an interface whose calls may fail, stated once as the locale \<open>guarded_machine\<close>: from a state that
  satisfies the invariant, a call made under its precondition completes and re-establishes the invariant. A sequence of
  such calls then runs to its end. The KCP API, the rendezvous server and the coroutine scheduler meet it.
\<close>

text \<open>Run a list of calls; \<open>None\<close> as soon as one of them fails.\<close>

fun run_calls :: "('c \<Rightarrow> 's \<Rightarrow> 's option) \<Rightarrow> 'c list \<Rightarrow> 's \<Rightarrow> 's option" where
  "run_calls step [] s = Some s"
| "run_calls step (c # cs) s = (case step c s of None \<Rightarrow> None | Some s' \<Rightarrow> run_calls step cs s')"

text \<open>Every call of the list is made in a state that satisfies its precondition.\<close>

fun run_pre :: "('c \<Rightarrow> 's \<Rightarrow> 's option) \<Rightarrow> ('c \<Rightarrow> 's \<Rightarrow> bool) \<Rightarrow> 'c list \<Rightarrow> 's \<Rightarrow> bool" where
  "run_pre step pre [] s = True"
| "run_pre step pre (c # cs) s =
     (pre c s \<and> (case step c s of None \<Rightarrow> True | Some s' \<Rightarrow> run_pre step pre cs s'))"

locale guarded_machine =
  fixes step :: "'c \<Rightarrow> 's \<Rightarrow> 's option"
    and pre :: "'c \<Rightarrow> 's \<Rightarrow> bool"
    and inv :: "'s \<Rightarrow> bool"
  assumes step_ok: "inv s \<Longrightarrow> pre c s \<Longrightarrow> \<exists>s'. step c s = Some s' \<and> inv s'"
begin

lemma run_ok: "inv s \<Longrightarrow> run_pre step pre cs s \<Longrightarrow> \<exists>s'. run_calls step cs s = Some s' \<and> inv s'"
proof (induction cs arbitrary: s)
  case (Cons c cs)
  obtain s1 where s1: "step c s = Some s1" "inv s1"
    using step_ok [OF Cons.prems(1), of c] Cons.prems(2) by auto
  then show ?case using Cons.IH [OF s1(2)] Cons.prems(2) by simp
qed simp

end

end
