(* ===== verification/Kcp_Api.thy ===== *)
theory Kcp_Api
  imports Kcp_Invariant Guarded_Machine
begin

text \<open>
  The data half of \<open>ikcp_input\<close> keeps the invariant and completes on any bytes, and the API as a
  whole: \<open>kcp_step\<close> makes one call of the public interface, \<open>kcp_pre\<close> is the discipline its callers
  have to keep. They meet the contract \<open>guarded_machine\<close>, so that every
  disciplined sequence of calls runs to its end.
\<close>

section \<open>Acknowledgement list\<close>

text \<open>The doubling loop ends within its fuel whenever the size asked for is at most \<open>2 ^ 31\<close>.\<close>

lemma ack_grow_ge: "ack_grow f n b = Some b' \<Longrightarrow> n \<le> b'"
  by (induction f arbitrary: b) (auto split: if_splits)

lemma ack_grow_ok:
  assumes "unat n \<le> 2 ^ 31" and "j \<le> 31" and "32 \<le> j + f"
  shows "ack_grow f n (2 ^ j) \<noteq> None"
  using assms(2,3)
proof (induction f arbitrary: j)
  case (Suc f)
  have u: "unat (2 ^ j :: u32) = 2 ^ j"
  proof -
    have "(2::nat) ^ j < 2 ^ 32" using Suc.prems(1) by (intro power_strict_increasing) simp_all
    then show ?thesis using unat_of_nat_u32 [of "2 ^ j"] by simp
  qed
  show ?case
  proof (cases "2 ^ j < n")
    case True
    then have "(2::nat) ^ j < 2 ^ 31" using u assms(1) by (simp add: word_less_nat_alt)
    then have "j < 31" by (simp only: power_strict_increasing_iff)
    moreover have "push_bit 1 (2 ^ j :: u32) = 2 ^ Suc j" by (simp add: push_bit_eq_mult)
    ultimately show ?thesis using True Suc.IH [of "Suc j"] Suc.prems by (simp del: power_Suc)
  qed simp
qed simp

lemma ack_push_inv:
  assumes "ikcp_ack_push al k sn ts = Some k'" and "ack_inv k"
  shows "\<exists>l b. k' = k\<lparr>acklist := l, ackblock := b, ackcount := ackcount k + 1\<rparr> \<and> ack_inv k' \<and>
    l ! (2 * unat (ackcount k)) = sn \<and> l ! Suc (2 * unat (ackcount k)) = ts \<and>
    take (2 * unat (ackcount k)) l = take (2 * unat (ackcount k)) (acklist k) \<and>
    unat (ackcount k') = Suc (unat (ackcount k))"
proof -
  let ?p = "2 * unat (ackcount k)"
  obtain l b where l: "k' = k\<lparr>acklist := l[?p := sn, Suc ?p := ts], ackblock := b, ackcount := ackcount k + 1\<rparr>"
    "length l = 2 * unat b" "ackcount k + 1 \<le> b" "Suc ?p < length l" "take ?p l = take ?p (acklist k)"
  proof (cases "ackcount k + 1 > ackblock k")
    case False
    then show thesis using assms
      by (intro that [where l = "acklist k" and b = "ackblock k"])
        (auto simp: ikcp_ack_push_def Let_def ack_inv_def split: if_splits)
  next
    case True
    then obtain b where b: "ack_grow 30 (ackcount k + 1) 8 = Some b" "al (Req_acklist (unat b * 8))"
      using assms(1) by (auto simp: ikcp_ack_push_def Let_def bind_eq_Some_conv split: if_splits)
    have ge: "ackcount k + 1 \<le> b" using b(1) by (rule ack_grow_ge)
    have len: "length (acklist k) = 2 * unat (ackblock k)" "unat (ackcount k) \<le> unat (ackblock k)"
      using assms(2) by (simp_all add: ack_inv_def word_le_nat_alt)
    have "ackcount k + 1 \<noteq> 0" using True by auto
    then have "unat (ackcount k) = unat (ackcount k + 1) - 1" "unat (ackcount k + 1) > 0"
      using unat_pred_u32 [of "ackcount k + 1"] by (simp_all add: unat_gt_0)
    then have lt: "unat (ackcount k) < unat b" using ge by (simp add: word_le_nat_alt)
    let ?l = "take ?p (acklist k) @ replicate (2 * (unat b - unat (ackcount k))) 0"
    have ll: "length ?l = 2 * unat b" using len lt by simp
    show thesis
      by (rule that [where l = ?l and b = b])
        (use True assms(1) b ll ge lt len in \<open>auto simp: ikcp_ack_push_def Let_def split: if_splits\<close>)
  qed
  have "unat (ackcount k) < 2 ^ 32 - 1"
    using l(2,4) unat_u32_lt [of b] by simp
  then have "unat (ackcount k + 1) = Suc (unat (ackcount k))" by (rule unat_Suc_u32)
  then show ?thesis
    using l by (intro exI [of _ "l[?p := sn, Suc ?p := ts]"] exI [of _ b]) (simp add: ack_inv_def)
qed

lemma ack_push_total:
  assumes "\<And>r. al r" and "ack_inv k" and "unat (ackcount k) < 2 ^ 31"
  shows "ikcp_ack_push al k sn ts \<noteq> None"
proof -
  have u: "unat (ackcount k + 1) = Suc (unat (ackcount k))"
    using assms(3) by (intro unat_Suc_u32) simp
  have len: "length (acklist k) = 2 * unat (ackblock k)" "unat (ackcount k) \<le> unat (ackblock k)"
    using assms(2) by (simp_all add: ack_inv_def word_le_nat_alt)
  show ?thesis
  proof (cases "ackcount k + 1 > ackblock k")
    case False
    then show ?thesis using len u by (simp add: ikcp_ack_push_def Let_def word_less_nat_alt)
  next
    case True
    obtain b where b: "ack_grow 30 (ackcount k + 1) 8 = Some b"
      using ack_grow_ok [of "ackcount k + 1" 3 30] u assms(3) by fastforce
    have "unat (ackcount k) < unat b" using ack_grow_ge [OF b] u by (simp add: word_le_nat_alt)
    then show ?thesis using True b assms(1) len by (simp add: ikcp_ack_push_def Let_def)
  qed
qed

lemma parse_data_frame:
  "\<exists>r q nb nq nx. ikcp_parse_data k s =
    k\<lparr>rcv_buf := r, rcv_queue := q, nrcv_buf := nb, nrcv_que := nq, rcv_nxt := nx\<rparr>"
proof (cases rule: parse_data_cases [of k s])
  case dropped
  have "k = k\<lparr>rcv_buf := rcv_buf k, rcv_queue := rcv_queue k, nrcv_buf := nrcv_buf k,
     nrcv_que := nrcv_que k, rcv_nxt := rcv_nxt k\<rparr>" by simp
  then show ?thesis unfolding dropped by blast
next
  case repeated
  then show ?thesis using move_ready_frame [of k] by simp
next
  case (filed xs ys)
  then show ?thesis
    using move_ready_frame [of "k\<lparr>rcv_buf := xs @ s # ys, nrcv_buf := nrcv_buf k + 1\<rparr>"] by simp
qed

lemma parse_data_inv:
  assumes "rcv_inv k" and "data_ok (2 ^ 31 - 1) s"
  shows "rcv_inv (ikcp_parse_data k s)"
proof (cases rule: parse_data_cases [of k s])
  case (filed xs ys)
  let ?k = "k\<lparr>rcv_buf := xs @ s # ys, nrcv_buf := nrcv_buf k + 1\<rparr>"
  have "rcv_inv ?k" using assms filed(1) by (auto simp: rcv_inv_def)
  then show ?thesis using move_ready_inv [of ?k] unfolding filed(2) by simp
qed (use assms move_ready_inv in simp_all)

text \<open>Pushing a data segment: nothing, an acknowledgement, or an acknowledgement and the filing.\<close>

lemma input_push_elim:
  assumes "input_push al k h d = Some k'" and "ack_inv k"
  obtains (out) "k' = k" "\<not> itimediff (h_sn h) (rcv_nxt k + rcv_wnd k) < 0"
  | (acked) k1 l b where "ikcp_ack_push al k (h_sn h) (h_ts h) = Some k1" "ack_inv k1"
      "k1 = k\<lparr>acklist := l, ackblock := b, ackcount := ackcount k + 1\<rparr>"
      "unat (ackcount k1) = Suc (unat (ackcount k))"
      "k' = (if itimediff (h_sn h) (rcv_nxt k) \<ge> 0 then ikcp_parse_data k1 (seg_of_hdr h d) else k1)"
proof (cases "itimediff (h_sn h) (rcv_nxt k + rcv_wnd k) < 0")
  case False
  then show thesis using assms(1) by (intro out) (simp_all add: input_push_def)
next
  case True
  obtain k1 where k1: "ikcp_ack_push al k (h_sn h) (h_ts h) = Some k1"
    using assms(1) True by (cases "ikcp_ack_push al k (h_sn h) (h_ts h)") (auto simp: input_push_def)
  from ack_push_inv [OF k1 assms(2)]
  obtain l b where l: "k1 = k\<lparr>acklist := l, ackblock := b, ackcount := ackcount k + 1\<rparr>" "ack_inv k1"
    "unat (ackcount k1) = Suc (unat (ackcount k))"
    by (elim exE conjE) (rule that)
  have nx: "rcv_nxt k1 = rcv_nxt k" by (simp add: l(1))
  have "Some k' = (if itimediff (h_sn h) (rcv_nxt k) \<ge> 0 then
      if \<not> al (Req_segment (unat (h_len h))) then None
      else Some (ikcp_parse_data k1 (seg_of_hdr h d)) else Some k1)"
    using assms(1) True unfolding input_push_def k1 by (simp only: nx if_True bind.bind_lunit)
  then have "k' = (if itimediff (h_sn h) (rcv_nxt k) \<ge> 0 then ikcp_parse_data k1 (seg_of_hdr h d) else k1)"
    by (simp only: option.inject simp_thms option.distinct split: if_split_asm if_split)
  then show thesis by (rule acked [OF k1 l(2) l(1) l(3)])
qed

text \<open>What a segment does before its command is looked at.\<close>

definition input_pre :: "ikcpcb \<Rightarrow> ikcphdr \<Rightarrow> ikcpcb" where
  "input_pre k h = ikcp_shrink_buf (ikcp_parse_una (k\<lparr>rmt_wnd := ucast (h_wnd h)\<rparr>) (h_una h))"

lemma ack_frame_pre: "ack_frame k (input_pre k h)"
proof -
  have "ack_frame k (k\<lparr>rmt_wnd := ucast (h_wnd h)\<rparr>)"
    using ack_frame_vars [where k = k and una = "snd_una k" and ?a1.0 = "rx_rttval k" and
        ?a2.0 = "rx_srtt k" and ?a3.0 = "rx_rto k" and rw = "ucast (h_wnd h)" and pr = "probe k"] by simp
  then show ?thesis
    unfolding input_pre_def using ack_frame_trans ack_frame_una ack_frame_shrink by blast
qed

lemma input_seg_unfold:
  "input_seg al k h d v =
     (if (ucast (h_cmd h) :: u32) = IKCP_CMD_ACK then Some (input_ack (input_pre k h) h v)
      else if (ucast (h_cmd h) :: u32) = IKCP_CMD_PUSH
      then map_option (\<lambda>k. (k, v)) (input_push al (input_pre k h) h d)
      else if (ucast (h_cmd h) :: u32) = IKCP_CMD_WASK
      then Some ((input_pre k h)\<lparr>probe := probe (input_pre k h) OR IKCP_ASK_TELL\<rparr>, v)
      else Some (input_pre k h, v))"
  by (simp add: input_seg_def input_pre_def Let_def)

text \<open>A segment either only touches the acknowledgement side, or is a data segment that is pushed.\<close>

lemma input_seg_cases:
  assumes "input_seg al k h d v = Some (k2, v2)"
  obtains (ctl) "ack_frame k k2" "(ucast (h_cmd h) :: u32) \<noteq> IKCP_CMD_PUSH"
  | (push) "(ucast (h_cmd h) :: u32) = IKCP_CMD_PUSH" "input_push al (input_pre k h) h d = Some k2" "v2 = v"
proof (cases "(ucast (h_cmd h) :: u32) = IKCP_CMD_PUSH")
  case True
  then show thesis using assms by (intro push) (auto simp: input_seg_unfold ikcp_consts)
next
  case False
  have tell: "ack_frame k1 (k1\<lparr>probe := p\<rparr>)" for k1 p
    using ack_frame_vars [where k = k1 and una = "snd_una k1" and ?a1.0 = "rx_rttval k1" and
        ?a2.0 = "rx_srtt k1" and ?a3.0 = "rx_rto k1" and rw = "rmt_wnd k1" and pr = p] by simp
  have "ack_frame (input_pre k h) k2"
  proof (cases "(ucast (h_cmd h) :: u32) = IKCP_CMD_ACK")
    case True
    then have "k2 = fst (input_ack (input_pre k h) h v)" using assms by (simp add: input_seg_unfold)
    then show ?thesis by (simp add: ack_frame_input_ack)
  next
    case no_ack: False
    then show ?thesis using assms False tell ack_frame_refl
      by (cases "(ucast (h_cmd h) :: u32) = IKCP_CMD_WASK") (auto simp: input_seg_unfold)
  qed
  then show thesis using ack_frame_trans [OF ack_frame_pre] False by (intro ctl)
qed

lemma u32_nonneg_lt: "sint (x :: u32) \<ge> 0 \<Longrightarrow> unat x < 2 ^ 31"
proof (rule ccontr)
  assume "sint x \<ge> 0" and "\<not> unat x < 2 ^ 31"
  then have "2 ^ 31 \<le> uint x" by (simp add: uint_nat)
  moreover have "uint x < 2 ^ 32" using uint_lt2p [of x] by simp
  ultimately show False using \<open>sint x \<ge> 0\<close> by (simp add: sint_u32_eq)
qed

lemma input_push_inv:
  assumes "input_push al k h d = Some k'" and "kcb_inv k" and "length d = unat (h_len h)"
    and "sint (h_len h) \<ge> 0"
  shows "kcb_inv k' \<and> output_cb k' = output_cb k \<and> unat (ackcount k') \<le> Suc (unat (ackcount k))"
proof -
  have "ack_inv k" using assms(2) by (simp add: kcb_inv_def)
  with assms(1) show ?thesis
  proof (cases rule: input_push_elim)
    case out
    then show ?thesis using assms(2) by simp
  next
    case (acked k1 l b)
    have i1: "io_inv k1" "snd_inv k1" "rcv_inv k1"
      using assms(2) by (simp_all add: acked(3) kcb_inv_def io_inv_def snd_inv_def rcv_inv_def)
    have s: "data_ok (2 ^ 31 - 1) (seg_of_hdr h d)"
      using assms(3) u32_nonneg_lt [OF assms(4)] by (simp add: data_ok_def seg_of_hdr_def)
    obtain r q nb nq nx where pd: "ikcp_parse_data k1 (seg_of_hdr h d) =
        k1\<lparr>rcv_buf := r, rcv_queue := q, nrcv_buf := nb, nrcv_que := nq, rcv_nxt := nx\<rparr>" (is "_ = ?k2")
      using parse_data_frame by blast
    have "rcv_inv ?k2" using parse_data_inv [OF i1(3) s] by (simp only: pd)
    then have "kcb_inv ?k2"
      using i1(1,2) acked(2) by (simp add: kcb_inv_def io_inv_def snd_inv_def ack_inv_def)
    moreover have "ackcount ?k2 = ackcount k1" "output_cb ?k2 = output_cb k1" by simp_all
    moreover have "kcb_inv k1" "output_cb k1 = output_cb k"
      using i1 acked(2) by (simp_all add: kcb_inv_def acked(3))
    ultimately show ?thesis using acked(4) unfolding acked(5) pd by simp
  qed
qed

lemma input_push_total:
  assumes "\<And>r. al r" and "ack_inv k" and "unat (ackcount k) < 2 ^ 31"
  shows "input_push al k h d \<noteq> None"
proof -
  obtain k1 where "ikcp_ack_push al k (h_sn h) (h_ts h) = Some k1"
    using ack_push_total [of al k "h_sn h" "h_ts h"] assms by blast
  then show ?thesis using assms(1) by (simp add: input_push_def)
qed

lemma input_seg_inv:
  assumes "input_seg al k h d v = Some (k', v')" and "kcb_inv k" and "length d = unat (h_len h)"
    and "sint (h_len h) \<ge> 0"
  shows "kcb_inv k' \<and> output_cb k' = output_cb k \<and> unat (ackcount k') \<le> Suc (unat (ackcount k))"
  using assms(1)
proof (cases rule: input_seg_cases)
  case ctl
  then show ?thesis using ack_frame_inv [OF _ assms(2)] by simp
next
  case push
  have "kcb_inv (input_pre k h)" "output_cb (input_pre k h) = output_cb k"
    "ackcount (input_pre k h) = ackcount k"
    using ack_frame_inv [OF ack_frame_pre assms(2)] by simp_all
  then show ?thesis using input_push_inv [OF push(2) _ assms(3,4)] by simp
qed

lemma input_seg_total:
  assumes "\<And>r. al r" and "kcb_inv k" and "unat (ackcount k) < 2 ^ 31"
  shows "input_seg al k h d v \<noteq> None"
proof -
  have "ack_inv (input_pre k h)" "ackcount (input_pre k h) = ackcount k"
    using ack_frame_inv [OF ack_frame_pre assms(2)] by (simp_all add: kcb_inv_def)
  then have "input_push al (input_pre k h) h d \<noteq> None"
    using input_push_total [OF assms(1)] assms(3) by simp
  then show ?thesis unfolding input_seg_unfold by (simp del: not_None_eq)
qed

lemma input_loop_total:
  assumes al: "\<And>r. al r" and "kcb_inv k" and "unat (ackcount k) + length data div 24 \<le> 2 ^ 31"
  shows "\<exists>r k' v'. input_loop al data k v = Some (r, k', v') \<and> kcb_inv k' \<and> output_cb k' = output_cb k \<and>
    unat (ackcount k') \<le> unat (ackcount k) + length data div 24"
  using assms(2,3)
proof (induction data arbitrary: k v rule: length_induct)
  case (1 data)
  note loop = input_loop.simps [of al data k v]
  show ?case
  proof (cases "length data < 24")
    case True
    then have "input_loop al data k v = Some (0, k, v)" unfolding loop by (simp add: IKCP_OVERHEAD_def)
    then show ?thesis using "1.prems"(1) by (intro exI conjI) (assumption, simp_all)
  next
    case False
    then have "ikcp_decode_hdr data \<noteq> None" by (simp add: decode_hdr_None del: not_None_eq)
    then obtain h rest where h: "ikcp_decode_hdr data = Some (h, rest)" by auto
    have len: "length data = 24 + length rest" using h by (rule decode_hdr_Some)
    have div24: "length data div 24 = Suc (length rest div 24)" by (simp add: len)
    have n: "unat (ackcount k) < 2 ^ 31" using "1.prems"(2) div24 by simp
    show ?thesis
    proof (cases "h_conv h = conv k \<and> unat (h_len h) \<le> length rest \<and> sint (h_len h) \<ge> 0 \<and> known_cmd (h_cmd h)")
      case False
      then have "\<exists>r. input_loop al data k v = Some (r, k, v)"
        unfolding loop h by (simp add: IKCP_OVERHEAD_def len not_le) blast
      then obtain r where "input_loop al data k v = Some (r, k, v)" by blast
      then show ?thesis using "1.prems"(1) by (intro exI conjI) (assumption, simp_all)
    next
      case True
      let ?d = "take (unat (h_len h)) rest" and ?r = "drop (unat (h_len h)) rest"
      have dl: "length ?d = unat (h_len h)" using True by simp
      obtain k1 v1 where s: "input_seg al k h ?d v = Some (k1, v1)"
        using input_seg_total [of al k h ?d v] al "1.prems"(1) n by fastforce
      have k1: "kcb_inv k1" "output_cb k1 = output_cb k" "unat (ackcount k1) \<le> Suc (unat (ackcount k))"
        using input_seg_inv [OF s "1.prems"(1) dl] True by simp_all
      have r: "length ?r < length data" "length ?r div 24 \<le> length rest div 24"
        using len by (simp, intro div_le_mono, simp)
      have b: "unat (ackcount k1) + length ?r div 24 \<le> 2 ^ 31"
        using k1(3) r(2) "1.prems"(2) div24 by linarith
      obtain r' k' v' where e: "input_loop al ?r k1 v1 = Some (r', k', v')" "kcb_inv k'"
        "output_cb k' = output_cb k1" "unat (ackcount k') \<le> unat (ackcount k1) + length ?r div 24"
        using "1.IH" [rule_format, OF r(1) k1(1) b] by blast
      have "input_loop al data k v = Some (r', k', v')"
        using True e(1) unfolding loop h by (simp add: len s IKCP_OVERHEAD_def)
      then show ?thesis
        using e(2-4) k1(2,3) r(2) div24
        by (intro exI [of _ r'] exI [of _ k'] exI [of _ v']) simp
    qed
  qed
qed

lemma input_cwnd_ex: "\<exists>w n. input_cwnd k u = k\<lparr>cwnd := w, incr := n\<rparr>"
proof -
  have "input_cwnd k u = k\<lparr>cwnd := cwnd (input_cwnd k u), incr := incr (input_cwnd k u)\<rparr>"
    by (simp add: input_cwnd_def Let_def)
  then show ?thesis by blast
qed

lemma input_cwnd_inv: "kcb_inv (input_cwnd k u) = kcb_inv k"
  "output_cb (input_cwnd k u) = output_cb k" "ackcount (input_cwnd k u) = ackcount k"
proof -
  obtain w n where "input_cwnd k u = k\<lparr>cwnd := w, incr := n\<rparr>" using input_cwnd_ex by blast
  then show "kcb_inv (input_cwnd k u) = kcb_inv k"
    "output_cb (input_cwnd k u) = output_cb k" "ackcount (input_cwnd k u) = ackcount k"
    by (simp_all add: kcb_inv_def io_inv_def snd_inv_def rcv_inv_def ack_inv_def)
qed

text \<open>Any datagram at all: \<open>ikcp_input\<close> returns, with a well-formed control block.\<close>

lemma input_ok:
  assumes "\<And>r. al r" and "kcb_inv k"
    and "case data of None \<Rightarrow> True | Some bs \<Rightarrow> unat (ackcount k) + length bs div 24 \<le> 2 ^ 31"
  obtains r k' where "ikcp_input al k data = Some (r, k')" "kcb_inv k'" "output_cb k' = output_cb k"
    "unat (ackcount k') \<le> unat (ackcount k) + (case data of None \<Rightarrow> 0 | Some bs \<Rightarrow> length bs div 24)"
proof (cases data)
  case None
  then show thesis using assms(2) by (intro that [of "-1" k]) (simp_all add: ikcp_input_def)
next
  case (Some bs)
  show thesis
  proof (cases "c_int32 (int (length bs)) < sint IKCP_OVERHEAD")
    case True
    then show thesis using assms(2) Some by (intro that [of "-1" k]) (simp_all add: ikcp_input_def)
  next
    case False
    have b: "unat (ackcount k) + length bs div 24 \<le> 2 ^ 31" using assms(3) Some by simp
    obtain r k1 f m t where l: "input_loop al bs k (False, 0, 0) = Some (r, k1, f, m, t)" "kcb_inv k1"
      "output_cb k1 = output_cb k" "unat (ackcount k1) \<le> unat (ackcount k) + length bs div 24"
      using input_loop_total [of al k bs "(False, 0, 0)"] assms(1,2) b by (metis prod_cases3)
    define k2 where "k2 = (if f then ikcp_parse_fastack k1 m t else k1)"
    have "ack_frame k1 k2" by (simp add: k2_def ack_frame_fastack ack_frame_refl)
    from ack_frame_inv [OF this l(2)] have k2: "kcb_inv k2" "output_cb k2 = output_cb k1" "ackcount k2 = ackcount k1"
      by simp_all
    have "ikcp_input al k data = Some (if r \<noteq> 0 then (r, k1) else (0, input_cwnd k2 (snd_una k)))"
      using False l(1) Some by (simp add: ikcp_input_def Let_def k2_def)
    then show thesis
      using that [of r k1] that [of 0 "input_cwnd k2 (snd_una k)"] l k2 Some
      by (cases "r = 0") (simp_all add: input_cwnd_inv)
  qed
qed

section \<open>The API as a machine\<close>

datatype kcp_call =
    Call_send "byte list"
  | Call_recv int
  | Call_input "byte list option"
  | Call_update u32
  | Call_flush
  | Call_setmtu int
  | Call_interval int
  | Call_nodelay int int int int
  | Call_wndsize int int

text \<open>The log keeps every datagram handed to the output callback, with the MTU of that moment.\<close>

type_synonym kcp_log = "ikcpcb \<times> (u32 \<times> byte list) list"

definition logged :: "ikcpcb \<Rightarrow> (u32 \<times> byte list) list \<Rightarrow> ikcpcb \<times> byte list list \<Rightarrow> kcp_log" where
  "logged k log r = (fst r, log @ map (Pair (mtu k)) (snd r))"

fun kcp_step :: "allocator \<Rightarrow> kcp_call \<Rightarrow> kcp_log \<Rightarrow> kcp_log option" where
  "kcp_step al (Call_send buf) (k, log) =
     map_option (\<lambda>r. (snd r, log)) (ikcp_send al k buf (int (length buf)))"
| "kcp_step al (Call_recv len) (k, log) = map_option (\<lambda>r. (snd (snd r), log)) (ikcp_recv k len)"
| "kcp_step al (Call_input data) (k, log) = map_option (\<lambda>r. (snd r, log)) (ikcp_input al k data)"
| "kcp_step al (Call_update now) (k, log) = map_option (logged k log) (ikcp_update k now)"
| "kcp_step al Call_flush (k, log) = map_option (logged k log) (ikcp_flush k)"
| "kcp_step al (Call_setmtu m) (k, log) = Some (snd (ikcp_setmtu al k m), log)"
| "kcp_step al (Call_interval i) (k, log) = Some (snd (ikcp_interval k i), log)"
| "kcp_step al (Call_nodelay nd iv rs nc) (k, log) = Some (snd (ikcp_nodelay k nd iv rs nc), log)"
| "kcp_step al (Call_wndsize s r) (k, log) = Some (snd (ikcp_wndsize k s r), log)"

text \<open>What callers have to respect: the length of a message is an \<open>int\<close>, at most \<open>2 ^ 31\<close> acknowledgements pending between two flushes,
  and an MTU that neither makes the size of the buffer wrap nor is below a segment already queued.\<close>

fun kcp_pre :: "kcp_call \<Rightarrow> kcp_log \<Rightarrow> bool" where
  "kcp_pre (Call_send buf) (k, log) \<longleftrightarrow> int (length buf) < 2147483648"
| "kcp_pre (Call_input (Some bs)) (k, log) \<longleftrightarrow> int (unat (ackcount k) + length bs div 24) \<le> 2147483648"
| "kcp_pre (Call_setmtu m) (k, log) \<longleftrightarrow> m \<le> 1431655741 \<and>
     (\<forall>s \<in> set (snd_queue k @ snd_buf k). int (length (seg_data s)) + 24 \<le> m)"
| "kcp_pre _ _ \<longleftrightarrow> True"

definition kcp_ok :: "kcp_log \<Rightarrow> bool" where
  "kcp_ok s \<longleftrightarrow> kcb_inv (fst s) \<and> output_cb (fst s) \<and> (\<forall>(m, d) \<in> set (snd s). length d \<le> unat m)"

lemma setmtu_inv:
  assumes "kcb_inv k" and "\<forall>s \<in> set (snd_queue k @ snd_buf k). int (length (seg_data s)) + 24 \<le> m"
    and "m \<le> 1431655741"
  shows "kcb_inv (snd (ikcp_setmtu al k m)) \<and> output_cb (snd (ikcp_setmtu al k m)) = output_cb k"
proof (cases "m < 50 \<or> \<not> al (Req_buffer (unat ((word_of_int m + IKCP_OVERHEAD) * 3 :: u32)))")
  case True
  then show ?thesis using assms(1) by (auto simp: ikcp_setmtu_def Let_def)
next
  case False
  then have m: "50 \<le> m" by simp
  let ?m = "word_of_int m :: u32" and ?n = "nat m"
  have "unat (of_nat ?n :: u32) = ?n" by (rule unat_of_nat_u32) (use m assms(3) in \<open>simp add: nat_less_iff\<close>)
  then have um: "unat ?m = ?n" using m by simp
  have ss: "unat (?m - 24) = ?n - 24"
    using um m unat_sub [of 24 ?m] by (simp add: word_le_nat_alt)
  have "unat (?m + 24) = ?n + 24" using unat_add_u32 [of ?m 24] um m assms(3) by simp
  then have "unat ((?m + 24) * 3) = ((?n + 24) * 3) mod 4294967296"
    using unat_word_ariths(2) [of "?m + 24" 3] by (simp only:) simp
  moreover have "(?n + 24) * 3 < 4294967296"
  proof -
    have "j \<le> 1431655741 \<Longrightarrow> (j + 24) * 3 < 4294967296" for j :: nat by simp
    then show ?thesis using assms(3) by simp
  qed
  ultimately have "unat ((?m + 24) * 3) = (?n + 24) * 3" by simp
  then have b: "?n \<le> unat ((?m + 24) * 3)" by simp
  have q: "\<forall>s \<in> set (snd_queue k) \<union> set (snd_buf k). length (seg_data s) \<le> ?n - 24"
    using assms(2) m by force
  have "ikcp_setmtu al k m = (0, k\<lparr>mtu := ?m, mss := ?m - 24, buffer := unat ((?m + 24) * 3)\<rparr>)"
    using False m by (simp add: ikcp_setmtu_def IKCP_OVERHEAD_def)
  moreover have "kcb_inv (k\<lparr>mtu := ?m, mss := ?m - 24, buffer := unat ((?m + 24) * 3)\<rparr>)"
    using assms(1,3) q b m um ss
    by (auto simp: kcb_inv_def io_inv_def snd_inv_def rcv_inv_def ack_inv_def data_ok_def nat_less_iff)
  ultimately show ?thesis by simp
qed

lemma config_inv:
  "kcb_inv (snd (ikcp_interval k i)) = kcb_inv k" "output_cb (snd (ikcp_interval k i)) = output_cb k"
  "kcb_inv (snd (ikcp_nodelay k nd iv rs nc)) = kcb_inv k"
  "output_cb (snd (ikcp_nodelay k nd iv rs nc)) = output_cb k"
  "kcb_inv (snd (ikcp_wndsize k s r)) = kcb_inv k" "output_cb (snd (ikcp_wndsize k s r)) = output_cb k"
  by (simp_all add: ikcp_interval_def ikcp_nodelay_def ikcp_wndsize_def Let_def
      kcb_inv_def io_inv_def snd_inv_def rcv_inv_def ack_inv_def)

lemma kcp_step_ok:
  assumes "\<And>r. al r" and "kcp_ok s" and "kcp_pre c s"
  shows "\<exists>s'. kcp_step al c s = Some s' \<and> kcp_ok s'"
proof -
  obtain k log where s: "s = (k, log)" by (cases s)
  have k: "kcb_inv k" "output_cb k" and log: "\<forall>(m, d) \<in> set log. length d \<le> unat m"
    using assms(2) by (auto simp: kcp_ok_def s)
  show ?thesis
  proof (cases c)
    case (Call_send buf)
    obtain r k' where "ikcp_send al k buf (int (length buf)) = Some (r, k')"
      using send_total [of al k] assms(1) k(1) by blast
    with send_inv [OF this k(1)] k log show ?thesis by (simp add: Call_send s kcp_ok_def)
  next
    case (Call_recv len)
    obtain r bs k' where "ikcp_recv k len = Some (r, bs, k')" using recv_total by blast
    with recv_inv [OF this k(1)] k log show ?thesis by (simp add: Call_recv s kcp_ok_def)
  next
    case (Call_input data)
    have "case data of None \<Rightarrow> True | Some bs \<Rightarrow> unat (ackcount k) + length bs div 24 \<le> 2 ^ 31"
      using assms(3) by (cases data) (simp_all add: Call_input s)
    from input_ok [of al k data, OF _ k(1) this] assms(1)
    obtain r k' where "ikcp_input al k data = Some (r, k')" "kcb_inv k'" "output_cb k' = output_cb k"
      by metis
    then show ?thesis using k log by (simp add: Call_input s kcp_ok_def)
  next
    case (Call_update now)
    obtain k' sent where "ikcp_update k now = Some (k', sent)" "kcb_inv k'" "output_cb k'"
      "\<forall>d \<in> set sent. length d \<le> unat (mtu k)"
      by (rule update_ok [OF k, of now])
    then show ?thesis using log by (auto simp: Call_update s kcp_ok_def logged_def)
  next
    case Call_flush
    obtain k' sent where "ikcp_flush k = Some (k', sent)" "kcb_inv k'" "output_cb k'"
      "\<forall>d \<in> set sent. length d \<le> unat (mtu k)"
      by (rule flush_ok [OF k])
    then show ?thesis using log by (auto simp: Call_flush s kcp_ok_def logged_def)
  next
    case (Call_setmtu m)
    have "kcb_inv (snd (ikcp_setmtu al k m)) \<and> output_cb (snd (ikcp_setmtu al k m)) = output_cb k"
      using assms(3) by (intro setmtu_inv [OF k(1)]) (simp_all add: Call_setmtu s)
    then show ?thesis using k log by (simp add: Call_setmtu s kcp_ok_def)
  qed (use k log in \<open>simp_all add: s kcp_ok_def config_inv\<close>)
qed

text \<open>With an allocator that may fail, the calls that complete keep the invariant all the same.\<close>

lemma input_inv:
  assumes "ikcp_input al k data = Some (r, k')" and "kcb_inv k"
  shows "kcb_inv k' \<and> output_cb k' = output_cb k"
proof (cases data)
  case None
  then show ?thesis using assms by (simp add: ikcp_input_def)
next
  case (Some bs)
  show ?thesis
  proof (cases "c_int32 (int (length bs)) < sint IKCP_OVERHEAD")
    case True
    then show ?thesis using assms Some by (simp add: ikcp_input_def)
  next
    case False
    obtain r1 k1 f m t where l: "input_loop al bs k (False, 0, 0) = Some (r1, k1, f, m, t)"
      using assms(1) Some False by (auto simp: ikcp_input_def Let_def split: option.splits)
    have k1: "kcb_inv k1 \<and> output_cb k1 = output_cb k"
      using l by (rule input_loop_keeps) (use assms(2) input_seg_inv in auto)
    define k2 where "k2 = (if f then ikcp_parse_fastack k1 m t else k1)"
    have "ack_frame k1 k2" by (simp add: k2_def ack_frame_fastack ack_frame_refl)
    from ack_frame_inv [OF this] k1 have k2: "kcb_inv k2" "output_cb k2 = output_cb k" by simp_all
    have "Some (r, k') = Some (if r1 \<noteq> 0 then (r1, k1) else (0, input_cwnd k2 (snd_una k)))"
      using assms(1) False l Some by (cases "r1 = 0") (simp_all add: ikcp_input_def k2_def)
    then show ?thesis using k1 k2 by (cases "r1 = 0") (simp_all add: input_cwnd_inv)
  qed
qed

lemma kcp_step_keeps:
  assumes "kcp_step al c s = Some s'" and "kcp_ok s" and "kcp_pre c s"
  shows "kcp_ok s'"
proof -
  obtain k log where s: "s = (k, log)" by (cases s)
  have k: "kcb_inv k" and o: "output_cb k" and log: "\<forall>(m, d) \<in> set log. length d \<le> unat m"
    using assms(2) by (auto simp: kcp_ok_def s)
  consider buf where "c = Call_send buf" | data where "c = Call_input data"
    | "kcp_step al c s = kcp_step (\<lambda>_. True) c s" | m where "c = Call_setmtu m"
    by (cases c) (auto simp: s)
  then show ?thesis
  proof cases
    case (1 buf)
    then obtain r k' where "ikcp_send al k buf (int (length buf)) = Some (r, k')" "s' = (k', log)"
      using assms(1) by (auto simp: s)
    then show ?thesis using send_inv [OF _ k] o log by (simp add: kcp_ok_def)
  next
    case (2 data)
    then obtain r k' where "ikcp_input al k data = Some (r, k')" "s' = (k', log)"
      using assms(1) by (auto simp: s)
    then show ?thesis using input_inv [OF _ k] o log by (simp add: kcp_ok_def)
  next
    case 3
    moreover have "\<exists>s'. kcp_step (\<lambda>_. True) c s = Some s' \<and> kcp_ok s'"
      by (rule kcp_step_ok [OF _ assms(2,3)]) simp
    ultimately show ?thesis using assms(1) by auto
  next
    case (4 m)
    then show ?thesis using assms(1,3) setmtu_inv [OF k] o log by (auto simp: s kcp_ok_def)
  qed
qed

lemma create_ok: "ikcp_create al cv = Some k \<Longrightarrow> kcp_ok (ikcp_setoutput k True, [])"
  by (auto simp: ikcp_create_def ikcp_setoutput_def kcp_ok_def kcb_inv_def io_inv_def snd_inv_def
      rcv_inv_def ack_inv_def ikcp_consts split: if_splits)

interpretation api: guarded_machine "kcp_step (\<lambda>_. True)" kcp_pre kcp_ok
  by unfold_locales (rule kcp_step_ok, simp_all)

end
