(* ===== verification/Kcp_Transport.thy ===== *)
theory Kcp_Transport
  imports Kcp_Api
begin

text \<open>
  Two KCP peers and the network between them. Peer A's datagrams reach peer B late, repeatedly, in
  any order or never; what A receives is arbitrary. The abstract specification is a reliable
  channel: the messages B hands to its user are, in order and byte for byte, a prefix of those A's
  user sent. The refinement keeps the history of fragments A has queued, numbered by their
  position, and shows that the queues of both peers are parts of that history.
\<close>

section \<open>The history of fragments\<close>

type_synonym frag = "u32 \<times> byte list"

definition fd :: "ikcpseg \<Rightarrow> frag" where
  "fd s = (seg_frg s, seg_data s)"

text \<open>A segment whose number is a position of the history and which carries that fragment.\<close>

definition genuine :: "frag list \<Rightarrow> ikcpseg \<Rightarrow> bool" where
  "genuine H s \<longleftrightarrow> unat (seg_sn s) < length H \<and> fd s = H ! unat (seg_sn s)"

text \<open>The fragments of one message: numbered down to zero, fewer than 128 of them.\<close>

definition frag_group :: "frag list \<Rightarrow> bool" where
  "frag_group g \<longleftrightarrow> g \<noteq> [] \<and> length g < 128 \<and> map fst g = map of_nat (rev [0..<length g])"

definition msg_of :: "frag list \<Rightarrow> byte list" where
  "msg_of g = concat (map snd g)"

lemma genuine_append: "genuine H s \<Longrightarrow> genuine (H @ H') s"
  by (simp add: genuine_def nth_append)

lemma genuine_key: "seg_key s = seg_key t \<Longrightarrow> genuine H s = genuine H t"
  by (simp add: genuine_def fd_def seg_key_def)

lemma genuine_take: "genuine (take j H) s \<Longrightarrow> genuine H s"
  by (metis append_take_drop_id genuine_append)

lemma group_frg: "frag_group g \<Longrightarrow> f \<in> set g \<Longrightarrow> unat (fst f) < 128"
proof -
  assume g: "frag_group g" and f: "f \<in> set g"
  then have "fst f \<in> set (map of_nat (rev [0..<length g]))"
    using image_eqI [of "fst f" fst f "set g"] by (simp add: frag_group_def flip: set_map)
  then show ?thesis using g by (auto simp: frag_group_def unat_of_nat_u32)
qed

lemma groups_frg:
  assumes "\<forall>g \<in> set HS. frag_group g" and "i < length (concat HS)"
  shows "unat (fst (concat HS ! i)) < 128"
proof -
  have "concat HS ! i \<in> set (concat HS)" using assms(2) by (rule nth_mem)
  then obtain g where "g \<in> set HS" "concat HS ! i \<in> set g" by auto
  then show ?thesis using assms(1) group_frg by blast
qed

lemma length_groups: "\<forall>g \<in> set HS. frag_group g \<Longrightarrow> length (concat HS) \<le> 127 * length HS"
  by (induction HS) (auto simp: frag_group_def)

lemma drop_concat: "drop (length (concat (take j xs))) (concat xs) = concat (drop j xs)"
proof -
  have "concat xs = concat (take j xs) @ concat (drop j xs)"
    by (simp flip: concat_append)
  then show ?thesis by (metis append_eq_conv_conj)
qed

text \<open>What \<open>ikcp_send\<close> appends is one group.\<close>

lemma msg_frags_group:
  assumes "0 < m" and "piece_count m (length buf) < 128"
  shows "frag_group (map fd (msg_frags 0 m (piece_count m (length buf)) buf))"
    and "msg_of (map fd (msg_frags 0 m (piece_count m (length buf)) buf)) = buf"
proof -
  let ?n = "piece_count m (length buf)" and ?fs = "msg_frags 0 m (piece_count m (length buf)) buf"
  have "map fst (map fd ?fs) = map seg_frg ?fs" by (simp add: fd_def comp_def)
  moreover have "?fs \<noteq> []"
    using piece_count_pos [OF assms(1), of "length buf"] by (simp flip: length_greater_0_conv)
  ultimately show "frag_group (map fd ?fs)"
    using assms(2) by (simp add: frag_group_def map_frg_msg_frags)
  have "map snd (map fd ?fs) = map seg_data ?fs" by (simp add: fd_def comp_def)
  then show "msg_of (map fd ?fs) = buf"
    using concat_pieces [OF piece_count_enough [OF assms(1)]] by (simp add: msg_of_def map_data_msg_frags)
qed

section \<open>The sender\<close>

definition sndr :: "frag list \<Rightarrow> ikcpcb \<Rightarrow> bool" where
  "sndr H k \<longleftrightarrow> stream_mode k = 0 \<and> (\<exists>j. snd_nxt k = of_nat j \<and> j \<le> length H \<and>
     map fd (snd_queue k) = drop j H \<and> (\<forall>s \<in> set (snd_buf k). genuine (take j H) s))"

text \<open>What keeps the sender's relation to the history.\<close>

definition snd_frame :: "ikcpcb \<Rightarrow> ikcpcb \<Rightarrow> bool" where
  "snd_frame k k' \<longleftrightarrow> conv k' = conv k \<and> stream_mode k' = stream_mode k \<and> snd_nxt k' = snd_nxt k \<and>
     snd_queue k' = snd_queue k \<and> seg_key ` set (snd_buf k') \<subseteq> seg_key ` set (snd_buf k)"

lemma snd_frame_refl: "snd_frame k k"
  by (simp add: snd_frame_def)

lemma snd_frame_trans: "snd_frame k k1 \<Longrightarrow> snd_frame k1 k2 \<Longrightarrow> snd_frame k k2"
proof -
  assume 1: "snd_frame k k1" and 2: "snd_frame k1 k2"
  have "seg_key ` set (snd_buf k2) \<subseteq> seg_key ` set (snd_buf k)"
    by (rule subset_trans [of _ "seg_key ` set (snd_buf k1)"]) (use 1 2 in \<open>simp_all add: snd_frame_def\<close>)
  with 1 2 show ?thesis by (simp add: snd_frame_def)
qed

lemma snd_frame_sndr: "snd_frame k k' \<Longrightarrow> sndr H k \<Longrightarrow> sndr H k'"
proof -
  assume f: "snd_frame k k'" and "sndr H k"
  then obtain j where j: "stream_mode k = 0" "snd_nxt k = of_nat j" "j \<le> length H"
    "map fd (snd_queue k) = drop j H" "\<forall>s \<in> set (snd_buf k). genuine (take j H) s"
    unfolding sndr_def by blast
  have "genuine (take j H) s" if "s \<in> set (snd_buf k')" for s
  proof -
    have "seg_key ` set (snd_buf k') \<subseteq> seg_key ` set (snd_buf k)" using f by (simp add: snd_frame_def)
    then have "seg_key s \<in> seg_key ` set (snd_buf k)" using that by (rule subsetD [OF _ imageI])
    then obtain t where "t \<in> set (snd_buf k)" "seg_key s = seg_key t" by (rule imageE)
    then show ?thesis using j(5) genuine_key by blast
  qed
  then show ?thesis using f j unfolding sndr_def snd_frame_def by (intro conjI exI [of _ j]) simp_all
qed

lemma ack_frame_snd: "ack_frame k k' \<Longrightarrow> snd_frame k k'"
  unfolding ack_frame_def snd_frame_def by (elim exE conjE) simp

lemma input_push_snd:
  assumes "input_push al k h d = Some k'" and "ack_inv k"
  shows "snd_frame k k'"
  using assms
proof (cases rule: input_push_elim)
  case (acked k1 l b)
  obtain r q nb nq nx where pd: "ikcp_parse_data k1 (seg_of_hdr h d) =
      k1\<lparr>rcv_buf := r, rcv_queue := q, nrcv_buf := nb, nrcv_que := nq, rcv_nxt := nx\<rparr>"
    using parse_data_frame by blast
  show ?thesis unfolding acked(5) pd by (simp add: acked(3) snd_frame_def)
qed (simp add: snd_frame_refl)

lemma input_seg_snd:
  assumes "input_seg al k h d v = Some (k', v')" and "kcb_inv k"
  shows "snd_frame k k'"
  using assms(1)
proof (cases rule: input_seg_cases)
  case ctl
  then show ?thesis by (intro ack_frame_snd)
next
  case push
  have "ack_inv (input_pre k h)"
    using ack_frame_inv [OF ack_frame_pre assms(2)] by (simp add: kcb_inv_def)
  from input_push_snd [OF push(2) this] show ?thesis
    by (rule snd_frame_trans [OF ack_frame_snd [OF ack_frame_pre]])
qed

text \<open>The result of \<open>ikcp_input\<close> is that of its loop, up to the windows and the fast-resend counters.\<close>

lemma ikcp_input_elim:
  assumes "ikcp_input al k data = Some (r, k')"
  obtains (skip) "k' = k"
  | (loop) bs r1 k1 v1 where "data = Some bs" "input_loop al bs k (False, 0, 0) = Some (r1, k1, v1)"
      "k' = k1 \<or> (\<exists>k2 w n. ack_frame k1 k2 \<and> k' = k2\<lparr>cwnd := w, incr := n\<rparr>)"
proof (cases data)
  case None
  then show thesis using assms by (intro skip) (simp add: ikcp_input_def)
next
  case (Some bs)
  show thesis
  proof (cases "c_int32 (int (length bs)) < sint IKCP_OVERHEAD")
    case True
    then show thesis using assms Some by (intro skip) (simp add: ikcp_input_def)
  next
    case False
    obtain r1 k1 f m t where l: "input_loop al bs k (False, 0, 0) = Some (r1, k1, f, m, t)"
      using assms Some False by (auto simp: ikcp_input_def Let_def split: option.splits)
    define k2 where "k2 = (if f then ikcp_parse_fastack k1 m t else k1)"
    have f: "ack_frame k1 k2" by (simp add: k2_def ack_frame_fastack ack_frame_refl)
    obtain w n where c: "input_cwnd k2 (snd_una k) = k2\<lparr>cwnd := w, incr := n\<rparr>" using input_cwnd_ex by blast
    have "Some (r, k') = Some (if r1 \<noteq> 0 then (r1, k1) else (0, input_cwnd k2 (snd_una k)))"
      using assms False l Some by (cases "r1 = 0") (simp_all add: ikcp_input_def k2_def)
    then have "k' = k1 \<or> k' = k2\<lparr>cwnd := w, incr := n\<rparr>" unfolding c by (cases "r1 = 0") simp_all
    then show thesis using loop [OF Some l] f by blast
  qed
qed

lemma input_snd:
  assumes "ikcp_input al k data = Some (r, k')" and "kcb_inv k"
  shows "snd_frame k k'"
  using assms(1)
proof (cases rule: ikcp_input_elim)
  case skip
  then show ?thesis by (simp add: snd_frame_refl)
next
  case (loop bs r1 k1 v1)
  have "kcb_inv k1 \<and> snd_frame k k1"
    using loop(2)
  proof (rule input_loop_keeps)
    show "kcb_inv k \<and> snd_frame k k" using assms(2) snd_frame_refl by simp
  next
    fix ka h d v k2 v2
    assume "kcb_inv ka \<and> snd_frame k ka" "input_seg al ka h d v = Some (k2, v2)" "length d = unat (h_len h)"
      "0 \<le> sint (h_len h)"
    then show "kcb_inv k2 \<and> snd_frame k k2"
      using input_seg_inv [of al ka h d v k2 v2] input_seg_snd [of al ka h d v k2 v2] snd_frame_trans by blast
  qed
  then have 1: "snd_frame k k1" by simp
  from loop(3) show ?thesis
  proof (elim disjE exE conjE)
    fix k2 w n assume "ack_frame k1 k2" "k' = k2\<lparr>cwnd := w, incr := n\<rparr>"
    moreover have "snd_frame k2 (k2\<lparr>cwnd := w, incr := n\<rparr>)" by (simp add: snd_frame_def)
    ultimately show ?thesis using 1 ack_frame_snd snd_frame_trans by blast
  qed (use 1 in simp)
qed

lemma recv_frame:
  assumes "ikcp_recv k len = Some (r, bs, k')"
  shows "\<exists>rb q nb nq nx p. k' = k\<lparr>rcv_buf := rb, rcv_queue := q, nrcv_buf := nb, nrcv_que := nq,
    rcv_nxt := nx, probe := p\<rparr>"
proof -
  obtain m q where f: "first_msg (rcv_queue k) = (m, q)" by (cases "first_msg (rcv_queue k)")
  have self: "\<exists>rb q nb nq nx p. k = k\<lparr>rcv_buf := rb, rcv_queue := q, nrcv_buf := nb, nrcv_que := nq,
      rcv_nxt := nx, probe := p\<rparr>"
    by (rule exI [of _ "rcv_buf k"], rule exI [of _ "rcv_queue k"], rule exI [of _ "nrcv_buf k"],
        rule exI [of _ "nrcv_que k"], rule exI [of _ "rcv_nxt k"], rule exI [of _ "probe k"]) simp
  define k1 where "k1 = (if len < 0 then k else k\<lparr>rcv_queue := q, nrcv_que := nrcv_que k - of_nat (length m)\<rparr>)"
  obtain rb qq nb nq nx where mv: "move_ready k1 = k1\<lparr>rcv_buf := rb, rcv_queue := qq, nrcv_buf := nb,
      nrcv_que := nq, rcv_nxt := nx\<rparr>"
    using move_ready_frame [of k1] by blast
  have "k1\<lparr>rcv_buf := rb, rcv_queue := qq, nrcv_buf := nb, nrcv_que := nq, rcv_nxt := nx\<rparr> =
     k\<lparr>rcv_buf := rb, rcv_queue := qq, nrcv_buf := nb, nrcv_que := nq, rcv_nxt := nx\<rparr>"
    by (simp add: k1_def)
  then have mv: "move_ready k1 = k\<lparr>rcv_buf := rb, rcv_queue := qq, nrcv_buf := nb, nrcv_que := nq, rcv_nxt := nx\<rparr>"
    using mv by simp
  define p where "p = probe (recv_tell (move_ready k1) (nrcv_que k \<ge> rcv_wnd k))"
  have tell: "recv_tell (move_ready k1) (nrcv_que k \<ge> rcv_wnd k) =
      k\<lparr>rcv_buf := rb, rcv_queue := qq, nrcv_buf := nb, nrcv_que := nq, rcv_nxt := nx, probe := p\<rparr>"
    by (simp add: p_def recv_tell_def mv)
  have "k' = k \<or> k' = recv_tell (move_ready k1) (nrcv_que k \<ge> rcv_wnd k)"
    using assms unfolding recv_outcome [OF f] k1_def [symmetric]
    by (simp only: option.inject prod.inject split: if_split_asm) simp_all
  then show ?thesis
  proof
    assume "k' = k" then show ?thesis using self by simp
  next
    assume "k' = recv_tell (move_ready k1) (nrcv_que k \<ge> rcv_wnd k)"
    then show ?thesis unfolding tell by blast
  qed
qed

section \<open>What the sender puts on the wire\<close>

text \<open>A control segment, or a data segment of the history.\<close>

definition true_pkt :: "frag list \<Rightarrow> ikcpseg \<times> byte list \<Rightarrow> bool" where
  "true_pkt H sp \<longleftrightarrow> seg_cmd (fst sp) \<in> {IKCP_CMD_ACK, IKCP_CMD_WASK, IKCP_CMD_WINS} \<or>
     (seg_cmd (fst sp) = IKCP_CMD_PUSH \<and> genuine H (fst sp) \<and> snd sp = seg_data (fst sp))"

lemma true_pkt_append: "true_pkt H sp \<Longrightarrow> true_pkt (H @ H') sp"
  by (auto simp: true_pkt_def genuine_append)

lemma stamp_genuine:
  assumes "j + length m \<le> length H" and "length H < 2 ^ 32" and "map fd m = take (length m) (drop j H)"
    and "s \<in> set (stamp k w (of_nat j) m)"
  shows "genuine (take (j + length m) H) s"
proof -
  obtain i where i: "i < length m" "s = stamp k w (of_nat j) m ! i"
    using assms(4) by (auto simp: in_set_conv_nth)
  have sn: "seg_sn s = of_nat (j + i)" and fds: "fd s = fd (m ! i)"
    using stamp_nth [OF i(1), of k w "of_nat j"] by (simp_all add: i(2) fd_def)
  have "unat (seg_sn s) = j + i" unfolding sn by (rule unat_of_nat_u32) (use assms(1,2) i(1) in linarith)
  moreover have "fd (m ! i) = H ! (j + i)"
  proof -
    have "fd (m ! i) = map fd m ! i" using i(1) by simp
    also have "\<dots> = H ! (j + i)" unfolding assms(3) using i(1) assms(1) by simp
    finally show ?thesis .
  qed
  ultimately show ?thesis using i(1) assms(1) fds by (simp add: genuine_def)
qed

lemma flush_sndr:
  assumes "flush_post k k' sent m" and "sndr H k" and "kcb_inv k" and "length H < 2 ^ 32"
  shows "sndr H k' \<and> (\<forall>d \<in> set sent. dgram (true_pkt H) d)"
proof -
  obtain j where j: "stream_mode k = 0" "snd_nxt k = of_nat j" "j \<le> length H"
    "map fd (snd_queue k) = drop j H" "\<forall>s \<in> set (snd_buf k). genuine (take j H) s"
    using assms(2) unfolding sndr_def by blast
  let ?b = "snd_buf k @ stamp k (ikcp_wnd_unused k) (snd_nxt k) m"
  have q: "snd_queue k = m @ snd_queue k'" and keys: "map seg_key (snd_buf k') = map seg_key ?b"
    and nx: "snd_nxt k' = of_nat (j + length m)" and st: "stream_mode k' = 0"
    using assms(1) j(1,2) by (simp_all add: flush_post_def flush_frame_def)
  have len: "j + length m \<le> length H"
    using arg_cong [OF j(4), of length] j(3) q by simp
  have m: "map fd m = take (length m) (drop j H)" and r: "map fd (snd_queue k') = drop (j + length m) H"
    using j(4) unfolding q map_append append_eq_conv_conj
    by (simp_all add: add.commute)
  have b: "\<forall>s \<in> set ?b. genuine (take (j + length m) H) s"
  proof
    fix s assume "s \<in> set ?b"
    then consider "s \<in> set (snd_buf k)" | "s \<in> set (stamp k (ikcp_wnd_unused k) (of_nat j) m)"
      by (auto simp: j(2))
    then show "genuine (take (j + length m) H) s"
    proof cases
      case 1
      then have "genuine (take j H @ take (length m) (drop j H)) s" using j(5) genuine_append by blast
      then show ?thesis by (simp add: take_add)
    qed (rule stamp_genuine [OF len assms(4) m])
  qed
  have b': "\<forall>s \<in> set (snd_buf k'). genuine (take (j + length m) H) s"
  proof
    fix s assume "s \<in> set (snd_buf k')"
    then have "seg_key s \<in> set (map seg_key (snd_buf k'))" by simp
    then have "seg_key s \<in> seg_key ` set ?b" unfolding keys set_map .
    then obtain t where "t \<in> set ?b" "seg_key s = seg_key t" by (rule imageE)
    then show "genuine (take (j + length m) H) s" using b genuine_key by blast
  qed
  have push: "\<forall>s \<in> set (snd_buf k'). seg_cmd s = IKCP_CMD_PUSH"
    using flush_post_inv [OF assms(1,3)] by (simp add: kcb_inv_def snd_inv_def)
  have "true_pkt H sp" if "sendable (conv k) (snd_buf k') sp" for sp
    using that unfolding sendable_def
  proof
    assume "\<exists>s\<in>set (snd_buf k'). seg_key (fst sp) = seg_key s \<and> snd sp = seg_data s"
    then obtain s where s: "s \<in> set (snd_buf k')" "seg_key (fst sp) = seg_key s" "snd sp = seg_data s" by blast
    have "genuine H (fst sp)" using b' s(1) genuine_key [OF s(2)] genuine_take by blast
    moreover have "seg_cmd (fst sp) = seg_cmd s" "seg_data (fst sp) = seg_data s"
      using s(2) by (simp_all add: seg_key_def)
    ultimately show ?thesis using s(1,3) push by (simp add: true_pkt_def)
  qed (auto simp: true_pkt_def)
  then have "\<forall>d \<in> set sent. dgram (true_pkt H) d"
    using assms(1) dgram_mono [of "sendable (conv k) (snd_buf k')" _ "true_pkt H"]
    unfolding flush_post_def by blast
  moreover have "sndr H k'" unfolding sndr_def using st nx len r b' by blast
  ultimately show ?thesis by blast
qed

text \<open>One call on the sender: the history grows by the group of the accepted message.\<close>

definition accepted :: "allocator \<Rightarrow> kcp_call \<Rightarrow> kcp_log \<Rightarrow> byte list list" where
  "accepted al c s =
     (case c of
        Call_send buf \<Rightarrow>
          (case ikcp_send al (fst s) buf (int (length buf)) of
             Some (r, _) \<Rightarrow> if r = 0 then [buf] else []
           | None \<Rightarrow> [])
      | _ \<Rightarrow> [])"

definition sndr_inv :: "frag list list \<Rightarrow> kcp_log \<Rightarrow> bool" where
  "sndr_inv HS s \<longleftrightarrow> (\<forall>g \<in> set HS. frag_group g) \<and> sndr (concat HS) (fst s) \<and>
     (\<forall>d \<in> snd ` set (snd s). dgram (true_pkt (concat HS)) d)"

lemma sndr_append_send:
  assumes "sndr H k" and "map fd fs = g"
  shows "sndr (H @ g) (k\<lparr>snd_queue := snd_queue k @ fs, nsnd_que := n\<rparr>)"
proof -
  obtain j where j: "stream_mode k = 0" "snd_nxt k = of_nat j" "j \<le> length H"
    "map fd (snd_queue k) = drop j H" "\<forall>s \<in> set (snd_buf k). genuine (take j H) s"
    using assms(1) unfolding sndr_def by blast
  then show ?thesis using assms(2) unfolding sndr_def by (intro conjI exI [of _ j]) simp_all
qed

lemma sndr_send:
  assumes "ikcp_send al k buf (int (length buf)) = Some (r, k')" and "sndr H k" and "kcb_inv k"
    and "length buf < 2 ^ 31"
  shows "(r \<noteq> 0 \<and> sndr H k') \<or> (r = 0 \<and> (\<exists>g. frag_group g \<and> msg_of g = buf \<and> sndr (H @ g) k'))"
proof -
  have m: "0 < unat (mss k)" "unat (mss k) < 2 ^ 31" and st: "stream_mode k = 0"
    using assms(2,3) by (simp_all add: kcb_inv_def io_inv_def sndr_def)
  let ?n = "piece_count (unat (mss k)) (length buf)"
  from send_message [OF assms(1) st m assms(4)] show ?thesis
  proof (elim disjE conjE)
    assume "r = -2" "k' = k"
    then show ?thesis using assms(2) by simp
  next
    assume r: "r = 0" "?n < 128" and k': "k' = k\<lparr>snd_queue := snd_queue k @ msg_frags 0 (unat (mss k)) ?n buf,
            nsnd_que := nsnd_que k + of_nat ?n\<rparr>"
    have "sndr (H @ map fd (msg_frags 0 (unat (mss k)) ?n buf)) k'"
      unfolding k' using assms(2) refl by (rule sndr_append_send)
    then show ?thesis using r(1) msg_frags_group [OF m(1) r(2)] by blast
  qed
qed

lemma update_frame:
  obtains u tf where "ikcp_update k now = Some (k\<lparr>current := now, updated := u, ts_flush := tf\<rparr>, []) \<or>
    ikcp_update k now = ikcp_flush (k\<lparr>current := now, updated := u, ts_flush := tf\<rparr>)"
  by (rule update_elim [of k now]) (metis (no_types, lifting))

lemma sndr_update:
  assumes "ikcp_update k now = Some (k', sent)" and "sndr H k" and "kcb_inv k" and "output_cb k"
    and "length H < 2 ^ 32"
  shows "sndr H k' \<and> (\<forall>d \<in> set sent. dgram (true_pkt H) d)"
proof -
  obtain u tf where u: "ikcp_update k now = Some (k\<lparr>current := now, updated := u, ts_flush := tf\<rparr>, []) \<or>
    ikcp_update k now = ikcp_flush (k\<lparr>current := now, updated := u, ts_flush := tf\<rparr>)"
    by (rule update_frame)
  let ?k = "k\<lparr>current := now, updated := u, ts_flush := tf\<rparr>"
  have s: "sndr H ?k" using assms(2) by (simp add: sndr_def)
  have i: "kcb_inv ?k" "output_cb ?k" using assms(3,4) by (simp_all add: kcb_inv_clock)
  from u show ?thesis
  proof
    assume "ikcp_update k now = Some (?k, [])"
    then show ?thesis using assms(1) s by simp
  next
    assume "ikcp_update k now = ikcp_flush ?k"
    then show ?thesis using flush_total [OF i] flush_sndr [OF _ s i(1) assms(5)] assms(1) by auto
  qed
qed

lemma sndr_step:
  assumes "kcp_step al c s = Some s'" and "kcp_ok s" and "kcp_pre c s" and "sndr_inv HS s"
    and "length (concat HS) < 2 ^ 32"
  shows "\<exists>gs. sndr_inv (HS @ gs) s' \<and> map msg_of gs = accepted al c s"
proof -
  obtain k log where s: "s = (k, log)" by (cases s)
  let ?H = "concat HS"
  have k: "kcb_inv k" "output_cb k" and gs: "\<forall>g \<in> set HS. frag_group g" and sn: "sndr ?H k"
    and log: "\<forall>d \<in> snd ` set log. dgram (true_pkt ?H) d"
    using assms(2,4) by (auto simp: kcp_ok_def sndr_inv_def s)
  have same: ?thesis if "accepted al c s = []" "s' = (k', log @ map (Pair n) sent)" "sndr ?H k'"
    "\<forall>d \<in> set sent. dgram (true_pkt ?H) d" for k' n sent
  proof (rule exI [of _ "[]"], rule conjI)
    show "sndr_inv (HS @ []) s'" using gs log that(2-4) by (auto simp: sndr_inv_def)
  qed (simp add: that(1))
  have still: ?thesis if "accepted al c s = []" "s' = (k', log)" "snd_frame k k'" for k'
    using same [of k' 0 "[]"] that snd_frame_sndr [OF that(3) sn] by simp
  have config: "snd_frame k (snd (ikcp_setmtu al k m))" "snd_frame k (snd (ikcp_interval k i))"
    "snd_frame k (snd (ikcp_nodelay k a b e f))" "snd_frame k (snd (ikcp_wndsize k a b))" for m i a b e f
    by (simp_all add: snd_frame_def ikcp_setmtu_def ikcp_interval_def ikcp_nodelay_def ikcp_wndsize_def Let_def)
  show ?thesis
  proof (cases c)
    case (Call_send buf)
    then obtain r k' where r: "ikcp_send al k buf (int (length buf)) = Some (r, k')" "s' = (k', log)"
      using assms(1) by (auto simp: s)
    have len: "length buf < 2 ^ 31" using assms(3) by (simp add: Call_send s)
    from sndr_send [OF r(1) sn k(1) len] show ?thesis
    proof (elim disjE conjE exE)
      assume "r \<noteq> 0" "sndr ?H k'"
      then show ?thesis using r same [of k' 0 "[]"] by (simp add: accepted_def Call_send s)
    next
      fix g assume g: "r = 0" "frag_group g" "msg_of g = buf" "sndr (?H @ g) k'"
      have "\<forall>d \<in> snd ` set log. dgram (true_pkt (?H @ g)) d"
        using log dgram_mono [of "true_pkt ?H" _ "true_pkt (?H @ g)"] true_pkt_append by blast
      then have "sndr_inv (HS @ [g]) s'" using gs g by (simp add: sndr_inv_def r(2))
      moreover have "map msg_of [g] = accepted al c s" using r(1) g by (simp add: accepted_def Call_send s)
      ultimately show ?thesis by blast
    qed
  next
    case (Call_recv len)
    then obtain r bs k' where r: "ikcp_recv k len = Some (r, bs, k')" "s' = (k', log)"
      using assms(1) by (auto simp: s)
    obtain rb q nb nq nx p where "k' = k\<lparr>rcv_buf := rb, rcv_queue := q, nrcv_buf := nb, nrcv_que := nq,
        rcv_nxt := nx, probe := p\<rparr>" using recv_frame [OF r(1)] by blast
    then have "snd_frame k k'" by (simp add: snd_frame_def)
    with r(2) show ?thesis by (intro still) (simp_all add: accepted_def Call_recv)
  next
    case (Call_input data)
    then obtain r k' where r: "ikcp_input al k data = Some (r, k')" "s' = (k', log)"
      using assms(1) by (auto simp: s)
    with input_snd [OF r(1) k(1)] show ?thesis by (intro still) (simp_all add: accepted_def Call_input)
  next
    case (Call_update now)
    then obtain k' sent where r: "ikcp_update k now = Some (k', sent)" "s' = (k', log @ map (Pair (mtu k)) sent)"
      using assms(1) by (auto simp: s logged_def)
    with sndr_update [OF r(1) sn k assms(5)] show ?thesis
      by (intro same [of k' "mtu k" sent]) (simp_all add: accepted_def Call_update)
  next
    case Call_flush
    then obtain k' sent where r: "ikcp_flush k = Some (k', sent)" "s' = (k', log @ map (Pair (mtu k)) sent)"
      using assms(1) by (auto simp: s logged_def)
    with flush_total [OF k] flush_sndr [OF _ sn k(1) assms(5)] show ?thesis
      by (intro same [of k' "mtu k" sent]) (auto simp: accepted_def Call_flush)
  next
    case (Call_setmtu m)
    then show ?thesis using assms(1) by (intro still [OF _ _ config(1) [of m]]) (simp_all add: s accepted_def)
  next
    case (Call_interval i)
    then show ?thesis using assms(1) by (intro still [OF _ _ config(2) [of i]]) (simp_all add: s accepted_def)
  next
    case (Call_nodelay a b e f)
    then show ?thesis
      using assms(1) by (intro still [OF _ _ config(3) [of a b e f]]) (simp_all add: s accepted_def)
  next
    case (Call_wndsize a b)
    then show ?thesis using assms(1) by (intro still [OF _ _ config(4) [of a b]]) (simp_all add: s accepted_def)
  qed
qed

section \<open>The receiver\<close>

text \<open>\<open>d\<close> fragments have been handed to the user; \<open>rcv_queue\<close> holds the next ones of the history.\<close>

definition rcvr :: "frag list \<Rightarrow> nat \<Rightarrow> ikcpcb \<Rightarrow> bool" where
  "rcvr H d k \<longleftrightarrow> d + length (rcv_queue k) \<le> length H \<and> rcv_nxt k = of_nat (d + length (rcv_queue k)) \<and>
     map fd (rcv_queue k) = take (length (rcv_queue k)) (drop d H) \<and> (\<forall>s \<in> set (rcv_buf k). genuine H s)"

definition rcv_same :: "ikcpcb \<Rightarrow> ikcpcb \<Rightarrow> bool" where
  "rcv_same k k' \<longleftrightarrow> rcv_queue k' = rcv_queue k \<and> rcv_buf k' = rcv_buf k \<and> rcv_nxt k' = rcv_nxt k"

lemma rcv_same_rcvr: "rcv_same k k' \<Longrightarrow> rcvr H d k' = rcvr H d k"
  by (simp add: rcv_same_def rcvr_def)

lemma rcvr_append: "rcvr H d k \<Longrightarrow> rcvr (H @ H') d k"
  by (auto simp: rcvr_def genuine_append)

text \<open>Moving what is ready into \<open>rcv_queue\<close> extends the delivered part of the history.\<close>

lemma rcvr_move:
  assumes "rcvr H d k" and "length H < 2 ^ 32"
  shows "rcvr H d (move_ready k)"
proof -
  obtain m r where mr: "rcv_buf k = m @ r"
    "move_ready k = k\<lparr>rcv_buf := r, rcv_queue := rcv_queue k @ m,
       nrcv_buf := nrcv_buf k - of_nat (length m), nrcv_que := nrcv_que k + of_nat (length m),
       rcv_nxt := rcv_nxt k + of_nat (length m)\<rparr>"
    "\<forall>i < length m. seg_sn (m ! i) = rcv_nxt k + of_nat i"
    by (rule move_ready_split)
  define e where "e = d + length (rcv_queue k)"
  have k: "e \<le> length H" "rcv_nxt k = of_nat e" "map fd (rcv_queue k) = take (length (rcv_queue k)) (drop d H)"
    "\<forall>s \<in> set m \<union> set r. genuine H s"
    using assms(1) by (auto simp: rcvr_def e_def mr(1))
  have step: "e + i < length H \<and> fd (m ! i) = H ! (e + i)" if "i < length m" "e + i \<le> length H" for i
  proof -
    have g: "genuine H (m ! i)" using k(4) that(1) by simp
    have "seg_sn (m ! i) = of_nat (e + i)" using mr(3) that(1) k(2) by simp
    then have "unat (seg_sn (m ! i)) = e + i" using that(2) assms(2) by (simp add: unat_of_nat_u32 del: of_nat_add)
    then show ?thesis using g by (simp add: genuine_def)
  qed
  have le: "i \<le> length m \<Longrightarrow> e + i \<le> length H" for i
    by (induction i) (use k(1) step in \<open>auto simp: Suc_le_eq\<close>)
  have "map fd m = take (length m) (drop e H)"
  proof (rule nth_equalityI)
    show "length (map fd m) = length (take (length m) (drop e H))" using le [of "length m"] by simp
    show "map fd m ! i = take (length m) (drop e H) ! i" if "i < length (map fd m)" for i
      using step [of i] le [of i] that k(1) by simp
  qed
  then have "map fd (rcv_queue k @ m) = take (length (rcv_queue k) + length m) (drop d H)"
    unfolding map_append take_add k(3) by (simp add: e_def add.commute)
  then show ?thesis
    using le [of "length m"] k by (simp add: rcvr_def mr(2) e_def add.assoc)
qed

lemma rcvr_parse_data:
  assumes "rcvr H d k" and "length H < 2 ^ 32" and "genuine H s"
  shows "rcvr H d (ikcp_parse_data k s)"
proof (cases rule: parse_data_cases [of k s])
  case (filed xs ys)
  have "rcvr H d (k\<lparr>rcv_buf := xs @ s # ys, nrcv_buf := nrcv_buf k + 1\<rparr>)"
    using assms(1,3) filed(1) by (auto simp: rcvr_def)
  then show ?thesis unfolding filed(2) by (rule rcvr_move [OF _ assms(2)])
qed (use assms rcvr_move in simp_all)

lemma ack_frame_rcv: "ack_frame k k' \<Longrightarrow> rcv_same k k'"
  unfolding ack_frame_def rcv_same_def by (elim exE conjE) simp

text \<open>The wire keeps a fragment number below 256 and a command.\<close>

lemma ucast_byte_u32: "unat (x :: u32) < 256 \<Longrightarrow> (ucast (ucast x :: byte) :: u32) = x"
proof -
  assume x: "unat x < 256"
  have "unat (ucast (ucast x :: byte) :: u32) = unat x"
    using x by (simp add: unsigned_ucast_eq take_bit_eq_mod unat_mod_distrib)
  then show ?thesis by (rule unsigned_word_eqI)
qed

lemma rcvr_input_seg:
  assumes "input_seg al k (hdr_of_seg s) p v = Some (k2, v2)" and "rcvr H d k" and "kcb_inv k"
    and "true_pkt H (s, p)" and "length H < 2 ^ 32" and "\<forall>i < length H. unat (fst (H ! i)) < 128"
  shows "rcvr H d k2"
  using assms(1)
proof (cases rule: input_seg_cases)
  case ctl
  then show ?thesis using rcv_same_rcvr [OF ack_frame_rcv [OF ctl(1)]] assms(2) by simp
next
  case push
  have "seg_cmd s \<noteq> IKCP_CMD_PUSH \<Longrightarrow> False"
  proof -
    assume "seg_cmd s \<noteq> IKCP_CMD_PUSH"
    then have "seg_cmd s \<in> {IKCP_CMD_ACK, IKCP_CMD_WASK, IKCP_CMD_WINS}"
      using assms(4) by (simp add: true_pkt_def)
    then show False using push(1) by (auto simp: hdr_of_seg_def ikcp_consts)
  qed
  then have g: "genuine H s" "p = seg_data s" using assms(4) by (auto simp: true_pkt_def ikcp_consts)
  then have "unat (seg_frg s) < 256" using assms(6) by (fastforce simp: genuine_def fd_def dest!: sym [of "(_, _)"])
  then have g': "genuine H (seg_of_hdr (hdr_of_seg s) p)"
    using g by (simp add: genuine_def fd_def seg_of_hdr_def hdr_of_seg_def ucast_byte_u32)
  let ?k = "input_pre k (hdr_of_seg s)"
  have i: "ack_inv ?k" using ack_frame_inv [OF ack_frame_pre assms(3)] by (simp add: kcb_inv_def)
  have r: "rcvr H d ?k" using rcv_same_rcvr [OF ack_frame_rcv [OF ack_frame_pre]] assms(2) by blast
  from push(2) i show ?thesis
  proof (cases rule: input_push_elim)
    case (acked k1 l b)
    have "rcvr H d k1" using r by (simp add: acked(3) rcvr_def)
    then show ?thesis using rcvr_parse_data [OF _ assms(5) g'] unfolding acked(5) by simp
  qed (use r in simp)
qed

lemma rcvr_input:
  assumes "ikcp_input al k (Some bs) = Some (r, k')" and "rcvr H d k" and "kcb_inv k"
    and "dgram (true_pkt H) bs" and "length H < 2 ^ 32" and "\<forall>i < length H. unat (fst (H ! i)) < 128"
  shows "rcvr H d k'"
  using assms(1)
proof (cases rule: ikcp_input_elim)
  case skip
  then show ?thesis using assms(2) by simp
next
  case (loop bs' r1 k1 v1)
  obtain pkts where pk: "bs = concat (map pkt_bytes pkts)" "\<forall>sp \<in> set pkts. pkt_ok sp \<and> true_pkt H sp"
    using assms(4) unfolding dgram_def by blast
  have l: "input_loop al (concat (map pkt_bytes pkts)) k (False, 0, 0) = Some (r1, k1, v1)"
    using loop(1,2) pk(1) by simp
  have "rcvr H d k1 \<and> kcb_inv k1"
  proof (rule input_loop_pkts_keeps [OF l _ pk(2)])
    show "rcvr H d k \<and> kcb_inv k" using assms(2,3) by simp
  next
    fix ka s p v k2 v2
    assume a: "rcvr H d ka \<and> kcb_inv ka" "true_pkt H (s, p)" "seg_len s = of_nat (length p)"
      "input_seg al ka (hdr_of_seg s) p v = Some (k2, v2)" "length p < 2 ^ 31"
    have len: "length p = unat (h_len (hdr_of_seg s))"
      using a(3,5) by (simp add: hdr_of_seg_def unat_of_nat_u32)
    then have "sint (h_len (hdr_of_seg s)) \<ge> 0"
      using a(5) sint_u32_small [of "h_len (hdr_of_seg s)"] by simp
    then show "rcvr H d k2 \<and> kcb_inv k2"
      using rcvr_input_seg [OF a(4) _ _ a(2) assms(5,6)] input_seg_inv [OF a(4) _ len] a(1) by blast
  qed
  then have 1: "rcvr H d k1" by simp
  from loop(3) show ?thesis
  proof (elim disjE exE conjE)
    fix k2 w n assume "ack_frame k1 k2" and k': "k' = k2\<lparr>cwnd := w, incr := n\<rparr>"
    then have "rcvr H d k2" using rcv_same_rcvr [OF ack_frame_rcv] 1 by blast
    then show ?thesis by (simp add: k' rcvr_def)
  qed (use 1 in simp)
qed

section \<open>Delivery\<close>

text \<open>A complete group at the head of \<open>rcv_queue\<close> is the message \<open>ikcp_recv\<close> takes.\<close>

lemma first_msg_group:
  assumes "map seg_frg q = map of_nat (rev [0..<n]) @ t" and "0 < n" and "n < 2 ^ 32"
  shows "first_msg q = (take n q, drop n q)"
  using assms
proof (induction q arbitrary: n)
  case Nil
  then show ?case by simp
next
  case (Cons s q)
  then obtain n' where n: "n = Suc n'" by (cases n) auto
  have s: "seg_frg s = of_nat n'" and q: "map seg_frg q = map of_nat (rev [0..<n']) @ t"
    using Cons.prems(1) by (simp_all add: n)
  show ?case
  proof (cases "n' = 0")
    case True
    then show ?thesis using s by (simp add: n)
  next
    case False
    have "seg_frg s \<noteq> 0"
      using unat_of_nat_u32 [of n'] Cons.prems(3) False unfolding s n by (metis Suc_lessD unat_0)
    then show ?thesis using Cons.IH [OF q] False Cons.prems(3) by (simp add: n)
  qed
qed

lemma delivered_group:
  assumes "rcvr (concat HS) (length (concat (take j HS))) k" and "\<forall>g \<in> set HS. frag_group g"
    and "kcb_inv k" and "rcv_queue k \<noteq> []" and "ikcp_peeksize k \<ge> 0" and "j \<le> length HS"
  obtains m r where "first_msg (rcv_queue k) = (m, r)" "j < length HS" "map fd m = HS ! j"
proof -
  let ?q = "rcv_queue k"
  have q: "map fd ?q = take (length ?q) (concat (drop j HS))" and len: "length ?q \<le> length (concat (drop j HS))"
    using assms(1) by (auto simp: rcvr_def simp flip: drop_concat [of j HS])
  have j: "j < length HS"
  proof (rule ccontr)
    assume "\<not> j < length HS"
    then show False using len assms(4) by simp
  qed
  define g where "g = HS ! j"
  have g: "frag_group g" using assms(2) j by (simp add: g_def)
  have H: "concat (drop j HS) = g @ concat (drop (Suc j) HS)" using j by (simp add: g_def flip: Cons_nth_drop_Suc)
  obtain n where n: "length g = Suc n" "n < 127" using g by (cases "length g") (auto simp: frag_group_def)
  have fg: "map fst g = map of_nat (rev [0..<Suc n])" using g n by (simp add: frag_group_def)
  obtain s q' where s: "?q = s # q'" using assms(4) by (cases ?q) auto
  obtain f g' where g': "g = f # g'" using n by (cases g) auto
  have "fd s = f" using q by (simp add: s H g')
  then have frg: "seg_frg s = of_nat n" using fg by (auto simp: g' fd_def)
  have enough: "length g \<le> length ?q"
  proof (cases "n = 0")
    case True
    then show ?thesis using s n by simp
  next
    case False
    have frg0: "seg_frg s \<noteq> 0"
    proof
      assume "seg_frg s = 0"
      then have "unat (of_nat n :: u32) = 0" using frg by simp
      then show False using False n(2) unat_of_nat_u32 [of n] by simp
    qed
    have "\<not> nrcv_que k < seg_frg s + 1" using assms(5) frg0 by (auto simp: ikcp_peeksize_def s split: if_splits)
    moreover have "seg_frg s + 1 = of_nat (Suc n)" using frg by (simp add: add.commute)
    moreover have "unat (of_nat (Suc n) :: u32) = Suc n" using n(2) by (intro unat_of_nat_u32) simp
    ultimately show ?thesis using assms(3) n(1) by (simp add: word_less_nat_alt kcb_inv_def rcv_inv_def)
  qed
  have qg: "map fd ?q = g @ take (length ?q - length g) (concat (drop (Suc j) HS))"
    using q enough unfolding H by simp
  have "map seg_frg ?q = map fst (map fd ?q)" by (simp add: fd_def comp_def)
  then have "map seg_frg ?q = map of_nat (rev [0..<Suc n]) @
      map fst (take (length ?q - length g) (concat (drop (Suc j) HS)))"
    unfolding qg map_append fg .
  then have fm: "first_msg ?q = (take (Suc n) ?q, drop (Suc n) ?q)"
    by (rule first_msg_group) (use n in simp_all)
  have "map fd (take (Suc n) ?q) = g" using qg n(1) by (simp flip: take_map)
  then show thesis using that [OF fm j] by (simp add: g_def)
qed

text \<open>What a call hands to the user: the bytes of a successful, non-peeking \<open>ikcp_recv\<close>.\<close>

definition delivered :: "kcp_call \<Rightarrow> kcp_log \<Rightarrow> byte list list" where
  "delivered c s =
     (case c of
        Call_recv len \<Rightarrow>
          (case ikcp_recv (fst s) len of
             Some (r, bs, _) \<Rightarrow> if r \<ge> 0 \<and> len \<ge> 0 then [bs] else []
           | None \<Rightarrow> [])
      | _ \<Rightarrow> [])"

lemma payload_data: "data_ok m s \<Longrightarrow> m < 2 ^ 32 \<Longrightarrow> seg_payload s = seg_data s"
  by (simp add: seg_payload_def unat_data_ok)

lemma msg_payload:
  assumes "map fd m = g" and "\<forall>s \<in> set m. data_ok (2 ^ 31 - 1) s"
  shows "concat (map seg_payload m) = msg_of g"
proof -
  have "map seg_payload m = map seg_data m"
    using assms(2) payload_data [of "2 ^ 31 - 1"] by (intro map_cong) simp_all
  moreover have "map snd g = map seg_data m" by (simp add: fd_def comp_def flip: assms(1))
  ultimately show ?thesis by (simp only: msg_of_def)
qed

lemma rcvr_tell: "rcvr H d (recv_tell k b) = rcvr H d k"
  by (rule rcv_same_rcvr) (simp add: rcv_same_def recv_tell_def)

lemma rcvr_take:
  assumes "rcvr H d k" and "rcv_queue k = m @ r"
  shows "rcvr H (d + length m) (k\<lparr>rcv_queue := r, nrcv_que := n\<rparr>)"
proof -
  have "map fd m @ map fd r = take (length m + length r) (drop d H)" and l: "d + length m + length r \<le> length H"
    using assms by (simp_all add: rcvr_def)
  then have "map fd r = drop (length m) (take (length m + length r) (drop d H))"
    by (metis append_eq_conv_conj length_map)
  then show ?thesis using assms l by (simp add: rcvr_def drop_take add.commute add.left_commute)
qed

text \<open>One successful \<open>ikcp_recv\<close> hands over the next message of the history.\<close>

lemma rcvr_recv:
  assumes "ikcp_recv k len = Some (r, bs, k')" and "rcvr (concat HS) (length (concat (take j HS))) k"
    and "\<forall>g \<in> set HS. frag_group g" and "kcb_inv k" and "length (concat HS) < 2 ^ 32" and "j \<le> length HS"
  shows "(\<not> (r \<ge> 0 \<and> len \<ge> 0) \<and> rcvr (concat HS) (length (concat (take j HS))) k') \<or>
    (r \<ge> 0 \<and> len \<ge> 0 \<and> j < length HS \<and> bs = msg_of (HS ! j) \<and>
     rcvr (concat HS) (length (concat (take (Suc j) HS))) k')"
proof -
  let ?d = "length (concat (take j HS))"
  obtain m q where f: "first_msg (rcv_queue k) = (m, q)" by (cases "first_msg (rcv_queue k)")
  note out = assms(1) [unfolded recv_outcome [OF f]]
  define kk where "kk = recv_tell (move_ready (if len < 0 then k
      else k\<lparr>rcv_queue := q, nrcv_que := nrcv_que k - of_nat (length m)\<rparr>)) (nrcv_que k \<ge> rcv_wnd k)"
  have "(k' = k \<and> r < 0) \<or> (rcv_queue k \<noteq> [] \<and> ikcp_peeksize k \<ge> 0 \<and> bs = concat (map seg_payload m) \<and>
      k' = kk \<and> r = sint (sum_list (map seg_len m)))"
    using out [folded kk_def] by (simp split: if_split_asm)
  then consider (no) "k' = k" "r < 0" | (peek) "len < 0" "k' = kk"
    | (got) "len \<ge> 0" "rcv_queue k \<noteq> []" "ikcp_peeksize k \<ge> 0" "bs = concat (map seg_payload m)"
        "k' = kk" "r = sint (sum_list (map seg_len m))"
    by (meson not_le)
  then show ?thesis
  proof cases
    case no
    then show ?thesis using assms(2) by simp
  next
    case peek
    then show ?thesis using rcvr_move [OF assms(2,5)] by (simp add: rcvr_tell kk_def)
  next
    case got
    obtain m' q' where g: "first_msg (rcv_queue k) = (m', q')" "j < length HS" "map fd m' = HS ! j"
      by (rule delivered_group [OF assms(2,3,4) got(2,3) assms(6)])
    then have mg: "map fd m = HS ! j" using f by simp
    have app: "rcv_queue k = m @ q" using f by (rule first_msg_append)
    have ok: "\<forall>s \<in> set m. data_ok (2 ^ 31 - 1) s" using assms(4) app by (simp add: kcb_inv_def rcv_inv_def)
    have d: "?d + length m = length (concat (take (Suc j) HS))"
      using arg_cong [OF mg, of length] g(2) by (simp add: take_Suc_conv_app_nth)
    have "r = ikcp_peeksize k" using got(6) peeksize_first_msg [OF f got(3)] by simp
    then have r: "r \<ge> 0" using got(3) by simp
    let ?k = "k\<lparr>rcv_queue := q, nrcv_que := nrcv_que k - of_nat (length m)\<rparr>"
    have "rcvr (concat HS) (?d + length m) (move_ready ?k)"
      by (rule rcvr_move [OF rcvr_take [OF assms(2) app] assms(5)])
    then have "rcvr (concat HS) (length (concat (take (Suc j) HS))) k'"
      using got(1) unfolding got(5) kk_def rcvr_tell d by simp
    moreover have "bs = msg_of (HS ! j)" unfolding got(4) by (rule msg_payload [OF mg ok])
    ultimately show ?thesis using got(1) g(2) r by blast
  qed
qed

section \<open>Two peers\<close>

record kcp_net =
  peer_a :: kcp_log
  peer_b :: kcp_log
  msgs_in :: "byte list list"
  msgs_out :: "byte list list"

text \<open>A step is one API call of either peer. A gets arbitrary bytes; B gets any datagram A has ever
  sent, any number of times and in any order.\<close>

inductive kcp_reach :: "allocator \<Rightarrow> u32 \<Rightarrow> kcp_net \<Rightarrow> bool" for al :: allocator and cv :: u32 where
  start: "ikcp_create al cv = Some a \<Longrightarrow> ikcp_create al cv = Some b \<Longrightarrow>
    kcp_reach al cv \<lparr>peer_a = (ikcp_setoutput a True, []), peer_b = (ikcp_setoutput b True, []),
                     msgs_in = [], msgs_out = []\<rparr>"
| call_a: "kcp_reach al cv n \<Longrightarrow> kcp_pre c (peer_a n) \<Longrightarrow> kcp_step al c (peer_a n) = Some a' \<Longrightarrow>
    kcp_reach al cv (n\<lparr>peer_a := a', msgs_in := msgs_in n @ accepted al c (peer_a n)\<rparr>)"
| call_b: "kcp_reach al cv n \<Longrightarrow> kcp_pre c (peer_b n) \<Longrightarrow> kcp_step al c (peer_b n) = Some b' \<Longrightarrow>
    (\<And>bs. c = Call_input (Some bs) \<Longrightarrow> bs \<in> snd ` set (snd (peer_a n))) \<Longrightarrow>
    kcp_reach al cv (n\<lparr>peer_b := b', msgs_out := msgs_out n @ delivered c (peer_b n)\<rparr>)"

text \<open>The invariant: some history of groups explains both peers and both message logs.\<close>

definition net_inv :: "frag list list \<Rightarrow> kcp_net \<Rightarrow> bool" where
  "net_inv HS n \<longleftrightarrow> kcp_ok (peer_a n) \<and> kcp_ok (peer_b n) \<and> sndr_inv HS (peer_a n) \<and>
     msgs_in n = map msg_of HS \<and> length (msgs_out n) \<le> length HS \<and>
     msgs_out n = map msg_of (take (length (msgs_out n)) HS) \<and>
     rcvr (concat HS) (length (concat (take (length (msgs_out n)) HS))) (fst (peer_b n))"

lemma rcvr_config:
  "rcv_same k (snd (ikcp_setmtu al k m))" "rcv_same k (snd (ikcp_interval k i))"
  "rcv_same k (snd (ikcp_nodelay k a b e f))" "rcv_same k (snd (ikcp_wndsize k a b))"
  by (simp_all add: rcv_same_def ikcp_setmtu_def ikcp_interval_def ikcp_nodelay_def ikcp_wndsize_def Let_def)

lemma flush_same: "ikcp_flush k = Some (k', sent) \<Longrightarrow> kcb_inv k \<Longrightarrow> output_cb k \<Longrightarrow> rcv_same k k'"
  using flush_total [of k] by (auto simp: flush_post_def flush_frame_def rcv_same_def)

lemma update_same:
  assumes "ikcp_update k now = Some (k', sent)" and "kcb_inv k" and "output_cb k"
  shows "rcv_same k k'"
proof -
  obtain u tf where u: "ikcp_update k now = Some (k\<lparr>current := now, updated := u, ts_flush := tf\<rparr>, []) \<or>
    ikcp_update k now = ikcp_flush (k\<lparr>current := now, updated := u, ts_flush := tf\<rparr>)"
    by (rule update_frame)
  let ?k = "k\<lparr>current := now, updated := u, ts_flush := tf\<rparr>"
  have "rcv_same k ?k" by (simp add: rcv_same_def)
  moreover have "rcv_same ?k k'" if "ikcp_flush ?k = Some (k', sent)"
    using that assms(2,3) by (intro flush_same) (simp_all add: kcb_inv_clock)
  ultimately show ?thesis using u assms(1) by (auto simp: rcv_same_def)
qed

lemma send_same: 
  assumes "ikcp_send al k buf (int (length buf)) = Some (r, k')" and "kcb_inv k"
  shows "rcv_same k k'"
  using assms(1)
proof (cases rule: ikcp_send_elim)
  case (queued k1 buf1 len1 n)
  have 1: "rcv_same k k1"
    using queued(1) by (auto simp: send_stream_def Let_def rcv_same_def split: if_splits)
  have k1: "kcb_inv k1" "len1 = int (length buf1)"
    using queued(1) assms(2) send_stream_inv [of al k buf k1 buf1 len1] by (auto split: if_splits)
  have m: "unat (mss k1) < 2 ^ 31" using k1(1) by (simp add: kcb_inv_def io_inv_def)
  from queued(2) show ?thesis
  proof
    assume f: "send_frags al n k1 buf1 len1 = Some k'"
    show ?thesis using 1 unfolding send_frags_ref [OF f m k1(2)] by (simp add: rcv_same_def)
  qed (use 1 in simp)
qed (simp add: rcv_same_def)

lemma rcvr_step:
  assumes "kcp_step al c s = Some s'" and "kcp_ok s" and "kcp_pre c s"
    and r: "rcvr (concat HS) (length (concat (take j HS))) (fst s)" and gs: "\<forall>g \<in> set HS. frag_group g"
    and "length (concat HS) < 2 ^ 32" and "j \<le> length HS"
    and net: "\<And>bs. c = Call_input (Some bs) \<Longrightarrow> dgram (true_pkt (concat HS)) bs"
  shows "\<exists>j'. j' \<le> length HS \<and> delivered c s = map msg_of (take (j' - j) (drop j HS)) \<and> j \<le> j' \<and>
    rcvr (concat HS) (length (concat (take j' HS))) (fst s')"
proof -
  obtain k log where s: "s = (k, log)" by (cases s)
  have k: "kcb_inv k" "output_cb k" using assms(2) by (auto simp: kcp_ok_def s)
  have stay: ?thesis if "delivered c s = []" "rcvr (concat HS) (length (concat (take j HS))) (fst s')"
    using that assms(7) by (intro exI [of _ j]) simp
  have same: ?thesis if "delivered c s = []" "rcv_same k (fst s')"
    using stay that r rcv_same_rcvr [OF that(2)] by (simp add: s)
  show ?thesis
  proof (cases c)
    case (Call_send buf)
    then obtain r k' where "ikcp_send al k buf (int (length buf)) = Some (r, k')" "s' = (k', log)"
      using assms(1) by (auto simp: s)
    with send_same [OF _ k(1)] show ?thesis by (intro same) (simp_all add: delivered_def Call_send)
  next
    case (Call_recv len)
    then obtain c' bs k' where rc: "ikcp_recv k len = Some (c', bs, k')" "s' = (k', log)"
      using assms(1) by (auto simp: s)
    have "rcvr (concat HS) (length (concat (take j HS))) k" using r by (simp add: s)
    from rcvr_recv [OF rc(1) this gs k(1) assms(6,7)] show ?thesis
    proof (elim disjE conjE)
      assume d: "c' \<ge> 0" "len \<ge> 0" "j < length HS" "bs = msg_of (HS ! j)"
        "rcvr (concat HS) (length (concat (take (Suc j) HS))) k'"
      have "take (Suc j - j) (drop j HS) = [HS ! j]" using d(3) by (simp add: take_Suc hd_drop_conv_nth)
      then show ?thesis using d rc by (intro exI [of _ "Suc j"]) (simp add: delivered_def Call_recv s)
    next
      assume d: "\<not> (c' \<ge> 0 \<and> len \<ge> 0)" "rcvr (concat HS) (length (concat (take j HS))) k'"
      have "delivered c s = []" using d(1) rc(1) by (simp add: s delivered_def Call_recv)
      then show ?thesis using d(2) rc(2) by (intro stay) simp_all
    qed
  next
    case (Call_input data)
    then obtain r' k' where i: "ikcp_input al k data = Some (r', k')" "s' = (k', log)"
      using assms(1) by (auto simp: s)
    have "rcvr (concat HS) (length (concat (take j HS))) k'"
    proof (cases data)
      case None
      then show ?thesis using i r by (simp add: ikcp_input_def s)
    next
      case (Some bs)
      have "\<forall>i < length (concat HS). unat (fst (concat HS ! i)) < 128" using groups_frg [OF gs] by blast
      then show ?thesis
        using rcvr_input [OF i(1) [unfolded Some] _ k(1) net [OF Call_input [unfolded Some]] assms(6)] r
        by (simp add: s)
    qed
    then show ?thesis using i by (intro stay) (simp_all add: delivered_def Call_input)
  next
    case (Call_update now)
    then obtain k' sent where "ikcp_update k now = Some (k', sent)" "fst s' = k'"
      using assms(1) by (auto simp: s logged_def)
    with update_same [OF _ k] show ?thesis by (intro same) (simp_all add: delivered_def Call_update)
  next
    case Call_flush
    then obtain k' sent where "ikcp_flush k = Some (k', sent)" "fst s' = k'"
      using assms(1) by (auto simp: s logged_def)
    with flush_same [OF _ k] show ?thesis by (intro same) (simp_all add: delivered_def Call_flush)
  qed (rule same; use assms(1) rcvr_config in \<open>auto simp: s delivered_def\<close>)+
qed

lemma net_inv_a:
  assumes "net_inv HS n" and "kcp_pre c (peer_a n)" and "kcp_step al c (peer_a n) = Some a'"
    and "length (concat HS) < 2 ^ 32"
  shows "\<exists>HS'. net_inv HS' (n\<lparr>peer_a := a', msgs_in := msgs_in n @ accepted al c (peer_a n)\<rparr>)"
proof -
  let ?j = "length (msgs_out n)"
  note i = assms(1) [unfolded net_inv_def]
  obtain gs where gs: "sndr_inv (HS @ gs) a'" "map msg_of gs = accepted al c (peer_a n)"
    using sndr_step [OF assms(3) _ assms(2) _ assms(4)] i by blast
  have "kcp_ok a'" using kcp_step_keeps [OF assms(3) _ assms(2)] i by blast
  moreover have "take ?j (HS @ gs) = take ?j HS" using i by simp
  moreover have "rcvr (concat (HS @ gs)) (length (concat (take ?j HS))) (fst (peer_b n))"
    using i rcvr_append [of "concat HS" _ _ "concat gs"] by simp
  ultimately have "net_inv (HS @ gs) (n\<lparr>peer_a := a', msgs_in := msgs_in n @ accepted al c (peer_a n)\<rparr>)"
    using i gs by (simp add: net_inv_def)
  then show ?thesis by blast
qed

lemma net_inv_b:
  assumes "net_inv HS n" and "kcp_pre c (peer_b n)" and "kcp_step al c (peer_b n) = Some b'"
    and "length (concat HS) < 2 ^ 32"
    and "\<And>bs. c = Call_input (Some bs) \<Longrightarrow> bs \<in> snd ` set (snd (peer_a n))"
  shows "net_inv HS (n\<lparr>peer_b := b', msgs_out := msgs_out n @ delivered c (peer_b n)\<rparr>)"
proof -
  let ?j = "length (msgs_out n)"
  note i = assms(1) [unfolded net_inv_def]
  have gs: "\<forall>g \<in> set HS. frag_group g" and net: "\<forall>d \<in> snd ` set (snd (peer_a n)). dgram (true_pkt (concat HS)) d"
    using i by (auto simp: sndr_inv_def)
  have ok: "kcp_ok (peer_b n)" and j: "?j \<le> length HS"
    and r: "rcvr (concat HS) (length (concat (take ?j HS))) (fst (peer_b n))" using i by blast+
  have d: "dgram (true_pkt (concat HS)) bs" if "c = Call_input (Some bs)" for bs
    using assms(5) [OF that] net by blast
  obtain j' where j': "j' \<le> length HS" "delivered c (peer_b n) = map msg_of (take (j' - ?j) (drop ?j HS))"
    "?j \<le> j'" "rcvr (concat HS) (length (concat (take j' HS))) (fst b')"
    using rcvr_step [OF assms(3) ok assms(2) r gs assms(4) j d] by blast
  have "take j' HS = take ?j HS @ take (j' - ?j) (drop ?j HS)"
    using j'(3) take_add [of ?j "j' - ?j" HS] by simp
  then have out: "msgs_out n @ delivered c (peer_b n) = map msg_of (take j' HS)"
    using i j'(2) by (metis map_append)
  then have "length (msgs_out n @ delivered c (peer_b n)) = j'" using j'(1) by simp
  then show ?thesis
    using i j' out kcp_step_keeps [OF assms(3) ok assms(2)] by (simp add: net_inv_def)
qed

lemma net_inv_start:
  assumes "ikcp_create al cv = Some a" and "ikcp_create al cv = Some b"
  shows "net_inv [] \<lparr>peer_a = (ikcp_setoutput a True, []), peer_b = (ikcp_setoutput b True, []),
    msgs_in = [], msgs_out = []\<rparr>"
  using assms create_ok [OF assms(1)]
  by (auto simp: net_inv_def sndr_inv_def sndr_def rcvr_def ikcp_create_def ikcp_setoutput_def split: if_splits)

text \<open>The whole system, as long as fewer than \<open>2 ^ 32\<close> fragments can have been numbered.\<close>

lemma kcp_reach_inv:
  assumes "kcp_reach al cv n" and "length (msgs_in n) \<le> 33818640"
  shows "\<exists>HS. net_inv HS n"
  using assms
proof (induction rule: kcp_reach.induct)
  case (start a b)
  then show ?case using net_inv_start by blast
next
  case (call_a n c a')
  then obtain HS where HS: "net_inv HS n" by auto
  then have "\<forall>g \<in> set HS. frag_group g" "length HS \<le> 33818640"
    using call_a.prems by (auto simp: net_inv_def sndr_inv_def)
  then have "length (concat HS) < 2 ^ 32" using length_groups [of HS] by simp
  with net_inv_a [OF HS call_a.hyps(2,3)] show ?case by blast
next
  case (call_b n c b')
  then obtain HS where HS: "net_inv HS n" by auto
  then have "\<forall>g \<in> set HS. frag_group g" "length HS \<le> 33818640"
    using call_b.prems by (auto simp: net_inv_def sndr_inv_def)
  then have "length (concat HS) < 2 ^ 32" using length_groups [of HS] by simp
  with net_inv_b [OF HS call_b.hyps(2,3)] call_b.hyps(4) show ?case by blast
qed

lemma kcp_reach_prefix:
  assumes "kcp_reach al cv n" and "length (msgs_in n) \<le> 33818640"
  shows "msgs_out n = take (length (msgs_out n)) (msgs_in n)"
proof -
  obtain HS where "net_inv HS n" using kcp_reach_inv [OF assms] by blast
  then have "msgs_in n = map msg_of HS" "msgs_out n = map msg_of (take (length (msgs_out n)) HS)"
    by (simp_all add: net_inv_def)
  then show ?thesis by (metis take_map)
qed

end
