(* ===== verification/Kcp_Window.thy ===== *)
theory Kcp_Window
  imports Kcp_Transport
begin

text \<open>
  The receive window. Seen from \<open>rcv_nxt\<close>, the segments parked in \<open>rcv_buf\<close> are strictly ordered
  and lie inside the window, whatever arrives: the backward scan of \<open>ikcp_parse_data\<close> finds the
  right place although sequence numbers wrap. The memory a peer can make the receiver hold is
  therefore bounded by the window.
\<close>

section \<open>Positions relative to the next expected number\<close>

definition rcv_pos :: "u32 \<Rightarrow> ikcpseg \<Rightarrow> int" where
  "rcv_pos nx s = itimediff (seg_sn s) nx"

definition rcv_sorted :: "ikcpcb \<Rightarrow> bool" where
  "rcv_sorted k \<longleftrightarrow> unat (rcv_wnd k) < 2 ^ 31 \<and>
     sorted_wrt (\<lambda>a b. rcv_pos (rcv_nxt k) a < rcv_pos (rcv_nxt k) b) (rcv_buf k) \<and>
     (\<forall>s \<in> set (rcv_buf k). 0 \<le> rcv_pos (rcv_nxt k) s \<and> rcv_pos (rcv_nxt k) s < int (unat (rcv_wnd k)))"

lemma itimediff_shift: "itimediff a b = c_int32 (itimediff a c - itimediff b c)"
proof -
  have "itimediff x c = sint (x - c)" for x by (simp add: itimediff_def)
  moreover have "a - b = word_of_int (sint (a - c) - sint (b - c))"
    by (simp add: wi_hom_sub [symmetric])
  ultimately show ?thesis
    using sint_word_of_int_u32 [of "sint (a - c) - sint (b - c)"] by (simp add: itimediff_def)
qed

text \<open>Two numbers inside the window compare as their positions.\<close>

lemma itimediff_pos:
  assumes "0 \<le> itimediff a c" and "0 \<le> itimediff b c"
  shows "itimediff a b = itimediff a c - itimediff b c"
proof -
  have "itimediff a c < 2 ^ 31" "itimediff b c < 2 ^ 31" using itimediff_range by auto
  then show ?thesis using assms itimediff_shift [of a b c] by (simp add: c_int32_id)
qed

lemma rcv_pos_step:
  assumes "int n \<le> rcv_pos nx s"
  shows "rcv_pos (nx + of_nat n) s = rcv_pos nx s - int n"
proof -
  have lt: "rcv_pos nx s < 2 ^ 31" using itimediff_range [of "seg_sn s" nx] by (simp add: rcv_pos_def)
  have n: "itimediff (nx + of_nat n) nx = int n"
    using assms lt itimediff_of_nat [of n 0] by (simp add: itimediff_def)
  show ?thesis
    using itimediff_pos [of "seg_sn s" nx "nx + of_nat n"] assms n by (simp add: rcv_pos_def)
qed

lemma rcv_pos_eq: "seg_sn s = nx + of_nat i \<Longrightarrow> int i < 2 ^ 31 \<Longrightarrow> rcv_pos nx s = int i"
  using itimediff_of_nat [of i 0] by (simp add: rcv_pos_def itimediff_def)

lemma rcv_pos_inj: "rcv_pos nx s = rcv_pos nx t \<Longrightarrow> seg_sn s = seg_sn t"
  using itimediff_shift [of "seg_sn s" "seg_sn t" nx] itimediff_eq_0 [of "seg_sn s" "seg_sn t"]
  by (simp add: rcv_pos_def c_int32_id)

section \<open>Moving and filing keep the order\<close>

lemma rcv_sorted_move:
  assumes "rcv_sorted k"
  shows "rcv_sorted (move_ready k)"
proof -
  let ?nx = "rcv_nxt k" and ?w = "int (unat (rcv_wnd k))"
  obtain m r where mr: "rcv_buf k = m @ r"
    "move_ready k = k\<lparr>rcv_buf := r, rcv_queue := rcv_queue k @ m,
       nrcv_buf := nrcv_buf k - of_nat (length m), nrcv_que := nrcv_que k + of_nat (length m),
       rcv_nxt := rcv_nxt k + of_nat (length m)\<rparr>"
    "\<forall>i < length m. seg_sn (m ! i) = rcv_nxt k + of_nat i"
    by (rule move_ready_split)
  have w: "?w < 2 ^ 31" and so: "sorted_wrt (\<lambda>a b. rcv_pos ?nx a < rcv_pos ?nx b) (m @ r)"
    and b: "\<forall>s \<in> set (m @ r). 0 \<le> rcv_pos ?nx s \<and> rcv_pos ?nx s < ?w"
    using assms by (simp_all add: rcv_sorted_def mr(1))
  have pos: "i < length m \<Longrightarrow> rcv_pos ?nx (m ! i) = int i" for i
  proof (induction i rule: less_induct)
    case (less i)
    have "int i \<le> ?w"
    proof (cases i)
      case (Suc j)
      then have "rcv_pos ?nx (m ! j) = int j" using less by simp
      moreover have "rcv_pos ?nx (m ! j) < ?w" using b less.prems Suc by simp
      ultimately show ?thesis using Suc by simp
    qed simp
    then show ?case using rcv_pos_eq [of "m ! i" ?nx i] mr(3) less.prems w by simp
  qed
  have far: "int (length m) \<le> rcv_pos ?nx s" if "s \<in> set r" for s
  proof (cases "m = []")
    case True
    then show ?thesis using b that by simp
  next
    case False
    have "m ! (length m - 1) \<in> set m" using False by simp
    then have "rcv_pos ?nx (m ! (length m - 1)) < rcv_pos ?nx s" using so that by (auto simp: sorted_wrt_append)
    then show ?thesis using pos [of "length m - 1"] False by (simp add: of_nat_diff Suc_le_eq)
  qed
  have "rcv_pos (?nx + of_nat (length m)) s = rcv_pos ?nx s - int (length m)" if "s \<in> set r" for s
    using far [OF that] by (rule rcv_pos_step)
  moreover have "sorted_wrt (\<lambda>a b. rcv_pos ?nx a < rcv_pos ?nx b) r" using so by (simp add: sorted_wrt_append)
  ultimately have "sorted_wrt (\<lambda>a b. rcv_pos (?nx + of_nat (length m)) a < rcv_pos (?nx + of_nat (length m)) b) r"
    by (auto elim!: sorted_wrt_mono_rel [rotated])
  moreover have "0 \<le> rcv_pos (?nx + of_nat (length m)) s \<and> rcv_pos (?nx + of_nat (length m)) s < ?w"
    if "s \<in> set r" for s
  proof -
    have "rcv_pos ?nx s < ?w" using b that by simp
    then show ?thesis using far [OF that] rcv_pos_step [OF far [OF that]] by linarith
  qed
  ultimately show ?thesis using w by (simp add: rcv_sorted_def mr(2))
qed

text \<open>The scan stops at the right place.\<close>

lemma scan_sorted:
  assumes "rcv_sorted k" and "scan_back sn (rev (rcv_buf k)) [] = (False, front, aft)"
    and "0 \<le> itimediff sn (rcv_nxt k)"
  shows "(\<forall>s \<in> set front. rcv_pos (rcv_nxt k) s < itimediff sn (rcv_nxt k)) \<and>
    (\<forall>s \<in> set aft. itimediff sn (rcv_nxt k) < rcv_pos (rcv_nxt k) s)"
proof -
  let ?nx = "rcv_nxt k"
  have buf: "rcv_buf k = rev front @ aft" using scan_back_split [OF assms(2)] by simp
  have pos: "0 \<le> rcv_pos ?nx s" if "s \<in> set front \<union> set aft" for s
    using assms(1) that by (auto simp: rcv_sorted_def buf)
  have cmp: "itimediff sn (seg_sn s) = itimediff sn ?nx - rcv_pos ?nx s" if "s \<in> set front \<union> set aft" for s
    unfolding rcv_pos_def by (rule itimediff_pos [OF assms(3)]) (use pos [OF that] in \<open>simp add: rcv_pos_def\<close>)
  obtain mid where fr: "front = [] \<or> itimediff sn (seg_sn (hd front)) > 0" and "aft = mid @ []"
    and "\<forall>s \<in> set mid. itimediff sn (seg_sn s) \<le> 0 \<and> seg_sn s \<noteq> sn"
    using scan_back_fresh [OF assms(2)] by blast
  then have af: "\<forall>s \<in> set aft. itimediff sn (seg_sn s) \<le> 0 \<and> seg_sn s \<noteq> sn" by simp
  have "rcv_pos ?nx s < itimediff sn ?nx" if s: "s \<in> set front" for s
  proof -
    obtain h t where f: "front = h # t" using s by (cases front) auto
    have "rcv_pos ?nx s \<le> rcv_pos ?nx h"
      using assms(1) s by (auto simp: rcv_sorted_def buf f sorted_wrt_append)
    moreover have "rcv_pos ?nx h < itimediff sn ?nx" using fr cmp [of h] f by simp
    ultimately show ?thesis by simp
  qed
  moreover have "itimediff sn ?nx < rcv_pos ?nx s" if "s \<in> set aft" for s
  proof -
    have "itimediff sn (seg_sn s) \<noteq> 0" using af that by (auto simp: itimediff_eq_0) 
    then show ?thesis using af that cmp [of s] by force
  qed
  ultimately show ?thesis by blast
qed

lemma rcv_sorted_parse_data:
  assumes "rcv_sorted k"
  shows "rcv_sorted (ikcp_parse_data k s)"
proof -
  let ?nx = "rcv_nxt k" and ?sn = "seg_sn s"
  obtain rep front aft where sc: "scan_back ?sn (rev (rcv_buf k)) [] = (rep, front, aft)"
    by (cases "scan_back ?sn (rev (rcv_buf k)) []")
  show ?thesis
  proof (cases "itimediff ?sn (?nx + rcv_wnd k) \<ge> 0 \<or> itimediff ?sn ?nx < 0")
    case True
    then show ?thesis using assms by (simp add: ikcp_parse_data_def)
  next
    case in_wnd: False
    show ?thesis
    proof (cases rep)
      case True
      then show ?thesis using in_wnd rcv_sorted_move [OF assms] by (simp add: ikcp_parse_data_def sc)
    next
      case False
      have w: "unat (rcv_wnd k) < 2 ^ 31" using assms by (simp add: rcv_sorted_def)
      have "itimediff (?nx + rcv_wnd k) ?nx = int (unat (rcv_wnd k))"
        using sint_u32_small [OF w] by (simp add: itimediff_def)
      then have p: "0 \<le> rcv_pos ?nx s" "rcv_pos ?nx s < int (unat (rcv_wnd k))"
        using in_wnd itimediff_pos [of ?sn ?nx "?nx + rcv_wnd k"] by (auto simp: rcv_pos_def)
      have buf: "rcv_buf k = rev front @ aft" using scan_back_split [OF sc] by simp
      have ord: "\<forall>t \<in> set front. rcv_pos ?nx t < rcv_pos ?nx s" "\<forall>t \<in> set aft. rcv_pos ?nx s < rcv_pos ?nx t"
        using scan_sorted [OF assms, of ?sn front aft] sc False in_wnd by (auto simp: rcv_pos_def)
      let ?k = "k\<lparr>rcv_buf := rev front @ s # aft, nrcv_buf := nrcv_buf k + 1\<rparr>"
      have "rcv_sorted ?k"
        using assms p ord by (auto simp: rcv_sorted_def buf sorted_wrt_append)
      then have "rcv_sorted (move_ready ?k)" by (rule rcv_sorted_move)
      then show ?thesis using in_wnd False by (simp add: ikcp_parse_data_def sc)
    qed
  qed
qed

section \<open>Every input and every receive keeps the window\<close>

text \<open>What the acknowledgement half and the sender leave alone.\<close>

lemma rcv_sorted_same: "rcv_same k k' \<Longrightarrow> rcv_wnd k' = rcv_wnd k \<Longrightarrow> rcv_sorted k' = rcv_sorted k"
  by (simp add: rcv_same_def rcv_sorted_def)

lemma ack_frame_wnd: "ack_frame k k' \<Longrightarrow> rcv_wnd k' = rcv_wnd k"
  unfolding ack_frame_def by (elim exE conjE) simp

lemma rcv_sorted_ack_frame: "ack_frame k k' \<Longrightarrow> rcv_sorted k' = rcv_sorted k"
  using rcv_sorted_same ack_frame_rcv ack_frame_wnd by blast

lemma rcv_sorted_input_seg:
  assumes "input_seg al k h d v = Some (k', v')" and "rcv_sorted k" and "kcb_inv k"
  shows "rcv_sorted k'"
  using assms(1)
proof (cases rule: input_seg_cases)
  case ctl
  then show ?thesis using rcv_sorted_ack_frame assms(2) by blast
next
  case push
  let ?k = "input_pre k h"
  have r: "rcv_sorted ?k" using rcv_sorted_ack_frame [OF ack_frame_pre] assms(2) by blast
  have "ack_inv ?k" using ack_frame_inv [OF ack_frame_pre assms(3)] by (simp add: kcb_inv_def)
  with push(2) show ?thesis
  proof (cases rule: input_push_elim)
    case (acked k1 l b)
    have "rcv_sorted k1" using r by (simp add: acked(3) rcv_sorted_def)
    then show ?thesis using rcv_sorted_parse_data unfolding acked(5) by simp
  qed (use r in simp)
qed

lemma rcv_sorted_input:
  assumes "ikcp_input al k data = Some (r, k')" and "rcv_sorted k" and "kcb_inv k"
  shows "rcv_sorted k'"
  using assms(1)
proof (cases rule: ikcp_input_elim)
  case skip
  then show ?thesis using assms(2) by simp
next
  case (loop bs r1 k1 v1)
  have "kcb_inv k1 \<and> rcv_sorted k1"
    using loop(2)
  proof (rule input_loop_keeps)
    show "kcb_inv k \<and> rcv_sorted k" using assms(2,3) by simp
  next
    fix ka h d v k2 v2
    assume "kcb_inv ka \<and> rcv_sorted ka" "input_seg al ka h d v = Some (k2, v2)" "length d = unat (h_len h)"
      "0 \<le> sint (h_len h)"
    then show "kcb_inv k2 \<and> rcv_sorted k2"
      using input_seg_inv [of al ka h d v k2 v2] rcv_sorted_input_seg [of al ka h d v k2 v2] by blast
  qed
  then have 1: "rcv_sorted k1" by simp
  from loop(3) show ?thesis
  proof (elim disjE exE conjE)
    fix k2 w n assume "ack_frame k1 k2" and k': "k' = k2\<lparr>cwnd := w, incr := n\<rparr>"
    then have "rcv_sorted k2" using rcv_sorted_ack_frame 1 by blast
    then show ?thesis by (simp add: k' rcv_sorted_def)
  qed (use 1 in simp)
qed

text \<open>Strictly ordered positions inside the window: no more segments than the window has room for.\<close>

lemma sorted_int_length:
  assumes "sorted_wrt (<) (xs :: int list)" and "\<forall>x \<in> set xs. 0 \<le> x \<and> x < int n"
  shows "length xs \<le> n"
proof -
  have "distinct xs" using assms(1) by (simp add: strict_sorted_iff)
  then have "length xs = card (set xs)" by (simp add: distinct_card)
  also have "\<dots> \<le> card {0..<int n}" using assms(2) by (intro card_mono) auto
  finally show ?thesis by simp
qed

lemma rcv_buf_bounded: "rcv_sorted k \<Longrightarrow> length (rcv_buf k) \<le> unat (rcv_wnd k)"
  using sorted_int_length [of "map (rcv_pos (rcv_nxt k)) (rcv_buf k)" "unat (rcv_wnd k)"]
  by (simp add: rcv_sorted_def sorted_wrt_map)

end
