(* ===== verification/Kcp_Wire.thy ===== *)
theory Kcp_Wire
  imports Kcp_Invariant
begin

text \<open>
  What a flush puts on the wire, in order: every pending acknowledgement, the window probes that
  were asked for, then every segment of the send buffer that is new, whose timer has run out or
  that was skipped often enough. Cutting the stream into datagrams loses and reorders nothing.
  Also here: what \<open>ikcp_check\<close> promises about the time until the next \<open>ikcp_update\<close>.
\<close>

section \<open>The byte stream behind the datagrams\<close>

definition wire :: "outbuf \<Rightarrow> byte list" where
  "wire ob = concat (snd ob) @ fst ob"

lemma wire_room: "flush_room k n ob = Some ob' \<Longrightarrow> wire ob' = wire ob"
  by (cases ob) (auto simp: flush_room_def ikcp_output_def wire_def split: if_splits)

lemma wire_put: "flush_put k s p ob = Some ob' \<Longrightarrow> wire ob' = wire ob @ pkt_bytes (s, p)"
  using encode_seg_at [of "fst ob" s]
  by (cases ob) (auto simp: flush_put_def wire_def pkt_bytes_def Let_def split: if_splits)

text \<open>The acknowledgement at index \<open>i\<close> of the list.\<close>

definition ack_pkt :: "ikcpcb \<Rightarrow> ikcpseg \<Rightarrow> nat \<Rightarrow> ikcpseg" where
  "ack_pkt k seg i = seg\<lparr>seg_sn := fst (ikcp_ack_get k i), seg_ts := snd (ikcp_ack_get k i)\<rparr>"

lemma wire_acks:
  assumes "flush_acks k is seg ob = Some (seg', ob')"
  shows "wire ob' = wire ob @ concat (map (\<lambda>i. pkt_bytes (ack_pkt k seg i, [])) is) \<and>
    (\<exists>n t. seg' = seg\<lparr>seg_sn := n, seg_ts := t\<rparr>)"
  using assms
proof (induction "is" arbitrary: seg ob)
  case Nil
  have "seg = seg\<lparr>seg_sn := seg_sn seg, seg_ts := seg_ts seg\<rparr>" by simp
  then have "\<exists>n t. seg = seg\<lparr>seg_sn := n, seg_ts := t\<rparr>" by blast
  then show ?case using Nil by simp
next
  case (Cons i "is")
  let ?s = "ack_pkt k seg i"
  obtain ob1 ob2 where o: "flush_room k (sint IKCP_OVERHEAD) ob = Some ob1"
    "flush_put k ?s [] ob1 = Some ob2" "flush_acks k is ?s ob2 = Some (seg', ob')"
    using Cons.prems by (auto simp: ack_pkt_def Let_def bind_eq_Some_conv)
  have "ack_pkt k ?s j = ack_pkt k seg j" for j by (simp add: ack_pkt_def)
  then have "wire ob' = wire ob @ concat (map (\<lambda>i. pkt_bytes (ack_pkt k seg i, [])) (i # is))"
    using Cons.IH [OF o(3)] wire_put [OF o(2)] wire_room [OF o(1)] by simp
  moreover obtain n t where "seg' = ?s\<lparr>seg_sn := n, seg_ts := t\<rparr>" using Cons.IH [OF o(3)] by blast
  then have "seg' = seg\<lparr>seg_sn := n, seg_ts := t\<rparr>" by (simp add: ack_pkt_def)
  ultimately show ?case by blast
qed

definition cmd_wire :: "ikcpcb \<Rightarrow> u32 \<Rightarrow> u32 \<Rightarrow> ikcpseg \<Rightarrow> byte list" where
  "cmd_wire k ask cmd seg = (if probe k AND ask \<noteq> 0 then pkt_bytes (seg\<lparr>seg_cmd := cmd\<rparr>, []) else [])"

lemma wire_cmd:
  assumes "flush_cmd k ask cmd (seg, ob) = Some (seg', ob')"
  shows "wire ob' = wire ob @ cmd_wire k ask cmd seg"
    and "seg' = (if probe k AND ask \<noteq> 0 then seg\<lparr>seg_cmd := cmd\<rparr> else seg)"
proof -
  have "wire ob' = wire ob @ cmd_wire k ask cmd seg \<and>
    seg' = (if probe k AND ask \<noteq> 0 then seg\<lparr>seg_cmd := cmd\<rparr> else seg)"
  proof (cases "probe k AND ask \<noteq> 0")
    case True
    then obtain ob1 where "flush_room k (sint IKCP_OVERHEAD) ob = Some ob1"
      "flush_put k (seg\<lparr>seg_cmd := cmd\<rparr>) [] ob1 = Some ob'" "seg' = seg\<lparr>seg_cmd := cmd\<rparr>"
      using assms by (auto simp: flush_cmd_def Let_def bind_eq_Some_conv)
    with wire_room wire_put True show ?thesis by (simp add: cmd_wire_def)
  qed (use assms in \<open>simp add: flush_cmd_def cmd_wire_def\<close>)
  then show "wire ob' = wire ob @ cmd_wire k ask cmd seg"
    and "seg' = (if probe k AND ask \<noteq> 0 then seg\<lparr>seg_cmd := cmd\<rparr> else seg)" by blast+
qed

text \<open>The data segment as it leaves, when it leaves.\<close>

definition due_seg :: "ikcpcb \<Rightarrow> u32 \<Rightarrow> u32 \<Rightarrow> u32 \<Rightarrow> ikcpseg \<Rightarrow> ikcpseg" where
  "due_seg k resent rtomin wnd s =
     (flush_timer k rtomin (flush_why k resent s) s)\<lparr>seg_ts := current k, seg_wnd := wnd, seg_una := rcv_nxt k\<rparr>"

definition due_wire :: "ikcpcb \<Rightarrow> u32 \<Rightarrow> u32 \<Rightarrow> u32 \<Rightarrow> ikcpseg list \<Rightarrow> byte list" where
  "due_wire k resent rtomin wnd b =
     concat (map (\<lambda>s. pkt_bytes (due_seg k resent rtomin wnd s, seg_payload s))
       (filter (\<lambda>s. flush_why k resent s \<noteq> No_send) b))"

text \<open>Only \<open>xmit\<close> and \<open>state\<close> change along the loop, which neither the decision nor the timers read.\<close>

lemma flush_why_cong: "flush_why (k\<lparr>xmit := x, state := y\<rparr>) r s = flush_why k r s"
  by (simp add: flush_why_def)

lemma flush_timer_cong: "flush_timer (k\<lparr>xmit := x, state := y\<rparr>) m why s = flush_timer k m why s"
  by (cases why) (simp_all add: flush_timer_def)

lemma due_seg_cong: "due_seg (k\<lparr>xmit := x, state := y\<rparr>) r m w s = due_seg k r m w s"
  by (simp add: due_seg_def flush_why_cong flush_timer_cong)

lemma wire_data:
  assumes "flush_data resent rtomin wnd b (k\<lparr>xmit := x, state := y\<rparr>) seen change lost ob =
    Some (k', b', change', lost', ob')"
  shows "wire ob' = wire ob @ due_wire k resent rtomin wnd b"
  using assms
proof (induction b arbitrary: x y seen change lost ob)
  case Nil
  then show ?case by (simp add: due_wire_def)
next
  case (Cons s b)
  let ?k = "k\<lparr>xmit := x, state := y\<rparr>"
  define why where "why = flush_why k resent s"
  have why: "flush_why ?k resent s = why" by (simp add: why_def flush_why_cong)
  define k1 where "k1 = (if why = Timeout_send then ?k\<lparr>xmit := xmit ?k + 1\<rparr> else ?k)"
  obtain x1 where k1: "k1 = k\<lparr>xmit := x1, state := y\<rparr>"
  proof (cases "why = Timeout_send")
    case True
    then show ?thesis by (intro that [of "x + 1"]) (simp add: k1_def)
  next
    case False
    then show ?thesis by (intro that [of x]) (simp add: k1_def)
  qed
  show ?case
  proof (cases "why = No_send")
    case True
    have "flush_data resent rtomin wnd b k1 (seen @ [flush_timer ?k rtomin why s])
        (change \<or> why = Fast_send) (lost \<or> why = Timeout_send) ob = Some (k', b', change', lost', ob')"
      using Cons.prems True by (simp add: Let_def why k1_def)
    then show ?thesis using Cons.IH True unfolding k1 by (simp add: due_wire_def flip: why_def)
  next
    case False
    define s2 where "s2 = (flush_timer ?k rtomin why s)\<lparr>seg_ts := current k1, seg_wnd := wnd, seg_una := rcv_nxt k1\<rparr>"
    have s2: "s2 = due_seg k resent rtomin wnd s"
      by (simp add: s2_def due_seg_def flush_timer_cong k1 flip: why_def)
    have len: "seg_len s2 = seg_len s" and data: "seg_data s2 = seg_data s"
      using flush_timer_key [of ?k rtomin why s]
      by (simp_all add: s2_def seg_key_def del: flush_timer_key)
    obtain ob1 ob2 where o: "flush_room k1 (sint (IKCP_OVERHEAD + seg_len s2)) ob = Some ob1"
      "flush_put k1 s2 (seg_payload s) ob1 = Some ob2"
      "flush_data resent rtomin wnd b (if seg_xmit s2 \<ge> dead_link k1 then k1\<lparr>state := -1\<rparr> else k1)
        (seen @ [s2]) (change \<or> why = Fast_send) (lost \<or> why = Timeout_send) ob2 = Some (k', b', change', lost', ob')"
      using Cons.prems [unfolded flush_data.simps Let_def why, folded k1_def, folded s2_def] False
      unfolding len data seg_payload_def [symmetric] by (auto simp: bind_eq_Some_conv)
    obtain y1 where "(if seg_xmit s2 \<ge> dead_link k1 then k1\<lparr>state := -1\<rparr> else k1) = k\<lparr>xmit := x1, state := y1\<rparr>"
    proof (cases "seg_xmit s2 \<ge> dead_link k1")
      case True
      then show ?thesis by (intro that [of "-1"]) (simp add: k1)
    next
      case False
      then show ?thesis by (intro that [of y]) (simp add: k1)
    qed
    from Cons.IH [OF o(3) [unfolded this]] wire_put [OF o(2)] wire_room [OF o(1)] False show ?thesis
      by (simp add: due_wire_def s2 flip: why_def)
  qed
qed

section \<open>A flush, on the wire\<close>

text \<open>The control block as the data loop sees it: acknowledgements sent, the probe decided, the
  window filled.\<close>

definition flush_ready :: "ikcpcb \<Rightarrow> ikcpcb" where
  "flush_ready k =
     (let k1 = (flush_probe (k\<lparr>ackcount := 0\<rparr>))\<lparr>probe := 0\<rparr>
      in flush_move (snd_queue k1) (flush_cwnd k1) (ikcp_wnd_unused k) k1)"

text \<open>The header shared by the probes keeps the number and time of the last acknowledgement.\<close>

definition probe_wire :: "ikcpcb \<Rightarrow> ikcpseg \<Rightarrow> byte list" where
  "probe_wire k seg =
     (let k1 = flush_probe (k\<lparr>ackcount := 0\<rparr>);
          seg2 = (if probe k1 AND IKCP_ASK_SEND \<noteq> 0 then seg\<lparr>seg_cmd := IKCP_CMD_WASK\<rparr> else seg)
      in cmd_wire k1 IKCP_ASK_SEND IKCP_CMD_WASK seg @ cmd_wire k1 IKCP_ASK_TELL IKCP_CMD_WINS seg2)"

lemma flush_wire:
  assumes "ikcp_flush k = Some (k', sent)" and "updated k \<noteq> 0"
  shows "\<exists>n t. concat sent =
    concat (map (\<lambda>i. pkt_bytes (ack_pkt k (flush_seg k) i, [])) [0..<unat (ackcount k)]) @
    probe_wire k ((flush_seg k)\<lparr>seg_sn := n, seg_ts := t\<rparr>) @
    due_wire (flush_ready k) (flush_resent (flush_ready k)) (flush_rtomin (flush_ready k))
      (ikcp_wnd_unused k) (snd_buf (flush_ready k))"
proof -
  let ?kp = "flush_probe (k\<lparr>ackcount := 0\<rparr>)" and ?kr = "flush_ready k"
  obtain seg1 ob1 where a: "flush_acks k [0..<unat (ackcount k)] (flush_seg k) ([], []) = Some (seg1, ob1)"
    using assms by (auto simp: ikcp_flush_def Let_def bind_eq_Some_conv)
  obtain seg2 ob2 where b: "flush_cmd ?kp IKCP_ASK_SEND IKCP_CMD_WASK (seg1, ob1) = Some (seg2, ob2)"
    using assms a by (auto simp: ikcp_flush_def Let_def bind_eq_Some_conv)
  obtain seg3 ob3 where c: "flush_cmd ?kp IKCP_ASK_TELL IKCP_CMD_WINS (seg2, ob2) = Some (seg3, ob3)"
    using assms a b by (auto simp: ikcp_flush_def Let_def bind_eq_Some_conv)
  obtain n t where s1: "seg1 = (flush_seg k)\<lparr>seg_sn := n, seg_ts := t\<rparr>" using wire_acks [OF a] by blast
  have "seg_wnd seg3 = ikcp_wnd_unused k"
    using wire_cmd(2) [OF b] wire_cmd(2) [OF c] by (simp add: s1 flush_seg_def)
  then obtain kd bd cd ld ptr st where d: "flush_data (flush_resent ?kr) (flush_rtomin ?kr)
      (ikcp_wnd_unused k) (snd_buf ?kr) ?kr [] False False ob3 = Some (kd, bd, cd, ld, (ptr, st))"
    and out: "(if ptr \<noteq> [] then ikcp_output (kd\<lparr>snd_buf := bd\<rparr>) ptr st else Some st) = Some sent"
    using assms a b c by (auto simp: ikcp_flush_def flush_ready_def Let_def bind_eq_Some_conv)
  have "concat sent = wire (ptr, st)"
    using out by (auto simp: wire_def ikcp_output_def split: if_splits)
  moreover have "wire (ptr, st) = wire ob3 @ due_wire ?kr (flush_resent ?kr) (flush_rtomin ?kr)
      (ikcp_wnd_unused k) (snd_buf ?kr)"
    by (rule wire_data [where x = "xmit ?kr" and y = "state ?kr"]) (use d in simp)
  moreover have "wire ob3 = wire ob1 @ probe_wire k seg1"
    using wire_cmd [OF b] wire_cmd [OF c] by (simp add: probe_wire_def Let_def)
  moreover have "wire ob1 = concat (map (\<lambda>i. pkt_bytes (ack_pkt k (flush_seg k) i, [])) [0..<unat (ackcount k)])"
    using wire_acks [OF a] by (simp add: wire_def)
  ultimately show ?thesis unfolding s1 by (intro exI [of _ n] exI [of _ t]) simp
qed

section \<open>When to update next\<close>

lemma check_loop_None: "check_loop now b tm = None \<longleftrightarrow> (\<exists>s \<in> set b. itimediff (seg_resendts s) now \<le> 0)"
  by (induction now b tm rule: check_loop.induct) (auto simp: Let_def)

lemma check_loop_Some:
  "check_loop now b tm = Some t \<Longrightarrow> t \<le> tm \<and> (\<forall>s \<in> set b. t \<le> itimediff (seg_resendts s) now) \<and>
     (0 < tm \<longrightarrow> 0 < t)"
  by (induction now b tm rule: check_loop.induct) (auto simp: Let_def split: if_splits)

text \<open>Until the time \<open>ikcp_check\<close> returns, neither the flush clock nor any segment's timer runs out.\<close>

lemma check_quiet:
  assumes "updated k \<noteq> 0" and "int e < itimediff (ikcp_check k now) now"
    and "- 10000 \<le> itimediff now (ts_flush k)" and "unat (interval k) < 2 ^ 31"
  shows "itimediff (now + of_nat e) (ts_flush k) < 0 \<and>
    (\<forall>s \<in> set (snd_buf k). itimediff (now + of_nat e) (seg_resendts s) < 0)"
proof -
  let ?f = "itimediff now (ts_flush k)"
  have flip: "itimediff a b = - itimediff b a" if "itimediff b a \<noteq> - (2 ^ 31)" for a b
  proof -
    have "- (2 ^ 31) < itimediff b a" "itimediff b a < 2 ^ 31"
      using that itimediff_range [of b a] by linarith+
    then have "c_int32 (- itimediff b a) = - itimediff b a" by (intro c_int32_id) simp_all
    moreover have "itimediff a b = c_int32 (- itimediff b a)"
      by (simp add: itimediff_def flip: sint_word_of_int_u32)
    ultimately show ?thesis by simp
  qed
  have neg: "?f < 0" "ikcp_check k now \<noteq> now"
    using assms(1,2) by (auto simp: ikcp_check_def Let_def split: if_splits)
  obtain tp where tp: "check_loop now (snd_buf k) 0x7fffffff = Some tp"
    using neg assms(1) by (auto simp: ikcp_check_def Let_def split: option.splits if_splits)
  have tf: "itimediff (ts_flush k) now = - ?f" using flip [where a = "ts_flush k" and b = now] assms(3) by simp
  define m where "m = (if tp < - ?f then tp else - ?f)"
  have m: "0 < m" "m < 2 ^ 31" "m \<le> - ?f" "\<forall>s \<in> set (snd_buf k). m \<le> itimediff (seg_resendts s) now"
    using check_loop_Some [OF tp] neg(1) by (auto simp: m_def)
  define w where "w = (word_of_int m :: u32)"
  have w: "itimediff w 0 = m" using m(1,2) by (simp add: w_def itimediff_def sint_word_of_int_u32 c_int32_id)
  have "ikcp_check k now = now + (if w \<ge> interval k then interval k else w)"
    using assms(1,3) neg(1) tp tf by (simp add: ikcp_check_def Let_def w_def m_def)
  moreover have "sint (if w \<ge> interval k then interval k else w) \<le> m"
  proof (cases "interval k \<le> w")
    case True
    have "unat w = nat m" using m(1,2) w unfolding w_def itimediff_def
      by (simp add: unat_eq_nat_uint uint_word_of_int_eq take_bit_int_eq_self)
    then have "int (unat (interval k)) \<le> m" using True m(1) by (simp add: word_le_nat_alt)
    then show ?thesis using True sint_u32_small [OF assms(4)] by simp
  next
    case False
    then show ?thesis using w by (simp add: itimediff_def)
  qed
  ultimately have e: "int e < m" using assms(2) by (simp add: itimediff_def)
  have step: "itimediff (now + of_nat e) x < 0" if x: "m \<le> itimediff x now" for x
  proof -
    have "itimediff (now + of_nat e) now = int e"
      using e m(2) itimediff_of_nat [of e 0] by (simp add: itimediff_def)
    then have "itimediff (now + of_nat e) x = c_int32 (int e - itimediff x now)"
      by (simp add: itimediff_def algebra_simps flip: sint_word_of_int_u32 wi_hom_sub)
    moreover have "itimediff x now < 2 ^ 31" using itimediff_range [of x now] by simp
    ultimately show ?thesis using x e c_int32_id [of "int e - itimediff x now"] by simp
  qed
  show ?thesis using step m(3,4) tf by simp
qed

end
