(* ===== verification/Kcp_Theorems.thy ===== *)
theory Kcp_Theorems
  imports Kcp_Window Kcp_Wire
begin

text \<open>
  The properties of the KCP protocol engine, each with a closed instance. The lemmas they rest on
  are in the component theories; here is also \<open>net_run\<close>, which plays a script of calls on both
  peers and so produces concrete states of \<open>kcp_reach\<close>.
\<close>

section \<open>Scripts\<close>

datatype net_move = On_a kcp_call | On_b kcp_call | Deliver nat

text \<open>\<open>Deliver i\<close> hands the \<open>i\<close>-th datagram of A to B.\<close>

fun net_call_b :: "allocator \<Rightarrow> kcp_call \<Rightarrow> kcp_net \<Rightarrow> kcp_net option" where
  "net_call_b al c n =
     (if \<not> kcp_pre c (peer_b n) then None
      else map_option (\<lambda>b. n\<lparr>peer_b := b, msgs_out := msgs_out n @ delivered c (peer_b n)\<rparr>)
             (kcp_step al c (peer_b n)))"

fun net_act :: "allocator \<Rightarrow> net_move \<Rightarrow> kcp_net \<Rightarrow> kcp_net option" where
  "net_act al (On_a c) n =
     (if \<not> kcp_pre c (peer_a n) then None
      else map_option (\<lambda>a. n\<lparr>peer_a := a, msgs_in := msgs_in n @ accepted al c (peer_a n)\<rparr>)
             (kcp_step al c (peer_a n)))"
| "net_act al (On_b c) n = (case c of Call_input _ \<Rightarrow> None | _ \<Rightarrow> net_call_b al c n)"
| "net_act al (Deliver i) n =
     (if i < length (snd (peer_a n))
      then net_call_b al (Call_input (Some (snd (snd (peer_a n) ! i)))) n else None)"

definition net_start :: "allocator \<Rightarrow> u32 \<Rightarrow> kcp_net option" where
  "net_start al cv = map_option (\<lambda>k. \<lparr>peer_a = (ikcp_setoutput k True, []),
     peer_b = (ikcp_setoutput k True, []), msgs_in = [], msgs_out = []\<rparr>) (ikcp_create al cv)"

definition net_run :: "allocator \<Rightarrow> u32 \<Rightarrow> net_move list \<Rightarrow> kcp_net option" where
  "net_run al cv acts = Option.bind (net_start al cv) (run_calls (net_act al) acts)"

lemma net_act_reach:
  assumes "kcp_reach al cv n" and "net_act al act n = Some n'"
  shows "kcp_reach al cv n'"
proof -
  have b: "kcp_reach al cv n'" if "net_call_b al c n = Some n'"
    "\<And>bs. c = Call_input (Some bs) \<Longrightarrow> bs \<in> snd ` set (snd (peer_a n))" for c
    using that assms(1) kcp_reach.call_b [of al cv n c] by (auto split: if_splits)
  show ?thesis
  proof (cases act)
    case (On_a c)
    then show ?thesis using assms kcp_reach.call_a [of al cv n c] by (auto split: if_splits)
  next
    case (On_b c)
    then have "net_call_b al c n = Some n'" "\<And>d. c \<noteq> Call_input d"
      using assms(2) by (cases c; simp del: net_call_b.simps)+
    then show ?thesis using b [of c] by blast
  next
    case (Deliver i)
    then show ?thesis
      using assms(2) b [of "Call_input (Some (snd (snd (peer_a n) ! i)))"] by (simp split: if_splits)
  qed
qed

lemma net_run_reach:
  assumes "net_run al cv acts = Some n"
  shows "kcp_reach al cv n"
proof -
  obtain n0 where n0: "net_start al cv = Some n0" "run_calls (net_act al) acts n0 = Some n"
    using assms by (auto simp: net_run_def bind_eq_Some_conv)
  have "kcp_reach al cv n0" using n0(1) kcp_reach.start by (auto simp: net_start_def)
  then show ?thesis using n0(2)
  proof (induction acts arbitrary: n0)
    case (Cons act acts)
    then obtain n1 where "net_act al act n0 = Some n1" "run_calls (net_act al) acts n1 = Some n"
      by (auto split: option.splits)
    then show ?case using Cons net_act_reach by blast
  qed simp
qed

section \<open>Reliable delivery\<close>

text \<open>C1: Reliable, ordered delivery. Peer A and peer B run any sequence of API calls within the API's
  discipline (\<open>kcp_reach\<close>); B is fed any of A's datagrams, any number of times, late, out of order
  or not at all, and A is fed arbitrary bytes. In every reachable state the messages B's user has
  received are exactly the first ones A's user has sent, byte for byte and in order, as long as
  the 32-bit sequence numbers cannot have been used up.\<close>

theorem kcp_reliable:
  assumes "kcp_reach al cv n" and "length (msgs_in n) \<le> 33818640"
  shows "msgs_out n = take (length (msgs_out n)) (msgs_in n)"
  using assms by (rule kcp_reach_prefix)

text \<open>One message, its datagram delivered twice.\<close>

definition demo_acts :: "net_move list" where
  "demo_acts = [On_a (Call_nodelay 1 10 2 1), On_a (Call_send [1, 2, 3]), On_a (Call_update 0),
     Deliver 0, Deliver 0, On_b (Call_recv 100)]"

lemma demo_net:
  "map_option (\<lambda>n. (msgs_in n, msgs_out n)) (net_run (\<lambda>_. True) 7 demo_acts) =
   Some ([[1, 2, 3]], [[1, 2, 3]])"
  by code_simp

theorem kcp_reliable_witness:
  "\<exists>n. kcp_reach (\<lambda>_. True) 7 n \<and> msgs_in n = [[1, 2, 3]] \<and> msgs_out n = [[1, 2, 3]] \<and>
     msgs_out n = take (length (msgs_out n)) (msgs_in n)"
proof -
  obtain n where n: "net_run (\<lambda>_. True) 7 demo_acts = Some n" "msgs_in n = [[1, 2, 3]]"
    "msgs_out n = [[1, 2, 3]]"
    using demo_net by (auto simp: map_option_case split: option.splits)
  have "msgs_out n = take (length (msgs_out n)) (msgs_in n)"
    by (rule kcp_reliable [OF net_run_reach [OF n(1)]]) (simp add: n(2))
  then show ?thesis using n net_run_reach by blast
qed

section \<open>Safety of the API\<close>

text \<open>The control block \<open>ikcp_create\<close> makes, with an output callback installed.\<close>

definition fresh_kcb :: "u32 \<Rightarrow> ikcpcb" where
  "fresh_kcb cv = ikcp_setoutput (the (ikcp_create (\<lambda>_. True) cv)) True"

lemma fresh_create: "ikcp_create (\<lambda>_. True) cv = Some (the (ikcp_create (\<lambda>_. True) cv))"
  by (simp add: ikcp_create_def)

lemma fresh_ok: "kcp_ok (fresh_kcb cv, [])"
  unfolding fresh_kcb_def by (rule create_ok [OF fresh_create])

lemma fresh_inv: "kcb_inv (fresh_kcb cv)" "output_cb (fresh_kcb cv)"
  using fresh_ok [of cv] by (simp_all add: kcp_ok_def)

text \<open>C2: Memory safety of the whole API. On a fresh control block, any sequence of calls (sends of any
  size, receives, arbitrary input bytes, clock updates, flushes, configuration) in which each call
  meets its precondition \<open>kcp_pre\<close> runs to completion: no assertion fails, nothing is written past
  the scratch buffer or the acknowledgement list, the doubling loop ends. The control block stays
  well formed, and no datagram is longer than the MTU in force when it was sent.\<close>

theorem kcp_api_safe:
  assumes "run_pre (kcp_step (\<lambda>_. True)) kcp_pre cs (fresh_kcb cv, [])"
  shows "\<exists>k log. run_calls (kcp_step (\<lambda>_. True)) cs (fresh_kcb cv, []) = Some (k, log) \<and>
    kcb_inv k \<and> (\<forall>(m, d) \<in> set log. length d \<le> unat m)"
  using api.run_ok [OF fresh_ok assms] by (auto simp: kcp_ok_def)

lemma demo_calls:
  "run_pre (kcp_step (\<lambda>_. True)) kcp_pre [Call_send [1, 2, 3], Call_recv 10, Call_input (Some [0, 0])] (fresh_kcb 7, [])"
  by code_simp

theorem kcp_api_safe_witness:
  "\<exists>k log. run_calls (kcp_step (\<lambda>_. True)) [Call_send [1, 2, 3], Call_recv 10, Call_input (Some [0, 0])]
     (fresh_kcb 7, []) = Some (k, log) \<and> kcb_inv k \<and> (\<forall>(m, d) \<in> set log. length d \<le> unat m)"
  by (rule kcp_api_safe [OF demo_calls])

text \<open>C3: Any bytes whatever can be fed to \<open>ikcp_input\<close>: it returns, the control block stays well formed
  and the receive buffer stays strictly ordered inside the receive window, so a peer can never
  make it hold more than \<open>rcv_wnd\<close> segments.\<close>

theorem kcp_input_bounded:
  assumes "kcb_inv k" and "rcv_sorted k" and "unat (ackcount k) + length bs div 24 \<le> 2 ^ 31"
  shows "\<exists>r k'. ikcp_input (\<lambda>_. True) k (Some bs) = Some (r, k') \<and> kcb_inv k' \<and> rcv_sorted k' \<and>
    length (rcv_buf k') \<le> unat (rcv_wnd k')"
proof -
  obtain r k' where i: "ikcp_input (\<lambda>_. True) k (Some bs) = Some (r, k')" "kcb_inv k'"
    by (rule input_ok [of "\<lambda>_. True" k "Some bs"]) (use assms in auto)
  then have "rcv_sorted k'" using rcv_sorted_input assms(1,2) by blast
  then show ?thesis using i rcv_buf_bounded by blast
qed

lemma fresh_sorted: "rcv_sorted (fresh_kcb cv)" "ackcount (fresh_kcb cv) = 0"
  by (simp_all add: fresh_kcb_def ikcp_create_def ikcp_setoutput_def rcv_sorted_def ikcp_consts)

theorem kcp_input_bounded_witness:
  "\<exists>r k'. ikcp_input (\<lambda>_. True) (fresh_kcb 7) (Some (replicate 1000 255)) = Some (r, k') \<and> kcb_inv k' \<and>
     rcv_sorted k' \<and> length (rcv_buf k') \<le> unat (rcv_wnd k')"
  by (rule kcp_input_bounded) (simp_all add: fresh_inv fresh_sorted)

section \<open>What a flush sends\<close>

text \<open>C4: A flush of a well-formed control block never fails, keeps it well formed, and every datagram it
  hands to the output callback fits the MTU and is a sequence of whole segments, each either a
  header without payload or a copy of a segment in the send buffer.\<close>

theorem kcp_flush_safe:
  assumes "kcb_inv k" and "output_cb k"
  shows "\<exists>k' sent. ikcp_flush k = Some (k', sent) \<and> kcb_inv k' \<and>
    (\<forall>d \<in> set sent. length d \<le> unat (mtu k) \<and> dgram (sendable (conv k) (snd_buf k')) d)"
proof -
  obtain k' sent m where f: "ikcp_flush k = Some (k', sent)" "flush_post k k' sent m"
    using flush_total [OF assms] by blast
  then show ?thesis using flush_post_inv [OF f(2) assms(1)] by (auto simp: flush_post_def)
qed

theorem kcp_flush_safe_witness:
  "\<exists>k' sent. ikcp_flush (fresh_kcb 7) = Some (k', sent) \<and> kcb_inv k' \<and>
     (\<forall>d \<in> set sent. length d \<le> unat (mtu (fresh_kcb 7)) \<and> dgram (sendable (conv (fresh_kcb 7)) (snd_buf k')) d)"
  by (rule kcp_flush_safe [OF fresh_inv])

text \<open>C5: Nothing due is forgotten. The datagrams of a flush, put end to end, are: one acknowledgement
  for every entry of the acknowledgement list, in order; the window probes asked for; and then, in
  order, every segment of the send buffer that is new, timed out or skipped often enough
  (\<open>flush_why\<close>), with its time stamp, window and \<open>una\<close> refreshed.\<close>

theorem kcp_flush_sends_due:
  assumes "kcb_inv k" and "output_cb k" and "updated k \<noteq> 0"
  shows "\<exists>k' sent n t. ikcp_flush k = Some (k', sent) \<and> concat sent =
    concat (map (\<lambda>i. pkt_bytes (ack_pkt k (flush_seg k) i, [])) [0..<unat (ackcount k)]) @
    probe_wire k ((flush_seg k)\<lparr>seg_sn := n, seg_ts := t\<rparr>) @
    due_wire (flush_ready k) (flush_resent (flush_ready k)) (flush_rtomin (flush_ready k))
      (ikcp_wnd_unused k) (snd_buf (flush_ready k))"
proof -
  obtain k' sent where f: "ikcp_flush k = Some (k', sent)" by (rule flush_ok [OF assms(1,2)])
  show ?thesis using flush_wire [OF f assms(3)] f by blast
qed

lemma kcb_inv_updated: "kcb_inv (k\<lparr>updated := u\<rparr>) = kcb_inv k"
  by (simp add: kcb_inv_def io_inv_def snd_inv_def rcv_inv_def ack_inv_def)

theorem kcp_flush_sends_due_witness:
  "\<exists>k' sent n t. ikcp_flush ((fresh_kcb 7)\<lparr>updated := 1\<rparr>) = Some (k', sent) \<and> concat sent =
    concat (map (\<lambda>i. pkt_bytes (ack_pkt ((fresh_kcb 7)\<lparr>updated := 1\<rparr>) (flush_seg ((fresh_kcb 7)\<lparr>updated := 1\<rparr>)) i, []))
      [0..<unat (ackcount ((fresh_kcb 7)\<lparr>updated := 1\<rparr>))]) @
    probe_wire ((fresh_kcb 7)\<lparr>updated := 1\<rparr>) ((flush_seg ((fresh_kcb 7)\<lparr>updated := 1\<rparr>))\<lparr>seg_sn := n, seg_ts := t\<rparr>) @
    due_wire (flush_ready ((fresh_kcb 7)\<lparr>updated := 1\<rparr>)) (flush_resent (flush_ready ((fresh_kcb 7)\<lparr>updated := 1\<rparr>)))
      (flush_rtomin (flush_ready ((fresh_kcb 7)\<lparr>updated := 1\<rparr>)))
      (ikcp_wnd_unused ((fresh_kcb 7)\<lparr>updated := 1\<rparr>)) (snd_buf (flush_ready ((fresh_kcb 7)\<lparr>updated := 1\<rparr>)))"
proof (rule kcp_flush_sends_due)
  show "kcb_inv ((fresh_kcb 7)\<lparr>updated := 1\<rparr>)"
    using fresh_inv by (simp only: kcb_inv_updated)
qed (simp_all add: fresh_inv)

section \<open>Messages\<close>

text \<open>C21: Fragmentation. In message mode \<open>ikcp_send\<close> either refuses a message that needs 128 or more
  fragments (code \<open>-2\<close>, nothing changes), or queues fragments of at most \<open>mss\<close> bytes whose
  concatenation is the message and whose numbers count down to zero.\<close>

theorem kcp_send_fragments:
  assumes "ikcp_send al k buf (int (length buf)) = Some (r, k')" and "stream_mode k = 0" and "kcb_inv k"
    and "length buf < 2 ^ 31"
  shows "(r = -2 \<and> k' = k \<and> 128 \<le> piece_count (unat (mss k)) (length buf)) \<or>
    (r = 0 \<and> (\<exists>fs. k' = k\<lparr>snd_queue := snd_queue k @ fs, nsnd_que := nsnd_que k + of_nat (length fs)\<rparr> \<and>
       length fs < 128 \<and> fs \<noteq> [] \<and> concat (map seg_data fs) = buf \<and>
       map seg_frg fs = map of_nat (rev [0..<length fs]) \<and>
       (\<forall>s \<in> set fs. length (seg_data s) \<le> unat (mss k) \<and> seg_len s = of_nat (length (seg_data s)))))"
proof -
  have m: "0 < unat (mss k)" "unat (mss k) < 2 ^ 31" using assms(3) by (simp_all add: kcb_inv_def io_inv_def)
  let ?n = "piece_count (unat (mss k)) (length buf)" and ?fs = "msg_frags 0 (unat (mss k)) (piece_count (unat (mss k)) (length buf)) buf"
  from send_message [OF assms(1,2) m assms(4)] show ?thesis
  proof (elim disjE conjE)
    assume r: "r = 0" "?n < 128" and k': "k' = k\<lparr>snd_queue := snd_queue k @ ?fs, nsnd_que := nsnd_que k + of_nat ?n\<rparr>"
    have ne: "?fs \<noteq> []" using piece_count_pos [OF m(1), of "length buf"] by (simp flip: length_greater_0_conv)
    have cat: "concat (map seg_data ?fs) = buf"
      using concat_pieces [OF piece_count_enough [OF m(1)]] by (simp add: map_data_msg_frags)
    have frg: "map seg_frg ?fs = map of_nat (rev [0..<length ?fs])" by (simp add: map_frg_msg_frags)
    show ?thesis
      by (rule disjI2, rule conjI [OF r(1)], rule exI [of _ ?fs])
        (use k' r(2) ne cat frg msg_frags_len [of _ 0 "unat (mss k)" ?n buf] in simp)
  qed simp
qed

lemma fresh_mode: "stream_mode (fresh_kcb cv) = 0" "mss (fresh_kcb cv) = 1376" "updated (fresh_kcb cv) = 0"
  by (simp_all add: fresh_kcb_def ikcp_create_def ikcp_setoutput_def ikcp_consts)

theorem kcp_send_fragments_witness:
  "\<exists>r k'. ikcp_send (\<lambda>_. True) (fresh_kcb 7) [1, 2] 2 = Some (r, k') \<and>
     ((r = -2 \<and> k' = fresh_kcb 7 \<and> 128 \<le> piece_count (unat (mss (fresh_kcb 7))) 2) \<or>
      (r = 0 \<and> (\<exists>fs. k' = (fresh_kcb 7)\<lparr>snd_queue := snd_queue (fresh_kcb 7) @ fs,
           nsnd_que := nsnd_que (fresh_kcb 7) + of_nat (length fs)\<rparr> \<and>
         length fs < 128 \<and> fs \<noteq> [] \<and> concat (map seg_data fs) = [1, 2] \<and>
         map seg_frg fs = map of_nat (rev [0..<length fs]) \<and>
         (\<forall>s \<in> set fs. length (seg_data s) \<le> unat (mss (fresh_kcb 7)) \<and> seg_len s = of_nat (length (seg_data s))))))"
proof -
  obtain r k' where r: "ikcp_send (\<lambda>_. True) (fresh_kcb 7) [1, 2] (int (length [1, 2 :: byte])) = Some (r, k')"
    using send_total [of "\<lambda>_. True" "fresh_kcb 7"] fresh_inv by blast
  have len: "length [1, 2 :: byte] = 2" and l: "length [1, 2 :: byte] < 2 ^ 31" by simp_all
  show ?thesis
    using kcp_send_fragments [OF r fresh_mode(1) fresh_inv(1) l] r unfolding len of_nat_numeral by blast
qed

text \<open>C22: \<open>ikcp_recv\<close> on every branch. With an empty queue it returns \<open>-1\<close>, with an incomplete message
  \<open>-2\<close>, with a buffer smaller than \<open>ikcp_peeksize\<close> says \<open>-3\<close>, each time without touching the state;
  otherwise it returns the promised size and the fragments of the first message joined, takes
  them off the queue unless it was only peeking, moves up what has become ready, and asks for a
  window update when the queue had been full. Its internal assertion never fails.\<close>

theorem kcp_recv_outcome:
  assumes "first_msg (rcv_queue k) = (m, q)"
  shows "ikcp_recv k len =
    (if rcv_queue k = [] then Some (-1, [], k)
     else if ikcp_peeksize k < 0 then Some (-2, [], k)
     else if ikcp_peeksize k > (if len < 0 then c_int32 (- len) else len) then Some (-3, [], k)
     else Some (ikcp_peeksize k, concat (map seg_payload m),
            recv_tell (move_ready (if len < 0 then k
              else k\<lparr>rcv_queue := q, nrcv_que := nrcv_que k - of_nat (length m)\<rparr>))
              (nrcv_que k \<ge> rcv_wnd k)))"
  using recv_outcome [OF assms, of len] peeksize_first_msg [OF assms] by (simp add: not_less)

theorem kcp_recv_outcome_witness:
  "ikcp_recv (fresh_kcb 7) 10 = Some (-1, [], fresh_kcb 7)"
proof -
  have "rcv_queue (fresh_kcb 7) = []" by (simp add: fresh_kcb_def ikcp_create_def ikcp_setoutput_def)
  then show ?thesis using kcp_recv_outcome [of "fresh_kcb 7" "[]" "[]" 10] by simp
qed

section \<open>The wire format\<close>

text \<open>C23: The header round-trips: reading back what \<open>ikcp_encode_seg\<close> wrote gives every field at its wire
  width and leaves the rest of the datagram.\<close>

theorem kcp_header_roundtrip:
  "ikcp_decode_hdr (ikcp_encode_seg [] s @ r) = Some (hdr_of_seg s, r) \<and>
   ikcp_getconv (ikcp_encode_seg [] s @ r) = Some (seg_conv s) \<and> length (ikcp_encode_seg [] s) = 24"
proof (intro conjI)
  show "ikcp_getconv (ikcp_encode_seg [] s @ r) = Some (seg_conv s)"
    by (simp add: ikcp_getconv_def encode_seg_fields codec_simps)
qed (simp_all add: decode_hdr_encode_seg)

text \<open>Serial-number arithmetic: on any two positions less than \<open>2 ^ 31\<close> apart, \<open>_itimediff\<close> of
  their 32-bit images is their true distance, however often the counter has wrapped.\<close>

theorem kcp_itimediff_wraps:
  assumes "m < n + 2 ^ 31" and "n \<le> m + 2 ^ 31"
  shows "itimediff (of_nat m) (of_nat n) = int m - int n"
  using assms by (rule itimediff_of_nat)

theorem kcp_itimediff_wraps_witness:
  "itimediff (of_nat 4294967300) (of_nat 4294967290) = 10"
  using kcp_itimediff_wraps [of 4294967300 4294967290] by simp

lemma known_cmd_iff: "known_cmd c \<longleftrightarrow> c \<in> {81, 82, 83, 84}"
proof -
  have "take_bit 32 (unat c) = unat c" using unsigned_less [of c, where 'a = nat] by (intro take_bit_nat_eq_self) simp
  then show ?thesis by (auto simp: known_cmd_def ikcp_consts word_unat_eq_iff unsigned_ucast_eq)
qed

text \<open>C24: The error codes of \<open>ikcp_input\<close> for the first segment of a datagram: a foreign conversation
  number gives \<open>-1\<close>, a payload longer than the datagram (or a negative length) \<open>-2\<close>, an unknown
  command \<open>-3\<close>, and in these cases nothing at all has changed; so does a datagram shorter than a
  header, or none.\<close>

theorem kcp_input_rejects:
  assumes "ikcp_decode_hdr bs = Some (h, rest)" and "length bs < 2 ^ 31"
  shows "(h_conv h \<noteq> conv k \<longrightarrow> ikcp_input al k (Some bs) = Some (-1, k)) \<and>
    (h_conv h = conv k \<and> (length rest < unat (h_len h) \<or> sint (h_len h) < 0) \<longrightarrow>
       ikcp_input al k (Some bs) = Some (-2, k)) \<and>
    (h_conv h = conv k \<and> \<not> (length rest < unat (h_len h) \<or> sint (h_len h) < 0) \<and> h_cmd h \<notin> {81, 82, 83, 84} \<longrightarrow>
       ikcp_input al k (Some bs) = Some (-3, k)) \<and>
    ikcp_input al k None = Some (-1, k) \<and> (\<forall>bs'. length bs' < 24 \<longrightarrow> ikcp_input al k (Some bs') = Some (-1, k))"
proof -
  have len: "24 \<le> length bs" using decode_hdr_Some [OF assms(1)] by simp
  have short: "ikcp_input al k None = Some (-1, k)" "length bs' < 24 \<Longrightarrow> ikcp_input al k (Some bs') = Some (-1, k)" for bs'
    by (simp_all add: ikcp_input_def IKCP_OVERHEAD_def c_int32_id)
  have "c_int32 (int (length bs)) = int (length bs)" using assms(2) by (intro c_int32_id) simp_all
  then have go: "ikcp_input al k (Some bs) = (let prev_una = snd_una k in
            case input_loop al bs k (False, 0, 0) of
              None \<Rightarrow> None
            | Some (ret, k, flag, maxack, latest_ts) \<Rightarrow>
                if ret \<noteq> 0 then Some (ret, k)
                else
                  let k = (if flag then ikcp_parse_fastack k maxack latest_ts else k)
                  in Some (0, input_cwnd k prev_una))"
    using len by (simp add: ikcp_input_def IKCP_OVERHEAD_def)
  have "(h_conv h \<noteq> conv k \<longrightarrow> ikcp_input al k (Some bs) = Some (-1, k)) \<and>
    (h_conv h = conv k \<and> (length rest < unat (h_len h) \<or> sint (h_len h) < 0) \<longrightarrow>
       ikcp_input al k (Some bs) = Some (-2, k)) \<and>
    (h_conv h = conv k \<and> \<not> (length rest < unat (h_len h) \<or> sint (h_len h) < 0) \<and> \<not> known_cmd (h_cmd h) \<longrightarrow>
       ikcp_input al k (Some bs) = Some (-3, k))"
    unfolding go using len by (simp add: input_loop.simps [of al bs k] assms(1) IKCP_OVERHEAD_def)
  then show ?thesis using short by (simp add: known_cmd_iff)
qed

theorem kcp_input_rejects_witness:
  "ikcp_input (\<lambda>_. True) (fresh_kcb 7) (Some (ikcp_encode_seg [] (ikcp_segment_new [] 0 0))) = Some (-1, fresh_kcb 7)"
proof -
  let ?s = "ikcp_segment_new [] 0 0"
  have c: "conv (fresh_kcb 7) = 7" by (simp add: fresh_kcb_def ikcp_create_def ikcp_setoutput_def)
  have d: "ikcp_decode_hdr (ikcp_encode_seg [] ?s) = Some (hdr_of_seg ?s, [])"
    using decode_hdr_encode_seg [of ?s "[]"] by simp
  show ?thesis
    using kcp_input_rejects [OF d, of "fresh_kcb 7" "\<lambda>_. True"] c by (simp add: hdr_of_seg_def ikcp_segment_new_def)
qed

section \<open>Windows, timers and congestion control\<close>

text \<open>Flow control. A flush numbers queued segments only inside the send window: the \<open>i\<close>-th segment
  it moves to the send buffer gets the number \<open>snd_nxt + i\<close>, which is below \<open>snd_una\<close> plus the
  window, the smallest of the local, remote and congestion windows; and it stops only at the end
  of the queue or of the window.\<close>

theorem kcp_flush_window:
  "\<exists>m r. q = m @ r \<and>
     flush_move q w wnd k = k\<lparr>snd_queue := r, snd_buf := snd_buf k @ stamp k wnd (snd_nxt k) m,
       nsnd_que := nsnd_que k - of_nat (length m), nsnd_buf := nsnd_buf k + of_nat (length m),
       snd_nxt := snd_nxt k + of_nat (length m)\<rparr> \<and>
     (\<forall>i. i < length m \<longrightarrow> itimediff (snd_nxt k + of_nat i) (snd_una k + w) < 0) \<and>
     (r = [] \<or> itimediff (snd_nxt k + of_nat (length m)) (snd_una k + w) \<ge> 0)"
  by (rule flush_move_split [of q w wnd k]) blast

theorem kcp_flush_window_witness:
  "\<exists>m r. [ikcp_segment_new [1] 1 0] = m @ r \<and>
     flush_move [ikcp_segment_new [1] 1 0] 32 128 (fresh_kcb 7) = (fresh_kcb 7)\<lparr>snd_queue := r,
       snd_buf := snd_buf (fresh_kcb 7) @ stamp (fresh_kcb 7) 128 (snd_nxt (fresh_kcb 7)) m,
       nsnd_que := nsnd_que (fresh_kcb 7) - of_nat (length m), nsnd_buf := nsnd_buf (fresh_kcb 7) + of_nat (length m),
       snd_nxt := snd_nxt (fresh_kcb 7) + of_nat (length m)\<rparr> \<and>
     (\<forall>i. i < length m \<longrightarrow> itimediff (snd_nxt (fresh_kcb 7) + of_nat i) (snd_una (fresh_kcb 7) + 32) < 0) \<and>
     (r = [] \<or> itimediff (snd_nxt (fresh_kcb 7) + of_nat (length m)) (snd_una (fresh_kcb 7) + 32) \<ge> 0)"
  by (rule kcp_flush_window)

text \<open>Whatever round-trip time is reported, the retransmission timeout stays between the configured
  minimum and 60 seconds.\<close>

theorem kcp_rto_bounds:
  assumes "rx_minrto k \<le> IKCP_RTO_MAX"
  shows "rx_minrto k \<le> rx_rto (ikcp_update_ack k rtt) \<and> rx_rto (ikcp_update_ack k rtt) \<le> IKCP_RTO_MAX"
proof -
  have "\<exists>x. rx_rto (ikcp_update_ack k rtt) = ibound (rx_minrto k) x IKCP_RTO_MAX"
    by (auto simp: ikcp_update_ack_def Let_def)
  moreover have "rx_minrto k \<le> ibound (rx_minrto k) x IKCP_RTO_MAX \<and> ibound (rx_minrto k) x IKCP_RTO_MAX \<le> IKCP_RTO_MAX" for x
    using assms by (auto simp: ibound_def imin_def imax_def)
  ultimately show ?thesis by auto
qed

theorem kcp_rto_bounds_witness:
  "(100 :: u32) \<le> rx_rto (ikcp_update_ack (fresh_kcb 7) 4000000000) \<and>
   rx_rto (ikcp_update_ack (fresh_kcb 7) 4000000000) \<le> 60000"
proof -
  have "rx_minrto (fresh_kcb 7) = 100" by (simp add: fresh_kcb_def ikcp_create_def ikcp_setoutput_def ikcp_consts)
  then show ?thesis using kcp_rto_bounds [of "fresh_kcb 7" 4000000000] by (simp add: IKCP_RTO_MAX_def)
qed

text \<open>A cumulative acknowledgement removes exactly the leading run of segments below \<open>una\<close> and
  counts them; a selective one removes at most the one segment with that number.\<close>

theorem kcp_acks_remove:
  assumes "nsnd_buf k = of_nat (length (snd_buf k))"
  shows "snd_buf (ikcp_parse_una k una) = dropWhile (\<lambda>s. itimediff una (seg_sn s) > 0) (snd_buf k) \<and>
    nsnd_buf (ikcp_parse_una k una) = of_nat (length (snd_buf (ikcp_parse_una k una))) \<and>
    (snd_buf (ikcp_parse_ack k sn) = snd_buf k \<or>
     (\<exists>xs s ys. snd_buf k = xs @ s # ys \<and> seg_sn s = sn \<and> snd_buf (ikcp_parse_ack k sn) = xs @ ys)) \<and>
    nsnd_buf (ikcp_parse_ack k sn) = of_nat (length (snd_buf (ikcp_parse_ack k sn)))"
proof (intro conjI)
  have "fst (parse_una_loop una b n) = dropWhile (\<lambda>s. itimediff una (seg_sn s) > 0) b" for b n
    by (induction una b n rule: parse_una_loop.induct) simp_all
  then show "snd_buf (ikcp_parse_una k una) = dropWhile (\<lambda>s. itimediff una (seg_sn s) > 0) (snd_buf k)"
    by (simp add: ikcp_parse_una_def split_beta)
  have count: "ack_frame k k' \<Longrightarrow> nsnd_buf k' = of_nat (length (snd_buf k'))" for k'
    unfolding ack_frame_def using assms by (elim exE conjE) simp
  show "nsnd_buf (ikcp_parse_una k una) = of_nat (length (snd_buf (ikcp_parse_una k una)))"
    using ack_frame_una by (rule count)
  show "nsnd_buf (ikcp_parse_ack k sn) = of_nat (length (snd_buf (ikcp_parse_ack k sn)))"
    using ack_frame_ack by (rule count)
  show "snd_buf (ikcp_parse_ack k sn) = snd_buf k \<or>
     (\<exists>xs s ys. snd_buf k = xs @ s # ys \<and> seg_sn s = sn \<and> snd_buf (ikcp_parse_ack k sn) = xs @ ys)"
    by (cases rule: parse_ack_loop_cases [of sn "snd_buf k" "nsnd_buf k"])
      (auto simp: ikcp_parse_ack_def)
qed

theorem kcp_acks_remove_witness:
  "snd_buf (ikcp_parse_una ((fresh_kcb 7)\<lparr>snd_buf := [ikcp_segment_new [1] 1 0], nsnd_buf := 1\<rparr>) 1) = []"
  using kcp_acks_remove [of "(fresh_kcb 7)\<lparr>snd_buf := [ikcp_segment_new [1] 1 0], nsnd_buf := 1\<rparr>" 1 0]
  by (simp add: ikcp_segment_new_def itimediff_def)

text \<open>C25: \<open>ikcp_check\<close> never promises too much: at every moment before the time it returns, the flush
  clock has not run out and no segment's retransmission timer has.\<close>

theorem kcp_check_quiet:
  assumes "updated k \<noteq> 0" and "int e < itimediff (ikcp_check k now) now"
    and "- 10000 \<le> itimediff now (ts_flush k)" and "unat (interval k) < 2 ^ 31"
  shows "itimediff (now + of_nat e) (ts_flush k) < 0 \<and>
    (\<forall>s \<in> set (snd_buf k). itimediff (now + of_nat e) (seg_resendts s) < 0)"
  using assms by (rule check_quiet)

theorem kcp_check_quiet_witness:
  "itimediff (70 :: u32) (ts_flush ((fresh_kcb 7)\<lparr>updated := 1\<rparr>)) < 0"
proof -
  have k: "snd_buf (fresh_kcb 7) = []" "ts_flush (fresh_kcb 7) = 100" "interval (fresh_kcb 7) = 100"
    by (simp_all add: fresh_kcb_def ikcp_create_def ikcp_setoutput_def ikcp_consts)
  then have "int 30 < itimediff (ikcp_check ((fresh_kcb 7)\<lparr>updated := 1\<rparr>) 40) 40"
    by (simp add: ikcp_check_def itimediff_def)
  moreover have "- 10000 \<le> itimediff 40 (ts_flush ((fresh_kcb 7)\<lparr>updated := 1\<rparr>))"
    using k by (simp add: itimediff_def)
  moreover have "unat (interval ((fresh_kcb 7)\<lparr>updated := 1\<rparr>)) < 2 ^ 31" using k by simp
  ultimately show ?thesis
    using kcp_check_quiet [of "(fresh_kcb 7)\<lparr>updated := 1\<rparr>" 30 40] by simp
qed

text \<open>Congestion control: growing the window on input never takes it past the remote window, and
  after a flush it is at least one segment.\<close>

theorem kcp_cwnd_bounds:
  assumes "cwnd k \<le> rmt_wnd k"
  shows "cwnd (input_cwnd k una) \<le> rmt_wnd (input_cwnd k una) \<and> cwnd (flush_ssthresh k change lost resent w) \<ge> 1"
proof -
  have "cwnd (input_cwnd k una) \<le> rmt_wnd (input_cwnd k una)"
    using assms by (auto simp: input_cwnd_def Let_def not_less)
  moreover have "cwnd (flush_ssthresh k change lost resent w) \<ge> 1"
    by (auto simp: flush_ssthresh_def Let_def not_less intro: u32_pos)
  ultimately show ?thesis by blast
qed

theorem kcp_cwnd_bounds_witness:
  "cwnd (input_cwnd (fresh_kcb 7) 0) \<le> rmt_wnd (input_cwnd (fresh_kcb 7) 0) \<and>
   cwnd (flush_ssthresh (fresh_kcb 7) True True 2 5) \<ge> 1"
  by (rule kcp_cwnd_bounds) (simp add: fresh_kcb_def ikcp_create_def ikcp_setoutput_def)

text \<open>The limit of \<open>ikcp_setmtu\<close>: it does not look at what is queued already. After a message of 300
  bytes is queued under the default MTU, lowering the MTU to 50 makes the next flush write past
  the end of the new, smaller buffer (the run of the model fails). This is why \<open>kcp_pre\<close> asks for
  an MTU that no queued segment exceeds.\<close>

theorem kcp_setmtu_overrun:
  "run_calls (kcp_step (\<lambda>_. True))
     [Call_nodelay 1 10 2 1, Call_send (replicate 300 0), Call_setmtu 50, Call_update 0] (fresh_kcb 7, []) = None"
  by code_simp

end
