(* ===== verification/Cstring.thy ===== *)
theory Cstring
  imports Prelude
begin

text \<open>
  C strings: a \<open>char\<close> array is the list of its elements, a pointer into it is an index, and a string is what
  stands before the first \<open>'\0'\<close>. The functions of \<open>string.h\<close> and \<open>ctype.h\<close> that the components call are
  defined here; \<open>None\<close> is a read or a write outside the array.
\<close>

definition NUL :: char where "NUL = CHR 0x00"

definition isspace :: "char \<Rightarrow> bool" where
  "isspace c \<longleftrightarrow> c \<in> {CHR '' '', CHR 0x09, CHR 0x0A, CHR 0x0B, CHR 0x0C, CHR 0x0D}"

text \<open>The string at index \<open>i\<close>, and whether it ends inside the array.\<close>

definition cstr :: "string \<Rightarrow> nat \<Rightarrow> string" where
  "cstr buf i = takeWhile (\<lambda>c. c \<noteq> NUL) (drop i buf)"

definition strlen :: "string \<Rightarrow> nat \<Rightarrow> nat option" where
  "strlen buf i = (if NUL \<in> set (drop i buf) then Some (length (cstr buf i)) else None)"

definition write_at :: "'a list \<Rightarrow> nat \<Rightarrow> 'a list \<Rightarrow> 'a list option" where
  "write_at buf i s = (if i + length s \<le> length buf then Some (take i buf @ s @ drop (i + length s) buf) else None)"

text \<open>The \<open>n\<close> characters that \<open>strncpy\<close> writes: the source up to its terminator, then \<open>'\0'\<close>.\<close>

definition strncpy_bytes :: "string \<Rightarrow> nat \<Rightarrow> string" where
  "strncpy_bytes src n = (let s = takeWhile (\<lambda>c. c \<noteq> NUL) src in take n s @ replicate (n - length s) NUL)"

text \<open>\<open>strstr\<close>: the first place where one string occurs in another.\<close>

fun find_sub :: "'a list \<Rightarrow> 'a list \<Rightarrow> nat option" where
  "find_sub sub [] = (if sub = [] then Some 0 else None)"
| "find_sub sub (x # xs) =
     (if take (length sub) (x # xs) = sub then Some 0 else map_option Suc (find_sub sub xs))"

definition strstr :: "string \<Rightarrow> string \<Rightarrow> nat option" where
  "strstr hay needle = find_sub (cstr needle 0) (cstr hay 0)"

section \<open>Facts\<close>

text \<open>A string with its terminator and whatever stands behind it in the array.\<close>

definition holds_at :: "string \<Rightarrow> nat \<Rightarrow> string \<Rightarrow> bool" where
  "holds_at buf i s \<longleftrightarrow> NUL \<notin> set s \<and> (\<exists>tail. drop i buf = s @ NUL # tail)"

lemma takeWhile_NUL: "NUL \<notin> set s \<Longrightarrow> takeWhile (\<lambda>c. c \<noteq> NUL) (s @ NUL # tail) = s"
  by (induction s) auto

lemma holds_cstr: "holds_at buf i s \<Longrightarrow> cstr buf i = s"
  unfolding holds_at_def cstr_def by (auto simp: takeWhile_NUL)

lemma holds_strlen: "holds_at buf i s \<Longrightarrow> strlen buf i = Some (length s)"
  using holds_cstr [of buf i s] by (auto simp: strlen_def holds_at_def)

lemma holds_len:
  assumes "holds_at buf i s" shows "i + length s < length buf"
proof -
  obtain tail where "drop i buf = s @ NUL # tail" using assms by (auto simp: holds_at_def)
  from arg_cong [OF this, of length] show ?thesis by simp
qed

lemma holds_nth:
  assumes "holds_at buf i s"
  shows "k < length s \<Longrightarrow> buf ! (i + k) = s ! k" and "buf ! (i + length s) = NUL"
proof -
  obtain tail where d: "drop i buf = s @ NUL # tail" using assms by (auto simp: holds_at_def)
  have n: "buf ! (i + k) = (s @ NUL # tail) ! k" for k
    using nth_drop [of i buf k] holds_len [OF assms] unfolding d by simp
  show "k < length s \<Longrightarrow> buf ! (i + k) = s ! k" and "buf ! (i + length s) = NUL"
    by (simp_all add: n nth_append)
qed

lemma holds_Cons: "holds_at buf i (c # s) \<longleftrightarrow> c \<noteq> NUL \<and> i < length buf \<and> buf ! i = c \<and> holds_at buf (Suc i) s"
proof -
  have "drop i buf = c # s @ NUL # tail \<longleftrightarrow> i < length buf \<and> buf ! i = c \<and> drop (Suc i) buf = s @ NUL # tail" for tail
    by (cases "i < length buf") (auto simp: Cons_nth_drop_Suc [symmetric])
  then show ?thesis by (auto simp: holds_at_def)
qed

lemma holds_Nil: "holds_at buf i [] \<longleftrightarrow> i < length buf \<and> buf ! i = NUL"
proof -
  have "drop i buf = NUL # tail \<longleftrightarrow> i < length buf \<and> buf ! i = NUL \<and> drop (Suc i) buf = tail" for tail
    by (cases "i < length buf") (auto simp: Cons_nth_drop_Suc [symmetric])
  then show ?thesis by (auto simp: holds_at_def)
qed

lemma holds_unique: "holds_at buf i s \<Longrightarrow> holds_at buf i t \<Longrightarrow> s = t"
  using holds_cstr by blast

lemma strncpy_exact: "NUL \<notin> set src' \<Longrightarrow> src = src' @ rest \<Longrightarrow> strncpy_bytes src (length src') = src'"
  by (auto simp: strncpy_bytes_def Let_def takeWhile_append)

text \<open>\<open>strstr\<close> finds the first occurrence and misses none.\<close>

lemma find_sub_Some:
  "find_sub sub xs = Some i \<Longrightarrow> take (length sub) (drop i xs) = sub \<and> i + length sub \<le> length xs \<and>
     (\<forall>j < i. take (length sub) (drop j xs) \<noteq> sub)"
proof (induction xs arbitrary: i)
  case (Cons x xs)
  show ?case
  proof (cases "take (length sub) (x # xs) = sub")
    case True
    then have "length sub \<le> length (x # xs)" by (metis length_take min.cobounded1 min.commute)
    then show ?thesis using True Cons.prems by simp
  next
    case False
    then obtain k where k: "i = Suc k" "find_sub sub xs = Some k" using Cons.prems by auto
    have "take (length sub) (drop j (x # xs)) \<noteq> sub" if "j < i" for j
      using that False Cons.IH [OF k(2)] k(1) by (cases j) auto
    then show ?thesis using Cons.IH [OF k(2)] k(1) by simp
  qed
qed (auto split: if_splits)

lemma find_sub_None: "find_sub sub xs = None \<longleftrightarrow> (\<forall>j \<le> length xs. take (length sub) (drop j xs) \<noteq> sub)"
proof (induction xs)
  case (Cons x xs)
  have "(\<forall>j \<le> length (x # xs). take (length sub) (drop j (x # xs)) \<noteq> sub) \<longleftrightarrow>
      take (length sub) (x # xs) \<noteq> sub \<and> (\<forall>j \<le> length xs. take (length sub) (drop j xs) \<noteq> sub)"
    by (simp add: All_less_Suc2 flip: less_Suc_eq_le)
  then show ?case using Cons by simp
qed auto

lemma find_sub_I:
  assumes "take (length sub) (drop i xs) = sub" "i \<le> length xs" "\<And>j. j < i \<Longrightarrow> take (length sub) (drop j xs) \<noteq> sub"
  shows "find_sub sub xs = Some i"
proof (cases "find_sub sub xs")
  case None
  then show ?thesis using assms(1,2) by (auto simp: find_sub_None)
next
  case (Some k)
  then show ?thesis using find_sub_Some [OF Some] assms by (metis linorder_neqE_nat)
qed

end
