(* ===== verification/P2p_Wire.thy ===== *)
theory P2p_Wire
  imports Kcp_Codec Cstring
begin

text \<open>
  The messages of the rendezvous service (\<open>jiagoushi/chap4.4/p2p/p2p.h\<close>): the layout of a request, the routines that
  build one, addresses as the six bytes that travel in a notification, the clock of the time stamps. An \<open>int\<close> in a
  buffer is stored as the machine stores it, with its low byte first, which is what \<open>ikcp_encode32u\<close> writes. A
  routine that ends in \<open>sendto\<close> gives the datagram it hands over: the receiver's address and the bytes.
\<close>

section \<open>Constants\<close>

definition KING_CLIENT_MAX :: nat where "KING_CLIENT_MAX = 1024"
definition KING_CLIENT_ADDR_LENGTH :: nat where "KING_CLIENT_ADDR_LENGTH = 6"
definition KING_BUFFER_LENGTH :: nat where "KING_BUFFER_LENGTH = 512"
definition KING_NUMBER_ID_LENGTH :: nat where "KING_NUMBER_ID_LENGTH = 4"

definition KING_PROTO_LOGIN_REQ :: byte where "KING_PROTO_LOGIN_REQ = 0x01"
definition KING_PROTO_LOGIN_ACK :: byte where "KING_PROTO_LOGIN_ACK = 0x81"
definition KING_PROTO_HEARTBEAT_REQ :: byte where "KING_PROTO_HEARTBEAT_REQ = 0x02"
definition KING_PROTO_CONNECT_REQ :: byte where "KING_PROTO_CONNECT_REQ = 0x11"
definition NTY_PROTO_NOTIFY_REQ :: byte where "NTY_PROTO_NOTIFY_REQ = 0x12"
definition NTY_PROTO_P2P_CONNECT_REQ :: byte where "NTY_PROTO_P2P_CONNECT_REQ = 0x13"
definition NTY_PROTO_P2P_CONNECT_ACK :: byte where "NTY_PROTO_P2P_CONNECT_ACK = 0x93"
definition NTY_RPORO_MESSAGE_REQ :: byte where "NTY_RPORO_MESSAGE_REQ = 0x21"
definition NTY_RPORO_MESSAGE_ACK :: byte where "NTY_RPORO_MESSAGE_ACK = 0xA1"

definition KING_PROTO_BUFFER_STATUS_IDX :: nat where "KING_PROTO_BUFFER_STATUS_IDX = 1"
definition KING_PROTO_BUFFER_LENGTH_IDX :: nat where "KING_PROTO_BUFFER_LENGTH_IDX = KING_PROTO_BUFFER_STATUS_IDX + 1"
definition KING_PROTO_BUFFER_SELFID_IDX :: nat where "KING_PROTO_BUFFER_SELFID_IDX = KING_PROTO_BUFFER_LENGTH_IDX + 2"
definition KING_PROTO_CONNECT_OTHERID_IDX :: nat where
  "KING_PROTO_CONNECT_OTHERID_IDX = KING_PROTO_BUFFER_SELFID_IDX + KING_NUMBER_ID_LENGTH"
definition KING_PROTO_NOTIFY_ADDR_IDX :: nat where
  "KING_PROTO_NOTIFY_ADDR_IDX = KING_PROTO_BUFFER_SELFID_IDX + KING_NUMBER_ID_LENGTH"
definition KING_PROTO_MESSAGE_OTHERID_IDX :: nat where
  "KING_PROTO_MESSAGE_OTHERID_IDX = KING_PROTO_BUFFER_SELFID_IDX + KING_NUMBER_ID_LENGTH"
definition KING_RPORO_MESSAGE_CONTENT_IDX :: nat where
  "KING_RPORO_MESSAGE_CONTENT_IDX = KING_PROTO_MESSAGE_OTHERID_IDX + KING_NUMBER_ID_LENGTH"

lemmas king_sizes = KING_CLIENT_MAX_def KING_CLIENT_ADDR_LENGTH_def KING_BUFFER_LENGTH_def KING_NUMBER_ID_LENGTH_def

lemmas king_protos =
  KING_PROTO_LOGIN_REQ_def KING_PROTO_LOGIN_ACK_def KING_PROTO_HEARTBEAT_REQ_def KING_PROTO_CONNECT_REQ_def
  NTY_PROTO_NOTIFY_REQ_def NTY_PROTO_P2P_CONNECT_REQ_def NTY_PROTO_P2P_CONNECT_ACK_def NTY_RPORO_MESSAGE_REQ_def
  NTY_RPORO_MESSAGE_ACK_def

lemmas king_idx =
  KING_PROTO_BUFFER_STATUS_IDX_def KING_PROTO_BUFFER_LENGTH_IDX_def KING_PROTO_BUFFER_SELFID_IDX_def
  KING_PROTO_CONNECT_OTHERID_IDX_def KING_PROTO_NOTIFY_ADDR_IDX_def KING_PROTO_MESSAGE_OTHERID_IDX_def
  KING_RPORO_MESSAGE_CONTENT_IDX_def

text \<open>The offsets as numbers.\<close>

lemma king_offsets:
  "KING_PROTO_BUFFER_SELFID_IDX + KING_NUMBER_ID_LENGTH = 8" "KING_PROTO_CONNECT_OTHERID_IDX = 8"
  "KING_PROTO_NOTIFY_ADDR_IDX = 8" "KING_PROTO_MESSAGE_OTHERID_IDX = 8" "KING_RPORO_MESSAGE_CONTENT_IDX = 12"
  "KING_PROTO_BUFFER_LENGTH_IDX = 2"
  by (simp_all add: king_idx king_sizes)

lemma selfid_idx: "KING_PROTO_BUFFER_SELFID_IDX = 4"
  by (simp add: king_idx)

section \<open>Data\<close>

datatype KING_RESULT = KING_RESULT_FAILED | KING_RESULT_SUCCESS

datatype KING_STATUS_SET =
    KING_STATUS_NULL
  | KING_STATUS_LOGIN
  | KING_STATUS_HEARTBEAT
  | KING_STATUS_CONNECT
  | KING_STATUS_MESSAGE
  | KING_STATUS_NOTIFY
  | KING_STATUS_P2P_CONNECT
  | KING_STATUS_P2P_MESSAGE

record client_table =
  ct_addr :: "byte list"
  ct_id :: u32
  ct_stamp :: int

definition zero_client :: client_table where
  "zero_client = \<lparr>ct_addr = replicate KING_CLIENT_ADDR_LENGTH 0, ct_id = 0, ct_stamp = 0\<rparr>"

record sockaddr_in =
  s_addr :: u32
  sin_port :: u16

type_synonym datagram = "sockaddr_in \<times> byte list"

section \<open>Memory\<close>

text \<open>An \<open>int\<close> stored into and loaded from a buffer.\<close>

definition store_int :: "byte list \<Rightarrow> nat \<Rightarrow> u32 \<Rightarrow> byte list option" where
  "store_int buf i v = write_at buf i (ikcp_encode32u [] v)"

definition load_int :: "byte list \<Rightarrow> nat \<Rightarrow> u32 option" where
  "load_int buf i = map_option fst (ikcp_decode32u (drop i buf))"

definition addr_to_array :: "sockaddr_in \<Rightarrow> byte list" where
  "addr_to_array p = ikcp_encode16u (ikcp_encode32u [] (s_addr p)) (sin_port p)"

definition array_to_addr :: "byte list \<Rightarrow> sockaddr_in option" where
  "array_to_addr a = do {
     (s, a) \<leftarrow> ikcp_decode32u a;
     (p, a) \<leftarrow> ikcp_decode16u a;
     Some \<lparr>s_addr = s, sin_port = p\<rparr>
   }"

section \<open>The clock of the time stamps\<close>

text \<open>Compare the eight bytes at an address with \<open>old\<close>, and if they agree put \<open>new\<close> there: the result and the eight bytes after.\<close>

definition cmpxchg :: "u64 \<Rightarrow> u64 \<Rightarrow> u64 \<Rightarrow> bool \<times> u64" where
  "cmpxchg cell old new = (if cell = old then (True, new) else (False, cell))"

text \<open>The static variables of \<open>time_genrator\<close>, of which each program has its own.\<close>

record time_vars =
  lTimeStamp :: int
  timeStampMutex :: u64

definition time_genrator :: "int \<Rightarrow> time_vars \<Rightarrow> int \<times> time_vars" where
  "time_genrator now v =
     (let (ok, m) = cmpxchg (timeStampMutex v) 0 1;
          v = v\<lparr>timeStampMutex := m\<rparr>;
          v = (if ok then v\<lparr>lTimeStamp := now, timeStampMutex := 0\<rparr> else v)
      in (lTimeStamp v, v))"

section \<open>Building requests\<close>

definition blank_buffer :: "byte list" where
  "blank_buffer = replicate KING_BUFFER_LENGTH 0"

definition king_send_login :: "u32 \<Rightarrow> sockaddr_in \<Rightarrow> datagram option" where
  "king_send_login self_id paddr = do {
     let buffer = blank_buffer[KING_PROTO_BUFFER_STATUS_IDX := KING_PROTO_LOGIN_REQ];
     buffer \<leftarrow> store_int buffer KING_PROTO_BUFFER_SELFID_IDX self_id;
     Some (paddr, take (KING_PROTO_BUFFER_SELFID_IDX + KING_NUMBER_ID_LENGTH) buffer)
   }"

definition king_send_heartbeat :: "u32 \<Rightarrow> sockaddr_in \<Rightarrow> datagram option" where
  "king_send_heartbeat self_id paddr = do {
     let buffer = blank_buffer[KING_PROTO_BUFFER_STATUS_IDX := KING_PROTO_HEARTBEAT_REQ];
     buffer \<leftarrow> store_int buffer KING_PROTO_BUFFER_SELFID_IDX self_id;
     Some (paddr, take (KING_PROTO_BUFFER_SELFID_IDX + KING_NUMBER_ID_LENGTH) buffer)
   }"

definition king_send_connect :: "u32 \<Rightarrow> u32 \<Rightarrow> sockaddr_in \<Rightarrow> datagram option" where
  "king_send_connect self_id other_id paddr = do {
     let buffer = blank_buffer[KING_PROTO_BUFFER_STATUS_IDX := KING_PROTO_CONNECT_REQ];
     buffer \<leftarrow> store_int buffer KING_PROTO_BUFFER_SELFID_IDX self_id;
     buffer \<leftarrow> store_int buffer KING_PROTO_CONNECT_OTHERID_IDX other_id;
     Some (paddr, take (KING_PROTO_CONNECT_OTHERID_IDX + KING_NUMBER_ID_LENGTH) buffer)
   }"

definition king_send_p2pconnect :: "u32 \<Rightarrow> sockaddr_in \<Rightarrow> datagram option" where
  "king_send_p2pconnect self_id paddr = do {
     let buffer = blank_buffer[KING_PROTO_BUFFER_STATUS_IDX := NTY_PROTO_P2P_CONNECT_REQ];
     buffer \<leftarrow> store_int buffer KING_PROTO_BUFFER_SELFID_IDX self_id;
     Some (paddr, take (KING_PROTO_BUFFER_SELFID_IDX + KING_NUMBER_ID_LENGTH) buffer)
   }"

definition king_send_p2pconnectack :: "u32 \<Rightarrow> sockaddr_in \<Rightarrow> datagram option" where
  "king_send_p2pconnectack self_id paddr = do {
     let buffer = blank_buffer[KING_PROTO_BUFFER_STATUS_IDX := NTY_PROTO_P2P_CONNECT_ACK];
     buffer \<leftarrow> store_int buffer KING_PROTO_BUFFER_SELFID_IDX self_id;
     Some (paddr, take (KING_PROTO_BUFFER_SELFID_IDX + KING_NUMBER_ID_LENGTH) buffer)
   }"

text \<open>The text of a message is copied whatever its length.\<close>

definition king_client_send_message :: "u32 \<Rightarrow> u32 \<Rightarrow> sockaddr_in \<Rightarrow> byte list \<Rightarrow> datagram option" where
  "king_client_send_message self_id other_id paddr msg = do {
     let buffer = blank_buffer[KING_PROTO_BUFFER_STATUS_IDX := NTY_RPORO_MESSAGE_REQ];
     buffer \<leftarrow> store_int buffer KING_PROTO_BUFFER_SELFID_IDX self_id;
     buffer \<leftarrow> store_int buffer KING_PROTO_MESSAGE_OTHERID_IDX other_id;
     buffer \<leftarrow> write_at buffer KING_RPORO_MESSAGE_CONTENT_IDX msg;
     let n = KING_RPORO_MESSAGE_CONTENT_IDX + length msg;
     buffer \<leftarrow> write_at buffer KING_PROTO_BUFFER_LENGTH_IDX (ikcp_encode16u [] (of_nat n));
     Some (paddr, take n buffer)
   }"

definition king_send_messageack :: "u32 \<Rightarrow> sockaddr_in \<Rightarrow> datagram option" where
  "king_send_messageack self_id paddr = do {
     let buffer = blank_buffer[KING_PROTO_BUFFER_STATUS_IDX := NTY_RPORO_MESSAGE_ACK];
     buffer \<leftarrow> store_int buffer KING_PROTO_BUFFER_SELFID_IDX self_id;
     Some (paddr, take (KING_PROTO_BUFFER_SELFID_IDX + KING_NUMBER_ID_LENGTH) buffer)
   }"

section \<open>What the routines build\<close>

abbreviation int_bytes :: "u32 \<Rightarrow> byte list" where
  "int_bytes v \<equiv> ikcp_encode32u [] v"

lemma load_int_written: "load_int (p @ int_bytes v @ r) (length p) = Some v"
  by (simp add: load_int_def c32.dec_enc)

lemma load_int_defined: "load_int buf i \<noteq> None \<longleftrightarrow> i + 4 \<le> length buf"
  unfolding load_int_def option.map_disc_iff c32.dec_defined by auto

lemma array_addr_array [simp]: "array_to_addr (addr_to_array p @ r) = Some p"
  unfolding array_to_addr_def addr_to_array_def
  by (subst c16.enc_at) (simp add: c32.dec_enc c16.dec_enc)

lemma length_addr_to_array [simp]: "length (addr_to_array p) = 6"
  by (simp add: addr_to_array_def codec_simps)

lemma addr_to_array_inj: "addr_to_array p = addr_to_array q \<longleftrightarrow> p = q"
proof
  assume "addr_to_array p = addr_to_array q"
  then have "array_to_addr (addr_to_array p @ []) = array_to_addr (addr_to_array q @ [])" by simp
  then show "p = q" unfolding array_addr_array by simp
qed simp

lemma array_to_addr_defined: "array_to_addr a \<noteq> None \<longleftrightarrow> 6 \<le> length a"
proof (cases "ikcp_decode32u a")
  case None
  then show ?thesis using decode32u_None [of a] by (simp add: array_to_addr_def)
next
  case (Some q)
  then have "length a = 4 + length (snd q)" using decode32u_Some [of a "fst q" "snd q"] by simp
  then show ?thesis using Some decode16u_None [of "snd q"]
    by (cases "ikcp_decode16u (snd q)") (auto simp: array_to_addr_def split: prod.splits)
qed

text \<open>A blank buffer with a status, filled from the left: the part written and the zeros that are left.\<close>

definition filled :: "byte list \<Rightarrow> byte list" where
  "filled p = p @ replicate (KING_BUFFER_LENGTH - length p) 0"

lemma status_filled: "blank_buffer[KING_PROTO_BUFFER_STATUS_IDX := c] = filled [0, c, 0, 0]"
proof -
  have n: "(512 :: nat) = 4 + 508" by simp
  have "replicate 512 (0 :: byte) = replicate 4 0 @ replicate 508 0" by (subst n) (rule replicate_add)
  also have "replicate 4 (0 :: byte) = [0, 0, 0, 0]" by (simp add: numeral_eq_Suc)
  finally show ?thesis
    by (simp add: blank_buffer_def filled_def KING_PROTO_BUFFER_STATUS_IDX_def KING_BUFFER_LENGTH_def)
qed

lemma write_filled:
  "length p + length bs \<le> KING_BUFFER_LENGTH \<Longrightarrow> write_at (filled p) (length p) bs = Some (filled (p @ bs))"
  by (simp add: write_at_def filled_def)

lemma take_filled: "take (length p) (filled p) = p"
  by (simp add: filled_def)

lemma write_filled_over: "KING_BUFFER_LENGTH < length p + length bs \<Longrightarrow> length p \<le> KING_BUFFER_LENGTH \<Longrightarrow>
  write_at (filled p) (length p) bs = None"
  by (simp add: write_at_def filled_def)

text \<open>The bytes of every request, and the one routine that can fail.\<close>

definition request :: "byte \<Rightarrow> u32 \<Rightarrow> byte list" where
  "request status self_id = [0, status, 0, 0] @ int_bytes self_id"

lemma length_request [simp]: "length (request c i) = 8"
  by (simp add: request_def codec_simps)

lemma store_status: "store_int (filled [0, c, 0, 0]) KING_PROTO_BUFFER_SELFID_IDX i = Some (filled (request c i))"
  using write_filled [of "[0, c, 0, 0]" "int_bytes i"] by (simp add: store_int_def request_def king_idx king_sizes codec_simps)

lemma store_other: "store_int (filled (request c i)) 8 j = Some (filled (request c i @ int_bytes j))"
  using write_filled [of "request c i" "int_bytes j"] by (simp add: store_int_def king_sizes codec_simps)

lemma take_request: "take 8 (filled (request c i)) = request c i"
  using take_filled [of "request c i"] by simp

lemma king_requests:
  "king_send_login i a = Some (a, request KING_PROTO_LOGIN_REQ i)"
  "king_send_heartbeat i a = Some (a, request KING_PROTO_HEARTBEAT_REQ i)"
  "king_send_connect i j a = Some (a, request KING_PROTO_CONNECT_REQ i @ int_bytes j)"
  "king_send_p2pconnect i a = Some (a, request NTY_PROTO_P2P_CONNECT_REQ i)"
  "king_send_p2pconnectack i a = Some (a, request NTY_PROTO_P2P_CONNECT_ACK i)"
  "king_send_messageack i a = Some (a, request NTY_RPORO_MESSAGE_ACK i)"
proof -
  show "king_send_connect i j a = Some (a, request KING_PROTO_CONNECT_REQ i @ int_bytes j)"
    using take_filled [of "request KING_PROTO_CONNECT_REQ i @ int_bytes j"]
    by (simp add: king_send_connect_def status_filled store_status store_other king_offsets king_sizes(4) codec_simps Let_def)
qed (simp_all add: king_send_login_def king_send_heartbeat_def king_send_p2pconnect_def king_send_p2pconnectack_def
    king_send_messageack_def status_filled store_status take_request king_offsets Let_def)

text \<open>A message with its length field, which goes over the end of the buffer from 501 bytes of text on.\<close>

definition message :: "u32 \<Rightarrow> u32 \<Rightarrow> byte list \<Rightarrow> byte list" where
  "message i j msg = [0, NTY_RPORO_MESSAGE_REQ] @ ikcp_encode16u [] (of_nat (12 + length msg)) @ int_bytes i @ int_bytes j @ msg"

lemma length_message [simp]: "length (message i j msg) = 12 + length msg"
  by (simp add: message_def codec_simps)

lemma king_message:
  "king_client_send_message i j a msg = (if length msg \<le> 500 then Some (a, message i j msg) else None)"
proof (cases "length msg \<le> 500")
  case True
  let ?r = "request NTY_RPORO_MESSAGE_REQ i @ int_bytes j" and ?l = "ikcp_encode16u [] (of_nat (12 + length msg))"
  have w: "write_at (filled ?r) 12 msg = Some (filled (?r @ msg))"
    using write_filled [of ?r msg] True by (simp add: king_sizes codec_simps)
  have "write_at (filled (?r @ msg)) 2 ?l = Some (filled (message i j msg))"
    using True by (simp add: write_at_def filled_def request_def message_def codec_simps king_sizes)
  moreover have "take (12 + length msg) (filled (message i j msg)) = message i j msg"
    using take_filled [of "message i j msg"] by simp
  ultimately show ?thesis using True w
    by (simp add: king_client_send_message_def status_filled store_status store_other king_offsets codec_simps Let_def)
next
  case False
  then have "write_at (filled (request NTY_RPORO_MESSAGE_REQ i @ int_bytes j)) 12 msg = None"
    using write_filled_over [of "request NTY_RPORO_MESSAGE_REQ i @ int_bytes j" msg] by (simp add: king_sizes codec_simps)
  then show ?thesis using False
    by (simp add: king_client_send_message_def status_filled store_status store_other king_offsets Let_def)
qed

end
