(* ===== verification/P2p_Server.thy ===== *)
theory P2p_Server
  imports P2p_Wire Guarded_Machine
begin

text \<open>
  The rendezvous server (\<open>jiagoushi/chap4.4/p2p/p2p_server.c\<close> and the table of clients of \<open>p2p.h\<close>): one turn of its loop
  takes a datagram into the buffer, which is not cleared between turns, serves the request and sends the datagram back
  with its status marked as an answer. \<open>None\<close> is an access outside the table or the buffer, or the use of the
  index of a client that the search has not found: \<open>get_index_by_clientid\<close> then ends without a value. The clock is an
  argument; a failure of the socket, which ends the loop, is not modelled.
\<close>

section \<open>State\<close>

text \<open>The exchange that counts clients works on eight bytes, of which \<open>client_count\<close> is the lower half.\<close>

record king_server =
  table :: "client_table list"
  count_cell :: u64
  clock_vars :: time_vars
  buffer :: "byte list"

definition server_start :: "u32 \<Rightarrow> king_server" where
  "server_start behind = \<lparr>table = replicate KING_CLIENT_MAX zero_client, count_cell = push_bit 32 (ucast behind),
     clock_vars = \<lparr>lTimeStamp = 0, timeStampMutex = 0\<rparr>, buffer = blank_buffer\<rparr>"

definition client_count :: "king_server \<Rightarrow> int" where
  "client_count s = sint (ucast (count_cell s) :: u32)"

section \<open>The table\<close>

text \<open>The loop of the search at index \<open>i\<close>, with \<open>k\<close> entries to go.\<close>

fun index_from :: "client_table list \<Rightarrow> u32 \<Rightarrow> nat \<Rightarrow> nat \<Rightarrow> nat option" where
  "index_from t i n 0 = None"
| "index_from t i n (Suc k) =
     (if n < length t then if ct_id (t ! n) = i then Some n else index_from t i (Suc n) k else None)"

definition get_index_by_clientid :: "king_server \<Rightarrow> u32 \<Rightarrow> nat option" where
  "get_index_by_clientid s client_id = index_from (table s) client_id 0 (nat (client_count s))"

definition king_send_message :: "king_server \<Rightarrow> u32 \<Rightarrow> byte list \<Rightarrow> nat \<Rightarrow> datagram option" where
  "king_send_message s client_id buf n = do {
     index \<leftarrow> get_index_by_clientid s client_id;
     c_addr \<leftarrow> array_to_addr (ct_addr (table s ! index));
     if n \<le> length buf then Some (c_addr, take n buf) else None
   }"

definition king_send_notify :: "king_server \<Rightarrow> u32 \<Rightarrow> u32 \<Rightarrow> datagram option" where
  "king_send_notify s client_id self_id = do {
     index \<leftarrow> get_index_by_clientid s self_id;
     let buf = blank_buffer[KING_PROTO_BUFFER_STATUS_IDX := NTY_PROTO_NOTIFY_REQ];
     buf \<leftarrow> store_int buf KING_PROTO_BUFFER_SELFID_IDX self_id;
     buf \<leftarrow> write_at buf KING_PROTO_NOTIFY_ADDR_IDX (take KING_CLIENT_ADDR_LENGTH (ct_addr (table s ! index)));
     index \<leftarrow> get_index_by_clientid s client_id;
     c_addr \<leftarrow> array_to_addr (ct_addr (table s ! index));
     Some (c_addr, take (KING_PROTO_NOTIFY_ADDR_IDX + KING_CLIENT_ADDR_LENGTH) buf)
   }"

section \<open>Requests\<close>

type_synonym served = "KING_RESULT \<times> king_server \<times> datagram list"

definition serve_login :: "sockaddr_in \<Rightarrow> king_server \<Rightarrow> served option" where
  "serve_login addr s =
     (let old = client_count s; now = old + 1;
          (ok, cell) = cmpxchg (count_cell s) (word_of_int old) (word_of_int now);
          s = s\<lparr>count_cell := cell\<rparr>
      in if \<not> ok then Some (KING_RESULT_FAILED, s, [])
         else if 0 \<le> now \<and> nat now < length (table s) then do {
           i \<leftarrow> load_int (buffer s) KING_PROTO_BUFFER_SELFID_IDX;
           let t = table s ! nat now;
           let t = t\<lparr>ct_id := i\<rparr>;
           let t = t\<lparr>ct_addr := addr_to_array addr\<rparr>;
           Some (KING_RESULT_SUCCESS, s\<lparr>table := (table s)[nat now := t]\<rparr>, [])
         } else None)"

definition serve_heartbeat :: "int \<Rightarrow> king_server \<Rightarrow> served option" where
  "serve_heartbeat time s = do {
     client_id \<leftarrow> load_int (buffer s) KING_PROTO_BUFFER_SELFID_IDX;
     index \<leftarrow> get_index_by_clientid s client_id;
     let (t, v) = time_genrator time (clock_vars s);
     Some (KING_RESULT_SUCCESS,
       s\<lparr>clock_vars := v, table := (table s)[index := (table s ! index)\<lparr>ct_stamp := t\<rparr>]\<rparr>, [])
   }"

definition serve_connect :: "king_server \<Rightarrow> served option" where
  "serve_connect s = do {
     client_id \<leftarrow> load_int (buffer s) KING_PROTO_BUFFER_SELFID_IDX;
     other_id \<leftarrow> load_int (buffer s) KING_PROTO_CONNECT_OTHERID_IDX;
     d \<leftarrow> king_send_notify s other_id client_id;
     Some (KING_RESULT_SUCCESS, s, [d])
   }"

text \<open>A message is printed, as a string, and not passed on.\<close>

definition serve_message :: "king_server \<Rightarrow> served option" where
  "serve_message s = do {
     client_id \<leftarrow> load_int (buffer s) KING_PROTO_BUFFER_SELFID_IDX;
     other_id \<leftarrow> load_int (buffer s) KING_PROTO_MESSAGE_OTHERID_IDX;
     if 0 \<in> set (drop KING_RPORO_MESSAGE_CONTENT_IDX (buffer s)) then Some (KING_RESULT_SUCCESS, s, []) else None
   }"

definition king_buffer_parser :: "int \<Rightarrow> sockaddr_in \<Rightarrow> king_server \<Rightarrow> served option" where
  "king_buffer_parser time addr s =
     (let status = buffer s ! KING_PROTO_BUFFER_STATUS_IDX
      in if status = KING_PROTO_LOGIN_REQ then serve_login addr s
         else if status = KING_PROTO_HEARTBEAT_REQ then serve_heartbeat time s
         else if status = KING_PROTO_CONNECT_REQ then serve_connect s
         else if status = NTY_RPORO_MESSAGE_REQ then serve_message s
         else Some (KING_RESULT_SUCCESS, s, []))"

section \<open>One turn of the loop\<close>

text \<open>\<open>recvfrom\<close> cuts a datagram at the size of the buffer.\<close>

definition receive :: "byte list \<Rightarrow> byte list \<Rightarrow> byte list option" where
  "receive data buf = (let n = min (length data) KING_BUFFER_LENGTH
     in write_at (take n data @ drop n buf) n [0])"

definition answer :: "byte list \<Rightarrow> byte list" where
  "answer buf = buf[KING_PROTO_BUFFER_STATUS_IDX := buf ! KING_PROTO_BUFFER_STATUS_IDX + 0x80]"

definition king_server_turn ::
  "int \<Rightarrow> sockaddr_in \<Rightarrow> byte list \<Rightarrow> king_server \<Rightarrow> (king_server \<times> datagram list) option" where
  "king_server_turn time c_addr data s =
     (let n = min (length data) KING_BUFFER_LENGTH
      in if n = 0 then Some (s, [])
         else do {
           buf \<leftarrow> receive data (buffer s);
           (ret, s, out) \<leftarrow> king_buffer_parser time c_addr (s\<lparr>buffer := buf\<rparr>);
           case ret of
             KING_RESULT_FAILED \<Rightarrow> Some (s, out)
           | KING_RESULT_SUCCESS \<Rightarrow>
               (let s = s\<lparr>buffer := answer (buffer s)\<rparr>
                in Some (s, out @ [(c_addr, take n (buffer s))]))
         })"

section \<open>Well-formed states\<close>

definition server_ok :: "king_server \<Rightarrow> bool" where
  "server_ok s \<longleftrightarrow> length (table s) = 1024 \<and> (\<forall>e \<in> set (table s). length (ct_addr e) = 6) \<and>
     unat (count_cell s) < 1024 \<and> timeStampMutex (clock_vars s) = 0 \<and> length (buffer s) = 512 \<and> buffer s ! 511 = 0"

abbreviation clients :: "king_server \<Rightarrow> nat" where
  "clients s \<equiv> unat (count_cell s)"

lemma count_small:
  assumes "clients s < 1024"
  shows "client_count s = int (clients s)"
proof -
  have "unat (ucast (count_cell s) :: u32) = clients s"
    using assms by (simp add: unsigned_ucast_eq take_bit_eq_mod)
  then show ?thesis using assms sint_u32_small [of "ucast (count_cell s)"] by (simp add: client_count_def)
qed

lemma index_from_range: "index_from t i n k = Some j \<Longrightarrow> n \<le> j \<and> j < n + k \<and> j < length t"
  by (induction k arbitrary: n) (fastforce split: if_splits)+

lemma index_found: "server_ok s \<Longrightarrow> get_index_by_clientid s i = Some j \<Longrightarrow> j < 1024"
  using index_from_range by (fastforce simp: get_index_by_clientid_def server_ok_def)


text \<open>The names and addresses a piece of the table holds: the search gives the first of them.\<close>

definition entry :: "client_table \<Rightarrow> u32 \<times> byte list" where
  "entry e = (ct_id e, ct_addr e)"

lemma index_from_map_of:
  "n + k \<le> length t \<Longrightarrow>
   map_option (\<lambda>j. ct_addr (t ! j)) (index_from t i n k) = map_of (map entry (take k (drop n t))) i"
proof (induction k arbitrary: n)
  case (Suc k)
  then have "drop n t = t ! n # drop (Suc n) t" by (simp add: Cons_nth_drop_Suc)
  then show ?case using Suc.prems Suc.IH [of "Suc n"] by (simp add: entry_def)
qed simp

section \<open>The abstract service\<close>

text \<open>
  Who can be found, in the order of the table, and the entry written last, which cannot be found yet. The search looks
  at \<open>client_count\<close> entries from index 0, the logins are stored from index 1 on: the entry at index 0 is that of nobody.
\<close>

type_synonym directory = "(u32 \<times> byte list) list \<times> (u32 \<times> byte list)"

definition view :: "king_server \<Rightarrow> directory" where
  "view s = (map entry (take (clients s) (table s)), entry (table s ! clients s))"

datatype king_request =
    Login u32
  | Heartbeat u32
  | Connect u32 u32
  | Message u32 u32 "byte list"

fun request_datagram :: "king_request \<Rightarrow> sockaddr_in \<Rightarrow> datagram option" where
  "request_datagram (Login i) a = king_send_login i a"
| "request_datagram (Heartbeat i) a = king_send_heartbeat i a"
| "request_datagram (Connect i j) a = king_send_connect i j a"
| "request_datagram (Message i j msg) a = king_client_send_message i j a msg"

fun spec_serve :: "king_request \<Rightarrow> sockaddr_in \<Rightarrow> directory \<Rightarrow> (directory \<times> datagram list) option" where
  "spec_serve (Login i) from (dir, new) =
     (if length dir < 1023 then Some ((dir @ [new], (i, addr_to_array from)), []) else None)"
| "spec_serve (Heartbeat i) from v = map_option (\<lambda>_. (v, [])) (map_of (fst v) i)"
| "spec_serve (Connect i j) from v = do {
     a \<leftarrow> map_of (fst v) i;
     b \<leftarrow> map_of (fst v) j;
     c \<leftarrow> array_to_addr b;
     Some (v, [(c, request NTY_PROTO_NOTIFY_REQ i @ a)])
   }"
| "spec_serve (Message i j msg) from v = (if length msg < 500 then Some (v, []) else None)"

definition spec_turn :: "king_request \<Rightarrow> sockaddr_in \<Rightarrow> byte list \<Rightarrow> directory \<Rightarrow> (directory \<times> datagram list) option" where
  "spec_turn r from data v = map_option (\<lambda>(v, out). (v, out @ [(from, answer data)])) (spec_serve r from v)"

section \<open>The search\<close>

lemma view_dir: "server_ok s \<Longrightarrow> length (fst (view s)) = clients s"
  by (simp add: view_def server_ok_def)

lemma index_map_of:
  assumes "server_ok s"
  shows "map_option (\<lambda>j. ct_addr (table s ! j)) (get_index_by_clientid s i) = map_of (fst (view s)) i"
  using assms index_from_map_of [of 0 "clients s" "table s" i]
  by (simp add: server_ok_def get_index_by_clientid_def view_def count_small)

lemma index_cases:
  assumes "server_ok s"
  obtains "get_index_by_clientid s i = None" "map_of (fst (view s)) i = None"
  | j where "get_index_by_clientid s i = Some j" "j < 1024" "map_of (fst (view s)) i = Some (ct_addr (table s ! j))"
      "length (ct_addr (table s ! j)) = 6"
proof (cases "get_index_by_clientid s i")
  case None
  then show thesis using index_map_of [OF assms, of i] that(1) by simp
next
  case (Some j)
  then have j: "j < 1024" using assms by (rule index_found [rotated])
  then have "length (ct_addr (table s ! j)) = 6" using assms by (simp add: server_ok_def)
  then show thesis using index_map_of [OF assms, of i] Some j that(2) by simp
qed

lemma notify_spec:
  assumes "server_ok s"
  shows "king_send_notify s j i = do {
     a \<leftarrow> map_of (fst (view s)) i; b \<leftarrow> map_of (fst (view s)) j; c \<leftarrow> array_to_addr b;
     Some (c, request NTY_PROTO_NOTIFY_REQ i @ a) }"
proof (cases rule: index_cases [OF assms, of i])
  case 1
  then show ?thesis by (simp add: king_send_notify_def)
next
  case (2 m)
  let ?a = "ct_addr (table s ! m)"
  have w: "write_at (filled (request NTY_PROTO_NOTIFY_REQ i)) 8 ?a = Some (filled (request NTY_PROTO_NOTIFY_REQ i @ ?a))"
    using write_filled [of "request NTY_PROTO_NOTIFY_REQ i" ?a] 2(4) by (simp add: king_sizes)
  have t: "take 14 (filled (request NTY_PROTO_NOTIFY_REQ i @ ?a)) = request NTY_PROTO_NOTIFY_REQ i @ ?a"
    using take_filled [of "request NTY_PROTO_NOTIFY_REQ i @ ?a"] 2(4) by simp
  show ?thesis
  proof (cases rule: index_cases [OF assms, of j])
    case 1
    then show ?thesis using 2 w
      by (simp add: king_send_notify_def status_filled store_status king_offsets king_sizes)
  next
    case (2 n)
    then show ?thesis using \<open>get_index_by_clientid s i = Some m\<close> \<open>length ?a = 6\<close>
        \<open>map_of (fst (view s)) i = Some ?a\<close> w t
      by (simp add: king_send_notify_def status_filled store_status king_offsets king_sizes)
  qed
qed

section \<open>Serving a request\<close>

text \<open>A login goes one place behind the last, where the search does not look yet.\<close>

lemma login_spec:
  assumes s: "server_ok s" and i: "load_int (buffer s) 4 = Some i"
  shows "serve_login from s = (if clients s < 1023
     then Some (KING_RESULT_SUCCESS, s\<lparr>count_cell := count_cell s + 1, table := (table s)[clients s + 1 :=
       (table s ! (clients s + 1))\<lparr>ct_id := i, ct_addr := addr_to_array from\<rparr>]\<rparr>, []) else None)"
proof -
  have c: "client_count s = int (clients s)" using s count_small by (simp add: server_ok_def)
  have "(word_of_int (int (clients s) + 1) :: u64) = count_cell s + 1" by (simp flip: uint_nat)
  moreover have "nat (int (clients s) + 1) = clients s + 1" by simp
  ultimately show ?thesis using s i
    by (simp add: serve_login_def Let_def c cmpxchg_def server_ok_def selfid_idx)
qed

lemma time_genrator_free: "timeStampMutex v = 0 \<Longrightarrow> time_genrator now v = (now, v\<lparr>lTimeStamp := now, timeStampMutex := 0\<rparr>)"
  by (simp add: time_genrator_def cmpxchg_def)


text \<open>What stands in the buffer once a request has been received.\<close>

lemma receive_short:
  assumes "length buf = 512" and "length data < 512"
  shows "receive data buf = Some (data @ 0 # drop (length data + 1) buf)"
  using assms by (simp add: receive_def write_at_def king_sizes min_def)

lemma receive_full: "length buf = 512 \<Longrightarrow> 512 \<le> length data \<Longrightarrow> receive data buf = None"
  by (simp add: receive_def write_at_def king_sizes min_def)

text \<open>A turn in terms of the request the buffer then holds.\<close>

lemma turn_request:
  assumes "server_ok s" and "length data < 512" and "data \<noteq> []"
  shows "king_server_turn time from data s = do {
     (ret, s, out) \<leftarrow> king_buffer_parser time from (s\<lparr>buffer := data @ 0 # drop (length data + 1) (buffer s)\<rparr>);
     case ret of KING_RESULT_FAILED \<Rightarrow> Some (s, out)
     | KING_RESULT_SUCCESS \<Rightarrow> Some (s\<lparr>buffer := answer (buffer s)\<rparr>, out @ [(from, take (length data) (answer (buffer s)))]) }"
proof -
  have m: "min (length data) KING_BUFFER_LENGTH = length data" using assms(2) by (simp add: king_sizes)
  show ?thesis using assms receive_short [of "buffer s" data]
    by (simp add: king_server_turn_def m server_ok_def Let_def cong: KING_RESULT.case_cong)
qed

lemma take_answer: "1 < length data \<Longrightarrow> take (length data) (answer (data @ r)) = answer data"
  by (simp add: answer_def king_idx list_update_append nth_append)

lemma message_in:
  "load_int (request c i @ r) 4 = Some i" "load_int (request c i @ int_bytes j @ r) 8 = Some j"
  "(request c i @ r) ! KING_PROTO_BUFFER_STATUS_IDX = c"
  using load_int_written [of "[0, c, 0, 0]" i r] load_int_written [of "request c i" j r]
  by (simp_all add: request_def king_idx eval_nat_numeral codec_simps)

section \<open>When a turn is defined\<close>

text \<open>The identifier at an offset of the buffer is that of a client who can be found.\<close>

definition known :: "directory \<Rightarrow> byte list \<Rightarrow> nat \<Rightarrow> bool" where
  "known v buf n \<longleftrightarrow> (case load_int buf n of None \<Rightarrow> False | Some i \<Rightarrow> map_of (fst v) i \<noteq> None)"

definition servable :: "directory \<Rightarrow> byte list \<Rightarrow> bool" where
  "servable v buf \<longleftrightarrow>
     (let status = buf ! KING_PROTO_BUFFER_STATUS_IDX
      in if status = KING_PROTO_LOGIN_REQ then length (fst v) < 1023
         else if status = KING_PROTO_HEARTBEAT_REQ then known v buf 4
         else if status = KING_PROTO_CONNECT_REQ then known v buf 4 \<and> known v buf 8
         else True)"

fun server_pre :: "int \<times> sockaddr_in \<times> byte list \<Rightarrow> king_server \<Rightarrow> bool" where
  "server_pre (time, from, data) s \<longleftrightarrow> length data < 512 \<and>
     (if data = [] then True else servable (view s) (data @ 0 # drop (length data + 1) (buffer s)))"

fun server_step :: "int \<times> sockaddr_in \<times> byte list \<Rightarrow> king_server \<Rightarrow> king_server option" where
  "server_step (time, from, data) s = map_option fst (king_server_turn time from data s)"

lemma buffer_loads:
  assumes "server_ok s"
  obtains i j where "load_int (buffer s) 4 = Some i" "load_int (buffer s) 8 = Some j"
  using assms load_int_defined [of "buffer s" 4] load_int_defined [of "buffer s" 8]
  by (auto simp: server_ok_def)

lemma index_iff: "server_ok s \<Longrightarrow> get_index_by_clientid s i = None \<longleftrightarrow> map_of (fst (view s)) i = None"
  by (metis index_map_of option.map_disc_iff)

lemma dir_addr:
  assumes "server_ok s" and "map_of (fst (view s)) i = Some a"
  obtains c where "array_to_addr a = Some c" "length a = 6"
proof (cases rule: index_cases [OF assms(1), of i])
  case 1
  then show thesis using assms(2) by simp
next
  case (2 j)
  then have "length a = 6" using assms(2) by simp
  then show thesis using array_to_addr_defined [of a] that by fastforce
qed

lemma served_login:
  assumes "server_ok s"
  shows "(serve_login from s \<noteq> None) = (length (fst (view s)) < 1023)"
    and "serve_login from s = Some (ret, s', out) \<Longrightarrow> server_ok s' \<and> buffer s' = buffer s"
proof -
  obtain i where i: "load_int (buffer s) 4 = Some i" using assms by (rule buffer_loads)
  note l = login_spec [OF assms i, of "from"]
  show "(serve_login from s \<noteq> None) = (length (fst (view s)) < 1023)"
    by (simp add: l view_dir [OF assms])
  assume "serve_login from s = Some (ret, s', out)"
  then have c: "clients s < 1023" and s': "s' = s\<lparr>count_cell := count_cell s + 1, table := (table s)[clients s + 1 :=
       (table s ! (clients s + 1))\<lparr>ct_id := i, ct_addr := addr_to_array from\<rparr>]\<rparr>"
    unfolding l by (simp_all split: if_splits)
  have "unat (count_cell s + 1) = Suc (clients s)" using c by (simp add: unat_word_ariths)
  then show "server_ok s' \<and> buffer s' = buffer s" using assms c
    by (auto simp: s' server_ok_def dest!: set_update_subset_insert [THEN subsetD])
qed


lemma served_heartbeat:
  assumes "server_ok s"
  shows "(serve_heartbeat time s \<noteq> None) = known (view s) (buffer s) 4"
    and "serve_heartbeat time s = Some (ret, s', out) \<Longrightarrow>
      ret = KING_RESULT_SUCCESS \<and> out = [] \<and> server_ok s' \<and> buffer s' = buffer s \<and> view s' = view s"
proof -
  obtain i where i: "load_int (buffer s) 4 = Some i" using assms by (rule buffer_loads)
  have mx: "timeStampMutex (clock_vars s) = 0" using assms by (simp add: server_ok_def)
  have h: "serve_heartbeat time s = map_option (\<lambda>j. (KING_RESULT_SUCCESS,
      s\<lparr>clock_vars := (clock_vars s)\<lparr>lTimeStamp := time, timeStampMutex := 0\<rparr>,
        table := (table s)[j := (table s ! j)\<lparr>ct_stamp := time\<rparr>]\<rparr>, [])) (get_index_by_clientid s i)"
    by (cases "get_index_by_clientid s i") (simp_all add: serve_heartbeat_def selfid_idx i time_genrator_free [OF mx])
  show "(serve_heartbeat time s \<noteq> None) = known (view s) (buffer s) 4"
    unfolding h option.map_disc_iff by (simp add: index_iff [OF assms] known_def i)
  assume "serve_heartbeat time s = Some (ret, s', out)"
  then obtain j where j: "get_index_by_clientid s i = Some j" and s': "s' = s\<lparr>clock_vars := (clock_vars s)\<lparr>lTimeStamp := time, timeStampMutex := 0\<rparr>,
        table := (table s)[j := (table s ! j)\<lparr>ct_stamp := time\<rparr>]\<rparr>" and r: "ret = KING_RESULT_SUCCESS" "out = []"
    unfolding h by auto
  have e: "map entry ((table s)[j := (table s ! j)\<lparr>ct_stamp := time\<rparr>]) = map entry (table s)"
    by (simp add: map_update) (simp add: entry_def list_update_same_conv nth_map index_found [OF assms j] assms [unfolded server_ok_def])
  have "j < 1024" by (rule index_found [OF assms j])
  then have "server_ok s'" using assms by (auto simp: s' server_ok_def dest!: set_update_subset_insert [THEN subsetD])
  moreover have "view s' = view s"
  proof -
    have "view t = (take (clients t) (map entry (table t)), map entry (table t) ! clients t)" if "server_ok t" for t
      using that by (simp add: view_def take_map server_ok_def)
    then show ?thesis using \<open>server_ok s'\<close> assms e by (simp add: s')
  qed
  ultimately show "ret = KING_RESULT_SUCCESS \<and> out = [] \<and> server_ok s' \<and> buffer s' = buffer s \<and> view s' = view s"
    by (simp add: s' r)
qed

lemma served_connect:
  assumes "server_ok s"
  shows "(serve_connect s \<noteq> None) = (known (view s) (buffer s) 4 \<and> known (view s) (buffer s) 8)"
    and "serve_connect s = Some (ret, s', out) \<Longrightarrow> s' = s"
proof -
  obtain i j where ij: "load_int (buffer s) 4 = Some i" "load_int (buffer s) 8 = Some j"
    using assms by (rule buffer_loads)
  have c: "serve_connect s = map_option (\<lambda>d. (KING_RESULT_SUCCESS, s, [d])) (king_send_notify s j i)"
    by (cases "king_send_notify s j i") (simp_all add: serve_connect_def selfid_idx king_offsets ij)
  show "serve_connect s = Some (ret, s', out) \<Longrightarrow> s' = s" by (auto simp: c)
  show "(serve_connect s \<noteq> None) = (known (view s) (buffer s) 4 \<and> known (view s) (buffer s) 8)"
    unfolding c option.map_disc_iff notify_spec [OF assms] known_def
    by (auto simp: ij split: bind_splits elim: dir_addr [OF assms])
qed

lemma served_message:
  assumes "server_ok s"
  shows "serve_message s = Some (KING_RESULT_SUCCESS, s, [])"
proof -
  obtain i j where "load_int (buffer s) 4 = Some i" "load_int (buffer s) 8 = Some j"
    using assms by (rule buffer_loads)
  moreover have "drop 12 (buffer s) ! 499 \<in> set (drop 12 (buffer s))"
    using assms by (intro nth_mem) (simp add: server_ok_def)
  then have "0 \<in> set (drop 12 (buffer s))" using assms by (simp add: server_ok_def)
  ultimately show ?thesis by (simp add: serve_message_def selfid_idx king_offsets)
qed

lemma parser_defined:
  "server_ok s \<Longrightarrow> (king_buffer_parser time from s \<noteq> None) = servable (view s) (buffer s)"
  using served_login(1) [of s "from"] served_heartbeat(1) [of s time] served_connect(1) [of s]
  by (simp add: king_buffer_parser_def servable_def Let_def served_message)

lemma parser_ok:
  assumes "server_ok s" and "king_buffer_parser time from s = Some (ret, s', out)"
  shows "server_ok s' \<and> buffer s' = buffer s"
  using assms served_login(2) [OF assms(1)] served_heartbeat(2) [OF assms(1)] served_connect(2) [OF assms(1)] served_message [OF assms(1)]
  by (auto simp: king_buffer_parser_def Let_def split: if_splits)

text \<open>The last byte of the buffer is zero as long as no datagram fills it.\<close>

lemma received_ok:
  assumes "server_ok s" and "length data < 512"
  shows "server_ok (s\<lparr>buffer := data @ 0 # drop (length data + 1) (buffer s)\<rparr>)"
proof (cases "length data = 511")
  case False
  then have "511 - length data = Suc (510 - length data)" using assms(2) by simp
  then show ?thesis using assms False by (simp add: server_ok_def nth_append)
qed (use assms in \<open>simp add: server_ok_def nth_append\<close>)

lemma answer_ok: "server_ok s \<Longrightarrow> server_ok (s\<lparr>buffer := answer (buffer s)\<rparr>)"
  by (simp add: server_ok_def answer_def king_idx)


abbreviation received :: "byte list \<Rightarrow> king_server \<Rightarrow> king_server" where
  "received data s \<equiv> s\<lparr>buffer := data @ 0 # drop (length data + 1) (buffer s)\<rparr>"

lemma view_buffer [simp]: "view (s\<lparr>buffer := b\<rparr>) = view s"
  by (simp add: view_def)

lemma turn_defined:
  assumes s: "server_ok s"
  shows "(king_server_turn time from data s \<noteq> None) = server_pre (time, from, data) s"
proof (cases "data = [] \<or> 512 \<le> length data")
  case True
  then show ?thesis using s receive_full [of "buffer s" data]
    by (auto simp: king_server_turn_def Let_def server_ok_def king_sizes)
next
  case False
  then have d: "length data < 512" "data \<noteq> []" by auto
  have p: "(king_buffer_parser time from (received data s) \<noteq> None) = server_pre (time, from, data) s"
    using parser_defined [OF received_ok [OF s d(1)], of time "from"] d by simp
  show ?thesis
  proof (cases "king_buffer_parser time from (received data s)")
    case None
    then show ?thesis using p turn_request [OF s d, of time "from"] by (simp del: server_pre.simps)
  next
    case (Some q)
    obtain ret s1 out where "q = (ret, s1, out)" by (cases q)
    then show ?thesis using p Some turn_request [OF s d, of time "from"]
      by (simp del: server_pre.simps split: KING_RESULT.splits)
  qed
qed

lemma turn_ok:
  assumes s: "server_ok s" and t: "king_server_turn time from data s = Some (s', out)"
  shows "server_ok s'"
proof (cases "data = []")
  case True
  then show ?thesis using s t by (simp add: king_server_turn_def)
next
  case False
  then have d: "length data < 512" using turn_defined [OF s, of time "from" data] t by simp
  obtain r s1 o1 where p: "king_buffer_parser time from (received data s) = Some (r, s1, o1)"
    using t unfolding turn_request [OF s d False] by (auto split: bind_splits)
  have "server_ok s1" using parser_ok [OF received_ok [OF s d] p] by simp
  then show ?thesis using t p answer_ok [of s1] unfolding turn_request [OF s d False]
    by (auto split: KING_RESULT.splits)
qed

interpretation rv: guarded_machine server_step server_pre server_ok
proof
  fix s :: king_server and c :: "int \<times> sockaddr_in \<times> byte list"
  assume s: "server_ok s" and p: "server_pre c s"
  obtain time a data where c: "c = (time, a, data)" by (cases c)
  obtain s' out where "king_server_turn time a data s = Some (s', out)"
    using turn_defined [OF s, of time a data] p c by fastforce
  then show "\<exists>s'. server_step c s = Some s' \<and> server_ok s'" using turn_ok [OF s] c by simp
qed

lemma server_start_ok: "server_ok (server_start 0)"
  by (simp add: server_start_def server_ok_def king_sizes zero_client_def blank_buffer_def)

text \<open>The exchange compares eight bytes with the four of the counter: unless the four behind it are zero, no login is ever accepted.\<close>

lemma no_login_beside_data:
  assumes "behind \<noteq> 0"
  shows "serve_login from (server_start behind) = Some (KING_RESULT_FAILED, server_start behind, [])"
proof -
  let ?c = "push_bit 32 (ucast behind :: u64)"
  have low: "(ucast ?c :: u32) = 0"
    by (rule bit_word_eqI) (simp add: bit_simps)
  have "bit behind n \<longleftrightarrow> bit ?c (n + 32)" if "n < 32" for n
    using that by (simp add: bit_simps)
  moreover obtain n where "n < 32" "bit behind n" using assms bit_word_eqI [of behind 0] by auto
  ultimately have "bit ?c (n + 32)" by blast
  then have "?c \<noteq> 0" by (metis bit_0_eq bot_apply bot_bool_def)
  then show ?thesis using low
    by (simp add: serve_login_def Let_def client_count_def cmpxchg_def server_start_def)
qed

section \<open>The server implements the service\<close>

text \<open>What stands in the buffer after a request: the part that the service reads, and whatever follows.\<close>

fun request_status :: "king_request \<Rightarrow> byte" where
  "request_status (Login i) = KING_PROTO_LOGIN_REQ"
| "request_status (Heartbeat i) = KING_PROTO_HEARTBEAT_REQ"
| "request_status (Connect i j) = KING_PROTO_CONNECT_REQ"
| "request_status (Message i j msg) = NTY_RPORO_MESSAGE_REQ"

lemma view_login:
  assumes "server_ok s" and "clients s < 1023"
  shows "view (s\<lparr>count_cell := count_cell s + 1, table := (table s)[clients s + 1 :=
       (table s ! (clients s + 1))\<lparr>ct_id := i, ct_addr := a\<rparr>]\<rparr>) = (fst (view s) @ [snd (view s)], (i, a))"
proof -
  have "unat (count_cell s + 1) = Suc (clients s)" using assms(2) by (simp add: unat_word_ariths)
  then show ?thesis using assms by (simp add: view_def server_ok_def take_Suc_nth entry_def)
qed

lemma turn_success:
  assumes s: "server_ok s" and d: "length data < 512" "8 \<le> length data"
    and p: "king_buffer_parser time from (received data s) = map_option (\<lambda>(s', out). (KING_RESULT_SUCCESS, s', out)) q"
  shows "map_option (\<lambda>(s', out). (view s', out)) (king_server_turn time from data s)
    = map_option (\<lambda>(v, out). (v, out @ [(from, answer data)])) (map_option (\<lambda>(s', out). (view s', out)) q)"
proof (cases q)
  case None
  have "data \<noteq> []" using d by auto
  then show ?thesis using None p by (simp add: turn_request [OF s d(1)])
next
  case (Some r)
  obtain s1 out where r: "r = (s1, out)" by (cases r)
  have ne: "data \<noteq> []" using d by auto
  have p1: "king_buffer_parser time from (received data s) = Some (KING_RESULT_SUCCESS, s1, out)"
    using p Some r by simp
  then have "buffer s1 = data @ 0 # drop (length data + 1) (buffer s)"
    using parser_ok [OF received_ok [OF s d(1)] p1] by simp
  then have "take (length data) (answer (buffer s1)) = answer data" using d by (simp add: take_answer)
  then show ?thesis using p1 Some r by (simp add: turn_request [OF s d(1) ne])
qed

lemma short_refines:
  assumes s: "server_ok s" and r: "request_datagram r srv = Some (srv, data)" and d: "length data < 512"
  shows "map_option (\<lambda>(s', out). (view s', out)) (king_server_turn time from data s) = spec_turn r from data (view s)"
proof (cases r)
  case (Login i)
  have data: "data = request KING_PROTO_LOGIN_REQ i" using r Login by (simp add: king_requests)
  let ?s = "received data s"
  have ok: "server_ok ?s" by (rule received_ok [OF s d])
  have "load_int (buffer ?s) 4 = Some i" by (simp add: data message_in)
  note l = login_spec [OF ok this, of "from"]
  have p: "king_buffer_parser time from ?s = map_option (\<lambda>(s', out). (KING_RESULT_SUCCESS, s', out))
      (map_option (\<lambda>(_, s', out). (s', out)) (serve_login from ?s))"
    using l by (simp add: king_buffer_parser_def data message_in)
  have "map_option (\<lambda>(s', out). (view s', out)) (map_option (\<lambda>(_, s', out). (s', out)) (serve_login from ?s))
      = spec_serve r from (view s)"
    using view_login [OF ok, where i = i and a = "addr_to_array from"] view_dir [OF ok] unfolding l Login
    by (cases "view s") simp
  then show ?thesis using turn_success [OF s d _ p] by (simp add: spec_turn_def data)
next
  case (Heartbeat i)
  have data: "data = request KING_PROTO_HEARTBEAT_REQ i" using r Heartbeat by (simp add: king_requests)
  let ?s = "received data s"
  have ok: "server_ok ?s" by (rule received_ok [OF s d])
  have i: "load_int (buffer ?s) 4 = Some i" by (simp add: data message_in)
  let ?q = "map_option (\<lambda>(_, s', out). (s', out)) (serve_heartbeat time ?s)"
  have k: "(serve_heartbeat time ?s \<noteq> None) = (map_of (fst (view s)) i \<noteq> None)"
    unfolding served_heartbeat(1) [OF ok] known_def i by simp
  have p: "king_buffer_parser time from ?s = map_option (\<lambda>(s', out). (KING_RESULT_SUCCESS, s', out)) ?q
      \<and> map_option (\<lambda>(s', out). (view s', out)) ?q = spec_serve r from (view s)"
  proof -
    have h: "king_buffer_parser time from ?s = serve_heartbeat time ?s"
      by (simp add: king_buffer_parser_def data message_in king_protos)
    show ?thesis
    proof (cases "serve_heartbeat time ?s")
      case None
      then show ?thesis unfolding h using k by (simp add: Heartbeat)
    next
      case (Some q)
      obtain ret s1 out where q: "q = (ret, s1, out)" by (cases q)
      have "ret = KING_RESULT_SUCCESS" "out = []" "view s1 = view s"
        using served_heartbeat(2) [OF ok Some [unfolded q]] by simp_all
      then show ?thesis unfolding h using k Some q by (auto simp: Heartbeat)
    qed
  qed
  then show ?thesis using turn_success [OF s d _ conjunct1 [OF p]] conjunct2 [OF p] by (simp add: spec_turn_def data)
next
  case (Connect i j)
  have data: "data = request KING_PROTO_CONNECT_REQ i @ int_bytes j" using r Connect by (simp add: king_requests)
  let ?s = "received data s"
  have ok: "server_ok ?s" by (rule received_ok [OF s d])
  have ij: "load_int (buffer ?s) 4 = Some i" "load_int (buffer ?s) 8 = Some j" by (simp_all add: data message_in)
  have p: "king_buffer_parser time from ?s = map_option (\<lambda>(s', out). (KING_RESULT_SUCCESS, s', out))
      (map_option (\<lambda>d. (?s, [d])) (king_send_notify ?s j i))"
    using ij by (cases "king_send_notify ?s j i")
      (simp_all add: king_buffer_parser_def data message_in king_protos serve_connect_def selfid_idx king_offsets)
  have "map_option (\<lambda>(s', out). (view s', out)) (map_option (\<lambda>d. (?s, [d])) (king_send_notify ?s j i))
      = spec_serve r from (view s)"
    unfolding notify_spec [OF ok] by (simp add: Connect split: bind_splits)
  then show ?thesis using turn_success [OF s d _ p] by (simp add: spec_turn_def data)
next
  case (Message i j msg)
  have data: "data = message i j msg" using r Message by (simp add: king_message split: if_splits)
  let ?s = "received data s"
  have ok: "server_ok ?s" by (rule received_ok [OF s d])
  have "buffer ?s ! KING_PROTO_BUFFER_STATUS_IDX = NTY_RPORO_MESSAGE_REQ"
    by (simp add: data message_def king_idx)
  then have p: "king_buffer_parser time from ?s = map_option (\<lambda>(s', out). (KING_RESULT_SUCCESS, s', out)) (Some (?s, []))"
    using served_message [OF ok] by (simp add: king_buffer_parser_def king_protos)
  have "length msg < 500" using d data by simp
  then show ?thesis using turn_success [OF s d _ p] by (simp add: spec_turn_def data Message)
qed

text \<open>A request that fills the buffer can only be a message, and the zero behind it goes outside.\<close>

lemma turn_refines:
  assumes s: "server_ok s" and r: "request_datagram r srv = Some (srv, data)"
  shows "map_option (\<lambda>(s', out). (view s', out)) (king_server_turn time from data s) = spec_turn r from data (view s)"
proof (cases "length data < 512")
  case True
  then show ?thesis by (rule short_refines [OF s r])
next
  case False
  then obtain i j msg where "r = Message i j msg" "500 \<le> length msg"
    using r by (cases r) (auto simp: king_requests king_message codec_simps split: if_splits)
  moreover have "\<not> server_pre (time, from, data) s" using False by simp
  then have "king_server_turn time from data s = None" using turn_defined [OF s, of time "from" data] by metis
  ultimately show ?thesis by (simp add: spec_turn_def)
qed

end
