(* ===== verification/P2p_Client.thy ===== *)
theory P2p_Client
  imports P2p_Server
begin

text \<open>
  The client of the rendezvous service (\<open>jiagoushi/chap4.4/p2p/p2p_client.c\<close>): what it does with a datagram, in the thread that
  receives, and with a line typed, in the thread that sends. Each is one step of the model; the threads
  are interleaved at these steps only. \<open>None\<close> is an access outside the array of peers or a buffer.
\<close>

section \<open>State\<close>

record king_client =
  status_machine :: KING_STATUS_SET
  client_selfid :: u32
  server_addr :: sockaddr_in
  p2p_clients :: "client_table list"
  p2p_count :: nat
  client_clock :: time_vars
  recv_buffer :: "byte list"
  receiving :: bool

text \<open>The state once \<open>main\<close> has started the threads, and its login.\<close>

definition client_start :: "u32 \<Rightarrow> sockaddr_in \<Rightarrow> king_client \<times> datagram option" where
  "client_start i srv =
     (\<lparr>status_machine = KING_STATUS_LOGIN, client_selfid = i, server_addr = srv,
       p2p_clients = replicate KING_CLIENT_MAX zero_client, p2p_count = 0,
       client_clock = \<lparr>lTimeStamp = 0, timeStampMutex = 0\<rparr>, recv_buffer = blank_buffer, receiving = True\<rparr>,
      king_send_login i srv)"

section \<open>Datagrams\<close>

text \<open>The sender of a datagram becomes the peer at the end of the array.\<close>

definition record_peer :: "int \<Rightarrow> sockaddr_in \<Rightarrow> king_client \<Rightarrow> king_client option" where
  "record_peer time addr c = do {
     let now_count = p2p_count c;
     let c = c\<lparr>p2p_count := now_count + 1\<rparr>;
     if now_count < length (p2p_clients c) then do {
       let (t, v) = time_genrator time (client_clock c);
       i \<leftarrow> load_int (recv_buffer c) KING_PROTO_BUFFER_SELFID_IDX;
       let e = (p2p_clients c ! now_count)\<lparr>ct_stamp := t\<rparr>;
       let e = e\<lparr>ct_id := i\<rparr>;
       let e = e\<lparr>ct_addr := addr_to_array addr\<rparr>;
       Some (c\<lparr>client_clock := v, p2p_clients := (p2p_clients c)[now_count := e]\<rparr>)
     } else None
   }"

definition on_notify :: "king_client \<Rightarrow> (king_client \<times> datagram list) option" where
  "on_notify c = do {
     other_addr \<leftarrow> array_to_addr (drop KING_PROTO_NOTIFY_ADDR_IDX (recv_buffer c));
     d \<leftarrow> king_send_p2pconnect (client_selfid c) other_addr;
     Some (c, [d])
   }"

definition on_p2p_connect :: "int \<Rightarrow> sockaddr_in \<Rightarrow> king_client \<Rightarrow> (king_client \<times> datagram list) option" where
  "on_p2p_connect time addr c = do {
     c \<leftarrow> record_peer time addr c;
     d \<leftarrow> king_send_p2pconnectack (client_selfid c) addr;
     Some (c\<lparr>status_machine := KING_STATUS_P2P_MESSAGE\<rparr>, [d])
   }"

definition on_p2p_connect_ack :: "int \<Rightarrow> sockaddr_in \<Rightarrow> king_client \<Rightarrow> (king_client \<times> datagram list) option" where
  "on_p2p_connect_ack time addr c = do {
     c \<leftarrow> record_peer time addr c;
     Some (c\<lparr>status_machine := KING_STATUS_P2P_MESSAGE\<rparr>, [])
   }"

text \<open>A message is printed, as a string, and acknowledged.\<close>

definition on_message :: "sockaddr_in \<Rightarrow> king_client \<Rightarrow> (king_client \<times> datagram list) option" where
  "on_message addr c = do {
     other_id \<leftarrow> load_int (recv_buffer c) KING_PROTO_BUFFER_SELFID_IDX;
     if 0 \<in> set (drop KING_RPORO_MESSAGE_CONTENT_IDX (recv_buffer c)) then do {
       d \<leftarrow> king_send_messageack (client_selfid c) addr;
       Some (c, [d])
     } else None
   }"

definition king_client_buffer_parser :: "int \<Rightarrow> sockaddr_in \<Rightarrow> king_client \<Rightarrow> (king_client \<times> datagram list) option" where
  "king_client_buffer_parser time addr c =
     (let status = recv_buffer c ! KING_PROTO_BUFFER_STATUS_IDX
      in if status = NTY_PROTO_NOTIFY_REQ then on_notify c
         else if status = NTY_PROTO_P2P_CONNECT_REQ then on_p2p_connect time addr c
         else if status = NTY_PROTO_P2P_CONNECT_ACK then on_p2p_connect_ack time addr c
         else if status = NTY_RPORO_MESSAGE_REQ then on_message addr c
         else if status = KING_PROTO_LOGIN_ACK then Some (c\<lparr>status_machine := KING_STATUS_MESSAGE\<rparr>, [])
         else Some (c, []))"

text \<open>One turn of the receiving thread, which an empty datagram ends.\<close>

definition king_recv_turn ::
  "int \<Rightarrow> sockaddr_in \<Rightarrow> byte list \<Rightarrow> king_client \<Rightarrow> (king_client \<times> datagram list) option" where
  "king_recv_turn time addr data c =
     (if data = [] then Some (c\<lparr>receiving := False\<rparr>, [])
      else do {
        buf \<leftarrow> receive data (recv_buffer c);
        king_client_buffer_parser time addr (c\<lparr>recv_buffer := buf\<rparr>)
      })"

section \<open>Lines\<close>

definition c_text :: "byte list \<Rightarrow> byte list" where
  "c_text buf = takeWhile (\<lambda>b. b \<noteq> 0) buf"

text \<open>One turn of the sending thread; \<open>scanf\<close> puts the word typed and a zero into the cleared buffer.\<close>

definition king_send_turn :: "byte list \<Rightarrow> king_client \<Rightarrow> (king_client \<times> datagram list) option" where
  "king_send_turn line c = do {
     buf \<leftarrow> write_at blank_buffer 0 (line @ [0]);
     if status_machine c = KING_STATUS_MESSAGE then do {
       let other_id = word_of_int (sint (buf ! 1) - 0x30);
       if buf ! 0 = 0x43 then do {
         d \<leftarrow> king_send_connect (client_selfid c) other_id (server_addr c);
         Some (c, [d])
       } else do {
         d \<leftarrow> king_client_send_message (client_selfid c) other_id (server_addr c) (c_text buf);
         Some (c, [d])
       }
     } else if status_machine c = KING_STATUS_P2P_MESSAGE then do {
       let now_count = p2p_count c;
       if 0 < now_count \<and> now_count - 1 < length (p2p_clients c) then do {
         c_addr \<leftarrow> array_to_addr (ct_addr (p2p_clients c ! (now_count - 1)));
         d \<leftarrow> king_client_send_message (client_selfid c) 0 c_addr (c_text buf);
         Some (c, [d])
       } else None
     } else Some (c, [])
   }"


section \<open>What the steps do to a client\<close>

definition client_ok :: "king_client \<Rightarrow> bool" where
  "client_ok c \<longleftrightarrow> length (p2p_clients c) = 1024 \<and> p2p_count c \<le> 1024 \<and> timeStampMutex (client_clock c) = 0 \<and>
     length (recv_buffer c) = 512 \<and> recv_buffer c ! 511 = 0"

definition peers :: "king_client \<Rightarrow> (u32 \<times> byte list) list" where
  "peers c = map entry (take (p2p_count c) (p2p_clients c))"

abbreviation face :: "king_client \<Rightarrow> KING_STATUS_SET \<times> u32 \<times> sockaddr_in \<times> (u32 \<times> byte list) list \<times> bool" where
  "face c \<equiv> (status_machine c, client_selfid c, server_addr c, peers c, receiving c)"

lemma client_start_ok: "client_ok (fst (client_start i srv)) \<and> peers (fst (client_start i srv)) = []"
  by (simp add: client_start_def client_ok_def peers_def king_sizes blank_buffer_def)

lemma length_peers: "client_ok c \<Longrightarrow> length (peers c) = p2p_count c"
  by (simp add: peers_def client_ok_def)

lemma record_peer_spec:
  assumes c: "client_ok c" and i: "load_int (recv_buffer c) 4 = Some i"
  shows "if length (peers c) < 1024
    then \<exists>c'. record_peer time addr c = Some c' \<and> client_ok c' \<and>
      face c' = (status_machine c, client_selfid c, server_addr c, peers c @ [(i, addr_to_array addr)], receiving c)
    else record_peer time addr c = None"
proof (cases "p2p_count c < 1024")
  case False
  then show ?thesis using c by (simp add: length_peers record_peer_def client_ok_def)
next
  case True
  let ?e = "(p2p_clients c ! p2p_count c)\<lparr>ct_stamp := time, ct_id := i, ct_addr := addr_to_array addr\<rparr>"
  let ?c = "c\<lparr>p2p_count := p2p_count c + 1, client_clock := (client_clock c)\<lparr>lTimeStamp := time, timeStampMutex := 0\<rparr>,
     p2p_clients := (p2p_clients c)[p2p_count c := ?e]\<rparr>"
  have "record_peer time addr c = Some ?c"
    using True c i time_genrator_free [of "client_clock c" time]
    by (simp add: record_peer_def client_ok_def selfid_idx Let_def)
  moreover have "peers ?c = peers c @ [(i, addr_to_array addr)]"
    using True c by (simp add: peers_def client_ok_def take_Suc_conv_app_nth entry_def)
  moreover have "client_ok ?c" using True c by (simp add: client_ok_def)
  ultimately show ?thesis using True length_peers [OF c] by simp
qed

lemma recv_turn:
  assumes "client_ok c" and "length data < 512" and "data \<noteq> []"
  shows "king_recv_turn time addr data c =
    king_client_buffer_parser time addr (c\<lparr>recv_buffer := data @ 0 # drop (length data + 1) (recv_buffer c)\<rparr>)"
  using assms receive_short [of "recv_buffer c" data] by (simp add: king_recv_turn_def client_ok_def)

lemma recv_turn_long: "client_ok c \<Longrightarrow> 512 \<le> length data \<Longrightarrow> king_recv_turn time addr data c = None"
  using receive_full [of "recv_buffer c" data] by (auto simp: king_recv_turn_def client_ok_def)

lemma recv_ok:
  assumes "client_ok c" and "length data < 512"
  shows "client_ok (c\<lparr>recv_buffer := data @ 0 # drop (length data + 1) (recv_buffer c)\<rparr>)"
proof (cases "length data = 511")
  case False
  then have "511 - length data = Suc (510 - length data)" using assms(2) by simp
  then show ?thesis using assms False by (simp add: client_ok_def nth_append)
qed (use assms in \<open>simp add: client_ok_def nth_append\<close>)

lemma face_buffer: "face (c\<lparr>recv_buffer := b\<rparr>) = face c"
  by (simp add: peers_def)

lemma client_ok_status [simp]: "client_ok (c\<lparr>status_machine := x\<rparr>) = client_ok c"
  by (simp add: client_ok_def)

lemma peers_status [simp]: "peers (c\<lparr>status_machine := x\<rparr>) = peers c"
  by (simp add: peers_def)

lemma tail_zero:
  assumes "client_ok c" shows "0 \<in> set (drop 12 (recv_buffer c))"
proof -
  have "drop 12 (recv_buffer c) ! 499 \<in> set (drop 12 (recv_buffer c))"
    using assms by (intro nth_mem) (simp add: client_ok_def)
  then show ?thesis using assms by (simp add: client_ok_def)
qed

text \<open>A notification is answered by a greeting to the address in it.\<close>

lemma recv_notify:
  assumes c: "client_ok c"
  shows "\<exists>c'. king_recv_turn time addr (request NTY_PROTO_NOTIFY_REQ i @ addr_to_array x) c =
      Some (c', [(x, request NTY_PROTO_P2P_CONNECT_REQ (client_selfid c))]) \<and> client_ok c' \<and> face c' = face c"
proof -
  let ?d = "request NTY_PROTO_NOTIFY_REQ i @ addr_to_array x"
  let ?c = "c\<lparr>recv_buffer := ?d @ 0 # drop (length ?d + 1) (recv_buffer c)\<rparr>"
  have l: "length ?d < 512" "?d \<noteq> []" by (simp, simp add: request_def)
  have "(?d @ r) ! KING_PROTO_BUFFER_STATUS_IDX = NTY_PROTO_NOTIFY_REQ" for r by (simp add: message_in)
  moreover have "array_to_addr (drop 8 (?d @ r)) = Some x" for r by simp
  ultimately have "king_recv_turn time addr ?d c = Some (?c, [(x, request NTY_PROTO_P2P_CONNECT_REQ (client_selfid c))])"
    unfolding recv_turn [OF c l]
    by (simp add: king_client_buffer_parser_def on_notify_def king_offsets king_requests)
  then show ?thesis using recv_ok [OF c l(1)] face_buffer by blast
qed

text \<open>A greeting makes its sender a peer and is acknowledged; so does an acknowledgement, which is not.\<close>

lemma recv_greeting:
  assumes c: "client_ok c" and s: "status = NTY_PROTO_P2P_CONNECT_REQ \<or> status = NTY_PROTO_P2P_CONNECT_ACK"
  shows "if length (peers c) < 1024
    then \<exists>c'. king_recv_turn time addr (request status i) c = Some (c',
          if status = NTY_PROTO_P2P_CONNECT_REQ then [(addr, request NTY_PROTO_P2P_CONNECT_ACK (client_selfid c))] else []) \<and>
        client_ok c' \<and>
        face c' = (KING_STATUS_P2P_MESSAGE, client_selfid c, server_addr c, peers c @ [(i, addr_to_array addr)], receiving c)
    else king_recv_turn time addr (request status i) c = None"
proof -
  let ?d = "request status i"
  let ?c = "c\<lparr>recv_buffer := ?d @ 0 # drop (length ?d + 1) (recv_buffer c)\<rparr>"
  have l: "length ?d < 512" "?d \<noteq> []" by (simp, simp add: request_def)
  have ok: "client_ok ?c" by (rule recv_ok [OF c l(1)])
  have "load_int (recv_buffer ?c) 4 = Some i" by (simp add: message_in)
  note r = record_peer_spec [OF ok this, of time addr]
  have f: "client_selfid ?c = client_selfid c" "server_addr ?c = server_addr c" "peers ?c = peers c" "receiving ?c = receiving c"
    by (simp_all add: peers_def)
  have st: "recv_buffer ?c ! KING_PROTO_BUFFER_STATUS_IDX = status" by (simp add: message_in)
  have p: "king_recv_turn time addr ?d c = (if status = NTY_PROTO_P2P_CONNECT_REQ
      then on_p2p_connect time addr ?c else on_p2p_connect_ack time addr ?c)"
    unfolding recv_turn [OF c l] using s st by (auto simp: king_client_buffer_parser_def Let_def king_protos)
  show ?thesis
  proof (cases "length (peers c) < 1024")
    case False
    then have n: "record_peer time addr ?c = None" using r f by simp
    then show ?thesis using False unfolding p on_p2p_connect_def on_p2p_connect_ack_def n by simp
  next
    case True
    then obtain c' where c': "record_peer time addr ?c = Some c'" "client_ok c'"
      "client_selfid c' = client_selfid c" "server_addr c' = server_addr c" "peers c' = peers c @ [(i, addr_to_array addr)]" "receiving c' = receiving c"
      using r unfolding f by auto
    show ?thesis unfolding p if_P [OF True] on_p2p_connect_def on_p2p_connect_ack_def c'(1) king_requests
      by (rule exI [of _ "c'\<lparr>status_machine := KING_STATUS_P2P_MESSAGE\<rparr>"])
        (simp add: c')
  qed
qed

text \<open>Anything else leaves the peers alone, and is answered at most by the acknowledgement of a message.\<close>

lemma recv_other:
  assumes c: "client_ok c" and l: "length data < 512" "8 \<le> length data"
    and s: "data ! 1 \<notin> {NTY_PROTO_NOTIFY_REQ, NTY_PROTO_P2P_CONNECT_REQ, NTY_PROTO_P2P_CONNECT_ACK}"
  shows "\<exists>c'. king_recv_turn time addr data c = Some (c',
        if data ! 1 = NTY_RPORO_MESSAGE_REQ then [(addr, request NTY_RPORO_MESSAGE_ACK (client_selfid c))] else []) \<and>
      client_ok c' \<and> face c' = (if data ! 1 = KING_PROTO_LOGIN_ACK then KING_STATUS_MESSAGE else status_machine c,
        client_selfid c, server_addr c, peers c, receiving c)"
proof -
  let ?c = "c\<lparr>recv_buffer := data @ 0 # drop (length data + 1) (recv_buffer c)\<rparr>"
  have ne: "data \<noteq> []" using l by auto
  have ok: "client_ok ?c" by (rule recv_ok [OF c l(1)])
  have st: "recv_buffer ?c ! KING_PROTO_BUFFER_STATUS_IDX = data ! 1" using l by (simp add: king_idx nth_append)
  have f: "face ?c = face c" by (rule face_buffer)
  have z: "0 \<in> set (drop 12 (recv_buffer ?c))" by (rule tail_zero [OF ok])
  obtain j where j: "load_int (recv_buffer ?c) 4 = Some j"
    using ok load_int_defined [of "recv_buffer ?c" 4] by (auto simp: client_ok_def)
  have m: "on_message addr ?c = Some (?c, [(addr, request NTY_RPORO_MESSAGE_ACK (client_selfid c))])"
    unfolding on_message_def selfid_idx king_offsets j using z by (simp add: king_requests)
  have p: "king_recv_turn time addr data c = (if data ! 1 = NTY_RPORO_MESSAGE_REQ then on_message addr ?c
      else if data ! 1 = KING_PROTO_LOGIN_ACK then Some (?c\<lparr>status_machine := KING_STATUS_MESSAGE\<rparr>, []) else Some (?c, []))"
    unfolding recv_turn [OF c l(1) ne] king_client_buffer_parser_def Let_def st using s by simp
  have q: "NTY_RPORO_MESSAGE_REQ \<noteq> KING_PROTO_LOGIN_ACK" by (simp add: king_protos)
  show ?thesis
  proof (cases "data ! 1 = KING_PROTO_LOGIN_ACK")
    case True
    then show ?thesis unfolding p using q ok f
      by (intro exI [of _ "?c\<lparr>status_machine := KING_STATUS_MESSAGE\<rparr>"]) simp
  next
    case False
    then show ?thesis unfolding p m using ok f by (intro exI [of _ ?c]) simp
  qed
qed


section \<open>What a line sends\<close>

lemma typed_buffer:
  "length line < 512 \<Longrightarrow> write_at blank_buffer 0 (line @ [0]) = Some (line @ 0 # drop (length line + 1) blank_buffer)"
  "512 \<le> length line \<Longrightarrow> write_at blank_buffer 0 (line @ [0]) = None"
  by (simp_all add: write_at_def blank_buffer_def king_sizes)

lemma c_text_typed: "0 \<notin> set line \<Longrightarrow> c_text (line @ 0 # r) = line"
  by (induction line) (auto simp: c_text_def)

lemma last_peer:
  assumes "client_ok c" and "0 < p2p_count c"
  shows "p2p_clients c ! (p2p_count c - 1) \<in> set (p2p_clients c)"
    and "last (peers c) = entry (p2p_clients c ! (p2p_count c - 1))"
proof -
  have n: "p2p_count c - 1 < length (p2p_clients c)" using assms by (auto simp: client_ok_def)
  then show "p2p_clients c ! (p2p_count c - 1) \<in> set (p2p_clients c)" by simp
  have "length (peers c) = p2p_count c" by (rule length_peers [OF assms(1)])
  then have "last (peers c) = peers c ! (p2p_count c - 1)" using assms(2) by (subst last_conv_nth) auto
  then show "last (peers c) = entry (p2p_clients c ! (p2p_count c - 1))" using n assms(2) by (simp add: peers_def)
qed

lemma typed_connect:
  assumes "status_machine c = KING_STATUS_MESSAGE"
  shows "king_send_turn [0x43, d] c = Some (c, [(server_addr c,
    request KING_PROTO_CONNECT_REQ (client_selfid c) @ int_bytes (word_of_int (sint d - 48)))])"
  using assms typed_buffer(1) [of "[0x43, d]"] by (simp add: king_send_turn_def king_requests Let_def)

lemma typed_peer:
  assumes c: "client_ok c" and s: "status_machine c = KING_STATUS_P2P_MESSAGE" and p: "peers c \<noteq> []"
    and x: "snd (last (peers c)) = addr_to_array x" and l: "length line \<le> 500" "0 \<notin> set line"
  shows "king_send_turn line c = Some (c, [(x, message (client_selfid c) 0 line)])"
proof -
  have n: "0 < p2p_count c" using p by (simp add: peers_def)
  have "ct_addr (p2p_clients c ! (p2p_count c - 1)) = addr_to_array x"
    using x last_peer(2) [OF c n] by (simp add: entry_def)
  then show ?thesis using c s l n array_addr_array [of x "[]"]
    by (auto simp: king_send_turn_def typed_buffer c_text_typed client_ok_def king_message Let_def)
qed

lemma typed_cases:
  assumes c: "client_ok c" and t: "king_send_turn line c = Some (c', out)"
  shows "c' = c \<and> (out = []
    \<or> (\<exists>j. out = [(server_addr c, request KING_PROTO_CONNECT_REQ (client_selfid c) @ int_bytes j)])
    \<or> (\<exists>j msg. length msg \<le> 500 \<and> out = [(server_addr c, message (client_selfid c) j msg)])
    \<or> (\<exists>x msg. peers c \<noteq> [] \<and> array_to_addr (snd (last (peers c))) = Some x \<and> out = [(x, message (client_selfid c) 0 msg)]))"
proof -
  obtain buf where b: "write_at blank_buffer 0 (line @ [0]) = Some buf" using t
    by (auto simp: king_send_turn_def split: bind_splits)
  consider "status_machine c = KING_STATUS_MESSAGE" "buf ! 0 = 0x43" | "status_machine c = KING_STATUS_MESSAGE" "buf ! 0 \<noteq> 0x43"
    | "status_machine c = KING_STATUS_P2P_MESSAGE" | "status_machine c \<noteq> KING_STATUS_MESSAGE" "status_machine c \<noteq> KING_STATUS_P2P_MESSAGE"
    by blast
  then show ?thesis
  proof cases
    case 3
    then have n: "0 < p2p_count c" using t b by (simp add: king_send_turn_def Let_def split: if_splits)
    then have "peers c \<noteq> []" using length_peers [OF c] by auto
    then show ?thesis using t b 3 n last_peer(2) [OF c n]
      by (auto simp: king_send_turn_def king_message entry_def Let_def split: if_splits bind_splits)
  qed (use t b in \<open>auto simp: king_send_turn_def king_requests king_message Let_def split: if_splits\<close>)
qed

end
