(* ===== verification/P2p_System.thy ===== *)
theory P2p_System
  imports P2p_Client
begin

text \<open>
  The server and any number of clients on a network that keeps every datagram ever sent, so that any of them may be
  delivered at any time, again, late or never. Every participant runs the code; nobody forges an address.
\<close>

section \<open>The system\<close>

record p2p_system =
  server :: king_server
  clients_at :: "sockaddr_in \<Rightarrow> king_client option"
  net :: "(sockaddr_in \<times> datagram) set"

definition nobody :: sockaddr_in where
  "nobody = \<lparr>s_addr = 0, sin_port = 0\<rparr>"

text \<open>One step: somebody starts a client, the server takes a datagram, a client takes a datagram, or a line is typed at a client.\<close>

inductive p2p_step :: "sockaddr_in \<Rightarrow> p2p_system \<Rightarrow> p2p_system \<Rightarrow> bool" for srv \<sigma> where
  join: "a \<noteq> srv \<Longrightarrow> clients_at \<sigma> a = None \<Longrightarrow> client_start i srv = (c, Some d) \<Longrightarrow>
    p2p_step srv \<sigma> (\<sigma>\<lparr>clients_at := (clients_at \<sigma>)(a \<mapsto> c), net := insert (a, d) (net \<sigma>)\<rparr>)"
| serve: "(a, srv, data) \<in> net \<sigma> \<Longrightarrow> king_server_turn time a data (server \<sigma>) = Some (s, out) \<Longrightarrow>
    p2p_step srv \<sigma> (\<sigma>\<lparr>server := s, net := Pair srv ` set out \<union> net \<sigma>\<rparr>)"
| deliver: "(b, a, data) \<in> net \<sigma> \<Longrightarrow> clients_at \<sigma> a = Some c \<Longrightarrow> receiving c \<Longrightarrow>
    king_recv_turn time b data c = Some (c', out) \<Longrightarrow>
    p2p_step srv \<sigma> (\<sigma>\<lparr>clients_at := (clients_at \<sigma>)(a \<mapsto> c'), net := Pair a ` set out \<union> net \<sigma>\<rparr>)"
| typed: "clients_at \<sigma> a = Some c \<Longrightarrow> king_send_turn line c = Some (c', out) \<Longrightarrow>
    p2p_step srv \<sigma> (\<sigma>\<lparr>clients_at := (clients_at \<sigma>)(a \<mapsto> c'), net := Pair a ` set out \<union> net \<sigma>\<rparr>)"

text \<open>Any number of steps, and the states that can be reached from an empty network.\<close>

abbreviation p2p_leads :: "sockaddr_in \<Rightarrow> p2p_system \<Rightarrow> p2p_system \<Rightarrow> bool" where
  "p2p_leads srv \<equiv> (p2p_step srv)\<^sup>*\<^sup>*"

inductive p2p_reach :: "sockaddr_in \<Rightarrow> p2p_system \<Rightarrow> bool" for srv where
  start: "p2p_reach srv \<lparr>server = server_start 0, clients_at = (\<lambda>_. None), net = {}\<rparr>"
| step: "p2p_reach srv \<sigma> \<Longrightarrow> p2p_step srv \<sigma> \<sigma>' \<Longrightarrow> p2p_reach srv \<sigma>'"

lemma reach_leads: "p2p_leads srv \<sigma> \<sigma>' \<Longrightarrow> p2p_reach srv \<sigma> \<Longrightarrow> p2p_reach srv \<sigma>'"
  by (induction rule: rtranclp_induct) (auto intro: p2p_reach.step)

section \<open>Who is who\<close>

definition who :: "p2p_system \<Rightarrow> sockaddr_in \<Rightarrow> u32 option" where
  "who \<sigma> a = map_option client_selfid (clients_at \<sigma> a)"

text \<open>The entry at index 0 of the table names nobody.\<close>

definition named :: "(sockaddr_in \<Rightarrow> u32 option) \<Rightarrow> u32 \<Rightarrow> sockaddr_in \<Rightarrow> bool" where
  "named w i x \<longleftrightarrow> w x = Some i \<or> (i = 0 \<and> x = nobody)"

text \<open>The datagrams of the protocol: requests to the server, its answers, notifications, and what peers exchange.\<close>

inductive genuine :: "(sockaddr_in \<Rightarrow> u32 option) \<Rightarrow> sockaddr_in \<Rightarrow> sockaddr_in \<times> datagram \<Rightarrow> bool" for w srv where
  asks: "w a = Some i \<Longrightarrow> request_datagram r srv = Some (srv, data) \<Longrightarrow>
    r \<in> {Login i} \<union> range (Connect i) \<union> range (case_prod (Message i)) \<Longrightarrow> genuine w srv (a, srv, data)"
| answers: "data ! 1 \<in> {KING_PROTO_LOGIN_ACK, 0x91, NTY_RPORO_MESSAGE_ACK} \<Longrightarrow> 8 \<le> length data \<Longrightarrow> b \<noteq> srv \<Longrightarrow>
    genuine w srv (srv, b, data)"
| notifies: "named w i x \<Longrightarrow> b \<noteq> srv \<Longrightarrow> genuine w srv (srv, b, request NTY_PROTO_NOTIFY_REQ i @ addr_to_array x)"
| greets: "w a = Some i \<Longrightarrow> b \<noteq> srv \<Longrightarrow> status \<in> {NTY_PROTO_P2P_CONNECT_REQ, NTY_PROTO_P2P_CONNECT_ACK, NTY_RPORO_MESSAGE_ACK} \<Longrightarrow>
    genuine w srv (a, b, request status i)"
| talks: "w a = Some i \<Longrightarrow> b \<noteq> srv \<Longrightarrow> genuine w srv (a, b, message i j msg)"

definition good_directory :: "(sockaddr_in \<Rightarrow> u32 option) \<Rightarrow> directory \<Rightarrow> bool" where
  "good_directory w v \<longleftrightarrow> (\<forall>(i, b) \<in> set (fst v @ [snd v]). \<exists>x. b = addr_to_array x \<and> named w i x)"

definition good_client :: "(sockaddr_in \<Rightarrow> u32 option) \<Rightarrow> sockaddr_in \<Rightarrow> king_client \<Rightarrow> bool" where
  "good_client w srv c \<longleftrightarrow> client_ok c \<and> server_addr c = srv \<and>
     (\<forall>(i, b) \<in> set (peers c). \<exists>x. b = addr_to_array x \<and> w x = Some i) \<and>
     (status_machine c = KING_STATUS_P2P_MESSAGE \<longrightarrow> peers c \<noteq> [])"

definition good_system :: "sockaddr_in \<Rightarrow> p2p_system \<Rightarrow> bool" where
  "good_system srv \<sigma> \<longleftrightarrow> clients_at \<sigma> srv = None \<and> server_ok (server \<sigma>) \<and> good_directory (who \<sigma>) (view (server \<sigma>)) \<and>
     (\<forall>a c. clients_at \<sigma> a = Some c \<longrightarrow> good_client (who \<sigma>) srv c) \<and> (\<forall>d \<in> net \<sigma>. genuine (who \<sigma>) srv d)"

text \<open>Knowing more participants changes nothing for what was genuine before.\<close>

lemma named_mono: "named w i x \<Longrightarrow> w \<subseteq>\<^sub>m w' \<Longrightarrow> named w' i x"
  by (auto simp: named_def map_le_def dom_def)

lemma genuine_mono: "genuine w srv d \<Longrightarrow> w \<subseteq>\<^sub>m w' \<Longrightarrow> genuine w' srv d"
proof (induction rule: genuine.induct)
  case (asks a i r data)
  then have "w' a = Some i" by (auto simp: map_le_def dom_def)
  then show ?case using asks(2,3) by (rule genuine.asks)
next
  case (notifies i x b)
  have "named w' i x" by (rule named_mono [OF notifies(1,3)])
  then show ?case using notifies(2) by (rule genuine.notifies)
next
  case (greets a i b status)
  then have "w' a = Some i" by (auto simp: map_le_def dom_def)
  then show ?case using greets(2,3) by (rule genuine.greets)
next
  case (talks a i b j msg)
  then have "w' a = Some i" by (auto simp: map_le_def dom_def)
  then show ?case using talks(2) by (rule genuine.talks)
qed (rule genuine.answers)

lemma good_client_mono: "good_client w srv c \<Longrightarrow> w \<subseteq>\<^sub>m w' \<Longrightarrow> good_client w' srv c"
  unfolding good_client_def map_le_def dom_def by fastforce

lemma good_directory_mono: "good_directory w v \<Longrightarrow> w \<subseteq>\<^sub>m w' \<Longrightarrow> good_directory w' v"
  unfolding good_directory_def using named_mono by fastforce


section \<open>Every step keeps the system good\<close>

lemma who_client [simp]:
  "clients_at \<sigma> a = Some c \<Longrightarrow> client_selfid c' = client_selfid c \<Longrightarrow> who (\<sigma>\<lparr>clients_at := (clients_at \<sigma>)(a \<mapsto> c')\<rparr>) = who \<sigma>"
  by (auto simp: who_def fun_eq_iff)

lemma who_frame [simp]: "who (\<sigma>\<lparr>net := n\<rparr>) = who \<sigma>" "who (\<sigma>\<lparr>server := s\<rparr>) = who \<sigma>"
  by (simp_all add: who_def fun_eq_iff)

lemma good_update_client:
  assumes g: "good_system srv \<sigma>" and a: "clients_at \<sigma> a = Some c" and i: "client_selfid c' = client_selfid c"
    and c': "good_client (who \<sigma>) srv c'" and out: "\<forall>d \<in> set out. genuine (who \<sigma>) srv (a, d)"
  shows "good_system srv (\<sigma>\<lparr>clients_at := (clients_at \<sigma>)(a \<mapsto> c'), net := Pair a ` set out \<union> net \<sigma>\<rparr>)"
proof -
  have "a \<noteq> srv" using g a by (auto simp: good_system_def)
  then show ?thesis using g c' out who_client [OF a i] by (auto simp: good_system_def)
qed

lemma who_other: "good_system srv \<sigma> \<Longrightarrow> who \<sigma> x = Some i \<Longrightarrow> x \<noteq> srv"
  by (auto simp: good_system_def who_def)

lemma named_other: "good_system srv \<sigma> \<Longrightarrow> srv \<noteq> nobody \<Longrightarrow> named (who \<sigma>) i x \<Longrightarrow> x \<noteq> srv"
  unfolding named_def using who_other by blast

lemma nobody_bytes: "addr_to_array nobody = replicate 6 0"
  by (simp add: addr_to_array_def nobody_def ikcp_encode16u_def ikcp_encode32u_def numeral_eq_Suc)

lemma good_start: "good_system srv \<lparr>server = server_start 0, clients_at = (\<lambda>_. None), net = {}\<rparr>"
proof -
  have "view (server_start 0) = ([], (0, addr_to_array nobody))"
    by (simp add: view_def server_start_def entry_def zero_client_def king_sizes nobody_bytes)
  then show ?thesis using server_start_ok by (auto simp: good_system_def good_directory_def named_def)
qed

lemma good_join:
  assumes g: "good_system srv \<sigma>" and a: "a \<noteq> srv" "clients_at \<sigma> a = None" and c: "client_start i srv = (c, Some d)"
  shows "good_system srv (\<sigma>\<lparr>clients_at := (clients_at \<sigma>)(a \<mapsto> c), net := insert (a, d) (net \<sigma>)\<rparr>)"
proof -
  let ?\<sigma> = "\<sigma>\<lparr>clients_at := (clients_at \<sigma>)(a \<mapsto> c), net := insert (a, d) (net \<sigma>)\<rparr>"
  have f: "client_selfid c = i" "server_addr c = srv" "status_machine c = KING_STATUS_LOGIN" "client_ok c" "peers c = []"
    "d = (srv, request KING_PROTO_LOGIN_REQ i)"
    using c client_start_ok [of i srv] by (auto simp: client_start_def king_requests)
  have m: "who \<sigma> \<subseteq>\<^sub>m who ?\<sigma>" using a(2) by (auto simp: who_def map_le_def dom_def)
  have "who ?\<sigma> a = Some i" by (simp add: who_def f)
  then have "genuine (who ?\<sigma>) srv (a, d)" unfolding f
    by (rule genuine.asks [where r = "Login i"]) (simp_all add: king_requests)
  moreover have "good_client (who ?\<sigma>) srv c" by (simp add: good_client_def f)
  ultimately show ?thesis using g a good_client_mono [OF _ m] genuine_mono [OF _ m] good_directory_mono [OF _ m]
    by (auto simp: good_system_def)
qed

text \<open>The server's answer to a request bears one of three marks.\<close>

lemma answer_genuine:
  assumes "request_datagram r srv = Some (srv, data)" and "r \<in> {Login i} \<union> range (Connect i) \<union> range (case_prod (Message i))"
    and "a \<noteq> srv"
  shows "genuine w srv (srv, a, answer data)"
proof -
  have "8 \<le> length data \<and> data ! 1 \<in> {KING_PROTO_LOGIN_REQ, KING_PROTO_CONNECT_REQ, NTY_RPORO_MESSAGE_REQ}"
    using assms(1,2) by (auto simp: king_requests king_message request_def message_def codec_simps split: if_splits)
  then have "8 \<le> length (answer data) \<and> answer data ! 1 \<in> {KING_PROTO_LOGIN_ACK, 0x91, NTY_RPORO_MESSAGE_ACK}"
    by (auto simp: answer_def king_idx king_protos)
  then show ?thesis using assms(3) by (intro genuine.answers) auto
qed

lemma good_serve:
  assumes g: "good_system srv \<sigma>" and n: "srv \<noteq> nobody" and d: "(a, srv, data) \<in> net \<sigma>"
    and t: "king_server_turn time a data (server \<sigma>) = Some (s, out)"
  shows "good_system srv (\<sigma>\<lparr>server := s, net := Pair srv ` set out \<union> net \<sigma>\<rparr>)"
proof -
  let ?w = "who \<sigma>" and ?v = "view (server \<sigma>)"
  have ok: "server_ok (server \<sigma>)" and dir: "good_directory ?w ?v" using g by (simp_all add: good_system_def)
  have "genuine ?w srv (a, srv, data)" using g d by (simp add: good_system_def)
  then obtain i r where i: "?w a = Some i" and r: "request_datagram r srv = Some (srv, data)"
    and ri: "r \<in> {Login i} \<union> range (Connect i) \<union> range (case_prod (Message i))"
    by (cases rule: genuine.cases) auto
  have as: "a \<noteq> srv" by (rule who_other [OF g i])
  have l: "length data < 512" using turn_defined [OF ok, of time a data] t by simp
  have "spec_turn r a data ?v = Some (view s, out)" using turn_refines [OF ok r, of time a] t by simp
  then obtain out' where sv: "spec_serve r a ?v = Some (view s, out')" and o: "out = out' @ [(a, answer data)]"
    by (auto simp: spec_turn_def)
  have e: "\<exists>x. b = addr_to_array x \<and> named ?w j x" if "map_of (fst ?v) j = Some b" for j b
    using dir map_of_SomeD [OF that] by (auto simp: good_directory_def)
  have "good_directory ?w (view s) \<and> (\<forall>d \<in> set out'. genuine ?w srv (srv, d))"
  proof (cases r)
    case (Login j)
    then have "view s = (fst ?v @ [snd ?v], (i, addr_to_array a))" "out' = []"
      using sv ri by (cases ?v; auto split: if_splits)+
    then show ?thesis using dir i by (auto simp: good_directory_def named_def)
  next
    case (Heartbeat j)
    then show ?thesis using ri by auto
  next
    case (Connect j k)
    then obtain x y c where m: "map_of (fst ?v) j = Some x" "map_of (fst ?v) k = Some y" "array_to_addr y = Some c"
      and "view s = ?v" "out' = [(c, request NTY_PROTO_NOTIFY_REQ j @ x)]"
      using sv by (auto split: bind_splits)
    moreover obtain x' y' where "x = addr_to_array x'" "named ?w j x'" "y = addr_to_array y'" "named ?w k y'"
      using e m(1,2) by blast
    moreover have "c = y'" using m(3) array_addr_array [of y' "[]"] calculation by simp
    ultimately show ?thesis using dir named_other [OF g n] genuine.notifies by auto
  next
    case (Message j k msg)
    then show ?thesis using sv dir by (auto split: if_splits)
  qed
  then show ?thesis using g turn_ok [OF ok t] answer_genuine [OF r ri as] by (auto simp: good_system_def o)
qed


lemma good_deliver:
  assumes g: "good_system srv \<sigma>" and n: "srv \<noteq> nobody" and d: "(b, a, data) \<in> net \<sigma>" and a: "clients_at \<sigma> a = Some c"
    and t: "king_recv_turn time b data c = Some (c', out)"
  shows "good_system srv (\<sigma>\<lparr>clients_at := (clients_at \<sigma>)(a \<mapsto> c'), net := Pair a ` set out \<union> net \<sigma>\<rparr>)"
proof -
  let ?w = "who \<sigma>"
  have c: "client_ok c" "server_addr c = srv" "\<forall>(i, b) \<in> set (peers c). \<exists>x. b = addr_to_array x \<and> ?w x = Some i"
    "status_machine c = KING_STATUS_P2P_MESSAGE \<Longrightarrow> peers c \<noteq> []"
    using g a by (auto simp: good_system_def good_client_def)
  have as: "a \<noteq> srv" using g a by (auto simp: good_system_def)
  have wa: "?w a = Some (client_selfid c)" using a by (simp add: who_def)
  have l: "length data < 512" using recv_turn_long [OF c(1)] t by (metis not_le option.distinct(1))
  have other: "client_selfid c' = client_selfid c \<and> good_client ?w srv c' \<and> (\<forall>d \<in> set out. genuine ?w srv (a, d))"
    if s: "data ! 1 \<notin> {NTY_PROTO_NOTIFY_REQ, NTY_PROTO_P2P_CONNECT_REQ, NTY_PROTO_P2P_CONNECT_ACK}"
      and m: "8 \<le> length data" "data ! 1 = NTY_RPORO_MESSAGE_REQ \<Longrightarrow> b \<noteq> srv"
  proof -
    have f: "client_ok c'" "client_selfid c' = client_selfid c" "server_addr c' = srv" "peers c' = peers c"
      "status_machine c' \<in> {status_machine c, KING_STATUS_MESSAGE}"
      "out = (if data ! 1 = NTY_RPORO_MESSAGE_REQ then [(b, request NTY_RPORO_MESSAGE_ACK (client_selfid c))] else [])"
      using recv_other [OF c(1) l m(1) s, of time b] t c(2) by auto
    have "genuine ?w srv (a, b, request NTY_RPORO_MESSAGE_ACK (client_selfid c))" if "b \<noteq> srv"
      using wa that by (rule genuine.greets) simp
    then show ?thesis using f c m by (auto simp: good_client_def)
  qed
  have greeted: "client_selfid c' = client_selfid c \<and> good_client ?w srv c' \<and> (\<forall>d \<in> set out. genuine ?w srv (a, d))"
    if i: "?w b = Some i" and s: "status = NTY_PROTO_P2P_CONNECT_REQ \<or> status = NTY_PROTO_P2P_CONNECT_ACK" and data: "data = request status i" for i status
  proof -
    have f: "client_ok c'" "client_selfid c' = client_selfid c" "server_addr c' = srv" "peers c' = peers c @ [(i, addr_to_array b)]"
      "set out \<subseteq> {(b, request NTY_PROTO_P2P_CONNECT_ACK (client_selfid c))}"
      using recv_greeting [OF c(1) s, of time b i] t c(2) unfolding data by (auto split: if_splits)
    have "genuine ?w srv (a, b, request NTY_PROTO_P2P_CONNECT_ACK (client_selfid c))"
      using wa who_other [OF g i] by (rule genuine.greets) simp
    then show ?thesis using f c(3) i by (auto simp: good_client_def)
  qed
  have "genuine ?w srv (b, a, data)" using g d by (simp add: good_system_def)
  then have "client_selfid c' = client_selfid c \<and> good_client ?w srv c' \<and> (\<forall>d \<in> set out. genuine ?w srv (a, d))"
  proof cases
    case (asks i r)
    then show ?thesis using as by simp
  next
    case answers
    then show ?thesis by (intro other) (auto simp: king_protos)
  next
    case (notifies i x)
    have f: "client_ok c'" "face c' = face c" "out = [(x, request NTY_PROTO_P2P_CONNECT_REQ (client_selfid c))]"
      using recv_notify [OF c(1), of time b i x] t notifies(2) by auto
    have "genuine ?w srv (a, x, request NTY_PROTO_P2P_CONNECT_REQ (client_selfid c))"
      using wa named_other [OF g n notifies(3)] by (rule genuine.greets) simp
    then show ?thesis using f c by (auto simp: good_client_def)
  next
    case (greets i status)
    show ?thesis
    proof (cases "status = NTY_RPORO_MESSAGE_ACK")
      case True
      then show ?thesis using greets by (intro other) (auto simp: king_protos request_def codec_simps)
    next
      case False
      then show ?thesis using greets by (intro greeted) auto
    qed
  next
    case (talks i j msg)
    then show ?thesis using who_other [OF g talks(2)] by (intro other) (auto simp: king_protos message_def codec_simps)
  qed
  then show ?thesis using good_update_client [OF g a] by blast
qed

lemma good_typed:
  assumes g: "good_system srv \<sigma>" and a: "clients_at \<sigma> a = Some c" and t: "king_send_turn line c = Some (c', out)"
  shows "good_system srv (\<sigma>\<lparr>clients_at := (clients_at \<sigma>)(a \<mapsto> c'), net := Pair a ` set out \<union> net \<sigma>\<rparr>)"
proof -
  let ?w = "who \<sigma>"
  have gc: "good_client ?w srv c" using g a by (simp add: good_system_def)
  then have c: "client_ok c" "server_addr c = srv" by (simp_all add: good_client_def)
  have wa: "?w a = Some (client_selfid c)" using a by (simp add: who_def)
  have "\<forall>d \<in> set out. genuine ?w srv (a, d)"
  proof (cases "out = []")
    case False
    then consider j where "out = [(srv, request KING_PROTO_CONNECT_REQ (client_selfid c) @ int_bytes j)]"
      | j msg where "length msg \<le> 500" "out = [(srv, message (client_selfid c) j msg)]"
      | x msg where "peers c \<noteq> []" "array_to_addr (snd (last (peers c))) = Some x" "out = [(x, message (client_selfid c) 0 msg)]"
      using typed_cases [OF c(1) t] c(2) by auto
    then show ?thesis
    proof cases
      case (1 j)
      have "genuine ?w srv (a, srv, request KING_PROTO_CONNECT_REQ (client_selfid c) @ int_bytes j)"
        using wa by (rule genuine.asks [where r = "Connect (client_selfid c) j"]) (simp_all add: king_requests)
      then show ?thesis by (simp add: 1)
    next
      case (2 j msg)
      have "genuine ?w srv (a, srv, message (client_selfid c) j msg)"
        using wa 2(1) by (intro genuine.asks [where r = "Message (client_selfid c) j msg"]) (auto simp: king_message)
      then show ?thesis by (simp add: 2)
    next
      case (3 x msg)
      obtain i b where p: "last (peers c) = (i, b)" by (cases "last (peers c)")
      then have "(i, b) \<in> set (peers c)" using 3(1) last_in_set by metis
      then obtain y where "b = addr_to_array y" "?w y = Some i" using gc by (auto simp: good_client_def)
      then have "x \<noteq> srv" using 3(2) p array_addr_array [of y "[]"] who_other [OF g] by auto
      then have "genuine ?w srv (a, x, message (client_selfid c) 0 msg)" using wa by (rule genuine.talks [rotated])
      then show ?thesis by (simp add: 3)
    qed
  qed simp
  moreover have "c' = c" using typed_cases [OF c(1) t] by simp
  ultimately show ?thesis using good_update_client [OF g a] gc by simp
qed

lemma good_step: "p2p_step srv \<sigma> \<sigma>' \<Longrightarrow> srv \<noteq> nobody \<Longrightarrow> good_system srv \<sigma> \<Longrightarrow> good_system srv \<sigma>'"
  by (induction rule: p2p_step.induct) (blast intro: good_join good_serve good_deliver good_typed)+

lemma reach_good: "p2p_reach srv \<sigma> \<Longrightarrow> srv \<noteq> nobody \<Longrightarrow> good_system srv \<sigma>"
  by (induction rule: p2p_reach.induct) (blast intro: good_start good_step)+

end
