(* ===== verification/P2p_Theorems.thy ===== *)
theory P2p_Theorems
  imports P2p_System
begin

text \<open>The properties of the rendezvous service, with instances.\<close>

section \<open>Runs of the server\<close>

text \<open>Requests as the clients' routines build them, each with its time and its sender.\<close>

fun serve_all :: "sockaddr_in \<Rightarrow> (int \<times> sockaddr_in \<times> king_request) list \<Rightarrow> king_server \<Rightarrow> (king_server \<times> datagram list) option" where
  "serve_all srv [] s = Some (s, [])"
| "serve_all srv ((time, a, r) # rs) s = do {
     (to, data) \<leftarrow> request_datagram r srv;
     (s, out) \<leftarrow> king_server_turn time a data s;
     (s, out') \<leftarrow> serve_all srv rs s;
     Some (s, out @ out')
   }"

fun spec_all :: "sockaddr_in \<Rightarrow> (int \<times> sockaddr_in \<times> king_request) list \<Rightarrow> directory \<Rightarrow> (directory \<times> datagram list) option" where
  "spec_all srv [] v = Some (v, [])"
| "spec_all srv ((time, a, r) # rs) v = do {
     (to, data) \<leftarrow> request_datagram r srv;
     (v, out) \<leftarrow> spec_turn r a data v;
     (v, out') \<leftarrow> spec_all srv rs v;
     Some (v, out @ out')
   }"

lemma request_to: "request_datagram r srv = Some (to, data) \<Longrightarrow> to = srv"
  by (cases r) (auto simp: king_requests king_message split: if_splits)

lemma serve_all_refines:
  "server_ok s \<Longrightarrow> map_option (\<lambda>(s', out). (view s', out)) (serve_all srv rs s) = spec_all srv rs (view s)"
proof (induction rs arbitrary: s)
  case (Cons e rs)
  obtain time a r where e: "e = (time, a, r)" by (cases e)
  show ?case
  proof (cases "request_datagram r srv")
    case (Some q)
    then obtain data where r: "request_datagram r srv = Some (srv, data)" using request_to by (cases q) blast
    note step = turn_refines [OF Cons.prems r, of time a]
    show ?thesis
    proof (cases "king_server_turn time a data s")
      case None
      then show ?thesis using step by (simp add: e r)
    next
      case (Some q)
      obtain s' out where q: "q = (s', out)" by (cases q)
      have "server_ok s'" using turn_ok [OF Cons.prems] Some q by blast
      then have ih: "spec_all srv rs (view s') = map_option (\<lambda>(s', out). (view s', out)) (serve_all srv rs s')"
        using Cons.IH by simp
      have st: "spec_turn r a data (view s) = Some (view s', out)" using step Some q by simp
      show ?thesis using Some q by (cases "serve_all srv rs s'") (auto simp: e r st ih)
    qed
  qed (simp add: e)
qed simp

lemma view_start: "view (server_start 0) = ([], (0, addr_to_array nobody))"
  by (simp add: view_def server_start_def entry_def zero_client_def king_sizes nobody_bytes)

text \<open>C8: The rendezvous server implements the abstract directory: over any sequence of requests it answers, notifies and fails exactly as the directory prescribes.\<close>

theorem king_server_refines:
  "map_option (\<lambda>(s, out). (view s, out)) (serve_all srv rs (server_start 0)) = spec_all srv rs ([], (0, addr_to_array nobody))"
  using serve_all_refines [OF server_start_ok] by (simp add: view_start)

text \<open>C9: On arbitrary datagrams that meet the stated precondition the server runs on inside its table and its buffer, which stay well formed, and the precondition is exact.\<close>

theorem king_server_safe:
  assumes "run_pre server_step server_pre ds (server_start 0)"
  shows "\<exists>s. run_calls server_step ds (server_start 0) = Some s \<and> server_ok s \<and>
    (\<forall>time a data. (king_server_turn time a data s \<noteq> None) = server_pre (time, a, data) s)"
  using rv.run_ok [OF server_start_ok assms] turn_defined by blast

lemma login_served:
  assumes "server_ok s" and "length (fst (view s)) < 1023"
  obtains s' where "king_server_turn time a (request KING_PROTO_LOGIN_REQ i) s = Some (s', [(a, answer (request KING_PROTO_LOGIN_REQ i))])"
    "server_ok s'" "view s' = (fst (view s) @ [snd (view s)], (i, addr_to_array a))"
proof -
  have "map_option (\<lambda>(s', out). (view s', out)) (king_server_turn time a (request KING_PROTO_LOGIN_REQ i) s)
      = spec_turn (Login i) a (request KING_PROTO_LOGIN_REQ i) (view s)"
    by (rule turn_refines [OF assms(1)]) (simp add: king_requests)
  also have "\<dots> = Some ((fst (view s) @ [snd (view s)], (i, addr_to_array a)), [(a, answer (request KING_PROTO_LOGIN_REQ i))])"
    using assms(2) by (cases "view s") (simp add: spec_turn_def)
  finally show thesis using that turn_ok [OF assms(1)] by (auto simp: option.map_sel)
qed

lemma heartbeat_served:
  assumes "server_ok s"
  shows "(king_server_turn time a (request KING_PROTO_HEARTBEAT_REQ i) s \<noteq> None) = (map_of (fst (view s)) i \<noteq> None)"
proof -
  have "map_option (\<lambda>(s', out). (view s', out)) (king_server_turn time a (request KING_PROTO_HEARTBEAT_REQ i) s)
      = spec_turn (Heartbeat i) a (request KING_PROTO_HEARTBEAT_REQ i) (view s)"
    by (rule turn_refines [OF assms]) (simp add: king_requests)
  then show ?thesis by (metis (no_types, lifting) option.map_disc_iff spec_serve.simps(2) spec_turn_def)
qed

lemma connect_served:
  assumes "server_ok s"
  shows "map_option (\<lambda>(s', out). (view s', out)) (king_server_turn time a (request KING_PROTO_CONNECT_REQ i @ int_bytes j) s)
    = spec_turn (Connect i j) a (request KING_PROTO_CONNECT_REQ i @ int_bytes j) (view s)"
  by (rule turn_refines [OF assms]) (simp add: king_requests)

text \<open>C10: A client that has just logged in cannot be found: its heartbeat and every request to be connected to it use an index that was never returned, until another client logs in.\<close>

theorem king_newest_lost:
  assumes "server_ok s" and "length (fst (view s)) < 1022"
    and "i \<notin> fst ` set (fst (view s))" and "fst (snd (view s)) \<noteq> i"
  shows "\<exists>s1 s2. king_server_turn t1 a (request KING_PROTO_LOGIN_REQ i) s = Some (s1, [(a, answer (request KING_PROTO_LOGIN_REQ i))]) \<and>
    king_server_turn t2 a (request KING_PROTO_HEARTBEAT_REQ i) s1 = None \<and>
    king_server_turn t3 b (request KING_PROTO_CONNECT_REQ j @ int_bytes i) s1 = None \<and>
    king_server_turn t4 c (request KING_PROTO_LOGIN_REQ k) s1 = Some (s2, [(c, answer (request KING_PROTO_LOGIN_REQ k))]) \<and>
    king_server_turn t5 a (request KING_PROTO_HEARTBEAT_REQ i) s2 \<noteq> None"
proof -
  have l: "length (fst (view s)) < 1023" using assms(2) by simp
  obtain s1 where s1: "king_server_turn t1 a (request KING_PROTO_LOGIN_REQ i) s = Some (s1, [(a, answer (request KING_PROTO_LOGIN_REQ i))])"
    "server_ok s1" "view s1 = (fst (view s) @ [snd (view s)], (i, addr_to_array a))"
    by (rule login_served [OF assms(1) l, of t1 a i])
  have l1: "length (fst (view s1)) < 1023" using assms(2) by (simp add: s1(3))
  obtain s2 where s2: "king_server_turn t4 c (request KING_PROTO_LOGIN_REQ k) s1 = Some (s2, [(c, answer (request KING_PROTO_LOGIN_REQ k))])"
    "server_ok s2" "view s2 = (fst (view s1) @ [snd (view s1)], (k, addr_to_array c))"
    by (rule login_served [OF s1(2) l1, of t4 c k])
  have n: "map_of (fst (view s1)) i = None" using assms(3,4) by (auto simp: s1(3) map_of_eq_None_iff)
  then have "king_server_turn t2 a (request KING_PROTO_HEARTBEAT_REQ i) s1 = None"
    using heartbeat_served [OF s1(2)] by metis
  moreover have "king_server_turn t3 b (request KING_PROTO_CONNECT_REQ j @ int_bytes i) s1 = None"
    using connect_served [OF s1(2), of t3 b j i] n by (cases "map_of (fst (view s1)) j") (simp_all add: spec_turn_def)
  moreover have "map_of (fst (view s2)) i \<noteq> None" by (auto simp: s2(3) s1(3) map_of_eq_None_iff)
  then have "king_server_turn t5 a (request KING_PROTO_HEARTBEAT_REQ i) s2 \<noteq> None"
    using heartbeat_served [OF s2(2)] by metis
  ultimately show ?thesis using s1(1) s2(1) by blast
qed


theorem king_server_safe_witness:
  "\<exists>s. run_calls server_step [(0, nobody, request KING_PROTO_LOGIN_REQ 7), (1, nobody, [])] (server_start 0) = Some s \<and> server_ok s \<and>
    (\<forall>time a data. (king_server_turn time a data s \<noteq> None) = server_pre (time, a, data) s)"
proof -
  have "servable ([], (0, addr_to_array nobody)) (request KING_PROTO_LOGIN_REQ 7 @ r)" for r
    by (simp add: servable_def message_in)
  then show ?thesis by (intro king_server_safe) (simp add: view_start split: option.splits)
qed

theorem king_newest_lost_witness:
  "\<exists>s1 s2. king_server_turn 10 nobody (request KING_PROTO_LOGIN_REQ 7) (server_start 0) =
      Some (s1, [(nobody, answer (request KING_PROTO_LOGIN_REQ 7))]) \<and>
    king_server_turn 20 nobody (request KING_PROTO_HEARTBEAT_REQ 7) s1 = None \<and>
    king_server_turn 30 nobody (request KING_PROTO_CONNECT_REQ 0 @ int_bytes 7) s1 = None \<and>
    king_server_turn 40 nobody (request KING_PROTO_LOGIN_REQ 8) s1 = Some (s2, [(nobody, answer (request KING_PROTO_LOGIN_REQ 8))]) \<and>
    king_server_turn 50 nobody (request KING_PROTO_HEARTBEAT_REQ 7) s2 \<noteq> None"
  by (rule king_newest_lost [OF server_start_ok]) (simp_all add: view_start)

section \<open>The system\<close>

text \<open>C6: In every reachable state of the system, whatever the network loses, repeats or delays, each peer a client has recorded is the identifier and the address of a participant, and a client that talks to a peer has one.\<close>

theorem p2p_peers_genuine:
  assumes "p2p_reach srv \<sigma>" and "srv \<noteq> nobody" and "clients_at \<sigma> a = Some c"
  shows "(\<forall>k < p2p_count c. \<exists>x c'. ct_addr (p2p_clients c ! k) = addr_to_array x \<and> clients_at \<sigma> x = Some c' \<and>
      client_selfid c' = ct_id (p2p_clients c ! k)) \<and>
    (status_machine c = KING_STATUS_P2P_MESSAGE \<longrightarrow> 0 < p2p_count c)"
proof -
  have g: "good_client (who \<sigma>) srv c" using reach_good [OF assms(1,2)] assms(3) by (simp add: good_system_def)
  then have ok: "client_ok c" and p: "\<forall>(i, b) \<in> set (peers c). \<exists>x. b = addr_to_array x \<and> who \<sigma> x = Some i"
    and n: "status_machine c = KING_STATUS_P2P_MESSAGE \<longrightarrow> peers c \<noteq> []"
    by (simp_all add: good_client_def)
  have "\<exists>x c'. ct_addr (p2p_clients c ! k) = addr_to_array x \<and> clients_at \<sigma> x = Some c' \<and>
      client_selfid c' = ct_id (p2p_clients c ! k)" if k: "k < p2p_count c" for k
  proof -
    have "peers c ! k = entry (p2p_clients c ! k)" using ok k by (simp add: peers_def client_ok_def)
    moreover have "peers c ! k \<in> set (peers c)" using length_peers [OF ok] k by simp
    ultimately have "entry (p2p_clients c ! k) \<in> set (peers c)" by simp
    then show ?thesis using p by (fastforce simp: entry_def who_def)
  qed
  moreover have "status_machine c = KING_STATUS_P2P_MESSAGE \<longrightarrow> 0 < p2p_count c"
    using n length_peers [OF ok] by (metis length_greater_0_conv)
  ultimately show ?thesis by blast
qed

text \<open>One step of the system, with what it changes.\<close>

lemma step_join:
  assumes "a \<noteq> srv" and "clients_at \<sigma> a = None"
  obtains \<sigma>' where "p2p_step srv \<sigma> \<sigma>'" "server \<sigma>' = server \<sigma>"
    "clients_at \<sigma>' = (clients_at \<sigma>)(a \<mapsto> fst (client_start i srv))"
    "net \<sigma>' = insert (a, srv, request KING_PROTO_LOGIN_REQ i) (net \<sigma>)"
proof -
  have "client_start i srv = (fst (client_start i srv), Some (srv, request KING_PROTO_LOGIN_REQ i))"
    by (simp add: client_start_def king_requests)
  from p2p_step.join [OF assms this] show thesis by (rule that) simp_all
qed

lemma step_serve:
  assumes "(a, srv, data) \<in> net \<sigma>" and "king_server_turn 0 a data (server \<sigma>) = Some (s, out)"
  obtains \<sigma>' where "p2p_step srv \<sigma> \<sigma>'" "server \<sigma>' = s" "clients_at \<sigma>' = clients_at \<sigma>" "net \<sigma>' = Pair srv ` set out \<union> net \<sigma>"
  by (rule that [OF p2p_step.serve [OF assms]]) simp_all

lemma step_deliver:
  assumes "(b, a, data) \<in> net \<sigma>" and "clients_at \<sigma> a = Some c" and "receiving c"
    and "king_recv_turn 0 b data c = Some (c', out)"
  obtains \<sigma>' where "p2p_step srv \<sigma> \<sigma>'" "server \<sigma>' = server \<sigma>" "clients_at \<sigma>' = (clients_at \<sigma>)(a \<mapsto> c')"
    "net \<sigma>' = Pair a ` set out \<union> net \<sigma>"
  by (rule that [OF p2p_step.deliver [OF assms]]) simp_all

lemma step_typed:
  assumes "clients_at \<sigma> a = Some c" and "king_send_turn line c = Some (c, out)"
  shows "p2p_step srv \<sigma> (\<sigma>\<lparr>net := Pair a ` set out \<union> net \<sigma>\<rparr>)"
proof -
  have "\<sigma>\<lparr>clients_at := (clients_at \<sigma>)(a \<mapsto> c), net := n\<rparr> = \<sigma>\<lparr>net := n\<rparr>" for n
    using assms(1) by (simp add: fun_upd_idem)
  then show ?thesis using p2p_step.typed [OF assms, of srv] by simp
qed

lemma connect_notifies:
  assumes "server_ok s" and "map_of (fst (view s)) i = Some (addr_to_array a)" and "map_of (fst (view s)) j = Some (addr_to_array b)"
  obtains s' where "king_server_turn time c (request KING_PROTO_CONNECT_REQ i @ int_bytes j) s =
    Some (s', [(b, request NTY_PROTO_NOTIFY_REQ i @ addr_to_array a), (c, answer (request KING_PROTO_CONNECT_REQ i @ int_bytes j))])"
proof -
  have "spec_turn (Connect i j) c (request KING_PROTO_CONNECT_REQ i @ int_bytes j) (view s) = Some (view s,
      [(b, request NTY_PROTO_NOTIFY_REQ i @ addr_to_array a), (c, answer (request KING_PROTO_CONNECT_REQ i @ int_bytes j))])"
    using array_addr_array [of b "[]"] by (simp add: spec_turn_def assms(2,3))
  then show thesis using connect_served [OF assms(1), of time c i j] that by auto
qed

text \<open>The command brings a notification on the way to the other client.\<close>

definition connect_request :: "king_client \<Rightarrow> u32 \<Rightarrow> byte list" where
  "connect_request c j = request KING_PROTO_CONNECT_REQ (client_selfid c) @ int_bytes j"

lemma connect_asked:
  assumes "p2p_reach srv \<sigma>" and "srv \<noteq> nobody" and "clients_at \<sigma> a = Some ca" and "status_machine ca = KING_STATUS_MESSAGE"
    and "map_of (fst (view (server \<sigma>))) (client_selfid ca) = Some (addr_to_array a)"
    and "map_of (fst (view (server \<sigma>))) j = Some (addr_to_array b)" and "j = word_of_int (sint d - 48)"
  defines "\<sigma>1 \<equiv> \<sigma>\<lparr>net := insert (a, srv, connect_request ca j) (net \<sigma>)\<rparr>"
  obtains \<sigma>2 where "king_send_turn [0x43, d] ca = Some (ca, [(srv, connect_request ca j)])" "p2p_step srv \<sigma> \<sigma>1"
    "p2p_step srv \<sigma>1 \<sigma>2" "clients_at \<sigma>2 = clients_at \<sigma>"
    "(srv, b, request NTY_PROTO_NOTIFY_REQ (client_selfid ca) @ addr_to_array a) \<in> net \<sigma>2"
proof -
  define con where "con = connect_request ca j"
  define ntf where "ntf = request NTY_PROTO_NOTIFY_REQ (client_selfid ca) @ addr_to_array a"
  have "server_addr ca = srv" using reach_good [OF assms(1,2)] assms(3) by (simp add: good_system_def good_client_def)
  then have t: "king_send_turn [0x43, d] ca = Some (ca, [(srv, con)])"
    using typed_connect [OF assms(4), of d] by (simp add: con_def assms(7) connect_request_def)
  have s1: "p2p_step srv \<sigma> \<sigma>1" using step_typed [where srv = srv, OF assms(3) t] by (simp add: \<sigma>1_def con_def)
  have ok: "server_ok (server \<sigma>1)" using reach_good [OF assms(1,2)] by (simp add: good_system_def \<sigma>1_def)
  have m: "map_of (fst (view (server \<sigma>1))) (client_selfid ca) = Some (addr_to_array a)"
    "map_of (fst (view (server \<sigma>1))) j = Some (addr_to_array b)" by (simp_all add: \<sigma>1_def assms(5,6))
  obtain s where s: "king_server_turn 0 a con (server \<sigma>1) = Some (s, [(b, ntf), (a, answer con)])"
    unfolding con_def ntf_def connect_request_def by (rule connect_notifies [OF ok m])
  have "(a, srv, con) \<in> net \<sigma>1" by (simp add: \<sigma>1_def con_def)
  from this s obtain \<sigma>2 where "p2p_step srv \<sigma>1 \<sigma>2" "clients_at \<sigma>2 = clients_at \<sigma>1"
    "net \<sigma>2 = Pair srv ` set [(b, ntf), (a, answer con)] \<union> net \<sigma>1" by (rule step_serve)
  then show thesis using that t s1 unfolding con_def ntf_def by (simp add: \<sigma>1_def)
qed

text \<open>The greeting and its acknowledgement make the two clients peers.\<close>

lemma greeted:
  assumes ab: "a \<noteq> b"
    and a: "clients_at \<sigma> a = Some ca" "receiving ca" "length (peers ca) < 1024" "client_ok ca"
    and b: "clients_at \<sigma> b = Some cb" "receiving cb" "length (peers cb) < 1024" "client_ok cb"
    and ntf: "(srv, b, request NTY_PROTO_NOTIFY_REQ (client_selfid ca) @ addr_to_array a) \<in> net \<sigma>"
  obtains \<sigma>' ca' cb' where "p2p_leads srv \<sigma> \<sigma>'" "server \<sigma>' = server \<sigma>" "clients_at \<sigma>' = (clients_at \<sigma>)(a \<mapsto> ca', b \<mapsto> cb')"
    "client_ok ca'" "client_ok cb'"
    "face ca' = (KING_STATUS_P2P_MESSAGE, client_selfid ca, server_addr ca, peers ca @ [(client_selfid cb, addr_to_array b)], receiving ca)"
    "face cb' = (KING_STATUS_P2P_MESSAGE, client_selfid cb, server_addr cb, peers cb @ [(client_selfid ca, addr_to_array a)], receiving cb)"
proof -
  define greet where "greet = request NTY_PROTO_P2P_CONNECT_REQ (client_selfid cb)"
  define ack where "ack = request NTY_PROTO_P2P_CONNECT_ACK (client_selfid ca)"
  obtain cb1 where n: "king_recv_turn 0 srv (request NTY_PROTO_NOTIFY_REQ (client_selfid ca) @ addr_to_array a) cb = Some (cb1, [(a, greet)])"
    and cb1: "client_ok cb1" "face cb1 = face cb" using recv_notify [OF b(4)] unfolding greet_def by blast
  obtain \<sigma>1 where r1: "p2p_step srv \<sigma> \<sigma>1" and s1: "server \<sigma>1 = server \<sigma>" "clients_at \<sigma>1 = (clients_at \<sigma>)(b \<mapsto> cb1)"
    and n1: "net \<sigma>1 = Pair b ` set [(a, greet)] \<union> net \<sigma>" by (rule step_deliver [OF ntf b(1,2) n])
  obtain ca1 where m: "king_recv_turn 0 b greet ca = Some (ca1, [(b, ack)])" and ca1: "client_ok ca1"
      "face ca1 = (KING_STATUS_P2P_MESSAGE, client_selfid ca, server_addr ca, peers ca @ [(client_selfid cb, addr_to_array b)], receiving ca)"
    using recv_greeting [OF a(4), of NTY_PROTO_P2P_CONNECT_REQ 0 b "client_selfid cb"] a(3) unfolding greet_def ack_def by auto
  have "clients_at \<sigma>1 a = Some ca" "(b, a, greet) \<in> net \<sigma>1" using ab a(1) by (simp_all add: s1 n1)
  from step_deliver [OF this(2,1) a(2) m] obtain \<sigma>2 where r2: "p2p_step srv \<sigma>1 \<sigma>2"
    and s2: "server \<sigma>2 = server \<sigma>1" "clients_at \<sigma>2 = (clients_at \<sigma>1)(a \<mapsto> ca1)" and n2: "net \<sigma>2 = Pair a ` set [(b, ack)] \<union> net \<sigma>1" by metis
  have k: "NTY_PROTO_P2P_CONNECT_ACK \<noteq> NTY_PROTO_P2P_CONNECT_REQ" by (simp add: king_protos)
  have f1: "peers cb1 = peers cb" "client_selfid cb1 = client_selfid cb" "server_addr cb1 = server_addr cb" "receiving cb1 = receiving cb"
    using cb1(2) b(2) by simp_all
  obtain cb2 where q: "king_recv_turn 0 a ack cb1 = Some (cb2, [])" and cb2: "client_ok cb2"
      "face cb2 = (KING_STATUS_P2P_MESSAGE, client_selfid cb, server_addr cb, peers cb @ [(client_selfid ca, addr_to_array a)], receiving cb)"
    using recv_greeting [OF cb1(1), of NTY_PROTO_P2P_CONNECT_ACK 0 a "client_selfid ca"] b(2,3) k unfolding f1 ack_def by auto
  have "receiving cb1" using f1(4) b(2) by simp
  have "clients_at \<sigma>2 b = Some cb1" "(a, b, ack) \<in> net \<sigma>2" using ab by (simp_all add: s1 s2 n2)
  from step_deliver [OF this(2,1) \<open>receiving cb1\<close> q] obtain \<sigma>3 where r3: "p2p_step srv \<sigma>2 \<sigma>3"
    and s3: "server \<sigma>3 = server \<sigma>2" "clients_at \<sigma>3 = (clients_at \<sigma>2)(b \<mapsto> cb2)" by metis
  have "p2p_leads srv \<sigma> \<sigma>3" using r1 r2 r3 by (meson rtranclp.rtrancl_into_rtrancl rtranclp.rtrancl_refl)
  moreover have "clients_at \<sigma>3 = (clients_at \<sigma>)(a \<mapsto> ca1, b \<mapsto> cb2)" using ab by (auto simp: s1 s2 s3)
  ultimately show thesis using that s1(1) s2(1) s3(1) ca1 cb2 by simp
qed

text \<open>C7: Take any reachable state in which the server can find two clients. When the command to connect is typed at the first, the state
  that this leaves leads on, by steps of the system, to one in which each has become the other's last peer,
  everybody else is as before, and from which the words of one are sent to the other's address.\<close>

theorem p2p_handshake:
  assumes "p2p_reach srv \<sigma>" and "srv \<noteq> nobody" and "a \<noteq> b"
    and "clients_at \<sigma> a = Some ca" and "receiving ca" and "length (peers ca) < 1024" and "status_machine ca = KING_STATUS_MESSAGE"
    and "clients_at \<sigma> b = Some cb" and "receiving cb" and "length (peers cb) < 1024"
    and "map_of (fst (view (server \<sigma>))) (client_selfid ca) = Some (addr_to_array a)"
    and "map_of (fst (view (server \<sigma>))) (client_selfid cb) = Some (addr_to_array b)"
    and "client_selfid cb = word_of_int (sint d - 48)"
  shows "\<exists>\<sigma>1 \<sigma>' ca' cb'. king_send_turn [0x43, d] ca = Some (ca, [(srv, connect_request ca (client_selfid cb))]) \<and>
    \<sigma>1 = \<sigma>\<lparr>net := insert (a, srv, connect_request ca (client_selfid cb)) (net \<sigma>)\<rparr> \<and> p2p_step srv \<sigma> \<sigma>1 \<and>
    p2p_leads srv \<sigma>1 \<sigma>' \<and> clients_at \<sigma>' = (clients_at \<sigma>)(a \<mapsto> ca', b \<mapsto> cb') \<and>
    status_machine ca' = KING_STATUS_P2P_MESSAGE \<and> client_selfid ca' = client_selfid ca \<and> peers ca' = peers ca @ [(client_selfid cb, addr_to_array b)] \<and>
    status_machine cb' = KING_STATUS_P2P_MESSAGE \<and> client_selfid cb' = client_selfid cb \<and> peers cb' = peers cb @ [(client_selfid ca, addr_to_array a)] \<and>
    (\<forall>word. length word \<le> 500 \<and> 0 \<notin> set word \<longrightarrow>
      king_send_turn word ca' = Some (ca', [(b, message (client_selfid ca) 0 word)]) \<and>
      king_send_turn word cb' = Some (cb', [(a, message (client_selfid cb) 0 word)]))"
proof -
  define \<sigma>1 where "\<sigma>1 = \<sigma>\<lparr>net := insert (a, srv, connect_request ca (client_selfid cb)) (net \<sigma>)\<rparr>"
  have g: "good_system srv \<sigma>" by (rule reach_good [OF assms(1,2)])
  have ok: "client_ok ca" "client_ok cb" using g assms(4,8) by (auto simp: good_system_def good_client_def)
  obtain \<sigma>2 where t: "king_send_turn [0x43, d] ca = Some (ca, [(srv, connect_request ca (client_selfid cb))])"
    and s: "p2p_step srv \<sigma> \<sigma>1" "p2p_step srv \<sigma>1 \<sigma>2" and c2: "clients_at \<sigma>2 = clients_at \<sigma>"
    and ntf: "(srv, b, request NTY_PROTO_NOTIFY_REQ (client_selfid ca) @ addr_to_array a) \<in> net \<sigma>2"
    unfolding \<sigma>1_def by (rule connect_asked [OF assms(1,2,4,7,11,12,13)])
  have "clients_at \<sigma>2 a = Some ca" "clients_at \<sigma>2 b = Some cb" using assms(4,8) by (simp_all add: c2)
  from greeted [OF assms(3) this(1) assms(5,6) ok(1) this(2) assms(9,10) ok(2) ntf]
  obtain \<sigma>3 ca' cb' where r: "p2p_leads srv \<sigma>2 \<sigma>3" and c: "clients_at \<sigma>3 = (clients_at \<sigma>2)(a \<mapsto> ca', b \<mapsto> cb')"
    and ok': "client_ok ca'" "client_ok cb'"
    and fa: "face ca' = (KING_STATUS_P2P_MESSAGE, client_selfid ca, server_addr ca, peers ca @ [(client_selfid cb, addr_to_array b)], receiving ca)"
    and fb: "face cb' = (KING_STATUS_P2P_MESSAGE, client_selfid cb, server_addr cb, peers cb @ [(client_selfid ca, addr_to_array a)], receiving cb)"
    by metis
  have w: "\<forall>word. length word \<le> 500 \<and> 0 \<notin> set word \<longrightarrow>
      king_send_turn word ca' = Some (ca', [(b, message (client_selfid ca) 0 word)]) \<and>
      king_send_turn word cb' = Some (cb', [(a, message (client_selfid cb) 0 word)])"
    using typed_peer [OF ok'(1), of b] typed_peer [OF ok'(2), of a] fa fb by simp
  have l: "status_machine ca' = KING_STATUS_P2P_MESSAGE" "client_selfid ca' = client_selfid ca" "peers ca' = peers ca @ [(client_selfid cb, addr_to_array b)]"
    "status_machine cb' = KING_STATUS_P2P_MESSAGE" "client_selfid cb' = client_selfid cb" "peers cb' = peers cb @ [(client_selfid ca, addr_to_array a)]"
    using fa fb by simp_all
  have r1: "p2p_leads srv \<sigma>1 \<sigma>3" using s(2) r by (rule converse_rtranclp_into_rtranclp)
  show ?thesis
    by (intro exI [of _ \<sigma>1] exI [of _ \<sigma>3] exI [of _ ca'] exI [of _ cb'] conjI t \<sigma>1_def s(1) r1 l w) (use c c2 in simp)
qed


section \<open>An instance\<close>

text \<open>Three clients, the first two of which can be found; the first has read the answer to its login.\<close>

lemma step_login:
  assumes "p2p_reach srv \<sigma>" and "srv \<noteq> nobody" and "(a, srv, request KING_PROTO_LOGIN_REQ i) \<in> net \<sigma>"
    and "view (server \<sigma>) = (dir, new)" and "length dir < 1023"
  obtains \<sigma>' where "p2p_reach srv \<sigma>'" "clients_at \<sigma>' = clients_at \<sigma>" "net \<sigma> \<subseteq> net \<sigma>'"
    "view (server \<sigma>') = (dir @ [new], (i, addr_to_array a))" "(srv, a, answer (request KING_PROTO_LOGIN_REQ i)) \<in> net \<sigma>'"
proof -
  have ok: "server_ok (server \<sigma>)" using reach_good [OF assms(1,2)] by (simp add: good_system_def)
  have l: "length (fst (view (server \<sigma>))) < 1023" using assms(4,5) by simp
  obtain s where s: "king_server_turn 0 a (request KING_PROTO_LOGIN_REQ i) (server \<sigma>) = Some (s, [(a, answer (request KING_PROTO_LOGIN_REQ i))])"
    and v: "view s = (fst (view (server \<sigma>)) @ [snd (view (server \<sigma>))], (i, addr_to_array a))"
    by (rule login_served [OF ok l])
  obtain \<sigma>' where r: "p2p_step srv \<sigma> \<sigma>'" and "server \<sigma>' = s" "clients_at \<sigma>' = clients_at \<sigma>"
    "net \<sigma>' = Pair srv ` set [(a, answer (request KING_PROTO_LOGIN_REQ i))] \<union> net \<sigma>"
    by (rule step_serve [OF assms(3) s])
  then show ?thesis using that p2p_reach.step [OF assms(1) r] v assms(4) by auto
qed

lemma step_joined:
  assumes "p2p_reach srv \<sigma>" and "a \<noteq> srv" and "clients_at \<sigma> a = None"
  obtains \<sigma>' where "p2p_reach srv \<sigma>'" "server \<sigma>' = server \<sigma>"
    "clients_at \<sigma>' = (clients_at \<sigma>)(a \<mapsto> fst (client_start i srv))"
    "net \<sigma>' = insert (a, srv, request KING_PROTO_LOGIN_REQ i) (net \<sigma>)"
proof -
  obtain \<sigma>' where r: "p2p_step srv \<sigma> \<sigma>'" and s: "server \<sigma>' = server \<sigma>" "clients_at \<sigma>' = (clients_at \<sigma>)(a \<mapsto> fst (client_start i srv))"
    "net \<sigma>' = insert (a, srv, request KING_PROTO_LOGIN_REQ i) (net \<sigma>)"
    by (rule step_join [OF assms(2,3)])
  show thesis by (rule that [OF p2p_reach.step [OF assms(1) r] s])
qed

definition host :: "u32 \<Rightarrow> sockaddr_in" where
  "host n = \<lparr>s_addr = n, sin_port = 5000\<rparr>"

lemma host_simps [simp]: "host m = host n \<longleftrightarrow> m = n" "host n \<noteq> nobody"
  by (auto simp: host_def nobody_def)

lemma three_clients:
  obtains \<sigma> ca where "p2p_reach (host 9) \<sigma>" "clients_at \<sigma> (host 1) = Some ca" "clients_at \<sigma> (host 2) = Some (fst (client_start 2 (host 9)))"
    "client_ok ca" "face ca = (KING_STATUS_MESSAGE, 1, host 9, [], True)"
    "fst (view (server \<sigma>)) = [(0, addr_to_array nobody), (1, addr_to_array (host 1)), (2, addr_to_array (host 2))]"
proof -
  let ?L = "\<lambda>i. (host i, host 9, request KING_PROTO_LOGIN_REQ i)" and ?A = "\<lambda>i. addr_to_array (host i)"
  let ?c = "\<lambda>i. fst (client_start i (host 9))"
  obtain \<sigma>1 where 1: "p2p_reach (host 9) \<sigma>1" "server \<sigma>1 = server_start 0" "clients_at \<sigma>1 = [host 1 \<mapsto> ?c 1]" "net \<sigma>1 = {?L 1}"
    using step_joined [OF p2p_reach.start, of "host 1" "host 9" 1] by auto
  obtain \<sigma>2 where 2: "p2p_reach (host 9) \<sigma>2" "server \<sigma>2 = server_start 0" "clients_at \<sigma>2 = [host 1 \<mapsto> ?c 1, host 2 \<mapsto> ?c 2]" "net \<sigma>2 = {?L 2, ?L 1}"
    using step_joined [OF 1(1), of "host 2" 2] 1(2-4) by auto
  obtain \<sigma>3 where 3: "p2p_reach (host 9) \<sigma>3" "server \<sigma>3 = server_start 0"
    "clients_at \<sigma>3 = [host 1 \<mapsto> ?c 1, host 2 \<mapsto> ?c 2, host 3 \<mapsto> ?c 3]" "net \<sigma>3 = {?L 3, ?L 2, ?L 1}"
    using step_joined [OF 2(1), of "host 3" 3] 2(2-4) by auto
  obtain \<sigma>4 where 4: "p2p_reach (host 9) \<sigma>4" "clients_at \<sigma>4 = clients_at \<sigma>3" "net \<sigma>3 \<subseteq> net \<sigma>4"
    "view (server \<sigma>4) = ([(0, addr_to_array nobody)], (1, ?A 1))" "(host 9, host 1, answer (request KING_PROTO_LOGIN_REQ 1)) \<in> net \<sigma>4"
    by (rule step_login [OF 3(1), of "host 1" 1 "[]" "(0, addr_to_array nobody)"]) (simp_all add: 3 view_start)
  obtain \<sigma>5 where 5: "p2p_reach (host 9) \<sigma>5" "clients_at \<sigma>5 = clients_at \<sigma>4" "net \<sigma>4 \<subseteq> net \<sigma>5"
    "view (server \<sigma>5) = ([(0, addr_to_array nobody), (1, ?A 1)], (2, ?A 2))"
    by (rule step_login [OF 4(1) _ _ 4(4), of "host 2" 2]) (use 3 4 in auto)
  obtain \<sigma>6 where 6: "p2p_reach (host 9) \<sigma>6" "clients_at \<sigma>6 = clients_at \<sigma>5" "net \<sigma>5 \<subseteq> net \<sigma>6"
    "view (server \<sigma>6) = ([(0, addr_to_array nobody), (1, ?A 1), (2, ?A 2)], (3, ?A 3))"
    by (rule step_login [OF 5(1) _ _ 5(4), of "host 3" 3]) (use 3 4 5 in auto)
  have c: "client_ok (?c 1)" "peers (?c 1) = []" "client_selfid (?c 1) = 1" "server_addr (?c 1) = host 9" "receiving (?c 1)"
    using client_start_ok [of 1 "host 9"] by (simp_all add: client_start_def)
  define d where "d = answer (request KING_PROTO_LOGIN_REQ 1)"
  have d: "length d < 512" "8 \<le> length d" "d ! 1 = KING_PROTO_LOGIN_ACK"
    by (simp_all add: d_def answer_def) (simp add: answer_def request_def king_idx king_protos)
  have ne: "d ! 1 \<notin> {NTY_PROTO_NOTIFY_REQ, NTY_PROTO_P2P_CONNECT_REQ, NTY_PROTO_P2P_CONNECT_ACK}" "d ! 1 \<noteq> NTY_RPORO_MESSAGE_REQ"
    unfolding d(3) by (simp_all add: king_protos)
  obtain ca where ca: "king_recv_turn 0 (host 9) d (?c 1) = Some (ca, [])" "client_ok ca" "face ca = (KING_STATUS_MESSAGE, 1, host 9, [], True)"
    using recv_other [OF c(1) d(1,2) ne(1), of 0 "host 9"] c ne(2) d(3) by auto
  have "clients_at \<sigma>6 (host 1) = Some (?c 1)" "(host 9, host 1, d) \<in> net \<sigma>6" using 3 4 5 6 by (auto simp: d_def)
  from step_deliver [where srv = "host 9", OF this(2,1) c(5) ca(1)] obtain \<sigma>7 where r: "p2p_step (host 9) \<sigma>6 \<sigma>7" and s: "server \<sigma>7 = server \<sigma>6"
    "clients_at \<sigma>7 = (clients_at \<sigma>6)(host 1 \<mapsto> ca)" by metis
  then show thesis using that [of \<sigma>7 ca] p2p_reach.step [OF 6(1) r] ca(2,3) 3(3) 4(2) 5(2) 6(2,4) by simp
qed


lemma two_peers:
  obtains \<sigma> c where "p2p_reach (host 9) \<sigma>" "clients_at \<sigma> (host 1) = Some c" "status_machine c = KING_STATUS_P2P_MESSAGE"
proof -
  let ?cb = "fst (client_start 2 (host 9))"
  obtain \<sigma> ca where 0: "p2p_reach (host 9) \<sigma>" "clients_at \<sigma> (host 1) = Some ca" "clients_at \<sigma> (host 2) = Some ?cb"
    "client_ok ca" "face ca = (KING_STATUS_MESSAGE, 1, host 9, [], True)"
    "fst (view (server \<sigma>)) = [(0, addr_to_array nobody), (1, addr_to_array (host 1)), (2, addr_to_array (host 2))]"
    by (rule three_clients)
  have d: "status_machine ca = KING_STATUS_MESSAGE" "map_of (fst (view (server \<sigma>))) (client_selfid ca) = Some (addr_to_array (host 1))"
    "map_of (fst (view (server \<sigma>))) 2 = Some (addr_to_array (host 2))" "2 = word_of_int (sint (50 :: byte) - 48)"
    using 0(5,6) by simp_all
  obtain \<sigma>1 \<sigma>2 where 1: "p2p_step (host 9) \<sigma> \<sigma>1" "p2p_step (host 9) \<sigma>1 \<sigma>2" "clients_at \<sigma>2 = clients_at \<sigma>"
    "(host 9, host 2, request NTY_PROTO_NOTIFY_REQ (client_selfid ca) @ addr_to_array (host 1)) \<in> net \<sigma>2"
    by (rule connect_asked [OF 0(1) host_simps(2) 0(2) d])
  have r: "p2p_reach (host 9) \<sigma>2" using 0(1) 1(1,2) by (blast intro: p2p_reach.step)
  have a: "clients_at \<sigma>2 (host 1) = Some ca" "receiving ca" "length (peers ca) < 1024"
    and b: "clients_at \<sigma>2 (host 2) = Some ?cb" "receiving ?cb" "length (peers ?cb) < 1024" "client_ok ?cb"
    using 0(2,3,5) 1(3) client_start_ok [of 2 "host 9"] by (simp_all add: client_start_def)
  have h: "host 1 \<noteq> host 2" by simp
  from greeted [OF h a 0(4) b 1(4)] obtain \<sigma>3 ca' cb' where l: "p2p_leads (host 9) \<sigma>2 \<sigma>3"
    and c: "clients_at \<sigma>3 = (clients_at \<sigma>2)(host 1 \<mapsto> ca', host 2 \<mapsto> cb')" "status_machine ca' = KING_STATUS_P2P_MESSAGE" by (metis prod.inject)
  have "clients_at \<sigma>3 (host 1) = Some ca'" using c(1) by simp
  then show thesis by (rule that [OF reach_leads [OF l r] _ c(2)])
qed

theorem p2p_peers_genuine_witness:
  "\<exists>\<sigma> c x c'. p2p_reach (host 9) \<sigma> \<and> clients_at \<sigma> (host 1) = Some c \<and> 0 < p2p_count c \<and>
    ct_addr (p2p_clients c ! 0) = addr_to_array x \<and> clients_at \<sigma> x = Some c' \<and> client_selfid c' = ct_id (p2p_clients c ! 0)"
proof -
  obtain \<sigma> c where r: "p2p_reach (host 9) \<sigma>" "clients_at \<sigma> (host 1) = Some c" "status_machine c = KING_STATUS_P2P_MESSAGE"
    by (rule two_peers)
  from p2p_peers_genuine [OF r(1) host_simps(2) r(2)] r show ?thesis by blast
qed

theorem p2p_handshake_witness:
  "\<exists>\<sigma> \<sigma>1 \<sigma>' ca ca' cb'. p2p_reach (host 9) \<sigma> \<and> king_send_turn [0x43, 50] ca = Some (ca, [(host 9, connect_request ca 2)]) \<and>
    \<sigma>1 = \<sigma>\<lparr>net := insert (host 1, host 9, connect_request ca 2) (net \<sigma>)\<rparr> \<and> p2p_step (host 9) \<sigma> \<sigma>1 \<and> p2p_leads (host 9) \<sigma>1 \<sigma>' \<and>
    clients_at \<sigma> (host 1) = Some ca \<and> peers ca = [] \<and> clients_at \<sigma>' (host 1) = Some ca' \<and> clients_at \<sigma>' (host 2) = Some cb' \<and>
    status_machine ca' = KING_STATUS_P2P_MESSAGE \<and> peers ca' = [(2, addr_to_array (host 2))] \<and>
    status_machine cb' = KING_STATUS_P2P_MESSAGE \<and> peers cb' = [(1, addr_to_array (host 1))]"
proof -
  let ?cb = "fst (client_start 2 (host 9))"
  obtain \<sigma> ca where 0: "p2p_reach (host 9) \<sigma>" "clients_at \<sigma> (host 1) = Some ca" "clients_at \<sigma> (host 2) = Some ?cb"
    "client_ok ca" "face ca = (KING_STATUS_MESSAGE, 1, host 9, [], True)"
    "fst (view (server \<sigma>)) = [(0, addr_to_array nobody), (1, addr_to_array (host 1)), (2, addr_to_array (host 2))]"
    by (rule three_clients)
  have i: "client_selfid ca = 1" "client_selfid ?cb = 2" "peers ca = []" "peers ?cb = []"
    using 0(5) client_start_ok [of 2 "host 9"] by (simp_all add: client_start_def)
  have h: "host 1 \<noteq> host 2" "receiving ca" "length (peers ca) < 1024" "status_machine ca = KING_STATUS_MESSAGE"
    "receiving ?cb" "length (peers ?cb) < 1024" "map_of (fst (view (server \<sigma>))) (client_selfid ca) = Some (addr_to_array (host 1))"
    "map_of (fst (view (server \<sigma>))) (client_selfid ?cb) = Some (addr_to_array (host 2))"
    "client_selfid ?cb = word_of_int (sint (50 :: byte) - 48)"
    using 0(5,6) client_start_ok [of 2 "host 9"] i by (simp_all add: client_start_def)
  obtain \<sigma>1 \<sigma>' ca' cb' where w: "king_send_turn [0x43, 50] ca = Some (ca, [(host 9, connect_request ca 2)])"
    "\<sigma>1 = \<sigma>\<lparr>net := insert (host 1, host 9, connect_request ca 2) (net \<sigma>)\<rparr>" "p2p_step (host 9) \<sigma> \<sigma>1" "p2p_leads (host 9) \<sigma>1 \<sigma>'"
    "clients_at \<sigma>' = (clients_at \<sigma>)(host 1 \<mapsto> ca', host 2 \<mapsto> cb')" "status_machine ca' = KING_STATUS_P2P_MESSAGE"
    "peers ca' = [(2, addr_to_array (host 2))]" "status_machine cb' = KING_STATUS_P2P_MESSAGE" "peers cb' = [(1, addr_to_array (host 1))]"
    using p2p_handshake [OF 0(1) host_simps(2) h(1) 0(2) h(2-4) 0(3) h(5-9)] unfolding i append_Nil by (elim exE conjE) (rule that)
  have "clients_at \<sigma>' (host 1) = Some ca'" "clients_at \<sigma>' (host 2) = Some cb'" using w(5) by simp_all
  then show ?thesis using 0(1,2) i(3) w(1-4,6-9)
    by (intro exI [of _ \<sigma>] exI [of _ \<sigma>1] exI [of _ \<sigma>'] exI [of _ ca] exI [of _ ca'] exI [of _ cb'] conjI)
qed

end
