(* ===== verification/Nty_Schedule.thy ===== *)
theory Nty_Schedule
  imports Prelude Guarded_Machine
begin

text \<open>
  The scheduler of the coroutine library (\<open>jiagoushi/chap2.7/NtyCo/core\<close>: \<open>nty_schedule.c\<close>, and of \<open>nty_coroutine.c\<close> and \<open>nty_socket.c\<close> what
  keeps its books): who sleeps until when, who waits for which descriptor, who is ready. Coroutines live in a store of addresses. The two trees are the macros of
  \<open>nty_tree.h\<close>, whose contract is used: in order they are the sequence of their nodes by key, finding and inserting compare keys, a node that is removed has to be there.
  The switch of stacks is not modelled: a coroutine is what it does between two switches. \<open>None\<close> is a failed
  \<open>assert\<close>, a null or freed coroutine, or the removal of a node that is not in its tree. The clock is an argument.
\<close>

section \<open>State\<close>

record nty_coroutine =
  co_status :: u32
  co_fd :: int
  co_events :: u16
  co_sleep_usecs :: u64
  co_ops :: u32
  co_id :: int

record nty_schedule =
  sc_birth :: u64
  sc_spawned :: int
  sc_default_timeout :: u64
  sc_curr_thread :: "nat option"
  sc_ready :: "nat list"
  sc_busy :: "nat list"
  sc_sleeping :: "nat list"
  sc_waiting :: "nat list"
  sc_cos :: "nat \<Rightarrow> nty_coroutine option"

definition STATUS_WAIT_READ :: nat where "STATUS_WAIT_READ = 0"
definition STATUS_WAIT_WRITE :: nat where "STATUS_WAIT_WRITE = 1"
definition STATUS_NEW :: nat where "STATUS_NEW = 2"
definition STATUS_READY :: nat where "STATUS_READY = 3"
definition STATUS_EXITED :: nat where "STATUS_EXITED = 4"
definition STATUS_SLEEPING :: nat where "STATUS_SLEEPING = 6"
definition STATUS_EXPIRED :: nat where "STATUS_EXPIRED = 7"
definition STATUS_FDEOF :: nat where "STATUS_FDEOF = 8"
definition STATUS_DETACH :: nat where "STATUS_DETACH = 9"

lemmas status_defs = STATUS_WAIT_READ_def STATUS_WAIT_WRITE_def STATUS_NEW_def STATUS_READY_def STATUS_EXITED_def STATUS_SLEEPING_def STATUS_EXPIRED_def STATUS_FDEOF_def
  STATUS_DETACH_def

definition BIT :: "nat \<Rightarrow> u32" where "BIT n = push_bit n 1"
definition CLEARBIT :: "nat \<Rightarrow> u32" where "CLEARBIT n = NOT (push_bit n 1)"

definition POLLIN :: u16 where "POLLIN = 1"
definition POLLOUT :: u16 where "POLLOUT = 4"

definition nty_schedule_create :: "u64 \<Rightarrow> nty_schedule" where
  "nty_schedule_create now = \<lparr>sc_birth = now, sc_spawned = 0, sc_default_timeout = 3000000, sc_curr_thread = None, sc_ready = [], sc_busy = [],
     sc_sleeping = [], sc_waiting = [], sc_cos = (\<lambda>_. None)\<rparr>"

definition upd_co :: "nat \<Rightarrow> (nty_coroutine \<Rightarrow> nty_coroutine) \<Rightarrow> nty_schedule \<Rightarrow> nty_schedule option" where
  "upd_co x f s = map_option (\<lambda>c. s\<lparr>sc_cos := (sc_cos s)(x \<mapsto> f c)\<rparr>) (sc_cos s x)"

section \<open>The trees\<close>

text \<open>A tree in order; \<open>key x\<close> is the key that stands in node \<open>x\<close> now. Finding and inserting rely on the order: what they give when a key
  was changed inside the tree, or a node freed, depends on the shape of the tree.\<close>

definition ordered :: "(nat \<Rightarrow> 'k::linorder option) \<Rightarrow> nat list \<Rightarrow> bool" where
  "ordered key t \<longleftrightarrow> (\<forall>x \<in> set t. key x \<noteq> None) \<and> sorted_wrt (\<lambda>x y. the (key x) < the (key y)) t"

definition rb_find :: "(nat \<Rightarrow> 'k::linorder option) \<Rightarrow> nat list \<Rightarrow> 'k \<Rightarrow> nat option option" where
  "rb_find key t k = (if ordered key t then Some (find (\<lambda>x. key x = Some k) t) else None)"

definition rb_put :: "(nat \<Rightarrow> 'k::linorder option) \<Rightarrow> nat list \<Rightarrow> nat \<Rightarrow> 'k \<Rightarrow> nat list" where
  "rb_put key t x k = takeWhile (\<lambda>y. the (key y) < k) t @ x # dropWhile (\<lambda>y. the (key y) < k) t"

text \<open>Inserting gives the node with an equal key, if there is one, and then changes nothing.\<close>

definition rb_insert :: "(nat \<Rightarrow> 'k::linorder option) \<Rightarrow> nat list \<Rightarrow> nat \<Rightarrow> (nat option \<times> nat list) option" where
  "rb_insert key t x = do {
     k \<leftarrow> key x;
     y \<leftarrow> rb_find key t k;
     Some (y, if y = None then rb_put key t x k else t)
   }"

definition rb_remove :: "nat list \<Rightarrow> nat \<Rightarrow> nat list option" where
  "rb_remove t x = (if x \<in> set t then Some (remove1 x t) else None)"

definition rb_first :: "nat list \<Rightarrow> nat option" where
  "rb_first t = (case t of [] \<Rightarrow> None | x # r \<Rightarrow> Some x)"

definition sleep_key :: "nty_schedule \<Rightarrow> nat \<Rightarrow> u64 option" where
  "sleep_key s x = map_option co_sleep_usecs (sc_cos s x)"

definition wait_key :: "nty_schedule \<Rightarrow> nat \<Rightarrow> int option" where
  "wait_key s x = map_option co_fd (sc_cos s x)"

section \<open>Operations\<close>

definition nty_coroutine_diff_usecs :: "u64 \<Rightarrow> u64 \<Rightarrow> u64" where
  "nty_coroutine_diff_usecs t1 t2 = t2 - t1"

text \<open>The loop that looks for a free microsecond.\<close>

partial_function (option) sleep_loop :: "nat \<Rightarrow> nty_schedule \<Rightarrow> nty_schedule option" where
  "sleep_loop x s = do {
     (tmp, t) \<leftarrow> rb_insert (sleep_key s) (sc_sleeping s) x;
     if tmp \<noteq> None then do {
       s \<leftarrow> upd_co x (\<lambda>c. c\<lparr>co_sleep_usecs := co_sleep_usecs c + 1\<rparr>) s;
       sleep_loop x s
     } else upd_co x (\<lambda>c. c\<lparr>co_status := co_status c OR BIT STATUS_SLEEPING\<rparr>) (s\<lparr>sc_sleeping := t\<rparr>)
   }"

definition nty_schedule_sched_sleepdown :: "nat \<Rightarrow> u64 \<Rightarrow> u64 \<Rightarrow> nty_schedule \<Rightarrow> nty_schedule option" where
  "nty_schedule_sched_sleepdown x msecs now s = do {
     let usecs = msecs * 1000;
     c \<leftarrow> sc_cos s x;
     tmp \<leftarrow> rb_find (sleep_key s) (sc_sleeping s) (co_sleep_usecs c);
     t \<leftarrow> (case tmp of None \<Rightarrow> Some (sc_sleeping s) | Some y \<Rightarrow> rb_remove (sc_sleeping s) y);
     s \<leftarrow> upd_co x (\<lambda>c. c\<lparr>co_sleep_usecs := nty_coroutine_diff_usecs (sc_birth s) now + usecs\<rparr>) (s\<lparr>sc_sleeping := t\<rparr>);
     if msecs \<noteq> 0 then sleep_loop x s else Some s
   }"

definition nty_schedule_desched_sleepdown :: "nat \<Rightarrow> nty_schedule \<Rightarrow> nty_schedule option" where
  "nty_schedule_desched_sleepdown x s = do {
     c \<leftarrow> sc_cos s x;
     if co_status c AND BIT STATUS_SLEEPING \<noteq> 0 then do {
       t \<leftarrow> rb_remove (sc_sleeping s) x;
       upd_co x (\<lambda>c. c\<lparr>co_status := (co_status c AND CLEARBIT STATUS_SLEEPING OR BIT STATUS_READY) AND CLEARBIT STATUS_EXPIRED\<rparr>)
         (s\<lparr>sc_sleeping := t\<rparr>)
     } else Some s
   }"

text \<open>A descriptor nobody waits for gives a null pointer, which is written through.\<close>

definition nty_schedule_search_wait :: "int \<Rightarrow> nty_schedule \<Rightarrow> (nat \<times> nty_schedule) option" where
  "nty_schedule_search_wait fd s = do {
     y \<leftarrow> rb_find (wait_key s) (sc_waiting s) fd;
     x \<leftarrow> y;
     s \<leftarrow> upd_co x (\<lambda>c. c\<lparr>co_status := 0\<rparr>) s;
     Some (x, s)
   }"

definition nty_schedule_desched_wait :: "int \<Rightarrow> nty_schedule \<Rightarrow> (nat \<times> nty_schedule) option" where
  "nty_schedule_desched_wait fd s = do {
     y \<leftarrow> rb_find (wait_key s) (sc_waiting s) fd;
     t \<leftarrow> (case y of None \<Rightarrow> Some (sc_waiting s) | Some x \<Rightarrow> rb_remove (sc_waiting s) x);
     x \<leftarrow> y;
     s \<leftarrow> upd_co x (\<lambda>c. c\<lparr>co_status := 0\<rparr>) (s\<lparr>sc_waiting := t\<rparr>);
     s \<leftarrow> nty_schedule_desched_sleepdown x s;
     Some (x, s)
   }"

definition nty_schedule_sched_wait :: "nat \<Rightarrow> int \<Rightarrow> u16 \<Rightarrow> u64 \<Rightarrow> u64 \<Rightarrow> nty_schedule \<Rightarrow> nty_schedule option" where
  "nty_schedule_sched_wait x fd events timeout now s = do {
     c \<leftarrow> sc_cos s x;
     if co_status c AND BIT STATUS_WAIT_READ \<noteq> 0 \<or> co_status c AND BIT STATUS_WAIT_WRITE \<noteq> 0 then None
     else do {
       flag \<leftarrow> (if events AND POLLIN \<noteq> 0 then Some (of_nat STATUS_WAIT_READ)
               else if events AND POLLOUT \<noteq> 0 then Some (of_nat STATUS_WAIT_WRITE) else None);
       s \<leftarrow> upd_co x (\<lambda>c. c\<lparr>co_status := co_status c OR flag\<rparr>) s;
       s \<leftarrow> upd_co x (\<lambda>c. c\<lparr>co_fd := fd, co_events := events\<rparr>) s;
       (tmp, t) \<leftarrow> rb_insert (wait_key s) (sc_waiting s) x;
       if tmp \<noteq> None then None
       else let s = s\<lparr>sc_waiting := t\<rparr>
         in if timeout = 1 then Some s else nty_schedule_sched_sleepdown x timeout now s
     }
   }"

definition nty_schedule_cancel_wait :: "nat \<Rightarrow> nty_schedule \<Rightarrow> nty_schedule option" where
  "nty_schedule_cancel_wait x s = map_option (\<lambda>t. s\<lparr>sc_waiting := t\<rparr>) (rb_remove (sc_waiting s) x)"

definition nty_schedule_expired :: "u64 \<Rightarrow> nty_schedule \<Rightarrow> (nat option \<times> nty_schedule) option" where
  "nty_schedule_expired now s =
     (let t_diff_usecs = nty_coroutine_diff_usecs (sc_birth s) now
      in case rb_first (sc_sleeping s) of
           None \<Rightarrow> Some (None, s)
         | Some x \<Rightarrow> do {
             k \<leftarrow> sleep_key s x;
             if k \<le> t_diff_usecs then do {
               t \<leftarrow> rb_remove (sc_sleeping s) x;
               Some (Some x, s\<lparr>sc_sleeping := t\<rparr>)
             } else Some (None, s)
           })"

definition nty_schedule_isdone :: "nty_schedule \<Rightarrow> bool" where
  "nty_schedule_isdone s \<longleftrightarrow> sc_waiting s = [] \<and> sc_busy s = [] \<and> sc_sleeping s = [] \<and> sc_ready s = []"

definition nty_schedule_min_timeout :: "u64 \<Rightarrow> nty_schedule \<Rightarrow> u64 option" where
  "nty_schedule_min_timeout now s =
     (let t_diff_usecs = nty_coroutine_diff_usecs (sc_birth s) now; min = sc_default_timeout s
      in case rb_first (sc_sleeping s) of
           None \<Rightarrow> Some min
         | Some x \<Rightarrow> do {
             k \<leftarrow> sleep_key s x;
             if k > t_diff_usecs then Some (k - t_diff_usecs) else Some 0
           })"

text \<open>The time the scheduler gives to the wait for events, in seconds and nanoseconds; none if it does not wait.\<close>

definition epoll_timeout :: "u64 \<Rightarrow> nty_schedule \<Rightarrow> (u64 \<times> u64) option option" where
  "epoll_timeout now s = do {
     usecs \<leftarrow> nty_schedule_min_timeout now s;
     if usecs \<noteq> 0 \<and> sc_ready s = [] then
       (let tv_sec = usecs div 1000000
        in if tv_sec \<noteq> 0 then Some (Some (tv_sec, usecs mod 1000 * 1000)) else Some (Some (tv_sec, usecs * 1000)))
     else Some None
   }"

text \<open>A coroutine is born at a fresh address and queued.\<close>

definition nty_coroutine_create :: "nat \<Rightarrow> nty_schedule \<Rightarrow> nty_schedule" where
  "nty_coroutine_create x s = s\<lparr>sc_spawned := sc_spawned s + 1,
     sc_cos := (sc_cos s)(x \<mapsto> \<lparr>co_status = BIT STATUS_NEW, co_fd = -1, co_events = 0, co_sleep_usecs = 0, co_ops = 0, co_id = sc_spawned s\<rparr>),
     sc_ready := sc_ready s @ [x]\<rparr>"

definition nty_coroutine_free :: "nat \<Rightarrow> nty_schedule \<Rightarrow> nty_schedule option" where
  "nty_coroutine_free x s = (if sc_cos s x = None then None
     else Some (s\<lparr>sc_spawned := sc_spawned s - 1, sc_cos := (sc_cos s)(x := None)\<rparr>))"

text \<open>A coroutine that is in the ready queue must not be linked in again.\<close>

definition ready_tail :: "nat \<Rightarrow> nty_schedule \<Rightarrow> nty_schedule option" where
  "ready_tail x s = (if x \<in> set (sc_ready s) then None else Some (s\<lparr>sc_ready := sc_ready s @ [x]\<rparr>))"

definition nty_coroutine_yield :: "nat \<Rightarrow> nty_schedule \<Rightarrow> nty_schedule option" where
  "nty_coroutine_yield x s = upd_co x (\<lambda>c. c\<lparr>co_ops := 0\<rparr>) s"

text \<open>What the running coroutine does up to its switch; the flag says whether it does switch.\<close>

definition nty_coroutine_sleep :: "u64 \<Rightarrow> u64 \<Rightarrow> nty_schedule \<Rightarrow> (bool \<times> nty_schedule) option" where
  "nty_coroutine_sleep msecs now s = do {
     x \<leftarrow> sc_curr_thread s;
     if msecs = 0 then map_option (Pair True) (do { s \<leftarrow> ready_tail x s; nty_coroutine_yield x s })
     else map_option (Pair False) (nty_schedule_sched_sleepdown x msecs now s)
   }"

definition nty_coroutine_renice :: "nat \<Rightarrow> nty_schedule \<Rightarrow> (bool \<times> nty_schedule) option" where
  "nty_coroutine_renice x s = do {
     s \<leftarrow> upd_co x (\<lambda>c. c\<lparr>co_ops := co_ops c + 1\<rparr>) s;
     c \<leftarrow> sc_cos s x;
     if co_ops c < 5 then Some (False, s)
     else map_option (Pair True) (do { s \<leftarrow> ready_tail x s; nty_coroutine_yield x s })
   }"

text \<open>\<open>nty_poll_inner\<close> before and after its switch, for the descriptors with their events; it polls at once if the timeout is zero.\<close>

definition poll_timeout :: "int \<Rightarrow> u64" where
  "poll_timeout timeout = word_of_int (if timeout < 0 then 2147483647 else timeout)"

fun poll_register :: "nat \<Rightarrow> u64 \<Rightarrow> u64 \<Rightarrow> (int \<times> u16) list \<Rightarrow> nty_schedule \<Rightarrow> nty_schedule option" where
  "poll_register x timeout now [] s = nty_coroutine_yield x s"
| "poll_register x timeout now ((fd, ev) # fds) s = do {
     s \<leftarrow> upd_co x (\<lambda>c. c\<lparr>co_events := ev\<rparr>) s;
     s \<leftarrow> nty_schedule_sched_wait x fd ev timeout now s;
     poll_register x timeout now fds s
   }"

fun poll_unregister :: "(int \<times> u16) list \<Rightarrow> nty_schedule \<Rightarrow> nty_schedule option" where
  "poll_unregister [] s = Some s"
| "poll_unregister ((fd, ev) # fds) s = do {
     (y, s) \<leftarrow> nty_schedule_desched_wait fd s;
     poll_unregister fds s
   }"

section \<open>Ordered trees\<close>

lemma ordered_cong: "(\<And>x. x \<in> set t \<Longrightarrow> key x = key' x) \<Longrightarrow> ordered key t = ordered key' t"
  unfolding ordered_def by (auto intro: sorted_wrt_mono_rel [rotated])

lemma ordered_distinct: "ordered key t \<Longrightarrow> distinct t"
  unfolding ordered_def by (induction t) auto

lemma ordered_inj: "ordered key t \<Longrightarrow> x \<in> set t \<Longrightarrow> y \<in> set t \<Longrightarrow> key x = key y \<Longrightarrow> x = y"
  unfolding ordered_def by (induction t) auto

lemma rb_find_ordered:
  "ordered key t \<Longrightarrow> rb_find key t k = Some (find (\<lambda>x. key x = Some k) t)"
  by (simp add: rb_find_def)

lemma find_cases:
  obtains y where "find P t = Some y" "y \<in> set t" "P y" | "find P t = None" "\<forall>y \<in> set t. \<not> P y"
proof (cases "find P t")
  case (Some y)
  then have "y \<in> set t" "P y" by (metis find_Some_iff nth_mem)+
  then show thesis using Some that(1) by blast
next
  case None
  then show thesis using that(2) by (simp add: find_None_iff)
qed

lemma rb_put_set [simp]: "set (rb_put key t x k) = insert x (set t)"
proof -
  have "set t = set (takeWhile (\<lambda>y. the (key y) < k) t) \<union> set (dropWhile (\<lambda>y. the (key y) < k) t)"
    by (metis set_append takeWhile_dropWhile_id)
  then show ?thesis by (simp add: rb_put_def)
qed

lemma rb_put_cong: "(\<And>y. y \<in> set t \<Longrightarrow> key y = key' y) \<Longrightarrow> rb_put key t x k = rb_put key' t x k"
  unfolding rb_put_def by (metis (mono_tags, lifting) dropWhile_cong takeWhile_cong)

lemma rb_put_ordered:
  assumes o: "ordered key t" and k: "key x = Some k" and f: "\<forall>y \<in> set t. key y \<noteq> Some k"
  shows "ordered key (rb_put key t x k)"
proof -
  let ?P = "\<lambda>y. the (key y) < k"
  have s: "sorted_wrt (\<lambda>x y. the (key x) < the (key y)) (takeWhile ?P t @ dropWhile ?P t)"
    using o by (simp add: ordered_def)
  have lt: "\<forall>y \<in> set (takeWhile ?P t). the (key y) < k" by (auto dest: set_takeWhileD)
  have gt: "\<forall>y \<in> set (dropWhile ?P t). k < the (key y)"
  proof (cases "dropWhile ?P t")
    case (Cons y ys)
    then have "\<not> the (key y) < k" using hd_dropWhile [of ?P t] by simp
    moreover have "y \<in> set t" using Cons by (metis list.set_intros(1) set_dropWhileD)
    then have "the (key y) \<noteq> k" using f o by (auto simp: ordered_def)
    ultimately have "k < the (key y)" by simp
    then show ?thesis using s Cons by (auto simp: sorted_wrt_append)
  next
    case Nil
    show ?thesis unfolding Nil by simp
  qed
  have "sorted_wrt (\<lambda>x y. the (key x) < the (key y)) (rb_put key t x k)"
    using s lt gt k unfolding rb_put_def sorted_wrt_append by fastforce
  then show ?thesis using o k by (simp add: ordered_def)
qed

lemma ordered_remove1: "ordered key t \<Longrightarrow> ordered key (remove1 x t)"
proof -
  assume o: "ordered key t"
  have "set (remove1 x t) \<subseteq> set t" by (rule set_remove1_subset)
  moreover have "sorted_wrt (\<lambda>x y. the (key x) < the (key y)) (remove1 x t)"
    using o unfolding ordered_def by (induction t) (auto dest: notin_set_remove1 subsetD [OF set_remove1_subset])
  ultimately show ?thesis using o by (auto simp: ordered_def)
qed

section \<open>Well-formed schedulers\<close>

definition sched_ok :: "nty_schedule \<Rightarrow> bool" where
  "sched_ok s \<longleftrightarrow> ordered (sleep_key s) (sc_sleeping s) \<and> ordered (wait_key s) (sc_waiting s) \<and>
     distinct (sc_ready s) \<and> (\<forall>x \<in> set (sc_ready s). sc_cos s x \<noteq> None)"

lemma key_alloc: "sleep_key s x \<noteq> None \<longleftrightarrow> sc_cos s x \<noteq> None" "wait_key s x \<noteq> None \<longleftrightarrow> sc_cos s x \<noteq> None"
  by (simp_all add: sleep_key_def wait_key_def)

text \<open>An update of one coroutine that keeps the keys by which trees hold it keeps the scheduler well formed.\<close>

lemma upd_ok:
  assumes s: "sched_ok s" and c: "sc_cos s x = Some c"
    and k: "x \<in> set (sc_sleeping s) \<Longrightarrow> co_sleep_usecs c' = co_sleep_usecs c"
    and w: "x \<in> set (sc_waiting s) \<Longrightarrow> co_fd c' = co_fd c"
  shows "sched_ok (s\<lparr>sc_cos := (sc_cos s)(x \<mapsto> c')\<rparr>)"
proof -
  let ?s = "s\<lparr>sc_cos := (sc_cos s)(x \<mapsto> c')\<rparr>"
  have "ordered (sleep_key ?s) (sc_sleeping s) = ordered (sleep_key s) (sc_sleeping s)"
    by (rule ordered_cong) (use c k in \<open>auto simp: sleep_key_def\<close>)
  moreover have "ordered (wait_key ?s) (sc_waiting s) = ordered (wait_key s) (sc_waiting s)"
    by (rule ordered_cong) (use c w in \<open>auto simp: wait_key_def\<close>)
  ultimately show ?thesis using s by (auto simp: sched_ok_def)
qed

lemma keys_frame [simp]: "sleep_key (s\<lparr>sc_sleeping := t\<rparr>) = sleep_key s" "wait_key (s\<lparr>sc_sleeping := t\<rparr>) = wait_key s"
  "sleep_key (s\<lparr>sc_waiting := t\<rparr>) = sleep_key s" "wait_key (s\<lparr>sc_waiting := t\<rparr>) = wait_key s"
  "sleep_key (s\<lparr>sc_ready := t\<rparr>) = sleep_key s" "wait_key (s\<lparr>sc_ready := t\<rparr>) = wait_key s"
  by (simp_all add: sleep_key_def wait_key_def fun_eq_iff)

section \<open>Falling asleep\<close>

definition asleep :: "nat \<Rightarrow> u64 \<Rightarrow> nty_coroutine \<Rightarrow> nty_schedule \<Rightarrow> nty_schedule" where
  "asleep x d c s = s\<lparr>sc_sleeping := rb_put (sleep_key s) (sc_sleeping s) x d,
     sc_cos := (sc_cos s)(x \<mapsto> c\<lparr>co_sleep_usecs := d, co_status := co_status c OR BIT STATUS_SLEEPING\<rparr>)\<rparr>"

lemma unat_Suc_u64: "unat (k :: u64) + 1 < 2 ^ 64 \<Longrightarrow> unat (k + 1) = unat k + 1"
  by (simp add: unat_word_ariths)

lemma next_le: "unat (k + 1 :: u64) = unat k + 1 \<Longrightarrow> k + 1 \<le> e \<longleftrightarrow> k \<le> e \<and> e \<noteq> k"
proof -
  assume k: "unat (k + 1) = unat k + 1"
  have "e \<noteq> k \<longleftrightarrow> unat e \<noteq> unat k" by (simp add: word_unat_eq_iff)
  then show ?thesis unfolding word_le_nat_alt k by linarith
qed

lemma sleep_loop_spec:
  assumes "ordered (sleep_key s) (sc_sleeping s)" and "sc_cos s x = Some c" and "x \<notin> set (sc_sleeping s)"
    and "n = card {y \<in> set (sc_sleeping s). co_sleep_usecs c \<le> the (sleep_key s y)}" and "unat (co_sleep_usecs c) + n < 2 ^ 64"
  shows "\<exists>d. sleep_loop x s = Some (asleep x d c s) \<and> co_sleep_usecs c \<le> d \<and> unat d \<le> unat (co_sleep_usecs c) + n \<and>
    (\<forall>y \<in> set (sc_sleeping s). sleep_key s y \<noteq> Some d) \<and>
    (\<forall>e. co_sleep_usecs c \<le> e \<and> e < d \<longrightarrow> (\<exists>y \<in> set (sc_sleeping s). sleep_key s y = Some e))"
  using assms
proof (induction n arbitrary: s c)
  case 0
  let ?k = "co_sleep_usecs c"
  have "\<forall>y \<in> set (sc_sleeping s). \<not> ?k \<le> the (sleep_key s y)" using 0(4) by auto
  then have f: "\<forall>y \<in> set (sc_sleeping s). sleep_key s y \<noteq> Some ?k" by auto
  then have "find (\<lambda>y. sleep_key s y = Some ?k) (sc_sleeping s) = None" by (simp add: find_None_iff)
  then have "sleep_loop x s = Some (asleep x ?k c s)" using 0(1,2)
    by (subst sleep_loop.simps) (simp add: rb_insert_def sleep_key_def [of s x] rb_find_ordered upd_co_def asleep_def)
  then show ?case using f by (intro exI [of _ ?k]) auto
next
  case (Suc n)
  let ?k = "co_sleep_usecs c"
  show ?case
  proof (cases rule: find_cases [of "\<lambda>y. sleep_key s y = Some ?k" "sc_sleeping s"])
    case 2
    then have "sleep_loop x s = Some (asleep x ?k c s)" using Suc.prems(1,2)
      by (subst sleep_loop.simps) (simp add: rb_insert_def sleep_key_def [of s x] rb_find_ordered upd_co_def asleep_def)
    then show ?thesis using 2(2) by (intro exI [of _ ?k]) auto
  next
    case (1 y)
    let ?c = "c\<lparr>co_sleep_usecs := ?k + 1\<rparr>" and ?s = "s\<lparr>sc_cos := (sc_cos s)(x \<mapsto> c\<lparr>co_sleep_usecs := co_sleep_usecs c + 1\<rparr>)\<rparr>"
    have yx: "y \<noteq> x" using 1(2) Suc.prems(3) by auto
    have key: "sleep_key ?s z = sleep_key s z" if "z \<in> set (sc_sleeping s)" for z
      using that Suc.prems(3) by (auto simp: sleep_key_def)
    have step: "sleep_loop x s = sleep_loop x ?s" using 1(1) Suc.prems(1,2)
      by (subst sleep_loop.simps) (simp add: rb_insert_def sleep_key_def [of s x] rb_find_ordered upd_co_def)
    have k1: "unat (?k + 1) = unat ?k + 1" using Suc.prems(5) by (intro unat_Suc_u64) simp
    have le: "?k + 1 \<le> e \<longleftrightarrow> ?k \<le> e \<and> e \<noteq> ?k" for e :: u64
      by (rule next_le [OF k1])
    let ?A = "{z \<in> set (sc_sleeping s). ?k \<le> the (sleep_key s z)}" and ?B = "{z \<in> set (sc_sleeping s). ?k + 1 \<le> the (sleep_key s z)}"
    have "the (sleep_key s z) = ?k \<longleftrightarrow> z = y" if "z \<in> set (sc_sleeping s)" for z
      using that 1(2,3) Suc.prems(1) ordered_inj [OF Suc.prems(1) that 1(2)] by (auto simp: ordered_def)
    then have AB: "?A = insert y ?B" using le 1(2,3) by fastforce
    have yB: "y \<notin> ?B" unfolding mem_Collect_eq 1(3) option.sel le by simp
    have fB: "finite ?B" by (rule finite_subset [of _ "set (sc_sleeping s)"]) auto
    have "Suc n = Suc (card ?B)" unfolding Suc.prems(4) AB by (rule card_insert_disjoint [OF fB yB])
    then have n: "n = card ?B" by (rule Suc_inject)
    have B: "?B = {z \<in> set (sc_sleeping ?s). co_sleep_usecs ?c \<le> the (sleep_key ?s z)}" using key by fastforce
    have o: "ordered (sleep_key ?s) (sc_sleeping ?s)" using Suc.prems(1) ordered_cong [of "sc_sleeping s" "sleep_key ?s" "sleep_key s"] key by simp
    have x: "sc_cos ?s x = Some ?c" "x \<notin> set (sc_sleeping ?s)" "unat (co_sleep_usecs ?c) + n < 2 ^ 64"
      using Suc.prems(3,5) k1 by simp_all
    obtain d where d: "sleep_loop x ?s = Some (asleep x d ?c ?s)" "co_sleep_usecs ?c \<le> d" "unat d \<le> unat (co_sleep_usecs ?c) + n"
      "\<forall>y \<in> set (sc_sleeping ?s). sleep_key ?s y \<noteq> Some d"
      "\<forall>e. co_sleep_usecs ?c \<le> e \<and> e < d \<longrightarrow> (\<exists>y \<in> set (sc_sleeping ?s). sleep_key ?s y = Some e)"
      using Suc.IH [OF o x(1,2) n [unfolded B] x(3)] by blast
    have kd: "?k \<le> d" "unat d \<le> unat ?k + Suc n" using d(2,3) le [of d] k1 by simp_all
    have "asleep x d ?c ?s = asleep x d c s"
      using rb_put_cong [of "sc_sleeping s" "sleep_key ?s" "sleep_key s"] key by (simp add: asleep_def)
    then have r: "sleep_loop x s = Some (asleep x d c s)" using d(1) step by simp
    have f: "\<forall>y \<in> set (sc_sleeping s). sleep_key s y \<noteq> Some d" using d(4) key by simp
    have "\<exists>y \<in> set (sc_sleeping s). sleep_key s y = Some e" if "?k \<le> e \<and> e < d" for e
    proof (cases "e = ?k")
      case True
      then show ?thesis using 1(2,3) by auto
    next
      case False
      then have "?k + 1 \<le> e" using that le by blast
      then show ?thesis using that d(5) key by auto
    qed
    then show ?thesis using r f kd by blast
  qed
qed


lemma ordered_filter: "ordered key t \<Longrightarrow> ordered key (filter P t)"
  by (simp add: ordered_def sorted_wrt_filter)

lemma remove_key:
  assumes o: "ordered key t" and y: "y \<in> set t" "key y = Some k"
  shows "rb_remove t y = Some (filter (\<lambda>z. key z \<noteq> Some k) t)"
proof -
  have "remove1 y t = filter (\<lambda>z. y \<noteq> z) t"
    using ordered_distinct [OF o] by (simp add: distinct_remove1_removeAll removeAll_filter_not_eq)
  moreover have "filter (\<lambda>z. y \<noteq> z) t = filter (\<lambda>z. key z \<noteq> Some k) t"
    by (rule filter_cong) (use ordered_inj [OF o _ y(1)] y(2) in auto)
  ultimately show ?thesis using y(1) by (simp add: rb_remove_def)
qed

definition deadline_of :: "u64 \<Rightarrow> u64 \<Rightarrow> nty_schedule \<Rightarrow> u64" where
  "deadline_of msecs now s = nty_coroutine_diff_usecs (sc_birth s) now + msecs * 1000"

text \<open>Who is asleep when a coroutine with the wake-up time \<open>k\<close> lies down: whoever has that time is taken out.\<close>

definition others_asleep :: "u64 \<Rightarrow> nty_schedule \<Rightarrow> nat list" where
  "others_asleep k s = filter (\<lambda>z. sleep_key s z \<noteq> Some k) (sc_sleeping s)"

lemma sleepdown_unfold:
  assumes o: "ordered (sleep_key s) (sc_sleeping s)" and c: "sc_cos s x = Some c"
  shows "nty_schedule_sched_sleepdown x msecs now s =
    (let s1 = s\<lparr>sc_sleeping := others_asleep (co_sleep_usecs c) s, sc_cos := (sc_cos s)(x \<mapsto> c\<lparr>co_sleep_usecs := deadline_of msecs now s\<rparr>)\<rparr>
     in if msecs \<noteq> 0 then sleep_loop x s1 else Some s1)"
proof (cases rule: find_cases [of "\<lambda>y. sleep_key s y = Some (co_sleep_usecs c)" "sc_sleeping s"])
  case (1 y)
  then show ?thesis using c remove_key [OF o 1(2,3)]
    by (simp add: nty_schedule_sched_sleepdown_def rb_find_ordered [OF o] upd_co_def others_asleep_def deadline_of_def Let_def)
next
  case 2
  then have "others_asleep (co_sleep_usecs c) s = sc_sleeping s" by (simp add: others_asleep_def filter_id_conv)
  then show ?thesis using c 2(1)
    by (simp add: nty_schedule_sched_sleepdown_def rb_find_ordered [OF o] upd_co_def deadline_of_def Let_def)
qed

lemma others_asleep_x:
  assumes "sc_cos s x = Some c" shows "x \<notin> set (others_asleep (co_sleep_usecs c) s)"
  using assms by (simp add: others_asleep_def sleep_key_def)

lemma sleepdown_asleep:
  assumes o: "ordered (sleep_key s) (sc_sleeping s)" and c: "sc_cos s x = Some c" and m: "msecs \<noteq> 0"
    and b: "unat (deadline_of msecs now s) + length (sc_sleeping s) < 2 ^ 64"
  defines "t \<equiv> others_asleep (co_sleep_usecs c) s" and "k \<equiv> deadline_of msecs now s"
  shows "\<exists>d. nty_schedule_sched_sleepdown x msecs now s = Some (s\<lparr>sc_sleeping := rb_put (sleep_key s) t x d,
      sc_cos := (sc_cos s)(x \<mapsto> c\<lparr>co_sleep_usecs := d, co_status := co_status c OR BIT STATUS_SLEEPING\<rparr>)\<rparr>) \<and>
    k \<le> d \<and> unat d \<le> unat k + length (sc_sleeping s) \<and> (\<forall>y \<in> set t. sleep_key s y \<noteq> Some d) \<and>
    (\<forall>e. k \<le> e \<and> e < d \<longrightarrow> (\<exists>y \<in> set t. sleep_key s y = Some e))"
proof -
  let ?c = "c\<lparr>co_sleep_usecs := k\<rparr>"
  let ?s = "s\<lparr>sc_sleeping := t, sc_cos := (sc_cos s)(x \<mapsto> ?c)\<rparr>"
  let ?B = "{y \<in> set (sc_sleeping ?s). co_sleep_usecs ?c \<le> the (sleep_key ?s y)}"
  have x: "x \<notin> set t" unfolding t_def by (rule others_asleep_x [OF c])
  have key: "sleep_key ?s z = sleep_key s z" if "z \<in> set t" for z
    using that x by (auto simp: sleep_key_def)
  have "ordered (sleep_key s) t" unfolding t_def others_asleep_def by (rule ordered_filter [OF o])
  then have o1: "ordered (sleep_key ?s) (sc_sleeping ?s)" using ordered_cong [of t "sleep_key ?s" "sleep_key s"] key by simp
  have "card ?B \<le> card (set t)" by (rule card_mono) auto
  also have "\<dots> \<le> length t" by (rule card_length)
  also have "\<dots> \<le> length (sc_sleeping s)" by (simp add: t_def others_asleep_def)
  finally have n: "card ?B \<le> length (sc_sleeping s)" .
  have xs: "sc_cos ?s x = Some ?c" "x \<notin> set (sc_sleeping ?s)" "unat (co_sleep_usecs ?c) + card ?B < 2 ^ 64"
    using x b n by (simp_all add: k_def)
  obtain d where d: "sleep_loop x ?s = Some (asleep x d ?c ?s)" "co_sleep_usecs ?c \<le> d" "unat d \<le> unat (co_sleep_usecs ?c) + card ?B"
    "\<forall>y \<in> set (sc_sleeping ?s). sleep_key ?s y \<noteq> Some d"
    "\<forall>e. co_sleep_usecs ?c \<le> e \<and> e < d \<longrightarrow> (\<exists>y \<in> set (sc_sleeping ?s). sleep_key ?s y = Some e)"
    using sleep_loop_spec [OF o1 xs(1,2) refl xs(3)] by blast
  have r: "nty_schedule_sched_sleepdown x msecs now s = Some (s\<lparr>sc_sleeping := rb_put (sleep_key s) t x d,
      sc_cos := (sc_cos s)(x \<mapsto> c\<lparr>co_sleep_usecs := d, co_status := co_status c OR BIT STATUS_SLEEPING\<rparr>)\<rparr>)"
    using sleepdown_unfold [OF o c, of msecs now] m d(1) rb_put_cong [of t "sleep_key ?s" "sleep_key s" x d] key
    by (simp add: asleep_def t_def k_def)
  have f: "\<forall>y \<in> set t. sleep_key s y \<noteq> Some d" using d(4) key by simp
  have g: "\<forall>e. k \<le> e \<and> e < d \<longrightarrow> (\<exists>y \<in> set t. sleep_key s y = Some e)" using d(5) key by simp
  have kd: "k \<le> d" "unat d \<le> unat k + length (sc_sleeping s)" using d(2,3) n by simp_all
  show ?thesis using r kd f g by blast
qed

end
