(* ===== verification/Nty_Calls.thy ===== *)
theory Nty_Calls
  imports Nty_Schedule Guarded_Machine
begin

text \<open>
  The calls a program and the scheduler's loop make of the bookkeeping in \<open>Nty_Schedule\<close>, as a machine: which calls are defined, and that they keep
  the trees in order and the queues made of live coroutines.
\<close>

section \<open>Calls\<close>

datatype nty_call =
    Spawn nat
  | Lie_down nat u64 u64
  | Await nat int u16 u64 u64
  | Event int
  | Unwait int
  | Cancel nat
  | Expire u64
  | Next
  | Renice nat
  | Free nat

fun nty_step :: "nty_call \<Rightarrow> nty_schedule \<Rightarrow> nty_schedule option" where
  "nty_step (Spawn x) s = (if sc_cos s x = None then Some (nty_coroutine_create x s) else None)"
| "nty_step (Lie_down x msecs now) s = nty_schedule_sched_sleepdown x msecs now s"
| "nty_step (Await x fd ev timeout now) s = nty_schedule_sched_wait x fd ev timeout now s"
| "nty_step (Event fd) s = map_option snd (nty_schedule_search_wait fd s)"
| "nty_step (Unwait fd) s = map_option snd (nty_schedule_desched_wait fd s)"
| "nty_step (Cancel x) s = nty_schedule_cancel_wait x s"
| "nty_step (Expire now) s = map_option snd (nty_schedule_expired now s)"
| "nty_step Next s = (case sc_ready s of [] \<Rightarrow> None | x # q \<Rightarrow> Some (s\<lparr>sc_ready := q\<rparr>))"
| "nty_step (Renice x) s = map_option snd (nty_coroutine_renice x s)"
| "nty_step (Free x) s = nty_coroutine_free x s"

definition awaits :: "int \<Rightarrow> nty_schedule \<Rightarrow> bool" where
  "awaits fd s \<longleftrightarrow> (\<exists>x \<in> set (sc_waiting s). wait_key s x = Some fd)"

definition rest_fits :: "u64 \<Rightarrow> u64 \<Rightarrow> nty_schedule \<Rightarrow> bool" where
  "rest_fits msecs now s \<longleftrightarrow> unat (deadline_of msecs now s) + length (sc_sleeping s) < 2 ^ 64"

fun nty_pre :: "nty_call \<Rightarrow> nty_schedule \<Rightarrow> bool" where
  "nty_pre (Spawn x) s \<longleftrightarrow> sc_cos s x = None"
| "nty_pre (Lie_down x msecs now) s \<longleftrightarrow> sc_cos s x \<noteq> None \<and> rest_fits msecs now s"
| "nty_pre (Await x fd ev timeout now) s \<longleftrightarrow>
     (case sc_cos s x of None \<Rightarrow> False
      | Some c \<Rightarrow> co_status c AND BIT STATUS_WAIT_READ = 0 \<and> co_status c AND BIT STATUS_WAIT_WRITE = 0) \<and>
     (ev AND POLLIN \<noteq> 0 \<or> ev AND POLLOUT \<noteq> 0) \<and> x \<notin> set (sc_waiting s) \<and> \<not> awaits fd s \<and> rest_fits timeout now s"
| "nty_pre (Event fd) s \<longleftrightarrow> awaits fd s"
| "nty_pre (Unwait fd) s \<longleftrightarrow> awaits fd s"
| "nty_pre (Cancel x) s \<longleftrightarrow> x \<in> set (sc_waiting s)"
| "nty_pre (Expire now) s \<longleftrightarrow> True"
| "nty_pre Next s \<longleftrightarrow> sc_ready s \<noteq> []"
| "nty_pre (Renice x) s \<longleftrightarrow> sc_cos s x \<noteq> None \<and> x \<notin> set (sc_ready s)"
| "nty_pre (Free x) s \<longleftrightarrow> sc_cos s x \<noteq> None \<and> x \<notin> set (sc_ready s) \<and> x \<notin> set (sc_sleeping s) \<and> x \<notin> set (sc_waiting s)"

section \<open>The invariant\<close>

lemma sched_ok_create: "sched_ok (nty_schedule_create now)"
  by (simp add: sched_ok_def nty_schedule_create_def ordered_def)

lemma ok_tail:
  assumes "sched_ok s" and "sc_cos s x \<noteq> None" and "x \<notin> set (sc_ready s)"
  shows "sched_ok (s\<lparr>sc_ready := sc_ready s @ [x]\<rparr>)"
  using assms by (auto simp: sched_ok_def sleep_key_def wait_key_def)

lemma sleepdown_ok:
  assumes s: "sched_ok s" and c: "sc_cos s x = Some c" and b: "rest_fits msecs now s"
  shows "\<exists>s'. nty_schedule_sched_sleepdown x msecs now s = Some s' \<and> sched_ok s'"
proof -
  let ?t = "others_asleep (co_sleep_usecs c) s"
  have o: "ordered (sleep_key s) (sc_sleeping s)" and w: "ordered (wait_key s) (sc_waiting s)" using s by (simp_all add: sched_ok_def)
  have ot: "ordered (sleep_key s) ?t" unfolding others_asleep_def by (rule ordered_filter [OF o])
  have x: "x \<notin> set ?t" by (rule others_asleep_x [OF c])
  have frame: "ordered (wait_key s2) (sc_waiting s2)" "distinct (sc_ready s2)" "\<forall>y \<in> set (sc_ready s2). sc_cos s2 y \<noteq> None"
    if "s2 = s\<lparr>sc_sleeping := t2, sc_cos := (sc_cos s)(x \<mapsto> c\<lparr>co_sleep_usecs := k2, co_status := st2\<rparr>)\<rparr>" for s2 t2 k2 st2
  proof -
    have "wait_key s2 = wait_key s" using that c by (simp add: wait_key_def fun_eq_iff)
    then show "ordered (wait_key s2) (sc_waiting s2)" using that w by simp
    show "distinct (sc_ready s2)" "\<forall>y \<in> set (sc_ready s2). sc_cos s2 y \<noteq> None" using that s by (auto simp: sched_ok_def)
  qed
  show ?thesis
  proof (cases "msecs = 0")
    case True
    let ?s = "s\<lparr>sc_sleeping := ?t, sc_cos := (sc_cos s)(x \<mapsto> c\<lparr>co_sleep_usecs := deadline_of msecs now s\<rparr>)\<rparr>"
    have e: "?s = s\<lparr>sc_sleeping := ?t, sc_cos := (sc_cos s)(x \<mapsto> c\<lparr>co_sleep_usecs := deadline_of msecs now s, co_status := co_status c\<rparr>)\<rparr>" by simp
    have "ordered (sleep_key ?s) ?t = ordered (sleep_key s) ?t" by (rule ordered_cong) (use x in \<open>auto simp: sleep_key_def\<close>)
    then have "ordered (sleep_key ?s) (sc_sleeping ?s)" using ot by simp
    then have "sched_ok ?s" using frame [OF e] unfolding sched_ok_def by blast
    then show ?thesis using sleepdown_unfold [OF o c, of msecs now] True by (simp add: Let_def)
  next
    case False
    obtain d where d: "nty_schedule_sched_sleepdown x msecs now s = Some (s\<lparr>sc_sleeping := rb_put (sleep_key s) ?t x d,
      sc_cos := (sc_cos s)(x \<mapsto> c\<lparr>co_sleep_usecs := d, co_status := co_status c OR BIT STATUS_SLEEPING\<rparr>)\<rparr>)"
      "\<forall>y \<in> set ?t. sleep_key s y \<noteq> Some d"
      using sleepdown_asleep [OF o c False b [unfolded rest_fits_def]] by blast
    let ?s = "s\<lparr>sc_sleeping := rb_put (sleep_key s) ?t x d,
      sc_cos := (sc_cos s)(x \<mapsto> c\<lparr>co_sleep_usecs := d, co_status := co_status c OR BIT STATUS_SLEEPING\<rparr>)\<rparr>"
    have key: "sleep_key ?s y = sleep_key s y" if "y \<in> set ?t" for y using that x by (auto simp: sleep_key_def)
    have "ordered (sleep_key ?s) ?t" using ordered_cong [of ?t "sleep_key ?s" "sleep_key s"] key ot by blast
    moreover have "sleep_key ?s x = Some d" by (simp add: sleep_key_def)
    moreover have "\<forall>y \<in> set ?t. sleep_key ?s y \<noteq> Some d" using d(2) key by simp
    ultimately have "ordered (sleep_key ?s) (rb_put (sleep_key ?s) ?t x d)" by (rule rb_put_ordered)
    moreover have "rb_put (sleep_key ?s) ?t x d = rb_put (sleep_key s) ?t x d" by (rule rb_put_cong [OF key])
    ultimately have "ordered (sleep_key ?s) (rb_put (sleep_key s) ?t x d)" by simp
    then have "ordered (sleep_key ?s) (sc_sleeping ?s)" by simp
    then have "sched_ok ?s" using frame [OF refl] unfolding sched_ok_def by blast
    then show ?thesis using d(1) by blast
  qed
qed

lemma awaits_find:
  assumes "sched_ok s" and "awaits fd s"
  obtains x c where "rb_find (wait_key s) (sc_waiting s) fd = Some (Some x)" "x \<in> set (sc_waiting s)" "sc_cos s x = Some c" "co_fd c = fd"
proof (cases rule: find_cases [of "\<lambda>y. wait_key s y = Some fd" "sc_waiting s"])
  case (1 x)
  then obtain c where "sc_cos s x = Some c" "co_fd c = fd" by (auto simp: wait_key_def)
  then show thesis using that 1 assms(1) by (simp add: rb_find_ordered sched_ok_def)
next
  case 2
  then show thesis using assms(2) by (simp add: awaits_def)
qed

lemma ok_status:
  assumes "sched_ok s" and "sc_cos s x = Some c" and "co_sleep_usecs c' = co_sleep_usecs c" and "co_fd c' = co_fd c"
  shows "sched_ok (s\<lparr>sc_cos := (sc_cos s)(x \<mapsto> c')\<rparr>)"
  by (rule upd_ok [OF assms(1,2)]) (use assms(3,4) in simp_all)

lemma ok_waiting_less:
  assumes "sched_ok s" shows "sched_ok (s\<lparr>sc_waiting := remove1 x (sc_waiting s)\<rparr>)"
  using assms ordered_remove1 [of "wait_key s" "sc_waiting s" x] by (simp add: sched_ok_def)

lemma ok_sleeping_less:
  assumes "sched_ok s" shows "sched_ok (s\<lparr>sc_sleeping := remove1 x (sc_sleeping s)\<rparr>)"
  using assms ordered_remove1 [of "sleep_key s" "sc_sleeping s" x] by (simp add: sched_ok_def)


section \<open>Every call\<close>

lemma desched_sleepdown_idle: "sc_cos s x = Some c \<Longrightarrow> co_status c = 0 \<Longrightarrow> nty_schedule_desched_sleepdown x s = Some s"
  by (simp add: nty_schedule_desched_sleepdown_def)

text \<open>Waking on an event, before and after the coroutine has run: its status is gone, its place among the sleepers is not.\<close>

lemma search_wait_result:
  assumes "sched_ok s" and "awaits fd s"
  obtains x c where "x \<in> set (sc_waiting s)" "sc_cos s x = Some c" "co_fd c = fd"
    "nty_schedule_search_wait fd s = Some (x, s\<lparr>sc_cos := (sc_cos s)(x \<mapsto> c\<lparr>co_status := 0\<rparr>)\<rparr>)"
proof -
  obtain x c where x: "rb_find (wait_key s) (sc_waiting s) fd = Some (Some x)" "x \<in> set (sc_waiting s)" "sc_cos s x = Some c" "co_fd c = fd"
    using awaits_find [OF assms] .
  show thesis by (rule that [OF x(2,3,4)]) (use x in \<open>simp add: nty_schedule_search_wait_def upd_co_def\<close>)
qed

lemma desched_wait_result:
  assumes "sched_ok s" and "awaits fd s"
  obtains x c where "x \<in> set (sc_waiting s)" "sc_cos s x = Some c" "co_fd c = fd"
    "nty_schedule_desched_wait fd s =
      Some (x, s\<lparr>sc_waiting := remove1 x (sc_waiting s), sc_cos := (sc_cos s)(x \<mapsto> c\<lparr>co_status := 0\<rparr>)\<rparr>)"
proof -
  obtain x c where x: "rb_find (wait_key s) (sc_waiting s) fd = Some (Some x)" "x \<in> set (sc_waiting s)" "sc_cos s x = Some c" "co_fd c = fd"
    using awaits_find [OF assms] .
  show thesis
    by (rule that [OF x(2,3,4)])
      (use x in \<open>simp add: nty_schedule_desched_wait_def rb_remove_def upd_co_def desched_sleepdown_idle\<close>)
qed

lemma sched_wait_ok:
  assumes s: "sched_ok s" and p: "nty_pre (Await x fd ev timeout now) s"
  shows "\<exists>s'. nty_schedule_sched_wait x fd ev timeout now s = Some s' \<and> sched_ok s'"
proof -
  obtain c where c: "sc_cos s x = Some c" "co_status c AND BIT STATUS_WAIT_READ = 0" "co_status c AND BIT STATUS_WAIT_WRITE = 0"
    using p by (cases "sc_cos s x") simp_all
  have ev: "ev AND POLLIN \<noteq> 0 \<or> ev AND POLLOUT \<noteq> 0" and x: "x \<notin> set (sc_waiting s)" and a: "\<not> awaits fd s"
    and b: "rest_fits timeout now s" using p by simp_all
  obtain fl where fl: "(if ev AND POLLIN \<noteq> 0 then Some (of_nat STATUS_WAIT_READ)
               else if ev AND POLLOUT \<noteq> 0 then Some (of_nat STATUS_WAIT_WRITE) else None) = Some (fl :: u32)"
    using ev by (cases "ev AND POLLIN = 0"; cases "ev AND POLLOUT = 0") simp_all
  let ?c = "c\<lparr>co_status := co_status c OR fl, co_fd := fd, co_events := ev\<rparr>"
  let ?s1 = "s\<lparr>sc_cos := (sc_cos s)(x \<mapsto> ?c)\<rparr>"
  let ?s2 = "?s1\<lparr>sc_waiting := rb_put (wait_key ?s1) (sc_waiting s) x fd\<rparr>"
  have s1: "sched_ok ?s1" by (rule upd_ok [OF s c(1)]) (use x in simp_all)
  have o: "ordered (wait_key ?s1) (sc_waiting s)" using s1 by (simp add: sched_ok_def)
  have k: "wait_key ?s1 x = Some fd" by (simp add: wait_key_def)
  have n: "\<forall>y \<in> set (sc_waiting s). wait_key ?s1 y \<noteq> Some fd" using a x by (auto simp: awaits_def wait_key_def)
  have f: "find (\<lambda>y. wait_key ?s1 y = Some fd) (sc_waiting s) = None" using n by (simp add: find_None_iff)
  have ins: "rb_insert (wait_key ?s1) (sc_waiting s) x = Some (None, rb_put (wait_key ?s1) (sc_waiting s) x fd)"
    unfolding rb_insert_def k rb_find_ordered [OF o] Option.bind.bind_lunit f by simp
  have "ordered (wait_key ?s1) (rb_put (wait_key ?s1) (sc_waiting s) x fd)" by (rule rb_put_ordered [OF o k n])
  then have s2: "sched_ok ?s2" using s1 by (simp add: sched_ok_def)
  have c2: "sc_cos ?s2 x = Some ?c" by simp
  have b2: "rest_fits timeout now ?s2" using b by (simp add: rest_fits_def deadline_of_def)
  have r: "nty_schedule_sched_wait x fd ev timeout now s =
      (if timeout = 1 then Some ?s2 else nty_schedule_sched_sleepdown x timeout now ?s2)"
    using c unfolding nty_schedule_sched_wait_def fl by (simp add: upd_co_def ins Let_def)
  show ?thesis unfolding r using s2 sleepdown_ok [OF s2 c2 b2] by simp
qed

lemma upd_co_ok:
  assumes "sched_ok s" and "sc_cos s x \<noteq> None" and "\<And>c. co_sleep_usecs (f c) = co_sleep_usecs c" and "\<And>c. co_fd (f c) = co_fd c"
  shows "\<exists>s'. upd_co x f s = Some s' \<and> sched_ok s' \<and> sc_ready s' = sc_ready s \<and> (\<exists>c. sc_cos s' x = Some (f c))"
proof -
  obtain c where c: "sc_cos s x = Some c" using assms(2) by blast
  have "sched_ok (s\<lparr>sc_cos := (sc_cos s)(x \<mapsto> f c)\<rparr>)" by (rule ok_status [OF assms(1) c assms(3,4)])
  then show ?thesis using c by (simp add: upd_co_def) blast
qed

lemma renice_ok:
  assumes s: "sched_ok s" and x: "sc_cos s x \<noteq> None" "x \<notin> set (sc_ready s)"
  shows "\<exists>b s'. nty_coroutine_renice x s = Some (b, s') \<and> sched_ok s'"
proof -
  obtain s1 c where s1: "upd_co x (\<lambda>c. c\<lparr>co_ops := co_ops c + 1\<rparr>) s = Some s1" "sched_ok s1" "sc_ready s1 = sc_ready s" "sc_cos s1 x = Some c"
    using upd_co_ok [OF s x(1), of "\<lambda>c. c\<lparr>co_ops := co_ops c + 1\<rparr>"] by auto
  let ?s2 = "s1\<lparr>sc_ready := sc_ready s1 @ [x]\<rparr>"
  have "sched_ok ?s2" by (rule ok_tail [OF s1(2)]) (use s1 x in simp_all)
  then obtain s3 where s3: "upd_co x (\<lambda>c. c\<lparr>co_ops := 0\<rparr>) ?s2 = Some s3" "sched_ok s3"
    using upd_co_ok [of ?s2 x "\<lambda>c. c\<lparr>co_ops := 0\<rparr>"] s1(4) by auto
  show ?thesis
  proof (cases "co_ops c < 5")
    case True
    then have "nty_coroutine_renice x s = Some (False, s1)" using s1 by (simp add: nty_coroutine_renice_def)
    then show ?thesis using s1(2) by blast
  next
    case False
    then have "nty_coroutine_renice x s = Some (True, s3)"
      using s1 s3(1) x(2) by (simp add: nty_coroutine_renice_def ready_tail_def nty_coroutine_yield_def)
    then show ?thesis using s3(2) by blast
  qed
qed

lemma expired_result:
  assumes s: "sched_ok s"
  shows "nty_schedule_expired now s = Some (case sc_sleeping s of [] \<Rightarrow> (None, s)
    | x # t \<Rightarrow> if the (sleep_key s x) \<le> nty_coroutine_diff_usecs (sc_birth s) now then (Some x, s\<lparr>sc_sleeping := t\<rparr>) else (None, s))"
proof (cases "sc_sleeping s")
  case (Cons x t)
  then obtain k where "sleep_key s x = Some k" using s by (auto simp: sched_ok_def ordered_def)
  then show ?thesis using Cons by (simp add: nty_schedule_expired_def rb_first_def rb_remove_def Let_def)
qed (simp add: nty_schedule_expired_def rb_first_def)

lemma nty_step_ok:
  assumes s: "sched_ok s" and p: "nty_pre c s"
  shows "\<exists>s'. nty_step c s = Some s' \<and> sched_ok s'"
proof (cases c)
  case (Spawn x)
  then have x: "sc_cos s x = None" using p by simp
  let ?s = "nty_coroutine_create x s"
  have r: "x \<notin> set (sc_sleeping s)" "x \<notin> set (sc_waiting s)" "x \<notin> set (sc_ready s)"
    using s x by (auto simp: sched_ok_def ordered_def sleep_key_def wait_key_def)
  have "ordered (sleep_key ?s) (sc_sleeping s) = ordered (sleep_key s) (sc_sleeping s)"
    by (rule ordered_cong) (use r in \<open>auto simp: sleep_key_def nty_coroutine_create_def\<close>)
  moreover have "ordered (wait_key ?s) (sc_waiting s) = ordered (wait_key s) (sc_waiting s)"
    by (rule ordered_cong) (use r in \<open>auto simp: wait_key_def nty_coroutine_create_def\<close>)
  moreover have "sc_sleeping ?s = sc_sleeping s" "sc_waiting ?s = sc_waiting s" by (simp_all add: nty_coroutine_create_def)
  moreover have "distinct (sc_ready ?s)" "\<forall>y \<in> set (sc_ready ?s). sc_cos ?s y \<noteq> None"
    using s r by (auto simp: sched_ok_def nty_coroutine_create_def)
  ultimately have "sched_ok ?s" using s by (simp add: sched_ok_def)
  then show ?thesis using Spawn x by simp
next
  case (Lie_down x msecs now)
  then obtain d where "sc_cos s x = Some d" using p by auto
  then show ?thesis using Lie_down p sleepdown_ok [OF s, of x d msecs now] by simp
next
  case (Await x fd ev timeout now)
  then show ?thesis using sched_wait_ok [OF s p [unfolded Await]] by simp
next
  case (Event fd)
  then have "awaits fd s" using p by simp
  then obtain x d where x: "sc_cos s x = Some d"
    "nty_schedule_search_wait fd s = Some (x, s\<lparr>sc_cos := (sc_cos s)(x \<mapsto> d\<lparr>co_status := 0\<rparr>)\<rparr>)"
    by (rule search_wait_result [OF s])
  have "sched_ok (s\<lparr>sc_cos := (sc_cos s)(x \<mapsto> d\<lparr>co_status := 0\<rparr>)\<rparr>)" by (rule ok_status [OF s x(1)]) simp_all
  then show ?thesis using x(2) Event by simp
next
  case (Unwait fd)
  then have "awaits fd s" using p by simp
  then obtain x d where x: "sc_cos s x = Some d" "nty_schedule_desched_wait fd s =
      Some (x, s\<lparr>sc_waiting := remove1 x (sc_waiting s), sc_cos := (sc_cos s)(x \<mapsto> d\<lparr>co_status := 0\<rparr>)\<rparr>)"
    by (rule desched_wait_result [OF s])
  have "sched_ok ((s\<lparr>sc_waiting := remove1 x (sc_waiting s)\<rparr>)
      \<lparr>sc_cos := (sc_cos (s\<lparr>sc_waiting := remove1 x (sc_waiting s)\<rparr>))(x \<mapsto> d\<lparr>co_status := 0\<rparr>)\<rparr>)"
    by (rule ok_status [OF ok_waiting_less [OF s]]) (use x(1) in simp_all)
  then show ?thesis using x(2) Unwait by simp
next
  case (Cancel x)
  then show ?thesis using p ok_waiting_less [OF s] by (simp add: nty_schedule_cancel_wait_def rb_remove_def)
next
  case (Expire now)
  have t: "sched_ok (s\<lparr>sc_sleeping := t\<rparr>)" if "sc_sleeping s = x # t" for x t
    using ok_sleeping_less [OF s, of x] that by simp
  show ?thesis unfolding Expire nty_step.simps expired_result [OF s]
    using s t by (simp split: list.split)
next
  case Next
  then obtain x q where "sc_ready s = x # q" using p by (cases "sc_ready s") simp_all
  then show ?thesis using Next s by (simp add: sched_ok_def)
next
  case (Renice x)
  then show ?thesis using p renice_ok [OF s, of x] by auto
next
  case (Free x)
  then have x: "sc_cos s x \<noteq> None" "x \<notin> set (sc_ready s)" "x \<notin> set (sc_sleeping s)" "x \<notin> set (sc_waiting s)" using p by simp_all
  let ?s = "s\<lparr>sc_spawned := sc_spawned s - 1, sc_cos := (sc_cos s)(x := None)\<rparr>"
  have "ordered (sleep_key ?s) (sc_sleeping s) = ordered (sleep_key s) (sc_sleeping s)"
    by (rule ordered_cong) (use x in \<open>auto simp: sleep_key_def\<close>)
  moreover have "ordered (wait_key ?s) (sc_waiting s) = ordered (wait_key s) (sc_waiting s)"
    by (rule ordered_cong) (use x in \<open>auto simp: wait_key_def\<close>)
  moreover have "\<forall>y \<in> set (sc_ready s). sc_cos ?s y \<noteq> None" using s x by (auto simp: sched_ok_def)
  ultimately have "sched_ok ?s" using s by (simp add: sched_ok_def)
  then show ?thesis using Free x(1) by (simp add: nty_coroutine_free_def)
qed

interpretation co: guarded_machine nty_step nty_pre sched_ok
  by unfold_locales (rule nty_step_ok)

section \<open>A second descriptor\<close>

text \<open>A coroutine that waits already cannot wait for another descriptor: changing its key inside the tree, the insertion finds the coroutine itself.\<close>

lemma sched_wait_twice:
  assumes "x \<in> set (sc_waiting s)"
  shows "nty_schedule_sched_wait x fd ev timeout now s = None"
proof -
  have ins: "rb_insert (wait_key s') (sc_waiting s) x \<noteq> Some (None, t)" for s' t
  proof (cases "wait_key s' x")
    case (Some k)
    have "find (\<lambda>y. wait_key s' y = Some k) (sc_waiting s) \<noteq> None" using assms Some by (auto simp: find_None_iff)
    then show ?thesis using Some by (auto simp: rb_insert_def rb_find_def split: if_splits)
  qed (simp add: rb_insert_def)
  have fails: "rb_insert (wait_key s') (sc_waiting s) x \<bind> (\<lambda>(tmp, t). if \<exists>y. tmp = Some y then None else g t) = None" for s' g
  proof (cases "rb_insert (wait_key s') (sc_waiting s) x")
    case (Some p)
    obtain tmp t where p: "p = (tmp, t)" by (cases p)
    then have "tmp \<noteq> None" using ins [of s' t] Some by auto
    then show ?thesis using Some p by auto
  qed simp
  show ?thesis
  proof (cases "sc_cos s x")
    case (Some c)
    show ?thesis
      by (cases "ev AND POLLIN = 0"; cases "ev AND POLLOUT = 0")
        (simp_all add: nty_schedule_sched_wait_def upd_co_def Some fails)
  qed (simp add: nty_schedule_sched_wait_def)
qed

end
