(* ===== verification/Nty_Run.thy ===== *)
theory Nty_Run
  imports Nty_Calls
begin

text \<open>
  The loop of the coroutine scheduler (\<open>nty_schedule_run\<close>, \<open>nty_coroutine_resume\<close>). The world \<open>'w\<close> is what the coroutines work on and where
  the clock and the events come from; \<open>body x\<close> is what coroutine \<open>x\<close> does from one switch to the next, and ends with
  \<open>exec_end\<close> when its function returns. A wait that a signal interrupts is repeated inside the argument \<open>epoll_wait\<close>; a wait that fails and the
  test of the stack's size are not modelled. The loops may run forever and are partial functions.
\<close>

section \<open>Resuming\<close>

text \<open>The end of \<open>_exec\<close>.\<close>

definition exec_end :: "nat \<Rightarrow> nty_schedule \<Rightarrow> nty_schedule option" where
  "exec_end x s = do {
     s \<leftarrow> upd_co x (\<lambda>c. c\<lparr>co_status := co_status c OR (BIT STATUS_EXITED OR BIT STATUS_FDEOF OR BIT STATUS_DETACH)\<rparr>) s;
     nty_coroutine_yield x s
   }"

definition nty_coroutine_init :: "nat \<Rightarrow> nty_schedule \<Rightarrow> nty_schedule option" where
  "nty_coroutine_init x s = upd_co x (\<lambda>c. c\<lparr>co_status := BIT STATUS_READY\<rparr>) s"

definition nty_coroutine_resume ::
    "(nat \<Rightarrow> 'w \<times> nty_schedule \<Rightarrow> ('w \<times> nty_schedule) option) \<Rightarrow> nat \<Rightarrow> 'w \<times> nty_schedule \<Rightarrow> ('w \<times> nty_schedule) option" where
  "nty_coroutine_resume body x ws = (case ws of (w, s) \<Rightarrow> do {
     c \<leftarrow> sc_cos s x;
     s \<leftarrow> (if co_status c AND BIT STATUS_NEW \<noteq> 0 then nty_coroutine_init x s else Some s);
     (w, s) \<leftarrow> body x (w, s\<lparr>sc_curr_thread := Some x\<rparr>);
     let s = s\<lparr>sc_curr_thread := None\<rparr>;
     c \<leftarrow> sc_cos s x;
     if co_status c AND BIT STATUS_EXITED \<noteq> 0 \<and> co_status c AND BIT STATUS_DETACH \<noteq> 0
     then map_option (Pair w) (nty_coroutine_free x s) else Some (w, s)
   })"

section \<open>The loops\<close>

partial_function (option) expired_loop ::
    "('w \<Rightarrow> u64) \<Rightarrow> (nat \<Rightarrow> 'w \<times> nty_schedule \<Rightarrow> ('w \<times> nty_schedule) option) \<Rightarrow> 'w \<times> nty_schedule \<Rightarrow> ('w \<times> nty_schedule) option" where
  "expired_loop clk body ws = (case ws of (w, s) \<Rightarrow> do {
     (e, s) \<leftarrow> nty_schedule_expired (clk w) s;
     case e of
       None \<Rightarrow> Some (w, s)
     | Some x \<Rightarrow> do {
         ws \<leftarrow> nty_coroutine_resume body x (w, s);
         expired_loop clk body ws
       }
   })"

partial_function (option) ready_loop ::
    "(nat \<Rightarrow> 'w \<times> nty_schedule \<Rightarrow> ('w \<times> nty_schedule) option) \<Rightarrow> nat option \<Rightarrow> 'w \<times> nty_schedule \<Rightarrow> ('w \<times> nty_schedule) option" where
  "ready_loop body last_co_ready ws = (case ws of (w, s) \<Rightarrow>
     (case sc_ready s of
        [] \<Rightarrow> Some (w, s)
      | x # q \<Rightarrow> do {
          c \<leftarrow> sc_cos s x;
          let s = s\<lparr>sc_ready := q\<rparr>;
          if co_status c AND BIT STATUS_FDEOF \<noteq> 0 then map_option (Pair w) (nty_coroutine_free x s)
          else do {
            ws \<leftarrow> nty_coroutine_resume body x (w, s);
            if Some x = last_co_ready then Some ws else ready_loop body last_co_ready ws
          }
        }))"

text \<open>The events in the order in which the loop takes them, from the last one down: the descriptor and whether it hung up.\<close>

fun event_loop :: "(nat \<Rightarrow> 'w \<times> nty_schedule \<Rightarrow> ('w \<times> nty_schedule) option) \<Rightarrow> (int \<times> bool) list \<Rightarrow> 'w \<times> nty_schedule \<Rightarrow>
    ('w \<times> nty_schedule) option" where
  "event_loop body [] ws = Some ws"
| "event_loop body ((fd, is_eof) # evs) (w, s) = do {
     (x, s) \<leftarrow> nty_schedule_search_wait fd s;
     s \<leftarrow> (if is_eof then upd_co x (\<lambda>c. c\<lparr>co_status := co_status c OR BIT STATUS_FDEOF\<rparr>) s else Some s);
     ws \<leftarrow> nty_coroutine_resume body x (w, s);
     event_loop body evs ws
   }"

definition last_ready :: "nty_schedule \<Rightarrow> nat option" where
  "last_ready s = (if sc_ready s = [] then None else Some (last (sc_ready s)))"

definition nty_schedule_epoll :: "('w \<Rightarrow> u64) \<Rightarrow> (u64 \<times> u64 \<Rightarrow> 'w \<Rightarrow> (int \<times> bool) list \<times> 'w) \<Rightarrow> 'w \<times> nty_schedule \<Rightarrow>
    ((int \<times> bool) list \<times> 'w) option" where
  "nty_schedule_epoll clk epoll_wait ws = (case ws of (w, s) \<Rightarrow> do {
     t \<leftarrow> epoll_timeout (clk w) s;
     Some (case t of None \<Rightarrow> ([], w) | Some t \<Rightarrow> epoll_wait t w)
   })"

partial_function (option) nty_schedule_run ::
    "('w \<Rightarrow> u64) \<Rightarrow> (u64 \<times> u64 \<Rightarrow> 'w \<Rightarrow> (int \<times> bool) list \<times> 'w) \<Rightarrow> (nat \<Rightarrow> 'w \<times> nty_schedule \<Rightarrow> ('w \<times> nty_schedule) option) \<Rightarrow>
     'w \<times> nty_schedule \<Rightarrow> ('w \<times> nty_schedule) option" where
  "nty_schedule_run clk epoll_wait body ws = (if nty_schedule_isdone (snd ws) then Some ws
     else do {
       ws \<leftarrow> expired_loop clk body ws;
       ws \<leftarrow> ready_loop body (last_ready (snd ws)) ws;
       (evs, w) \<leftarrow> nty_schedule_epoll clk epoll_wait ws;
       ws \<leftarrow> event_loop body (rev evs) (w, snd ws);
       nty_schedule_run clk epoll_wait body ws
     })"

section \<open>A round of the ready queue\<close>

lemma ready_round:
  assumes front: "\<And>x q s. J (x # q) s \<Longrightarrow> (\<exists>r. sc_ready s = (x # q) @ r) \<and> (\<exists>c. sc_cos s x = Some c \<and> co_status c AND BIT STATUS_FDEOF = 0)"
    and step: "\<And>x q s w. J (x # q) s \<Longrightarrow>
      \<exists>s'. nty_coroutine_resume body x (w, s\<lparr>sc_ready := tl (sc_ready s)\<rparr>) = Some (eff x w, s') \<and> J q s'"
    and "J q s" and "q \<noteq> []" and "distinct q"
  shows "\<exists>s'. ready_loop body (Some (last q)) (w, s) = Some (fold eff q w, s') \<and> J [] s'"
  using assms(3,4,5)
proof (induction q arbitrary: s w)
  case (Cons x q)
  obtain r c where r: "sc_ready s = x # q @ r" and c: "sc_cos s x = Some c" "co_status c AND BIT STATUS_FDEOF = 0"
    using front [OF Cons.prems(1)] by auto
  obtain s' where s': "nty_coroutine_resume body x (w, s\<lparr>sc_ready := q @ r\<rparr>) = Some (eff x w, s')" "J q s'"
    using step [OF Cons.prems(1), of w] r by auto
  have u: "ready_loop body l (w, s) = (if Some x = l then Some (eff x w, s') else ready_loop body l (eff x w, s'))" for l
    by (subst ready_loop.simps) (simp add: r c s'(1))
  show ?case
  proof (cases "q = []")
    case True
    then show ?thesis using u s'(2) by simp
  next
    case False
    then have "x \<noteq> last q" using Cons.prems(3) by auto
    then show ?thesis using u [of "Some (last q)"] Cons.IH [OF s'(2) False] Cons.prems(3) False by simp
  qed
qed simp

definition runnable :: "nat \<Rightarrow> nty_schedule \<Rightarrow> bool" where
  "runnable x s \<longleftrightarrow> (case sc_cos s x of None \<Rightarrow> False | Some c \<Rightarrow> co_status c AND BIT STATUS_FDEOF = 0)"

text \<open>What a coroutine may do in its turn so that the others get theirs: queue coroutines at the end, and leave those that stand
  in the queue runnable. It may spawn, sleep, wait and end.\<close>

definition polite :: "(nat \<Rightarrow> 'w \<Rightarrow> 'w) \<Rightarrow> (nat \<Rightarrow> 'w \<times> nty_schedule \<Rightarrow> ('w \<times> nty_schedule) option) \<Rightarrow> bool" where
  "polite eff body \<longleftrightarrow> (\<forall>x w s. sc_cos s x \<noteq> None \<longrightarrow>
     (\<exists>s' a. body x (w, s) = Some (eff x w, s') \<and> sc_ready s' = sc_ready s @ a \<and> sc_cos s' x \<noteq> None \<and>
       (\<forall>y. y \<noteq> x \<longrightarrow> runnable y s \<longrightarrow> runnable y s')))"

text \<open>Outside of the coroutine's own turn, resuming touches nothing but that coroutine.\<close>

definition same_beside :: "nat \<Rightarrow> nty_schedule \<Rightarrow> nty_schedule \<Rightarrow> bool" where
  "same_beside x s s' \<longleftrightarrow> sc_ready s' = sc_ready s \<and> sc_sleeping s' = sc_sleeping s \<and> sc_birth s' = sc_birth s \<and>
     (\<forall>y. y \<noteq> x \<longrightarrow> sc_cos s' y = sc_cos s y)"

text \<open>A coroutine whose function has returned; it is freed after its turn.\<close>

definition ended :: "nat \<Rightarrow> nty_schedule \<Rightarrow> bool" where
  "ended x s \<longleftrightarrow> (case sc_cos s x of None \<Rightarrow> True
     | Some c \<Rightarrow> co_status c AND BIT STATUS_EXITED \<noteq> 0 \<and> co_status c AND BIT STATUS_DETACH \<noteq> 0)"

lemma resume_turn:
  assumes "sc_cos s x \<noteq> None"
  shows "\<exists>s1. same_beside x s s1 \<and> sleep_key s1 x = sleep_key s x \<and> sc_cos s1 x \<noteq> None \<and>
    (\<forall>w' s2. body x (w, s1) = Some (w', s2) \<longrightarrow> sc_cos s2 x \<noteq> None \<longrightarrow>
      (\<exists>s3. nty_coroutine_resume body x (w, s) = Some (w', s3) \<and> same_beside x s2 s3 \<and> (\<not> ended x s2 \<longrightarrow> sc_cos s3 x = sc_cos s2 x)))"
proof -
  obtain c where c: "sc_cos s x = Some c" using assms by blast
  obtain s0 where s0: "(if co_status c AND BIT STATUS_NEW \<noteq> 0 then nty_coroutine_init x s else Some s) = Some s0"
    "same_beside x s s0" "sc_cos s0 x \<noteq> None" "sleep_key s0 x = sleep_key s x"
    using c by (cases "co_status c AND BIT STATUS_NEW = 0") (simp_all add: nty_coroutine_init_def upd_co_def same_beside_def sleep_key_def)
  let ?s1 = "s0\<lparr>sc_curr_thread := Some x\<rparr>"
  have r: "\<exists>s3. nty_coroutine_resume body x (w, s) = Some (w', s3) \<and> same_beside x s2 s3 \<and> (\<not> ended x s2 \<longrightarrow> sc_cos s3 x = sc_cos s2 x)"
    if b: "body x (w, ?s1) = Some (w', s2)" and l: "sc_cos s2 x \<noteq> None" for w' s2
  proof -
    obtain c2 where c2: "sc_cos s2 x = Some c2" using l by blast
    show ?thesis
    proof (cases "co_status c2 AND BIT STATUS_EXITED \<noteq> 0 \<and> co_status c2 AND BIT STATUS_DETACH \<noteq> 0")
      case True
      let ?s3 = "s2\<lparr>sc_spawned := sc_spawned s2 - 1, sc_curr_thread := None, sc_cos := (sc_cos s2)(x := None)\<rparr>"
      have "nty_coroutine_resume body x (w, s) = Some (w', ?s3)"
        unfolding nty_coroutine_resume_def using c s0(1) b c2 True by (simp add: nty_coroutine_free_def)
      moreover have "same_beside x s2 ?s3" "ended x s2" using c2 True by (simp_all add: same_beside_def ended_def)
      ultimately show ?thesis by blast
    next
      case False
      have "nty_coroutine_resume body x (w, s) = Some (w', s2\<lparr>sc_curr_thread := None\<rparr>)"
        unfolding nty_coroutine_resume_def using c s0(1) b c2 False by auto
      moreover have "same_beside x s2 (s2\<lparr>sc_curr_thread := None\<rparr>)" by (simp add: same_beside_def)
      ultimately show ?thesis by auto
    qed
  qed
  have "same_beside x s ?s1" "sc_cos ?s1 x \<noteq> None" "sleep_key ?s1 x = sleep_key s x"
    using s0(2-4) by (simp_all add: same_beside_def sleep_key_def)
  then show ?thesis using r by blast
qed

lemma resume_polite:
  assumes p: "polite eff body" and x: "sc_cos s x \<noteq> None"
  shows "\<exists>s' a. nty_coroutine_resume body x (w, s) = Some (eff x w, s') \<and> sc_ready s' = sc_ready s @ a \<and>
    (\<forall>y. y \<noteq> x \<longrightarrow> runnable y s \<longrightarrow> runnable y s')"
proof -
  obtain s1 where s1: "same_beside x s s1" "sc_cos s1 x \<noteq> None" and turn: "\<And>w' s2. body x (w, s1) = Some (w', s2) \<Longrightarrow>
      sc_cos s2 x \<noteq> None \<Longrightarrow> \<exists>s3. nty_coroutine_resume body x (w, s) = Some (w', s3) \<and> same_beside x s2 s3"
    using resume_turn [where body = body and w = w, OF x] by blast
  obtain s2 a where s2: "body x (w, s1) = Some (eff x w, s2)" "sc_ready s2 = sc_ready s1 @ a" "sc_cos s2 x \<noteq> None"
    "\<And>y. y \<noteq> x \<Longrightarrow> runnable y s1 \<Longrightarrow> runnable y s2"
    using p s1(2) unfolding polite_def by blast
  obtain s3 where s3: "nty_coroutine_resume body x (w, s) = Some (eff x w, s3)" "same_beside x s2 s3" using turn [OF s2(1,3)] by blast
  have "runnable y s3" if "y \<noteq> x" "runnable y s" for y
    using that s1(1) s2(4) s3(2) by (simp add: runnable_def same_beside_def)
  then show ?thesis using s3 s2(2) s1(1) by (auto simp: same_beside_def)
qed

lemma ready_round_polite:
  assumes p: "polite eff body" and q: "sc_ready s = q" "q \<noteq> []" "distinct q" and r: "\<forall>x \<in> set q. runnable x s"
  shows "\<exists>s'. ready_loop body (last_ready s) (w, s) = Some (fold eff q w, s')"
proof -
  let ?J = "\<lambda>q s. (\<exists>r. sc_ready s = q @ r) \<and> (\<forall>x \<in> set q. runnable x s) \<and> distinct q"
  have front: "(\<exists>r. sc_ready s = (x # q) @ r) \<and> (\<exists>c. sc_cos s x = Some c \<and> co_status c AND BIT STATUS_FDEOF = 0)"
    if "?J (x # q) s" for x q s
    using that by (auto simp: runnable_def split: option.splits)
  have step: "\<exists>s'. nty_coroutine_resume body x (w, s\<lparr>sc_ready := tl (sc_ready s)\<rparr>) = Some (eff x w, s') \<and> ?J q s'"
    if J: "?J (x # q) s" for x q s w
  proof -
    obtain r where r: "sc_ready s = (x # q) @ r" using J by blast
    let ?s = "s\<lparr>sc_ready := tl (sc_ready s)\<rparr>"
    have "sc_cos ?s x \<noteq> None" using J by (auto simp: runnable_def split: option.splits)
    then obtain s' a where s': "nty_coroutine_resume body x (w, ?s) = Some (eff x w, s')" "sc_ready s' = sc_ready ?s @ a"
      "\<And>y. y \<noteq> x \<Longrightarrow> runnable y ?s \<Longrightarrow> runnable y s'"
      using resume_polite [OF p, of ?s x w] by blast
    have "runnable y s'" if "y \<in> set q" for y
      by (rule s'(3)) (use that J in \<open>auto simp: runnable_def\<close>)
    moreover have "sc_ready s' = q @ (r @ a)" using s'(2) r by simp
    ultimately show ?thesis using s'(1) J by auto
  qed
  have "?J q s" using q r by simp
  then obtain s' where "ready_loop body (Some (last q)) (w, s) = Some (fold eff q w, s')"
    using ready_round [of ?J body eff q s w, OF front step _ q(2,3)] by blast
  then show ?thesis using q by (simp add: last_ready_def)
qed

section \<open>The sleepers that are due\<close>

text \<open>What a coroutine \<open>x\<close> may do in its turn: leave those who sleep asleep, with their times, and lie down again itself, for later than
  \<open>T\<close>, unless it ends. It may spawn, queue and wait for descriptors. This is asked for at schedulers with the given birth and with
  less than \<open>N\<close> sleepers, none of whom sleeps until the time that \<open>x\<close> last slept until.\<close>

definition resting :: "u64 \<Rightarrow> nat \<Rightarrow> u64 \<Rightarrow> (nat \<Rightarrow> 'w \<Rightarrow> 'w) \<Rightarrow> (nat \<Rightarrow> 'w \<times> nty_schedule \<Rightarrow> ('w \<times> nty_schedule) option) \<Rightarrow> bool" where
  "resting birth N T eff body \<longleftrightarrow> (\<forall>x w s. sc_cos s x \<noteq> None \<and> sc_birth s = birth \<and> length (sc_sleeping s) < N \<and>
       ordered (sleep_key s) (sc_sleeping s) \<and> (\<forall>y \<in> set (sc_sleeping s). sleep_key s y \<noteq> sleep_key s x) \<longrightarrow>
     (\<exists>s'. body x (w, s) = Some (eff x w, s') \<and> sc_cos s' x \<noteq> None \<and> sc_birth s' = birth \<and>
       ordered (sleep_key s') (sc_sleeping s') \<and> filter (\<lambda>y. y \<noteq> x) (sc_sleeping s') = sc_sleeping s \<and>
       (\<forall>y \<in> set (sc_sleeping s). sleep_key s' y = sleep_key s y) \<and>
       (x \<in> set (sc_sleeping s') \<longrightarrow> T < the (sleep_key s' x) \<and> \<not> ended x s')))"

lemma resume_resting:
  assumes p: "resting birth N T eff body" and x: "sc_cos s x \<noteq> None" and s: "sc_birth s = birth" "length (sc_sleeping s) < N"
    "ordered (sleep_key s) (sc_sleeping s)" "\<forall>y \<in> set (sc_sleeping s). sleep_key s y \<noteq> sleep_key s x"
  shows "\<exists>s'. nty_coroutine_resume body x (w, s) = Some (eff x w, s') \<and> sc_birth s' = birth \<and>
    ordered (sleep_key s') (sc_sleeping s') \<and> filter (\<lambda>y. y \<noteq> x) (sc_sleeping s') = sc_sleeping s \<and>
    (\<forall>y \<in> set (sc_sleeping s). sleep_key s' y = sleep_key s y) \<and> (x \<in> set (sc_sleeping s') \<longrightarrow> T < the (sleep_key s' x))"
proof -
  obtain s1 where s1: "same_beside x s s1" "sleep_key s1 x = sleep_key s x" "sc_cos s1 x \<noteq> None"
    and turn: "\<And>w' s2. body x (w, s1) = Some (w', s2) \<Longrightarrow> sc_cos s2 x \<noteq> None \<Longrightarrow>
      \<exists>s3. nty_coroutine_resume body x (w, s) = Some (w', s3) \<and> same_beside x s2 s3 \<and> (\<not> ended x s2 \<longrightarrow> sc_cos s3 x = sc_cos s2 x)"
    using resume_turn [where body = body and w = w, OF x] by blast
  have key1: "sleep_key s1 y = sleep_key s y" for y using s1(1,2) by (cases "y = x") (simp_all add: sleep_key_def same_beside_def)
  then have f1: "sleep_key s1 = sleep_key s" "sc_sleeping s1 = sc_sleeping s" "sc_birth s1 = sc_birth s"
    using s1(1) by (simp_all add: fun_eq_iff same_beside_def)
  have "sc_cos s1 x \<noteq> None \<and> sc_birth s1 = birth \<and> length (sc_sleeping s1) < N \<and> ordered (sleep_key s1) (sc_sleeping s1) \<and>
      (\<forall>y \<in> set (sc_sleeping s1). sleep_key s1 y \<noteq> sleep_key s1 x)"
    unfolding f1 using s1(3) s by simp
  then obtain s2 where s2: "body x (w, s1) = Some (eff x w, s2)" "sc_cos s2 x \<noteq> None" "sc_birth s2 = birth"
    "ordered (sleep_key s2) (sc_sleeping s2)" "filter (\<lambda>y. y \<noteq> x) (sc_sleeping s2) = sc_sleeping s1"
    "\<forall>y \<in> set (sc_sleeping s1). sleep_key s2 y = sleep_key s1 y"
    "x \<in> set (sc_sleeping s2) \<longrightarrow> T < the (sleep_key s2 x) \<and> \<not> ended x s2"
    using p unfolding resting_def by blast
  obtain s3 where s3: "nty_coroutine_resume body x (w, s) = Some (eff x w, s3)" "same_beside x s2 s3"
    "\<not> ended x s2 \<longrightarrow> sc_cos s3 x = sc_cos s2 x" using turn [OF s2(1,2)] by blast
  have f3: "sc_sleeping s3 = sc_sleeping s2" "sc_birth s3 = sc_birth s2" using s3(2) by (simp_all add: same_beside_def)
  have key3: "sleep_key s3 y = sleep_key s2 y" if "y \<in> set (sc_sleeping s2)" for y
    using that s3(2,3) s2(7) by (cases "y = x") (simp_all add: sleep_key_def same_beside_def)
  have sub: "y \<in> set (sc_sleeping s2)" if "y \<in> set (sc_sleeping s)" for y
    using that arg_cong [OF s2(5), of set] unfolding f1 by auto
  have o3: "ordered (sleep_key s3) (sc_sleeping s3)" unfolding f3 using ordered_cong [of "sc_sleeping s2" "sleep_key s3" "sleep_key s2"] key3 s2(4) by blast
  have keep: "\<forall>y \<in> set (sc_sleeping s). sleep_key s3 y = sleep_key s y" using key3 sub s2(6) unfolding f1 by simp
  have late: "x \<in> set (sc_sleeping s3) \<longrightarrow> T < the (sleep_key s3 x)" using s2(7) key3 [of x] unfolding f3 by auto
  show ?thesis
    by (rule exI [of _ s3]) (intro conjI s3(1) o3 keep late; use s2(3,5) f1 f3 in simp)
qed

text \<open>The state of the loop: \<open>t\<close> are the sleepers that have not had their turn, and everybody else who sleeps does so until after \<open>T\<close>.\<close>

definition still_to_go :: "u64 \<Rightarrow> nat \<Rightarrow> u64 \<Rightarrow> nat list \<Rightarrow> nty_schedule \<Rightarrow> bool" where
  "still_to_go birth N T t s \<longleftrightarrow> ordered (sleep_key s) (sc_sleeping s) \<and> sc_birth s = birth \<and> length (sc_sleeping s) \<le> N \<and>
     filter (\<lambda>y. y \<in> set t) (sc_sleeping s) = t \<and> (\<forall>y \<in> set (sc_sleeping s). y \<notin> set t \<longrightarrow> T < the (sleep_key s y))"

lemma filter_tail:
  assumes "filter (\<lambda>y. y \<in> set (x # t)) (x # r) = x # t" and "x \<notin> set r"
  shows "filter (\<lambda>y. y \<in> set t) r = t" "x \<notin> set t" "set t \<subseteq> set r"
proof -
  have f: "filter (\<lambda>y. y \<in> set (x # t)) r = t" using assms(1) by simp
  then show "set t \<subseteq> set r" by (metis filter_is_subset)
  then show "x \<notin> set t" using assms(2) by blast
  have "filter (\<lambda>y. y \<in> set (x # t)) r = filter (\<lambda>y. y \<in> set t) r" using assms(2) by (auto intro: filter_cong)
  then show "filter (\<lambda>y. y \<in> set t) r = t" using f by simp
qed

lemma filter_beside:
  assumes "filter (\<lambda>y. y \<noteq> x) l = r" and "distinct l" and "x \<notin> set t"
  shows "filter (\<lambda>y. y \<in> set t) l = filter (\<lambda>y. y \<in> set t) r" "length l \<le> Suc (length r)" "set l \<subseteq> insert x (set r)"
proof -
  show s: "set l \<subseteq> insert x (set r)" using arg_cong [OF assms(1), of set] by auto
  have "filter (\<lambda>y. y \<in> set t) l = filter (\<lambda>y. y \<in> set t) (filter (\<lambda>y. y \<noteq> x) l)"
    unfolding filter_filter by (rule filter_cong) (use assms(3) in auto)
  then show "filter (\<lambda>y. y \<in> set t) l = filter (\<lambda>y. y \<in> set t) r" by (simp only: assms(1))
  have "length l = card (set l)" using assms(2) by (simp add: distinct_card)
  also have "\<dots> \<le> card (insert x (set r))" by (rule card_mono) (use s in auto)
  also have "\<dots> \<le> Suc (card (set r))" by (simp add: card_insert_if)
  also have "\<dots> \<le> Suc (length r)" using card_length [of r] by simp
  finally show "length l \<le> Suc (length r)" .
qed

text \<open>When the first sleeper is not due the loop ends.\<close>

lemma loop_stops:
  assumes inv: "still_to_go birth N T t s" and late: "\<forall>z r. sc_sleeping s = z # r \<longrightarrow> nty_coroutine_diff_usecs birth (clk w) < the (sleep_key s z)"
  shows "expired_loop clk body (w, s) = Some (w, s)"
    "\<forall>y \<in> set (sc_sleeping s). nty_coroutine_diff_usecs birth (clk w) < the (sleep_key s y)"
proof -
  let ?now = "nty_coroutine_diff_usecs birth (clk w)"
  have o: "ordered (sleep_key s) (sc_sleeping s)" and b: "sc_birth s = birth" using inv by (simp_all add: still_to_go_def)
  have "expired_loop clk body (w, s) = Some (w, s) \<and> (\<forall>y \<in> set (sc_sleeping s). ?now < the (sleep_key s y))"
  proof (cases "sc_sleeping s")
    case Nil
    then show ?thesis by (subst expired_loop.simps) (simp add: nty_schedule_expired_def rb_first_def)
  next
    case (Cons z r)
    then obtain k where k: "sleep_key s z = Some k" using o by (auto simp: ordered_def)
    then have now: "?now < k" using late Cons by simp
    then have "\<not> k \<le> ?now" by simp
    then have "expired_loop clk body (w, s) = Some (w, s)"
      using k Cons b by (subst expired_loop.simps) (simp add: nty_schedule_expired_def rb_first_def)
    moreover have "?now < the (sleep_key s y)" if "y \<in> set (sc_sleeping s)" for y
    proof -
      have "k \<le> the (sleep_key s y)" using o that k Cons by (auto simp: ordered_def)
      with now show ?thesis by (rule order.strict_trans2)
    qed
    ultimately show ?thesis by blast
  qed
  then show "expired_loop clk body (w, s) = Some (w, s)" "\<forall>y \<in> set (sc_sleeping s). ?now < the (sleep_key s y)" by simp_all
qed

text \<open>When it is due it is the next one of those still to go, and the loop goes on without it.\<close>

lemma loop_step:
  assumes p: "resting birth N T eff body" and inv: "still_to_go birth N T t s" and z: "sc_sleeping s = z # r"
    and due: "the (sleep_key s z) \<le> nty_coroutine_diff_usecs birth (clk w)" and now: "nty_coroutine_diff_usecs birth (clk w) \<le> T"
  shows "\<exists>t1 s1. t = z # t1 \<and> expired_loop clk body (w, s) = expired_loop clk body (eff z w, s1) \<and> still_to_go birth N T t1 s1 \<and>
    (\<forall>y \<in> set t1. sleep_key s1 y = sleep_key s y) \<and> set (sc_sleeping s1) \<subseteq> set (sc_sleeping s)"
proof -
  note i = inv [unfolded still_to_go_def z]
  obtain k where k: "sleep_key s z = Some k" using i by (auto simp: ordered_def)
  have kT: "k \<le> T" using due now k by simp
  then have zt: "z \<in> set t" using i k by (auto simp: not_less)
  then obtain t1 where t: "t = z # t1" using i by (cases t) auto
  let ?s = "s\<lparr>sc_sleeping := r\<rparr>"
  have r: "ordered (sleep_key s) r" "z \<notin> set r" "\<forall>y \<in> set r. sleep_key s y \<noteq> sleep_key s z" using i unfolding ordered_def by auto
  have "filter (\<lambda>y. y \<in> set (z # t1)) (z # r) = z # t1" using i t by simp
  note ft = filter_tail [OF this r(2)]
  have c: "sc_cos ?s z \<noteq> None" "length (sc_sleeping ?s) < N" using k i by (auto simp: sleep_key_def)
  obtain s1 where s1: "nty_coroutine_resume body z (w, ?s) = Some (eff z w, s1)" "sc_birth s1 = birth"
    "ordered (sleep_key s1) (sc_sleeping s1)" "filter (\<lambda>y. y \<noteq> z) (sc_sleeping s1) = r"
    "\<forall>y \<in> set r. sleep_key s1 y = sleep_key s y" "z \<in> set (sc_sleeping s1) \<longrightarrow> T < the (sleep_key s1 z)"
    using resume_resting [OF p c(1) _ c(2), of w] r(1,3) i by auto
  note fb = filter_beside [OF s1(4) ordered_distinct [OF s1(3)] ft(2)]
  have "nty_schedule_expired (clk w) s = Some (Some z, ?s)"
    using k z i due by (simp add: nty_schedule_expired_def rb_first_def rb_remove_def)
  then have step: "expired_loop clk body (w, s) = expired_loop clk body (eff z w, s1)"
    using s1(1) by (subst expired_loop.simps) simp
  have late: "T < the (sleep_key s1 y)" if y: "y \<in> set (sc_sleeping s1)" "y \<notin> set t1" for y
  proof (cases "y = z")
    case False
    then have "y \<in> set r" using fb(3) y(1) by blast
    then show ?thesis using s1(5) i t y(2) False by simp
  qed (use s1(6) y(1) in simp)
  have "length (sc_sleeping s1) \<le> N" using fb(2) i by simp
  then have inv1: "still_to_go birth N T t1 s1" using s1(2,3) fb(1) ft(1) late by (simp add: still_to_go_def)
  have keep: "\<forall>y \<in> set t1. sleep_key s1 y = sleep_key s y" using s1(5) ft(3) by blast
  have sub: "set (sc_sleeping s1) \<subseteq> set (sc_sleeping s)" using fb(3) z by simp
  show ?thesis by (rule exI [of _ t1], rule exI [of _ s1]) (intro conjI t step inv1 keep sub)
qed

text \<open>What holds when the loop has ended and the first \<open>n\<close> of \<open>t\<close> have had their turn.\<close>

definition loop_done :: "u64 \<Rightarrow> u64 \<Rightarrow> u64 \<Rightarrow> nat list \<Rightarrow> nat \<Rightarrow> nty_schedule \<Rightarrow> nty_schedule \<Rightarrow> bool" where
  "loop_done birth T now t n s s' \<longleftrightarrow>
     filter (\<lambda>y. y \<in> set (drop n t)) (sc_sleeping s') = drop n t \<and> (\<forall>y \<in> set (drop n t). sleep_key s' y = sleep_key s y) \<and>
     (\<forall>y \<in> set (sc_sleeping s'). now < the (sleep_key s' y) \<and>
       (y \<notin> set (drop n t) \<longrightarrow> T < the (sleep_key s' y) \<and> y \<in> set (sc_sleeping s)))"

lemma expired_loop_due:
  assumes p: "resting birth N T eff body"
  shows "still_to_go birth N T t s \<Longrightarrow> \<forall>i \<le> length t. nty_coroutine_diff_usecs birth (clk (fold eff (take i t) w)) \<le> T \<Longrightarrow>
    \<exists>n s'. n \<le> length t \<and> expired_loop clk body (w, s) = Some (fold eff (take n t) w, s') \<and>
      (\<forall>i < n. the (sleep_key s (t ! i)) \<le> nty_coroutine_diff_usecs birth (clk (fold eff (take i t) w))) \<and>
      loop_done birth T (nty_coroutine_diff_usecs birth (clk (fold eff (take n t) w))) t n s s'"
proof (induction "length t" arbitrary: t s w rule: less_induct)
  case less
  let ?now = "nty_coroutine_diff_usecs birth (clk w)"
  have now: "?now \<le> T" using less.prems(2) by (auto dest: spec [of _ 0])
  show ?case
  proof (cases "\<forall>z r. sc_sleeping s = z # r \<longrightarrow> ?now < the (sleep_key s z)")
    case True
    note stop = loop_stops(1) [where clk = clk and w = w and body = body, OF less.prems(1) True]
      loop_stops(2) [where clk = clk and w = w, OF less.prems(1) True]
    have "loop_done birth T ?now t 0 s s" using stop(2) less.prems(1) by (simp add: loop_done_def still_to_go_def)
    then show ?thesis using stop(1) by (intro exI [of _ 0] exI [of _ s]) simp
  next
    case False
    then obtain z r where z: "sc_sleeping s = z # r" "the (sleep_key s z) \<le> ?now" by (auto simp: not_less)
    obtain t1 s1 where s1: "t = z # t1" "expired_loop clk body (w, s) = expired_loop clk body (eff z w, s1)" "still_to_go birth N T t1 s1"
      "\<forall>y \<in> set t1. sleep_key s1 y = sleep_key s y" "set (sc_sleeping s1) \<subseteq> set (sc_sleeping s)"
      using loop_step [where clk = clk and w = w, OF p less.prems(1) z now] by (elim exE conjE)
    have clock: "\<forall>i \<le> length t1. nty_coroutine_diff_usecs birth (clk (fold eff (take i t1) (eff z w))) \<le> T"
      using less.prems(2) unfolding s1(1) by (auto dest: spec [of _ "Suc _"])
    obtain n s' where n: "n \<le> length t1" "expired_loop clk body (eff z w, s1) = Some (fold eff (take n t1) (eff z w), s')"
      "\<forall>i < n. the (sleep_key s1 (t1 ! i)) \<le> nty_coroutine_diff_usecs birth (clk (fold eff (take i t1) (eff z w)))"
      "loop_done birth T (nty_coroutine_diff_usecs birth (clk (fold eff (take n t1) (eff z w)))) t1 n s1 s'"
      using less.hyps [OF _ s1(3) clock] s1(1) by auto
    have due: "the (sleep_key s (t ! i)) \<le> nty_coroutine_diff_usecs birth (clk (fold eff (take i t) w))" if "i < Suc n" for i
    proof (cases i)
      case (Suc j)
      then have "j < n" "t1 ! j \<in> set t1" using that n(1) by simp_all
      then show ?thesis using n(3) [rule_format, of j] s1(4) [rule_format, of "t1 ! j"] Suc by (simp add: s1(1))
    qed (use z(2) in \<open>simp add: s1(1)\<close>)
    have "loop_done birth T (nty_coroutine_diff_usecs birth (clk (fold eff (take (Suc n) t) w))) t (Suc n) s s'"
      using n(4) s1(4,5) by (auto simp: loop_done_def s1(1) dest: in_set_dropD)
    then show ?thesis using n(1,2) s1(2) due by (intro exI [of _ "Suc n"] exI [of _ s']) (simp add: s1(1))
  qed
qed

section \<open>Coroutines that run once\<close>

definition runs_once :: "(nat \<Rightarrow> 'w \<Rightarrow> 'w) \<Rightarrow> nat \<Rightarrow> 'w \<times> nty_schedule \<Rightarrow> ('w \<times> nty_schedule) option" where
  "runs_once eff x ws = map_option (Pair (eff x (fst ws))) (exec_end x (snd ws))"

definition only_new :: "nat list \<Rightarrow> nty_schedule \<Rightarrow> bool" where
  "only_new q s \<longleftrightarrow> distinct q \<and> sc_ready s = q \<and> (\<forall>x. x \<notin> set q \<longrightarrow> sc_cos s x = None) \<and>
     (\<forall>x \<in> set q. \<exists>c. sc_cos s x = Some c \<and> co_status c = BIT STATUS_NEW) \<and>
     sc_sleeping s = [] \<and> sc_waiting s = [] \<and> sc_busy s = [] \<and> sc_spawned s = int (length q) \<and> sc_default_timeout s = 3000000"

lemma only_new_create: "only_new [] (nty_schedule_create now)"
  by (simp add: only_new_def nty_schedule_create_def)

lemma only_new_spawn: "only_new q s \<Longrightarrow> distinct (q @ xs) \<Longrightarrow> only_new (q @ xs) (fold nty_coroutine_create xs s)"
proof (induction xs arbitrary: q s)
  case (Cons x xs)
  have "only_new (q @ [x]) (nty_coroutine_create x s)" using Cons.prems by (auto simp: only_new_def nty_coroutine_create_def)
  then have "only_new ((q @ [x]) @ xs) (fold nty_coroutine_create xs (nty_coroutine_create x s))"
    by (rule Cons.IH) (use Cons.prems(2) in simp)
  then show ?case by simp
qed simp

lemma status_bits: "BIT STATUS_NEW \<noteq> 0" "BIT STATUS_NEW AND BIT STATUS_FDEOF = 0"
  "(BIT STATUS_READY OR (BIT STATUS_EXITED OR BIT STATUS_FDEOF OR BIT STATUS_DETACH)) AND BIT STATUS_EXITED \<noteq> 0"
  "(BIT STATUS_READY OR (BIT STATUS_EXITED OR BIT STATUS_FDEOF OR BIT STATUS_DETACH)) AND BIT STATUS_DETACH \<noteq> 0"
  by (simp_all add: BIT_def status_defs)

lemma resume_once:
  assumes "sc_cos s x = Some c" and "co_status c = BIT STATUS_NEW"
  shows "nty_coroutine_resume (runs_once eff) x (w, s) =
    Some (eff x w, s\<lparr>sc_spawned := sc_spawned s - 1, sc_curr_thread := None, sc_cos := (sc_cos s)(x := None)\<rparr>)"
  using assms
  by (simp add: nty_coroutine_resume_def nty_coroutine_init_def runs_once_def exec_end_def nty_coroutine_yield_def upd_co_def
      nty_coroutine_free_def status_bits)

lemma round_once:
  assumes "only_new q s" and "q \<noteq> []"
  shows "\<exists>s'. ready_loop (runs_once eff) (last_ready s) (w, s) = Some (fold eff q w, s') \<and> only_new [] s'"
proof -
  have front: "(\<exists>r. sc_ready s = (x # q) @ r) \<and> (\<exists>c. sc_cos s x = Some c \<and> co_status c AND BIT STATUS_FDEOF = 0)"
    if "only_new (x # q) s" for x q s
    using that status_bits(2) by (auto simp: only_new_def)
  have step: "\<exists>s'. nty_coroutine_resume (runs_once eff) x (w, s\<lparr>sc_ready := tl (sc_ready s)\<rparr>) = Some (eff x w, s') \<and> only_new q s'"
    if J: "only_new (x # q) s" for x q s w
  proof -
    obtain c where c: "sc_cos (s\<lparr>sc_ready := tl (sc_ready s)\<rparr>) x = Some c" "co_status c = BIT STATUS_NEW"
      using J by (auto simp: only_new_def)
    show ?thesis unfolding resume_once [OF c] using J by (auto simp: only_new_def)
  qed
  have "last_ready s = Some (last q)" using assms by (simp add: last_ready_def only_new_def)
  then show ?thesis using ready_round [of only_new "runs_once eff" eff q s w, OF front step assms] assms(1)
    by (simp add: only_new_def)
qed

lemma idle_wait:
  assumes "only_new [] s" shows "epoll_timeout now s = Some (Some (3, 0))"
  using assms by (simp add: only_new_def epoll_timeout_def nty_schedule_min_timeout_def rb_first_def)

lemma run_once:
  assumes q: "only_new q s" "q \<noteq> []" and e: "epoll_wait (3, 0) (fold eff q w) = ([], w')"
  shows "\<exists>s'. nty_schedule_run clk epoll_wait (runs_once eff) (w, s) = Some (w', s') \<and> only_new [] s'"
proof -
  obtain s' where s': "ready_loop (runs_once eff) (last_ready s) (w, s) = Some (fold eff q w, s')" "only_new [] s'"
    using round_once [OF q, of eff w] by (elim exE conjE)
  have nd: "\<not> nty_schedule_isdone s" using q by (simp add: nty_schedule_isdone_def only_new_def)
  have ex: "expired_loop clk (runs_once eff) (w, s) = Some (w, s)"
    using q(1) by (subst expired_loop.simps) (simp add: nty_schedule_expired_def rb_first_def only_new_def)
  have ep: "nty_schedule_epoll clk epoll_wait (fold eff q w, s') = Some ([], w')"
    by (simp add: nty_schedule_epoll_def idle_wait [OF s'(2)] e)
  have "nty_schedule_isdone s'" using s'(2) by (simp add: nty_schedule_isdone_def only_new_def)
  then have d: "nty_schedule_run clk epoll_wait (runs_once eff) (w', s') = Some (w', s')" by (subst nty_schedule_run.simps) simp
  have "nty_schedule_run clk epoll_wait (runs_once eff) (w, s) = Some (w', s')"
    by (subst nty_schedule_run.simps) (simp add: nd ex s'(1) ep d)
  then show ?thesis using s'(2) by blast
qed

section \<open>Waiting for events\<close>

lemma split_arith:
  fixes a b c v n :: nat
  assumes "v = a * 1000000 + b" and "b < 1000000" and "c \<le> b" and "c < 1000" and "n = (if a \<noteq> 0 then c * 1000 else v * 1000)"
  shows "n < 1000000000" "a * 1000000000 + n \<le> v * 1000" "v * 1000 < a * 1000000000 + n + 1000000000"
  using assms by (simp_all split: if_splits)

lemma timeout_split:
  fixes u :: u64
  assumes "(sec, ns) = (if u div 1000000 \<noteq> 0 then (u div 1000000, u mod 1000 * 1000) else (u div 1000000, u * 1000))"
  shows "unat ns < 1000000000" "unat sec * 1000000000 + unat ns \<le> unat u * 1000"
    "unat u * 1000 < unat sec * 1000000000 + unat ns + 1000000000"
proof -
  have "sec = u div 1000000" using assms by (cases "u div 1000000 = 0") simp_all
  then have s: "unat sec = unat u div 1000000" by (simp add: unat_div)
  have n: "unat ns = (if unat u div 1000000 \<noteq> 0 then unat u mod 1000 * 1000 else unat u * 1000)"
  proof (cases "unat u div 1000000 = 0")
    case True
    then have "u div 1000000 = 0" "unat u < 1000000" by (simp_all add: word_unat_eq_iff unat_div div_eq_0_iff)
    then show ?thesis using assms True by (simp add: unat_word_ariths)
  next
    case False
    then have "u div 1000000 \<noteq> 0" by (auto simp: word_unat_eq_iff unat_div)
    moreover have "unat u mod 1000 * 1000 < 2 ^ 64" by (rule order.strict_trans2 [of _ "1000 * 1000"]) simp_all
    ultimately show ?thesis using assms False by (simp add: unat_word_ariths unat_mod)
  qed
  have d: "unat u = unat u div 1000000 * 1000000 + unat u mod 1000000" by simp
  have "unat u mod 1000 = unat u mod 1000000 mod 1000" by (simp add: mod_mod_cancel)
  then have m: "unat u mod 1000 \<le> unat u mod 1000000" by simp
  have r: "unat u mod 1000000 < 1000000" "unat u mod 1000 < 1000" by simp_all
  show "unat ns < 1000000000" "unat sec * 1000000000 + unat ns \<le> unat u * 1000"
    "unat u * 1000 < unat sec * 1000000000 + unat ns + 1000000000"
    unfolding s by (rule split_arith [OF d r(1) m r(2) n])+
qed

end
