(* ===== verification/Nty_Theorems.thy ===== *)
theory Nty_Theorems
  imports Nty_Run
begin

text \<open>
  The properties of the coroutine scheduler, each with an instance.
\<close>

section \<open>An example\<close>

text \<open>One step of the search for a free microsecond, as the instances need it.\<close>

lemma sleep_loop_free:
  "rb_insert (sleep_key s) (sc_sleeping s) x = Some (None, t) \<Longrightarrow>
   sleep_loop x s = upd_co x (\<lambda>c. c\<lparr>co_status := co_status c OR BIT STATUS_SLEEPING\<rparr>) (s\<lparr>sc_sleeping := t\<rparr>)"
  by (subst sleep_loop.simps) simp

definition new_co :: "u32 \<Rightarrow> int \<Rightarrow> u64 \<Rightarrow> nty_coroutine" where
  "new_co st fd t = \<lparr>co_status = st, co_fd = fd, co_events = 0, co_sleep_usecs = t, co_ops = 0, co_id = 0\<rparr>"

text \<open>Coroutine 1 waits for descriptor 7 and sleeps until 5000, coroutine 2 sleeps until 9000, coroutine 3 is ready.\<close>

definition example_sched :: nty_schedule where
  "example_sched = (nty_schedule_create 0)\<lparr>sc_spawned := 3, sc_ready := [3], sc_sleeping := [1, 2], sc_waiting := [1],
     sc_cos := [1 \<mapsto> new_co (BIT STATUS_SLEEPING) 7 5000, 2 \<mapsto> new_co (BIT STATUS_SLEEPING) (-1) 9000, 3 \<mapsto> new_co (BIT STATUS_READY) (-1) 0]\<rparr>"

lemma example_ok: "sched_ok example_sched"
  by (simp add: example_sched_def nty_schedule_create_def sched_ok_def ordered_def sleep_key_def wait_key_def new_co_def)

section \<open>Properties\<close>

text \<open>C11: Any sequence of calls of the scheduler's bookkeeping (spawning, lying down, waiting for a descriptor, its event, the end of the wait,
  expiry, taking the next ready coroutine, yielding, freeing), each made under its precondition, runs to completion from a fresh
  scheduler: no assertion fails, no null or freed coroutine is used, and both trees stay in the order of their keys.\<close>

theorem nty_calls_safe:
  assumes "run_pre nty_step nty_pre cs (nty_schedule_create now)"
  shows "\<exists>s. run_calls nty_step cs (nty_schedule_create now) = Some s \<and> sched_ok s"
  by (rule co.run_ok [OF sched_ok_create assms])

lemmas call_defs = nty_schedule_create_def nty_coroutine_create_def nty_schedule_sched_sleepdown_def nty_schedule_sched_wait_def
  nty_schedule_search_wait_def nty_schedule_desched_wait_def nty_schedule_desched_sleepdown_def nty_schedule_expired_def
  nty_coroutine_renice_def nty_coroutine_yield_def nty_coroutine_free_def ready_tail_def upd_co_def rb_find_def rb_insert_def rb_put_def rb_remove_def rb_first_def
  ordered_def sleep_key_def wait_key_def awaits_def rest_fits_def deadline_of_def nty_coroutine_diff_usecs_def BIT_def status_defs POLLIN_def POLLOUT_def

theorem nty_calls_safe_witness:
  "\<exists>s. run_calls nty_step [Spawn 4, Next, Lie_down 4 5 100, Await 4 7 1 1 100, Event 7, Unwait 7, Renice 4, Expire 9000, Free 4]
     (nty_schedule_create 0) = Some s \<and> sched_ok s"
  by (rule nty_calls_safe) (simp add: call_defs sleep_loop_free Let_def)

text \<open>C14: A coroutine that lies down is put to sleep under the first microsecond from its deadline on at which nobody else sleeps. The
  others keep their times, except that whoever slept until the very time that the coroutine last slept until is no longer asleep: the
  look-up that should find the coroutine itself goes by the old time.\<close>

theorem nty_sleepdown_first_free:
  assumes "sched_ok s" and "sc_cos s x = Some c" and "msecs \<noteq> 0" and "rest_fits msecs now s"
  shows "\<exists>d s'. nty_schedule_sched_sleepdown x msecs now s = Some s' \<and> sleep_key s' x = Some d \<and> deadline_of msecs now s \<le> d \<and>
    set (sc_sleeping s') = insert x {y \<in> set (sc_sleeping s). sleep_key s y \<noteq> Some (co_sleep_usecs c)} \<and>
    ordered (sleep_key s') (sc_sleeping s') \<and> (\<forall>y. y \<noteq> x \<longrightarrow> sleep_key s' y = sleep_key s y) \<and>
    (\<forall>e. deadline_of msecs now s \<le> e \<and> e < d \<longrightarrow> (\<exists>y \<in> set (sc_sleeping s'). y \<noteq> x \<and> sleep_key s' y = Some e))"
proof -
  let ?t = "others_asleep (co_sleep_usecs c) s"
  have o: "ordered (sleep_key s) (sc_sleeping s)" using assms(1) by (simp add: sched_ok_def)
  obtain d where d: "nty_schedule_sched_sleepdown x msecs now s = Some (s\<lparr>sc_sleeping := rb_put (sleep_key s) ?t x d,
      sc_cos := (sc_cos s)(x \<mapsto> c\<lparr>co_sleep_usecs := d, co_status := co_status c OR BIT STATUS_SLEEPING\<rparr>)\<rparr>)"
    "deadline_of msecs now s \<le> d" "\<forall>e. deadline_of msecs now s \<le> e \<and> e < d \<longrightarrow> (\<exists>y \<in> set ?t. sleep_key s y = Some e)"
    using sleepdown_asleep [OF o assms(2,3) assms(4) [unfolded rest_fits_def]] by blast
  let ?s = "s\<lparr>sc_sleeping := rb_put (sleep_key s) ?t x d,
      sc_cos := (sc_cos s)(x \<mapsto> c\<lparr>co_sleep_usecs := d, co_status := co_status c OR BIT STATUS_SLEEPING\<rparr>)\<rparr>"
  have "sched_ok ?s" using sleepdown_ok [OF assms(1,2,4)] d(1) by auto
  then have os: "ordered (sleep_key ?s) (sc_sleeping ?s)" by (simp add: sched_ok_def)
  have k: "sleep_key ?s x = Some d" "\<forall>y. y \<noteq> x \<longrightarrow> sleep_key ?s y = sleep_key s y" by (simp_all add: sleep_key_def)
  have t: "set ?t = {y \<in> set (sc_sleeping s). sleep_key s y \<noteq> Some (co_sleep_usecs c)}" by (auto simp: others_asleep_def)
  then have set: "set (sc_sleeping ?s) = insert x {y \<in> set (sc_sleeping s). sleep_key s y \<noteq> Some (co_sleep_usecs c)}" by simp
  have gap: "\<exists>y \<in> set (sc_sleeping ?s). y \<noteq> x \<and> sleep_key ?s y = Some e" if e: "deadline_of msecs now s \<le> e \<and> e < d" for e
  proof -
    obtain y where y: "y \<in> set ?t" "sleep_key s y = Some e" using d(3) e by blast
    then have "y \<noteq> x" using others_asleep_x [OF assms(2)] by blast
    moreover have "y \<in> set (sc_sleeping ?s)" using y(1) by simp
    ultimately show ?thesis using y(2) k(2) by (intro bexI [of _ y]) simp_all
  qed
  show ?thesis by (rule exI [of _ d], rule exI [of _ ?s]) (intro conjI allI impI d(1,2) k os set k(2) [rule_format]; (assumption | erule gap))
qed

theorem nty_sleepdown_first_free_witness:
  "\<exists>d s'. nty_schedule_sched_sleepdown 3 5 0 example_sched = Some s' \<and> sleep_key s' 3 = Some d \<and> deadline_of 5 0 example_sched \<le> d \<and>
    set (sc_sleeping s') = insert 3 {y \<in> set (sc_sleeping example_sched). sleep_key example_sched y \<noteq> Some (co_sleep_usecs (new_co (BIT STATUS_READY) (-1) 0))} \<and>
    ordered (sleep_key s') (sc_sleeping s') \<and> (\<forall>y. y \<noteq> 3 \<longrightarrow> sleep_key s' y = sleep_key example_sched y) \<and>
    (\<forall>e. deadline_of 5 0 example_sched \<le> e \<and> e < d \<longrightarrow> (\<exists>y \<in> set (sc_sleeping s'). y \<noteq> 3 \<and> sleep_key s' y = Some e))"
  by (rule nty_sleepdown_first_free [OF example_ok])
    (simp_all add: example_sched_def nty_schedule_create_def rest_fits_def deadline_of_def nty_coroutine_diff_usecs_def)

text \<open>C17: When a coroutine that waited with a timeout is woken by its descriptor, the end of the wait leaves it among the sleepers: its
  status was cleared before the test that should take it out. So if it ends then, the freed coroutine stays in the tree, and the
  scheduler reads it when it looks for the first sleeper.\<close>

theorem nty_timer_outlives_wait:
  assumes "sched_ok s" and "awaits fd s"
  shows "\<exists>x s'. nty_schedule_desched_wait fd s = Some (x, s') \<and> wait_key s x = Some fd \<and> x \<notin> set (sc_waiting s') \<and>
    sc_sleeping s' = sc_sleeping s \<and>
    (\<forall>t. sc_sleeping s = x # t \<longrightarrow> (\<exists>s''. nty_coroutine_free x s' = Some s'' \<and> (\<forall>now. nty_schedule_expired now s'' = None)))"
proof -
  obtain x c where x: "x \<in> set (sc_waiting s)" "sc_cos s x = Some c" "co_fd c = fd" "nty_schedule_desched_wait fd s =
      Some (x, s\<lparr>sc_waiting := remove1 x (sc_waiting s), sc_cos := (sc_cos s)(x \<mapsto> c\<lparr>co_status := 0\<rparr>)\<rparr>)"
    by (rule desched_wait_result [OF assms])
  let ?s = "s\<lparr>sc_waiting := remove1 x (sc_waiting s), sc_cos := (sc_cos s)(x \<mapsto> c\<lparr>co_status := 0\<rparr>)\<rparr>"
  let ?f = "?s\<lparr>sc_spawned := sc_spawned s - 1, sc_cos := (sc_cos s)(x := None)\<rparr>"
  have "distinct (sc_waiting s)" using assms(1) ordered_distinct unfolding sched_ok_def by blast
  then have w: "x \<notin> set (sc_waiting ?s)" by simp
  have f: "nty_coroutine_free x ?s = Some ?f" by (simp add: nty_coroutine_free_def)
  have e: "nty_schedule_expired now ?f = None" if "sc_sleeping s = x # t" for t now
    using that by (simp add: nty_schedule_expired_def rb_first_def sleep_key_def)
  have k: "wait_key s x = Some fd" using x(2,3) by (simp add: wait_key_def)
  have sl: "sc_sleeping ?s = sc_sleeping s" by simp
  show ?thesis
    by (rule exI [of _ x], rule exI [of _ ?s]) (intro conjI allI impI x(4) k w sl exI [of _ ?f] f e)
qed

theorem nty_timer_outlives_wait_witness:
  "\<exists>x s'. nty_schedule_desched_wait 7 example_sched = Some (x, s') \<and> wait_key example_sched x = Some 7 \<and> x \<notin> set (sc_waiting s') \<and>
    sc_sleeping s' = sc_sleeping example_sched \<and>
    (\<forall>t. sc_sleeping example_sched = x # t \<longrightarrow> (\<exists>s''. nty_coroutine_free x s' = Some s'' \<and> (\<forall>now. nty_schedule_expired now s'' = None)))"
  by (rule nty_timer_outlives_wait [OF example_ok]) (simp add: example_sched_def awaits_def wait_key_def new_co_def)

text \<open>C12: A round of the ready queue resumes every coroutine that stood in the queue when the round began exactly once and in order,
  whatever else the coroutines do, as long as they only append to the queue and do not end one another.\<close>

theorem nty_ready_round_fair:
  assumes "polite eff body" and "sc_ready s \<noteq> []" and "distinct (sc_ready s)" and "\<forall>x \<in> set (sc_ready s). runnable x s"
  shows "\<exists>s'. ready_loop body (last_ready s) (w, s) = Some (fold eff (sc_ready s) w, s')"
  by (rule ready_round_polite [OF assms(1) refl assms(2-4)])

text \<open>Coroutines that note their turn and queue themselves again.\<close>

definition yields :: "nat \<Rightarrow> nat list \<times> nty_schedule \<Rightarrow> (nat list \<times> nty_schedule) option" where
  "yields x ws = (case ws of (w, s) \<Rightarrow> Some (w @ [x], s\<lparr>sc_ready := sc_ready s @ [x]\<rparr>))"

lemma yields_polite: "polite (\<lambda>x w. w @ [x]) yields"
  by (auto simp: polite_def yields_def runnable_def)

theorem nty_ready_round_fair_witness:
  "\<exists>s'. ready_loop yields (last_ready example_sched) ([], example_sched) = Some (fold (\<lambda>x w. w @ [x]) (sc_ready example_sched) [], s')"
  by (rule nty_ready_round_fair [OF yields_polite])
    (simp_all add: example_sched_def runnable_def new_co_def BIT_def status_defs)

text \<open>C15: The loop over the sleepers, with coroutines that may lie down again: take a bound \<open>T\<close> that the clock does not pass while the
  loop runs, and coroutines that leave the other sleepers alone and lie down, if they do, for later than \<open>T\<close>. Then the loop
  ends; it resumes, in the order of their times, a first part of those who slept when it began, each once and at a moment when
  it is due by the clock; those who had no turn are still asleep, with their times and in their order; who else sleeps then had a turn and
  lay down again for later than \<open>T\<close>; and nobody who sleeps is due.\<close>

theorem nty_expired_loop_due:
  assumes "resting (sc_birth s) (length (sc_sleeping s)) T eff body" and "sched_ok s" and "t = sc_sleeping s"
    and "\<forall>i \<le> length t. nty_coroutine_diff_usecs (sc_birth s) (clk (fold eff (take i t) w)) \<le> T"
  shows "\<exists>n s'. n \<le> length t \<and> expired_loop clk body (w, s) = Some (fold eff (take n t) w, s') \<and>
    (\<forall>i < n. the (sleep_key s (t ! i)) \<le> nty_coroutine_diff_usecs (sc_birth s) (clk (fold eff (take i t) w))) \<and>
    filter (\<lambda>y. y \<in> set (drop n t)) (sc_sleeping s') = drop n t \<and> (\<forall>y \<in> set (drop n t). sleep_key s' y = sleep_key s y) \<and>
    (\<forall>y \<in> set (sc_sleeping s'). nty_coroutine_diff_usecs (sc_birth s) (clk (fold eff (take n t) w)) < the (sleep_key s' y) \<and>
      (y \<notin> set (drop n t) \<longrightarrow> y \<in> set (take n t) \<and> T < the (sleep_key s' y)))"
proof -
  have inv: "still_to_go (sc_birth s) (length (sc_sleeping s)) T t s"
    using assms(2,3) by (simp add: still_to_go_def sched_ok_def filter_id_conv)
  obtain n s' where n: "n \<le> length t" "expired_loop clk body (w, s) = Some (fold eff (take n t) w, s')"
    "\<forall>i < n. the (sleep_key s (t ! i)) \<le> nty_coroutine_diff_usecs (sc_birth s) (clk (fold eff (take i t) w))"
    "loop_done (sc_birth s) T (nty_coroutine_diff_usecs (sc_birth s) (clk (fold eff (take n t) w))) t n s s'"
    using expired_loop_due [OF assms(1) inv assms(4)] by (elim exE conjE)
  have "y \<in> set (take n t) \<or> y \<in> set (drop n t)" if "y \<in> set (sc_sleeping s)" for y
    using that assms(3) append_take_drop_id [of n t] by (metis Un_iff set_append)
  then show ?thesis using n unfolding loop_done_def by (intro exI [of _ n] exI [of _ s']) blast
qed

text \<open>Coroutines that note their turn and lie down again for ten milliseconds, if they have not ended, where the clock stands at 5000.\<close>

definition sleeps_again :: "nat \<Rightarrow> nat list \<times> nty_schedule \<Rightarrow> (nat list \<times> nty_schedule) option" where
  "sleeps_again x ws = (case ws of (w, s) \<Rightarrow>
     if ended x s then Some (w @ [x], s) else map_option (Pair (w @ [x])) (nty_schedule_sched_sleepdown x 10 5000 s))"

lemma or_sleeping:
  "(st OR BIT STATUS_SLEEPING) AND BIT STATUS_EXITED = st AND BIT STATUS_EXITED"
  "(st OR BIT STATUS_SLEEPING) AND BIT STATUS_DETACH = st AND BIT STATUS_DETACH"
  by (simp_all add: bit.conj_disj_distrib2 BIT_def status_defs)

lemma sleeps_again_resting: "resting 0 2 10000 (\<lambda>x w. w @ [x]) sleeps_again"
  unfolding resting_def
proof (intro allI impI, elim conjE)
  fix x s and w :: "nat list"
  assume x: "sc_cos s x \<noteq> None" and b: "sc_birth s = 0" and n: "length (sc_sleeping s) < 2" and o: "ordered (sleep_key s) (sc_sleeping s)"
    and k: "\<forall>y \<in> set (sc_sleeping s). sleep_key s y \<noteq> sleep_key s x"
  have xs: "x \<notin> set (sc_sleeping s)" using k by blast
  then have fs: "filter (\<lambda>y. y \<noteq> x) (sc_sleeping s) = sc_sleeping s" by (auto simp: filter_id_conv)
  show "\<exists>s'. sleeps_again x (w, s) = Some (w @ [x], s') \<and> sc_cos s' x \<noteq> None \<and> sc_birth s' = 0 \<and>
       ordered (sleep_key s') (sc_sleeping s') \<and> filter (\<lambda>y. y \<noteq> x) (sc_sleeping s') = sc_sleeping s \<and>
       (\<forall>y \<in> set (sc_sleeping s). sleep_key s' y = sleep_key s y) \<and>
       (x \<in> set (sc_sleeping s') \<longrightarrow> 10000 < the (sleep_key s' x) \<and> \<not> ended x s')"
  proof (cases "ended x s")
    case True
    then show ?thesis using x b o xs fs by (intro exI [of _ s]) (simp add: sleeps_again_def)
  next
    case False
    obtain c where c: "sc_cos s x = Some c" using x by blast
    have d: "deadline_of 10 5000 s = 15000" by (simp add: deadline_of_def b nty_coroutine_diff_usecs_def)
    have t: "others_asleep (co_sleep_usecs c) s = sc_sleeping s" using k c by (simp add: others_asleep_def filter_id_conv sleep_key_def [of s x])
    obtain e where e: "nty_schedule_sched_sleepdown x 10 5000 s = Some (s\<lparr>sc_sleeping := rb_put (sleep_key s) (sc_sleeping s) x e,
        sc_cos := (sc_cos s)(x \<mapsto> c\<lparr>co_sleep_usecs := e, co_status := co_status c OR BIT STATUS_SLEEPING\<rparr>)\<rparr>)"
      "15000 \<le> e" "\<forall>y \<in> set (sc_sleeping s). sleep_key s y \<noteq> Some e"
      using sleepdown_asleep [OF o c, of 10 5000] n unfolding t d by auto
    let ?s = "s\<lparr>sc_sleeping := rb_put (sleep_key s) (sc_sleeping s) x e,
        sc_cos := (sc_cos s)(x \<mapsto> c\<lparr>co_sleep_usecs := e, co_status := co_status c OR BIT STATUS_SLEEPING\<rparr>)\<rparr>"
    have key: "sleep_key ?s y = sleep_key s y" if "y \<in> set (sc_sleeping s)" for y using that xs by (auto simp: sleep_key_def)
    have kx: "sleep_key ?s x = Some e" by (simp add: sleep_key_def)
    have put: "rb_put (sleep_key s) (sc_sleeping s) x e = rb_put (sleep_key ?s) (sc_sleeping s) x e" by (rule rb_put_cong) (simp add: key)
    have "ordered (sleep_key ?s) (sc_sleeping s)" using o ordered_cong [of "sc_sleeping s" "sleep_key ?s" "sleep_key s"] key by blast
    then have "ordered (sleep_key ?s) (rb_put (sleep_key ?s) (sc_sleeping s) x e)" by (rule rb_put_ordered) (use kx key e(3) in auto)
    then have os: "ordered (sleep_key ?s) (sc_sleeping ?s)" using put by simp
    have "filter (\<lambda>y. y \<noteq> x) (rb_put (sleep_key s) (sc_sleeping s) x e) =
        filter (\<lambda>y. y \<noteq> x) (takeWhile (\<lambda>y. the (sleep_key s y) < e) (sc_sleeping s) @ dropWhile (\<lambda>y. the (sleep_key s y) < e) (sc_sleeping s))"
      unfolding rb_put_def filter_append by simp
    then have f: "filter (\<lambda>y. y \<noteq> x) (sc_sleeping ?s) = sc_sleeping s" using fs by simp
    have keep: "\<forall>y \<in> set (sc_sleeping s). sleep_key ?s y = sleep_key s y" by (intro ballI key)
    have "(10000 :: u64) < e" by (rule order.strict_trans2 [OF _ e(2)]) simp
    moreover have "\<not> ended x ?s" using False c by (simp add: ended_def or_sleeping)
    ultimately have late: "x \<in> set (sc_sleeping ?s) \<longrightarrow> 10000 < the (sleep_key ?s x) \<and> \<not> ended x ?s" using kx by simp
    have r: "sleeps_again x (w, s) = Some (w @ [x], ?s)" "sc_cos ?s x \<noteq> None" "sc_birth ?s = 0" using False e(1) b by (simp_all add: sleeps_again_def)
    show ?thesis by (rule exI [of _ ?s]) (intro conjI r os f keep late)
  qed
qed

theorem nty_expired_loop_due_witness:
  "\<exists>s'. expired_loop (\<lambda>_. 5000) sleeps_again ([], example_sched) = Some ([1], s') \<and>
    filter (\<lambda>y. y = 2) (sc_sleeping s') = [2] \<and> sleep_key s' 2 = Some 9000 \<and> list_all (\<lambda>y. 5000 < the (sleep_key s' y)) (sc_sleeping s')"
proof -
  have t: "[1, 2] = sc_sleeping example_sched" "sc_birth example_sched = 0"
    by (simp_all add: example_sched_def nty_schedule_create_def)
  have key: "sleep_key example_sched 1 = Some 5000" "sleep_key example_sched 2 = Some 9000"
    by (simp_all add: example_sched_def sleep_key_def new_co_def)
  have r: "resting (sc_birth example_sched) (length (sc_sleeping example_sched)) 10000 (\<lambda>x w. w @ [x]) sleeps_again"
    using sleeps_again_resting by (simp add: t(2) numeral_2_eq_2 flip: t(1))
  have clock: "\<forall>i \<le> length [1, 2 :: nat]. nty_coroutine_diff_usecs (sc_birth example_sched) 5000 \<le> 10000"
    by (simp add: t(2) nty_coroutine_diff_usecs_def)
  have now: "nty_coroutine_diff_usecs (sc_birth example_sched) 5000 = 5000" by (simp add: t(2) nty_coroutine_diff_usecs_def)
  obtain n s' where n: "n \<le> length [1, 2 :: nat]"
    "expired_loop (\<lambda>_. 5000) sleeps_again ([], example_sched) = Some (fold (\<lambda>x w. w @ [x]) (take n [1, 2]) [], s')"
    "\<forall>i < n. the (sleep_key example_sched ([1, 2] ! i)) \<le> 5000"
    "filter (\<lambda>y. y \<in> set (drop n [1, 2])) (sc_sleeping s') = drop n [1, 2]" "\<forall>y \<in> set (drop n [1, 2]). sleep_key s' y = sleep_key example_sched y"
    "\<forall>y \<in> set (sc_sleeping s'). 5000 < the (sleep_key s' y) \<and> (y \<notin> set (drop n [1, 2]) \<longrightarrow> y \<in> set (take n [1, 2]) \<and> 10000 < the (sleep_key s' y))"
    using nty_expired_loop_due [where clk = "\<lambda>_. 5000" and w = "[]", OF r example_ok t(1) clock, unfolded now] by (elim exE conjE)
  consider "n = 0" | "n = 1" | "n = 2" using n(1) by fastforce
  then have one: "n = 1"
  proof cases
    case 1
    then have "1 \<in> set (sc_sleeping s')" using arg_cong [OF n(4), of set] by auto
    then have "5000 < the (sleep_key s' 1)" using n(6) by blast
    then show ?thesis using n(5) 1 key(1) by simp
  next
    case 3
    then have "the (sleep_key example_sched ([1, 2] ! 1)) \<le> 5000" using n(3) [rule_format, of 1] by simp
    then show ?thesis using key(2) by simp
  qed
  show ?thesis using n(2,4-6) key(2) unfolding one by (intro exI [of _ s']) (simp add: list_all_iff)
qed

text \<open>C16: If the scheduler waits for events while a coroutine sleeps, no sleeper is due, the time it gives to the wait is well formed and
  ends before the first sleeper is due, less than a second too early.\<close>

theorem nty_wait_bounded:
  assumes "sched_ok s" and "sc_sleeping s = x # t" and "epoll_timeout now s = Some (Some (sec, ns))"
  shows "unat ns < 1000000000 \<and>
    (\<forall>y \<in> set (sc_sleeping s). nty_coroutine_diff_usecs (sc_birth s) now < the (sleep_key s y) \<and>
      unat sec * 1000000000 + unat ns \<le> (unat (the (sleep_key s y)) - unat (nty_coroutine_diff_usecs (sc_birth s) now)) * 1000) \<and>
    (unat (the (sleep_key s x)) - unat (nty_coroutine_diff_usecs (sc_birth s) now)) * 1000 < unat sec * 1000000000 + unat ns + 1000000000"
proof -
  let ?now = "nty_coroutine_diff_usecs (sc_birth s) now"
  have o: "ordered (sleep_key s) (x # t)" using assms(1,2) by (simp add: sched_ok_def)
  obtain k where k: "sleep_key s x = Some k" using o by (auto simp: ordered_def)
  have m: "nty_schedule_min_timeout now s = Some (if k > ?now then k - ?now else 0)"
    using assms(2) k by (simp add: nty_schedule_min_timeout_def rb_first_def Let_def)
  have due: "?now < k" using assms(3) m by (cases "?now < k") (simp_all add: epoll_timeout_def)
  let ?u = "k - ?now"
  have u: "unat ?u = unat k - unat ?now" using due by (simp add: unat_sub)
  have "(sec, ns) = (if ?u div 1000000 \<noteq> 0 then (?u div 1000000, ?u mod 1000 * 1000) else (?u div 1000000, ?u * 1000))"
    using assms(3) m due by (simp add: epoll_timeout_def Let_def split: if_splits)
  note t = timeout_split [OF this, unfolded u]
  have later: "?now < the (sleep_key s y) \<and> unat sec * 1000000000 + unat ns \<le> (unat (the (sleep_key s y)) - unat ?now) * 1000"
    if y: "y \<in> set (sc_sleeping s)" for y
  proof -
    have ky: "k \<le> the (sleep_key s y)" using o y k assms(2) by (auto simp: ordered_def)
    then have "unat k \<le> unat (the (sleep_key s y))" by (simp add: word_le_nat_alt)
    moreover have "?now < the (sleep_key s y)" using due ky by (rule order.strict_trans2)
    ultimately show ?thesis using t(2) by (meson diff_le_mono mult_le_mono1 order_trans)
  qed
  show ?thesis unfolding k option.sel using t(1,3) later by blast
qed

definition idle_sched :: nty_schedule where
  "idle_sched = example_sched\<lparr>sc_ready := []\<rparr>"

theorem nty_wait_bounded_witness:
  "\<exists>sec ns. epoll_timeout 0 idle_sched = Some (Some (sec, ns)) \<and> unat ns < 1000000000 \<and>
    (\<forall>y \<in> set (sc_sleeping idle_sched). nty_coroutine_diff_usecs (sc_birth idle_sched) 0 < the (sleep_key idle_sched y) \<and>
      unat sec * 1000000000 + unat ns \<le> (unat (the (sleep_key idle_sched y)) - unat (nty_coroutine_diff_usecs (sc_birth idle_sched) 0)) * 1000) \<and>
    (unat (the (sleep_key idle_sched 1)) - unat (nty_coroutine_diff_usecs (sc_birth idle_sched) 0)) * 1000 <
      unat sec * 1000000000 + unat ns + 1000000000"
proof -
  have ok: "sched_ok idle_sched" using example_ok by (simp add: sched_ok_def idle_sched_def)
  have first: "sc_sleeping idle_sched = [1, 2]" by (simp add: idle_sched_def example_sched_def)
  have t: "epoll_timeout 0 idle_sched = Some (Some (0, 5000 * 1000))"
    by (simp add: idle_sched_def example_sched_def epoll_timeout_def nty_schedule_min_timeout_def rb_first_def sleep_key_def new_co_def
        nty_coroutine_diff_usecs_def nty_schedule_create_def)
  show ?thesis
    by (rule exI [of _ 0], rule exI [of _ "5000 * 1000"], rule conjI [OF t nty_wait_bounded [OF ok first t]])
qed

text \<open>C13: Coroutines whose functions return without switching are each run exactly once, in the order in which they were spawned, and
  freed; then the scheduler waits once for three seconds, although nobody is left, and ends.\<close>

theorem nty_run_to_end:
  assumes "distinct xs" and "xs \<noteq> []" and "epoll_wait (3, 0) (fold eff xs w) = ([], w')"
  shows "\<exists>s. nty_schedule_run clk epoll_wait (runs_once eff) (w, fold nty_coroutine_create xs (nty_schedule_create now)) = Some (w', s) \<and>
    nty_schedule_isdone s \<and> sc_spawned s = 0 \<and> (\<forall>x. sc_cos s x = None)"
proof -
  have n: "only_new xs (fold nty_coroutine_create xs (nty_schedule_create now))"
    using only_new_spawn [OF only_new_create, of xs] assms(1) by simp
  show ?thesis using run_once [where epoll_wait = epoll_wait and eff = eff and w = w and w' = w' and clk = clk, OF n assms(2,3)] by (auto simp: only_new_def nty_schedule_isdone_def)
qed

theorem nty_run_to_end_witness:
  "\<exists>s. nty_schedule_run (\<lambda>_. 0) (\<lambda>t w. ([], w @ [0])) (runs_once (\<lambda>x w. w @ [x]))
      ([], fold nty_coroutine_create [1, 2] (nty_schedule_create 0)) = Some ([1, 2, 0], s) \<and>
    nty_schedule_isdone s \<and> sc_spawned s = 0 \<and> (\<forall>x. sc_cos s x = None)"
  by (rule nty_run_to_end) simp_all

section \<open>Polling two descriptors\<close>

lemma sleep_loop_waiting:
  assumes "sleep_loop x s = Some s'" shows "sc_waiting s' = sc_waiting s"
proof (rule sleep_loop.raw_induct [where P = "\<lambda>x s s'. sc_waiting s' = sc_waiting s" and xa = "(x, s)", unfolded prod.case, OF _ assms])
  fix f x s s'
  assume IH: "\<And>x s s'. f x s = Some s' \<Longrightarrow> sc_waiting s' = sc_waiting s"
    and r: "(rb_insert (sleep_key s) (sc_sleeping s) x \<bind> (\<lambda>(tmp, t). if tmp \<noteq> None
      then upd_co x (\<lambda>c. c\<lparr>co_sleep_usecs := co_sleep_usecs c + 1\<rparr>) s \<bind> f x
      else upd_co x (\<lambda>c. c\<lparr>co_status := co_status c OR BIT STATUS_SLEEPING\<rparr>) (s\<lparr>sc_sleeping := t\<rparr>))) = Some s'"
  show "sc_waiting s' = sc_waiting s" using r
    by (auto simp: upd_co_def bind_eq_Some_conv split: if_splits dest: IH)
qed

lemma sleepdown_waiting:
  assumes "nty_schedule_sched_sleepdown x msecs now s = Some s'" shows "sc_waiting s' = sc_waiting s"
  using assms
  by (auto simp: nty_schedule_sched_sleepdown_def upd_co_def bind_eq_Some_conv Let_def dest: sleep_loop_waiting split: if_splits)

lemma sched_wait_waiting:
  assumes "nty_schedule_sched_wait x fd ev timeout now s = Some s'" shows "x \<in> set (sc_waiting s')"
proof -
  have "x \<in> set (rb_put (wait_key s2) t x k)" for s2 t k by simp
  then show ?thesis using assms
    by (auto simp: nty_schedule_sched_wait_def upd_co_def rb_insert_def bind_eq_Some_conv Let_def dest: sleepdown_waiting split: if_splits)
qed

text \<open>Polling two descriptors at once never gets to its switch.\<close>

theorem nty_poll_two_fails: "poll_register x timeout now ((fd, ev) # (fd', ev') # fds) s = None"
proof (cases "upd_co x (\<lambda>c. c\<lparr>co_events := ev\<rparr>) s \<bind> nty_schedule_sched_wait x fd ev timeout now")
  case (Some s1)
  then obtain s0 where s0: "upd_co x (\<lambda>c. c\<lparr>co_events := ev\<rparr>) s = Some s0" "nty_schedule_sched_wait x fd ev timeout now s0 = Some s1"
    by (auto simp: bind_eq_Some_conv)
  have w: "x \<in> set (sc_waiting s1)" by (rule sched_wait_waiting [OF s0(2)])
  have "nty_schedule_sched_wait x fd' ev' timeout now s2 = None" if "upd_co x (\<lambda>c. c\<lparr>co_events := ev'\<rparr>) s1 = Some s2" for s2
    by (rule sched_wait_twice) (use that w in \<open>auto simp: upd_co_def\<close>)
  then show ?thesis using s0 by (cases "upd_co x (\<lambda>c. c\<lparr>co_events := ev'\<rparr>) s1") simp_all
qed (auto simp: bind_eq_None_conv)

end
