(* ===== verification/Nty_Tree.thy ===== *)
theory Nty_Tree
  imports Nty_Schedule "HOL-Library.Tree"
begin

text \<open>
  The searches in the trees of \<open>jiagoushi/chap2.7/NtyCo/core/nty_tree.h\<close>: the generated functions \<open>RB_FIND\<close> and \<open>RB_MINMAX\<close>, and the way down and
  the linking of \<open>RB_INSERT\<close>, on a store of nodes (0 is the null pointer). They give what the contract of theory
  \<open>Nty_Schedule\<close> says of the sequence of nodes. Still taken by contract are the recolouring and the rotations at the end of an insertion
  (\<open>RB_INSERT_COLOR\<close>), which leave the sequence of nodes as it is, and \<open>RB_REMOVE\<close>.
\<close>

section \<open>Code\<close>

record rb_node =
  rbe_left :: nat
  rbe_right :: nat
  rbe_parent :: nat
  rbe_color :: int

definition RB_RED :: int where "RB_RED = 1"

definition RB_SET :: "nat \<Rightarrow> rb_node" where
  "RB_SET parent = \<lparr>rbe_left = 0, rbe_right = 0, rbe_parent = parent, rbe_color = RB_RED\<rparr>"

lemma RB_SET_children [simp]: "rbe_left (RB_SET parent) = 0" "rbe_right (RB_SET parent) = 0"
  by (simp_all add: RB_SET_def)

type_synonym rb_store = "nat \<Rightarrow> rb_node option"

text \<open>The two comparison functions, by the key that stands in a coroutine.\<close>

definition nty_cmp :: "(nat \<Rightarrow> 'k::linorder option) \<Rightarrow> nat \<Rightarrow> nat \<Rightarrow> int option" where
  "nty_cmp key co1 co2 = do { a \<leftarrow> key co1; b \<leftarrow> key co2; Some (if a < b then -1 else if a = b then 0 else 1) }"

partial_function (option) RB_FIND :: "rb_store \<Rightarrow> (nat \<Rightarrow> nat \<Rightarrow> int option) \<Rightarrow> nat \<Rightarrow> nat \<Rightarrow> nat option option" where
  "RB_FIND st cmp elm tmp =
     (if tmp = 0 then Some None
      else do {
        side \<leftarrow> cmp elm tmp;
        n \<leftarrow> st tmp;
        if side < 0 then RB_FIND st cmp elm (rbe_left n)
        else if side > 0 then RB_FIND st cmp elm (rbe_right n)
        else Some (Some tmp)
      })"

partial_function (option) RB_MINMAX :: "rb_store \<Rightarrow> int \<Rightarrow> nat \<Rightarrow> nat \<Rightarrow> nat option" where
  "RB_MINMAX st val tmp parent =
     (if tmp = 0 then Some parent
      else do {
        n \<leftarrow> st tmp;
        RB_MINMAX st val (if val < 0 then rbe_left n else rbe_right n) tmp
      })"

text \<open>The way down of an insertion: the node with an equal key, or the node to hang the new one on and the side.\<close>

partial_function (option) insert_down :: "rb_store \<Rightarrow> (nat \<Rightarrow> nat \<Rightarrow> int option) \<Rightarrow> nat \<Rightarrow> nat \<Rightarrow> nat \<Rightarrow> int \<Rightarrow> (nat + nat \<times> int) option" where
  "insert_down st cmp elm tmp parent side =
     (if tmp = 0 then Some (Inr (parent, side))
      else do {
        side \<leftarrow> cmp elm tmp;
        n \<leftarrow> st tmp;
        if side < 0 then insert_down st cmp elm (rbe_left n) tmp side
        else if side > 0 then insert_down st cmp elm (rbe_right n) tmp side
        else Some (Inl tmp)
      })"

definition link_node :: "rb_store \<Rightarrow> nat \<Rightarrow> nat \<Rightarrow> nat \<Rightarrow> int \<Rightarrow> (rb_store \<times> nat) option" where
  "link_node st root elm parent side =
     (let st = st(elm \<mapsto> RB_SET parent)
      in if parent \<noteq> 0
         then map_option (\<lambda>n. (st(parent \<mapsto> if side < 0 then n\<lparr>rbe_left := elm\<rparr> else n\<lparr>rbe_right := elm\<rparr>), root)) (st parent)
         else Some (st, elm))"

text \<open>The insertion up to \<open>RB_INSERT_COLOR\<close>: the node that is there, or none, the store and the root.\<close>

definition insert_node :: "rb_store \<Rightarrow> (nat \<Rightarrow> nat \<Rightarrow> int option) \<Rightarrow> nat \<Rightarrow> nat \<Rightarrow> (nat option \<times> rb_store \<times> nat) option" where
  "insert_node st cmp root elm = do {
     r \<leftarrow> insert_down st cmp elm root 0 0;
     case r of
       Inl tmp \<Rightarrow> Some (Some tmp, st, root)
     | Inr (parent, side) \<Rightarrow> map_option (Pair None) (link_node st root elm parent side)
   }"

section \<open>Trees in the store\<close>

fun tree_at :: "rb_store \<Rightarrow> nat \<Rightarrow> nat tree \<Rightarrow> bool" where
  "tree_at st p Leaf \<longleftrightarrow> p = 0"
| "tree_at st p (Node l x r) \<longleftrightarrow> p = x \<and> x \<noteq> 0 \<and>
     (\<exists>n. st x = Some n \<and> tree_at st (rbe_left n) l \<and> tree_at st (rbe_right n) r)"

lemma tree_at_frame: "tree_at st p t \<Longrightarrow> (\<And>x. x \<in> set_tree t \<Longrightarrow> st' x = st x) \<Longrightarrow> tree_at st' p t"
  by (induction t arbitrary: p) auto

lemma ordered_Node:
  "ordered key (inorder (Node l x r)) \<longleftrightarrow> ordered key (inorder l) \<and> ordered key (inorder r) \<and> key x \<noteq> None \<and>
     (\<forall>y \<in> set (inorder l). the (key y) < the (key x)) \<and> (\<forall>y \<in> set (inorder r). the (key x) < the (key y)) \<and>
     (\<forall>y \<in> set (inorder l). \<forall>z \<in> set (inorder r). the (key y) < the (key z))"
  by (auto simp: ordered_def sorted_wrt_append)

lemma find_append: "find P (xs @ ys) = (case find P xs of None \<Rightarrow> find P ys | Some y \<Rightarrow> Some y)"
  by (induction xs) auto

lemma find_none: "(\<And>y. y \<in> set xs \<Longrightarrow> \<not> P y) \<Longrightarrow> find P xs = None"
  by (simp add: find_None_iff)

text \<open>Finding.\<close>

lemma RB_FIND_contract:
  assumes "key elm = Some k"
  shows "tree_at st p t \<Longrightarrow> ordered key (inorder t) \<Longrightarrow> RB_FIND st (nty_cmp key) elm p = rb_find key (inorder t) k"
proof (induction t arbitrary: p)
  case Leaf
  then show ?case by (subst RB_FIND.simps) (simp add: rb_find_def)
next
  case (Node l x r)
  obtain n where n: "p = x" "x \<noteq> 0" "st x = Some n" "tree_at st (rbe_left n) l" "tree_at st (rbe_right n) r" using Node.prems(1) by auto
  have o: "ordered key (inorder l)" "ordered key (inorder r)" "key x \<noteq> None" "\<forall>y \<in> set (inorder l). the (key y) < the (key x)"
    "\<forall>y \<in> set (inorder r). the (key x) < the (key y)" using Node.prems(2) unfolding ordered_Node by blast+
  obtain b where b: "key x = Some b" using o(3) by blast
  let ?P = "\<lambda>y. key y = Some k"
  have c: "rb_find key (inorder (Node l x r)) k = Some (find ?P (inorder l @ x # inorder r))" using Node.prems(2) by (simp add: rb_find_def)
  have u: "RB_FIND st (nty_cmp key) elm p = (if k < b then RB_FIND st (nty_cmp key) elm (rbe_left n)
      else if k = b then Some (Some x) else RB_FIND st (nty_cmp key) elm (rbe_right n))"
    by (subst RB_FIND.simps) (simp add: n(1-3) nty_cmp_def assms b)
  consider "k < b" | "k = b" | "b < k" by fastforce
  then show ?case
  proof cases
    case 1
    have "find ?P (inorder r) = None" by (rule find_none) (use 1 o(5) b in fastforce)
    then have "find ?P (inorder l @ x # inorder r) = find ?P (inorder l)" using 1 b by (auto simp: find_append split: option.splits)
    then show ?thesis using u 1 c Node.IH(1) [OF n(4) o(1)] rb_find_ordered [OF o(1)] by simp
  next
    case 2
    have "find ?P (inorder l) = None" by (rule find_none) (use 2 o(4) b in fastforce)
    then show ?thesis using u 2 c b by (simp add: find_append)
  next
    case 3
    have "find ?P (inorder l) = None" by (rule find_none) (use 3 o(4) b in fastforce)
    then have "find ?P (inorder l @ x # inorder r) = find ?P (inorder r)" using 3 b by (auto simp: find_append)
    moreover have "\<not> k < b" "k \<noteq> b" using 3 by auto
    ultimately show ?thesis using u c Node.IH(2) [OF n(5) o(2)] rb_find_ordered [OF o(2)] by simp
  qed
qed

text \<open>The first node.\<close>

lemma RB_MIN_down: "tree_at st p t \<Longrightarrow> RB_MINMAX st (-1) p q = Some (if t = Leaf then q else hd (inorder t))"
proof (induction t arbitrary: p q)
  case Leaf
  then show ?case by (subst RB_MINMAX.simps) simp
next
  case (Node l x r)
  then show ?case by (subst RB_MINMAX.simps) (cases l; auto simp: hd_append)
qed

lemma RB_MIN_contract:
  "tree_at st p t \<Longrightarrow> RB_MINMAX st (-1) p 0 = Some (case rb_first (inorder t) of None \<Rightarrow> 0 | Some x \<Rightarrow> x)"
  using RB_MIN_down [of st p t 0] by (cases "inorder t"; cases t) (auto simp: rb_first_def)

section \<open>Insertion\<close>

fun tree_put :: "(nat \<Rightarrow> 'k::linorder option) \<Rightarrow> nat \<Rightarrow> 'k \<Rightarrow> nat tree \<Rightarrow> nat tree" where
  "tree_put key x k Leaf = Node Leaf x Leaf"
| "tree_put key x k (Node l y r) = (if k < the (key y) then Node (tree_put key x k l) y r else Node l y (tree_put key x k r))"

lemma inorder_put:
  "ordered key (inorder t) \<Longrightarrow> \<forall>y \<in> set (inorder t). key y \<noteq> Some k \<Longrightarrow> inorder (tree_put key x k t) = rb_put key (inorder t) x k"
proof (induction t)
  case Leaf
  then show ?case by (simp add: rb_put_def)
next
  case (Node l y r)
  have o: "ordered key (inorder l)" "ordered key (inorder r)" "key y \<noteq> None" "\<forall>z \<in> set (inorder l). the (key z) < the (key y)"
    using Node.prems(1) unfolding ordered_Node by blast+
  let ?P = "\<lambda>z. the (key z) < k"
  show ?case
  proof (cases "k < the (key y)")
    case True
    then have y: "\<not> ?P y" by simp
    have "takeWhile ?P (inorder l @ y # inorder r) = takeWhile ?P (inorder l)"
      "dropWhile ?P (inorder l @ y # inorder r) = dropWhile ?P (inorder l) @ y # inorder r"
      using y by (simp_all add: takeWhile_tail dropWhile_append3)
    then show ?thesis using True Node.IH(1) [OF o(1)] Node.prems(2) by (simp add: rb_put_def)
  next
    case False
    then have y: "?P y" using Node.prems(2) o(3) by auto
    then have l: "\<And>z. z \<in> set (inorder l) \<Longrightarrow> ?P z" using o(4) by (blast intro: order.strict_trans)
    have "takeWhile ?P (inorder l @ y # inorder r) = inorder l @ y # takeWhile ?P (inorder r)"
      "dropWhile ?P (inorder l @ y # inorder r) = dropWhile ?P (inorder r)"
      using y takeWhile_append2 [OF l, of "inorder l"] dropWhile_append2 [OF l, of "inorder l"] by simp_all
    then show ?thesis using False Node.IH(2) [OF o(2)] Node.prems(2) by (simp add: rb_put_def)
  qed
qed

text \<open>The way down ends at the node with an equal key or at the place of the new leaf.\<close>

lemma insert_down_found:
  assumes "key elm = Some k"
  shows "tree_at st p t \<Longrightarrow> ordered key (inorder t) \<Longrightarrow> y \<in> set (inorder t) \<Longrightarrow> key y = Some k \<Longrightarrow>
    insert_down st (nty_cmp key) elm p q c = Some (Inl y)"
proof (induction t arbitrary: p q c)
  case (Node l x r)
  obtain n where n: "p = x" "x \<noteq> 0" "st x = Some n" "tree_at st (rbe_left n) l" "tree_at st (rbe_right n) r" using Node.prems(1) by auto
  have o: "ordered key (inorder l)" "ordered key (inorder r)" "key x \<noteq> None" "\<forall>y \<in> set (inorder l). the (key y) < the (key x)"
    "\<forall>y \<in> set (inorder r). the (key x) < the (key y)" using Node.prems(2) unfolding ordered_Node by blast+
  obtain b where b: "key x = Some b" using o(3) by blast
  have u: "insert_down st (nty_cmp key) elm p q c = (if k < b then insert_down st (nty_cmp key) elm (rbe_left n) x (-1)
      else if k = b then Some (Inl x) else insert_down st (nty_cmp key) elm (rbe_right n) x 1)"
    by (subst insert_down.simps) (simp add: n(1-3) nty_cmp_def assms b)
  consider "y \<in> set (inorder l)" | "y = x" | "y \<in> set (inorder r)" using Node.prems(3) by auto
  then show ?case
  proof cases
    case 1
    then have "k < b" using o(4) b Node.prems(4) by force
    then show ?thesis using u Node.IH(1) [OF n(4) o(1) 1 Node.prems(4)] by simp
  next
    case 2
    then show ?thesis using u b Node.prems(4) by simp
  next
    case 3
    then have "b < k" using o(5) b Node.prems(4) by force
    then have "\<not> k < b" "k \<noteq> b" by auto
    then show ?thesis using u Node.IH(2) [OF n(5) o(2) 3 Node.prems(4)] by simp
  qed
qed simp

lemma insert_down_place:
  assumes "key elm = Some k" and "elm \<noteq> 0"
  shows "tree_at st p t \<Longrightarrow> t \<noteq> Leaf \<Longrightarrow> ordered key (inorder t) \<Longrightarrow> \<forall>y \<in> set (inorder t). key y \<noteq> Some k \<Longrightarrow> elm \<notin> set (inorder t) \<Longrightarrow>
    \<exists>parent side n. insert_down st (nty_cmp key) elm p q c = Some (Inr (parent, side)) \<and> parent \<in> set (inorder t) \<and> parent \<noteq> 0 \<and> st parent = Some n \<and>
      tree_at (st(elm \<mapsto> RB_SET parent, parent \<mapsto> if side < 0 then n\<lparr>rbe_left := elm\<rparr> else n\<lparr>rbe_right := elm\<rparr>)) p
        (tree_put key elm k t)"
proof (induction t arbitrary: p q c)
  case (Node l x r)
  obtain n where n: "p = x" "x \<noteq> 0" "st x = Some n" "tree_at st (rbe_left n) l" "tree_at st (rbe_right n) r" using Node.prems(1) by auto
  have o: "ordered key (inorder l)" "ordered key (inorder r)" "key x \<noteq> None"
    using Node.prems(3) unfolding ordered_Node by blast+
  have d: "x \<notin> set (inorder l)" "x \<notin> set (inorder r)" "set (inorder l) \<inter> set (inorder r) = {}"
    using ordered_distinct [OF Node.prems(3)] by auto
  obtain b where b: "key x = Some b" "b \<noteq> k" using o(3) Node.prems(4) by auto
  have f: "elm \<noteq> x" "elm \<notin> set (inorder l)" "elm \<notin> set (inorder r)" using Node.prems(5) by auto
  have u: "insert_down st (nty_cmp key) elm p q c = (if k < b then insert_down st (nty_cmp key) elm (rbe_left n) x (-1)
      else insert_down st (nty_cmp key) elm (rbe_right n) x 1)"
    using b(2) by (subst insert_down.simps) (auto simp: n(1-3) nty_cmp_def assms b(1))
  have frame: "tree_at (st(elm \<mapsto> RB_SET u, y \<mapsto> m)) s' t'" if "tree_at st s' t'" "elm \<notin> set (inorder t')" "y \<notin> set (inorder t')" for s' t' y m u
    by (rule tree_at_frame [OF that(1)]) (use that(2,3) in auto)
  have leaf: "tree_at (st(elm \<mapsto> RB_SET x, x \<mapsto> m)) elm (Node Leaf elm Leaf)" for m using assms(2) f(1) by simp
  have stop: "insert_down st (nty_cmp key) elm 0 x e = Some (Inr (x, e))" for e by (subst insert_down.simps) simp
  show ?case
  proof (cases "k < b")
    case True
    show ?thesis
    proof (cases "l = Leaf")
      case True
      then have "insert_down st (nty_cmp key) elm p q c = Some (Inr (x, -1))" using u \<open>k < b\<close> n(4) stop by simp
      moreover have "tree_at (st(elm \<mapsto> RB_SET x, x \<mapsto> n\<lparr>rbe_left := elm\<rparr>)) p (tree_put key elm k (Node l x r))"
        using True \<open>k < b\<close> b(1) n(1,2) leaf frame [OF n(5) f(3) d(2)] by simp
      ultimately show ?thesis using n(2,3) by (intro exI [of _ x] exI [of _ "-1"] exI [of _ n]) (simp del: tree_put.simps tree_at.simps fun_upd_apply)
    next
      case False
      have fl: "\<forall>y \<in> set (inorder l). key y \<noteq> Some k" using Node.prems(4) by simp
      obtain y e m where ih: "insert_down st (nty_cmp key) elm (rbe_left n) x (-1) = Some (Inr (y, e))" "y \<in> set (inorder l)" "y \<noteq> 0" "st y = Some m"
        "tree_at (st(elm \<mapsto> RB_SET y, y \<mapsto> if e < 0 then m\<lparr>rbe_left := elm\<rparr> else m\<lparr>rbe_right := elm\<rparr>)) (rbe_left n) (tree_put key elm k l)"
        using Node.IH(1) [OF n(4) False o(1) fl f(2), of x "-1"] by blast
      let ?m = "if e < 0 then m\<lparr>rbe_left := elm\<rparr> else m\<lparr>rbe_right := elm\<rparr>"
      have "y \<noteq> x" "y \<notin> set (inorder r)" using ih(2) d by auto
      then have "tree_at (st(elm \<mapsto> RB_SET y, y \<mapsto> ?m)) p (tree_put key elm k (Node l x r))"
        using \<open>k < b\<close> b(1) n(1-3) ih(5) f(1) frame [OF n(5) f(3)] by simp
      then show ?thesis using u \<open>k < b\<close> ih(1-4) by (intro exI [of _ y] exI [of _ e] exI [of _ m]) (simp del: tree_put.simps tree_at.simps fun_upd_apply)
    qed
  next
    case False
    show ?thesis
    proof (cases "r = Leaf")
      case True
      then have "insert_down st (nty_cmp key) elm p q c = Some (Inr (x, 1))" using u False n(5) stop by simp
      moreover have "tree_at (st(elm \<mapsto> RB_SET x, x \<mapsto> n\<lparr>rbe_right := elm\<rparr>)) p (tree_put key elm k (Node l x r))"
        using True False b(1) n(1,2) leaf frame [OF n(4) f(2) d(1)] by simp
      ultimately show ?thesis using n(2,3) by (intro exI [of _ x] exI [of _ 1] exI [of _ n]) (simp del: tree_put.simps tree_at.simps fun_upd_apply)
    next
      case nonempty: False
      have fr: "\<forall>y \<in> set (inorder r). key y \<noteq> Some k" using Node.prems(4) by simp
      obtain y e m where ih: "insert_down st (nty_cmp key) elm (rbe_right n) x 1 = Some (Inr (y, e))" "y \<in> set (inorder r)" "y \<noteq> 0" "st y = Some m"
        "tree_at (st(elm \<mapsto> RB_SET y, y \<mapsto> if e < 0 then m\<lparr>rbe_left := elm\<rparr> else m\<lparr>rbe_right := elm\<rparr>)) (rbe_right n) (tree_put key elm k r)"
        using Node.IH(2) [OF n(5) nonempty o(2) fr f(3), of x 1] by blast
      let ?m = "if e < 0 then m\<lparr>rbe_left := elm\<rparr> else m\<lparr>rbe_right := elm\<rparr>"
      have "y \<noteq> x" "y \<notin> set (inorder l)" using ih(2) d by auto
      then have "tree_at (st(elm \<mapsto> RB_SET y, y \<mapsto> ?m)) p (tree_put key elm k (Node l x r))"
        using False b(1) n(1-3) ih(5) f(1) frame [OF n(4) f(2)] by simp
      then show ?thesis using u False ih(1-4) by (intro exI [of _ y] exI [of _ e] exI [of _ m]) (simp del: tree_put.simps tree_at.simps fun_upd_apply)
    qed
  qed
qed simp

text \<open>Inserting a node that is not in the tree: the contract's answer, and a tree whose sequence is the contract's.\<close>

lemma insert_node_contract:
  assumes "tree_at st root t" and "ordered key (inorder t)" and "key elm = Some k" and "elm \<noteq> 0" and "elm \<notin> set (inorder t)"
  shows "\<exists>tmp st' root' t'. insert_node st (nty_cmp key) root elm = Some (tmp, st', root') \<and> tree_at st' root' t' \<and>
    rb_insert key (inorder t) elm = Some (tmp, inorder t')"
proof (cases rule: find_cases [of "\<lambda>y. key y = Some k" "inorder t"])
  case (1 y)
  have "insert_down st (nty_cmp key) elm root 0 0 = Some (Inl y)" by (rule insert_down_found [where key = key, OF assms(3,1,2) 1(2,3)])
  then have "insert_node st (nty_cmp key) root elm = Some (Some y, st, root)" by (simp add: insert_node_def)
  moreover have "rb_insert key (inorder t) elm = Some (Some y, inorder t)"
    using assms(3) 1(1) by (simp add: rb_insert_def rb_find_ordered [OF assms(2)])
  ultimately show ?thesis using assms(1) by blast
next
  case 2
  have i: "rb_insert key (inorder t) elm = Some (None, inorder (tree_put key elm k t))"
    using assms(3) 2(1) inorder_put [OF assms(2) 2(2), of elm] by (simp add: rb_insert_def rb_find_ordered [OF assms(2)])
  show ?thesis
  proof (cases "t = Leaf")
    case True
    let ?st = "st(elm \<mapsto> RB_SET 0)"
    have "insert_down st (nty_cmp key) elm root 0 0 = Some (Inr (0, 0))" using True assms(1) by (subst insert_down.simps) simp
    then have "insert_node st (nty_cmp key) root elm = Some (None, ?st, elm)" by (simp add: insert_node_def link_node_def)
    moreover have "tree_at ?st elm (tree_put key elm k t)" using True assms(4) by simp
    ultimately show ?thesis using i by blast
  next
    case False
    obtain parent side n where p: "insert_down st (nty_cmp key) elm root 0 0 = Some (Inr (parent, side))" "parent \<in> set (inorder t)" "parent \<noteq> 0"
      "st parent = Some n"
      "tree_at (st(elm \<mapsto> RB_SET parent, parent \<mapsto> if side < 0 then n\<lparr>rbe_left := elm\<rparr> else n\<lparr>rbe_right := elm\<rparr>)) root
        (tree_put key elm k t)"
      using insert_down_place [where key = key, OF assms(3,4,1) False assms(2) 2(2) assms(5), of 0 0] by blast
    have "parent \<noteq> elm" using p(2) assms(5) by blast
    then have "insert_node st (nty_cmp key) root elm = Some (None, st(elm \<mapsto> RB_SET parent,
        parent \<mapsto> if side < 0 then n\<lparr>rbe_left := elm\<rparr> else n\<lparr>rbe_right := elm\<rparr>), root)"
      using p(1,3,4) by (simp add: insert_node_def link_node_def)
    then show ?thesis using p(5) i by blast
  qed
qed

end
