(* ===== verification/Dns.thy ===== *)
theory Dns
  imports Kcp_Codec Cstring
begin

text \<open>
  The DNS client (\<open>lingshengxueyuan/coroutine/async_dns_client_noblock.c\<close>): the request for the address of a host, and the reading of
  the answer. A 16-bit number lies in memory low byte first, as \<open>ikcp_encode16u\<close> writes it. \<open>None\<close> is a write outside an array, a read outside
  the datagram's buffer, or a name whose pointers never end. What stands in a block from \<open>malloc\<close> and the draw of \<open>random\<close> are arguments;
  sockets, threads and the event loop are not modelled.
\<close>

section \<open>Requests\<close>

definition DNS_HOST :: u16 where "DNS_HOST = 0x01"
definition DNS_CNAME :: u16 where "DNS_CNAME = 0x05"

definition htons :: "u16 \<Rightarrow> u16" where
  "htons w = push_bit 8 w OR drop_bit 8 w"

record dns_header =
  hd_id :: u16
  hd_flags :: u16
  hd_qdcount :: u16
  hd_ancount :: u16
  hd_nscount :: u16
  hd_arcount :: u16

record dns_question =
  q_length :: nat
  q_qtype :: u16
  q_qclass :: u16
  q_qname :: "byte list"

definition dns_create_header :: "u64 \<Rightarrow> dns_header" where
  "dns_create_header rnd =
     (let h = \<lparr>hd_id = 0, hd_flags = 0, hd_qdcount = 0, hd_ancount = 0, hd_nscount = 0, hd_arcount = 0\<rparr>;
          h = h\<lparr>hd_id := ucast rnd\<rparr>;
          h = h\<lparr>hd_flags := hd_flags h OR htons 0x0100\<rparr>;
          h = h\<lparr>hd_qdcount := htons 1\<rparr>
      in h)"

text \<open>The tokens that \<open>strtok\<close> finds between dots.\<close>

function strtok_all :: "byte list \<Rightarrow> byte list list" where
  "strtok_all s = (let s = dropWhile (\<lambda>c. c = 46) s
     in if s = [] then [] else takeWhile (\<lambda>c. c \<noteq> 46) s # strtok_all (dropWhile (\<lambda>c. c \<noteq> 46) s))"
  by pat_completeness auto

lemma dropWhile_hd: "s \<noteq> [] \<Longrightarrow> P (hd s) \<Longrightarrow> length (dropWhile P s) < length s"
  by (cases s) (auto simp: le_imp_less_Suc length_dropWhile_le)

termination strtok_all
proof (relation "measure length", simp)
  fix s x :: "byte list"
  assume x: "x = dropWhile (\<lambda>c. c = 46) s" "x \<noteq> []"
  then have "hd x \<noteq> 46" using hd_dropWhile [of "\<lambda>c. c = 46" s] by simp
  then have "length (dropWhile (\<lambda>c. c \<noteq> 46) x) < length x" by (rule dropWhile_hd [OF x(2)])
  then show "(dropWhile (\<lambda>c. c \<noteq> 46) x, s) \<in> measure length"
    using x(1) length_dropWhile_le [of "\<lambda>c. c = 46" s] by simp
qed

declare strtok_all.simps [simp del]

text \<open>Each token is written behind its length, with a terminator that the next length replaces.\<close>

fun put_tokens :: "byte list \<Rightarrow> nat \<Rightarrow> byte list list \<Rightarrow> byte list option" where
  "put_tokens q p [] = Some q"
| "put_tokens q p (t # ts) = do {
     q \<leftarrow> write_at q p [of_nat (length t)];
     q \<leftarrow> write_at q (p + 1) (t @ [0]);
     put_tokens q (p + 1 + length t) ts
   }"

text \<open>\<open>al n\<close> is the block of \<open>n\<close> bytes that \<open>malloc\<close> gives, or none; the result is \<open>-2\<close> then.\<close>

definition dns_create_question :: "(nat \<Rightarrow> byte list option) \<Rightarrow> byte list \<Rightarrow> (int \<times> dns_question) option" where
  "dns_create_question al hostname =
     (let q = \<lparr>q_length = 0, q_qtype = 0, q_qclass = 0, q_qname = []\<rparr>
      in case al (length hostname + 2) of
           None \<Rightarrow> Some (-2, q)
         | Some block \<Rightarrow> do {
             let q = q\<lparr>q_length := length hostname + 2, q_qtype := htons 1, q_qclass := htons 1\<rparr>;
             name \<leftarrow> put_tokens block 0 (strtok_all hostname);
             Some (0, q\<lparr>q_qname := name\<rparr>)
           })"

definition header_bytes :: "dns_header \<Rightarrow> byte list" where
  "header_bytes h = concat (map (ikcp_encode16u []) [hd_id h, hd_flags h, hd_qdcount h, hd_ancount h, hd_nscount h, hd_arcount h])"

definition dns_build_request :: "dns_header \<Rightarrow> dns_question \<Rightarrow> byte list \<Rightarrow> (nat \<times> byte list) option" where
  "dns_build_request h q buf = do {
     let header_s = 12;
     let question_s = q_length q + 2 + 2;
     let n = question_s + header_s;
     buf \<leftarrow> write_at buf 0 (header_bytes h);
     let offset = 12;
     buf \<leftarrow> write_at buf offset (take (q_length q) (q_qname q));
     let offset = offset + q_length q;
     buf \<leftarrow> write_at buf offset (ikcp_encode16u [] (q_qtype q));
     let offset = offset + 2;
     buf \<leftarrow> write_at buf offset (ikcp_encode16u [] (q_qclass q));
     Some (n, buf)
   }"

section \<open>Answers\<close>

definition is_pointer :: "byte \<Rightarrow> bool" where
  "is_pointer c \<longleftrightarrow> c AND 0xC0 = 0xC0"

definition byte_at :: "byte list \<Rightarrow> nat \<Rightarrow> byte option" where
  "byte_at buf p = (if p < length buf then Some (buf ! p) else None)"

definition bytes_at :: "byte list \<Rightarrow> nat \<Rightarrow> nat \<Rightarrow> byte list option" where
  "bytes_at buf p n = (if p + n \<le> length buf then Some (take n (drop p buf)) else None)"

text \<open>The loop over the labels, at index \<open>p\<close> of the datagram. The write position is always \<open>len\<close> places into \<open>out\<close>, so that
  the call that follows a pointer goes on where the loop stopped.\<close>

partial_function (option) dns_parse_name :: "byte list \<Rightarrow> nat \<Rightarrow> byte list \<Rightarrow> nat \<Rightarrow> (byte list \<times> nat) option" where
  "dns_parse_name buf p out len = do {
     flag \<leftarrow> byte_at buf p;
     if flag = 0 then Some (out, len)
     else if is_pointer flag then do {
       n \<leftarrow> byte_at buf (p + 1);
       dns_parse_name buf (unat n) out len
     } else do {
       let p = p + 1;
       label \<leftarrow> bytes_at buf p (unat flag);
       out \<leftarrow> write_at out len label;
       let p = p + unat flag;
       let len = len + unat flag;
       c \<leftarrow> byte_at buf p;
       if c \<noteq> 0 then do {
         out \<leftarrow> write_at out len [46];
         dns_parse_name buf p out (len + 1)
       } else dns_parse_name buf p out len
     }
   }"

text \<open>The name of a question is stepped over by its lengths.\<close>

function skip_name :: "byte list \<Rightarrow> nat \<Rightarrow> nat option" where
  "skip_name buf p = (if p < length buf
     then if buf ! p = 0 then Some (p + 1) else skip_name buf (p + (unat (buf ! p) + 1))
     else None)"
  by pat_completeness auto
termination by (relation "measure (\<lambda>(buf, p). length buf - p)") auto

declare skip_name.simps [simp del]

fun skip_questions :: "byte list \<Rightarrow> nat \<Rightarrow> nat \<Rightarrow> nat option" where
  "skip_questions buf 0 p = Some p"
| "skip_questions buf (Suc n) p = do { p \<leftarrow> skip_name buf p; skip_questions buf n (p + 4) }"

definition short_at :: "byte list \<Rightarrow> nat \<Rightarrow> u16 option" where
  "short_at buf p = map_option fst (ikcp_decode16u (drop p buf))"

text \<open>The text of an address, as \<open>inet_ntop\<close> writes it.\<close>

definition decimal :: "byte \<Rightarrow> byte list" where
  "decimal b = (let n = unat b; digit = (\<lambda>d. of_nat (48 + d))
     in (if 100 \<le> n then [digit (n div 100)] else []) @ (if 10 \<le> n then [digit (n div 10 mod 10)] else []) @ [digit (n mod 10)])"

definition inet_ntop :: "byte list \<Rightarrow> byte list" where
  "inet_ntop a = (case map decimal a of [a, b, c, d] \<Rightarrow> a @ [46] @ b @ [46] @ c @ [46] @ d | _ \<Rightarrow> [])"

record dns_item =
  domain :: "byte list"
  ip :: "byte list"

text \<open>A text that ends inside its array.\<close>

definition text_of :: "byte list \<Rightarrow> byte list option" where
  "text_of a = (if 0 \<in> set a then Some (takeWhile (\<lambda>c. c \<noteq> 0) a) else None)"

text \<open>The answers from index \<open>p\<close> on. Only the data of the two known types is stepped over.\<close>

fun parse_answers :: "byte list \<Rightarrow> nat \<Rightarrow> nat \<Rightarrow> dns_item list \<Rightarrow> dns_item list option" where
  "parse_answers buf 0 p items = Some items"
| "parse_answers buf (Suc n) p items = do {
     (aname, len) \<leftarrow> dns_parse_name buf p (replicate 128 0) 0;
     let p = p + 2;
     type \<leftarrow> short_at buf p;
     let type = htons type;
     let p = p + 4;
     ttl \<leftarrow> short_at buf p;
     let p = p + 4;
     datalen \<leftarrow> short_at buf p;
     let datalen = unat (htons datalen);
     let p = p + 2;
     if type = DNS_CNAME then do {
       (cname, len) \<leftarrow> dns_parse_name buf p (replicate 128 0) 0;
       parse_answers buf n (p + datalen) items
     } else if type = DNS_HOST then
       if datalen = 4 then do {
         netip \<leftarrow> bytes_at buf p 4;
         name \<leftarrow> text_of aname;
         parse_answers buf n (p + datalen) (items @ [\<lparr>domain = name, ip = inet_ntop netip\<rparr>])
       } else parse_answers buf n (p + datalen) items
     else parse_answers buf n p items
   }"

text \<open>\<open>room\<close> says whether \<open>calloc\<close> gives the list.\<close>

definition dns_parse_response :: "bool \<Rightarrow> byte list \<Rightarrow> (int \<times> dns_item list) option" where
  "dns_parse_response room buf = do {
     querys \<leftarrow> short_at buf 4;
     let querys = unat (htons querys);
     answers \<leftarrow> short_at buf 6;
     let answers = unat (htons answers);
     p \<leftarrow> skip_questions buf querys 12;
     if \<not> room then Some (-1, [])
     else do {
       items \<leftarrow> parse_answers buf answers p [];
       Some (int (length items), items)
     }
   }"


text \<open>The request that \<open>dns_client_commit\<close> sends.\<close>

definition commit_request :: "(nat \<Rightarrow> byte list option) \<Rightarrow> u64 \<Rightarrow> byte list \<Rightarrow> (nat \<times> byte list) option" where
  "commit_request al rnd hostname = do {
     let header = dns_create_header rnd;
     (ret, question) \<leftarrow> dns_create_question al hostname;
     dns_build_request header question (replicate 1024 0)
   }"

section \<open>Host names\<close>

definition label_ok :: "byte list \<Rightarrow> bool" where
  "label_ok l \<longleftrightarrow> l \<noteq> [] \<and> length l < 64 \<and> 46 \<notin> set l \<and> 0 \<notin> set l"

fun dotted :: "byte list list \<Rightarrow> byte list" where
  "dotted [] = []"
| "dotted [l] = l"
| "dotted (l # ls) = l @ 46 # dotted ls"

fun labels :: "byte list list \<Rightarrow> byte list" where
  "labels [] = []"
| "labels (l # ls) = of_nat (length l) # l @ labels ls"

abbreviation wire :: "byte list list \<Rightarrow> byte list" where
  "wire ls \<equiv> labels ls @ [0]"

lemma dotted_Cons: "dotted (l # ls) = (if ls = [] then l else l @ 46 # dotted ls)"
  by (cases ls) simp_all

lemma length_labels: "ls \<noteq> [] \<Longrightarrow> length (labels ls) = length (dotted ls) + 1"
  by (induction ls rule: dotted.induct) auto

lemma strtok_dot: "strtok_all (46 # s) = strtok_all s"
  by (subst (1 2) strtok_all.simps) simp

lemma strtok_label:
  assumes "l \<noteq> []" and "46 \<notin> set l" and "s = [] \<or> hd s = 46"
  shows "strtok_all (l @ s) = l # strtok_all s"
proof -
  obtain c r where l: "l = c # r" "c \<noteq> 46" using assms(1,2) by (cases l) auto
  have t: "takeWhile (\<lambda>c. c \<noteq> 46) (l @ s) = l" "dropWhile (\<lambda>c. c \<noteq> 46) (l @ s) = s"
    using assms(2,3) by (induction l) (cases s; auto)+
  show ?thesis using t by (subst strtok_all.simps) (simp add: l)
qed

lemma strtok_empty [simp]: "strtok_all [] = []"
  by (subst strtok_all.simps) simp

lemma strtok_dotted:
  assumes "\<forall>l \<in> set ls. label_ok l" and "e = [] \<or> e = [46]"
  shows "strtok_all (dotted ls @ e) = ls"
  using assms(1)
proof (induction ls)
  case Nil
  then show ?case using assms(2) by (auto simp: strtok_dot)
next
  case (Cons l ls)
  then have l: "l \<noteq> []" "46 \<notin> set l" by (simp_all add: label_ok_def)
  show ?case
  proof (cases "ls = []")
    case True
    have "strtok_all (l @ e) = l # strtok_all e" by (rule strtok_label [OF l]) (use assms(2) in auto)
    then show ?thesis using True assms(2) by (auto simp: strtok_dot)
  next
    case False
    have "strtok_all (l @ 46 # dotted ls @ e) = l # strtok_all (46 # dotted ls @ e)" by (rule strtok_label [OF l]) simp
    then show ?thesis using False Cons by (simp add: dotted_Cons strtok_dot)
  qed
qed

lemma put_tokens_wire:
  "ts \<noteq> [] \<Longrightarrow> p + length (wire ts) \<le> length q \<Longrightarrow>
   put_tokens q p ts = Some (take p q @ wire ts @ drop (p + length (wire ts)) q)"
proof (induction ts arbitrary: p q)
  case (Cons t ts)
  let ?q = "take p q @ of_nat (length t) # t @ 0 # drop (p + 2 + length t) q"
  have w: "p + 2 + length t \<le> length q" using Cons.prems(2) by simp
  have "put_tokens q p (t # ts) = put_tokens ?q (p + 1 + length t) ts"
  proof -
    define q1 where "q1 = take p q @ [of_nat (length t)] @ drop (p + 1) q"
    have q1: "length q1 = length q" "take (p + 1) q1 = take p q @ [of_nat (length t)]"
      "drop (p + 2 + length t) q1 = drop (p + 2 + length t) q"
      using w by (simp_all add: q1_def ac_simps)
    have "write_at q p [of_nat (length t)] = Some q1" using w by (simp add: write_at_def q1_def)
    moreover have "write_at q1 (p + 1) (t @ [0]) = Some ?q"
      using w q1 by (simp add: write_at_def del: take_append drop_append)
    ultimately show ?thesis by simp
  qed
  moreover have "put_tokens ?q (p + 1 + length t) ts = Some (take p q @ wire (t # ts) @ drop (p + length (wire (t # ts))) q)"
  proof (cases "ts = []")
    case False
    have "put_tokens ?q (p + 1 + length t) ts = Some (take (p + 1 + length t) ?q @ wire ts @ drop (p + 1 + length t + length (wire ts)) ?q)"
      using Cons.prems(2) w by (intro Cons.IH [OF False]) simp
    moreover have "take (p + 1 + length t) ?q = take p q @ of_nat (length t) # t" using w by simp
    moreover have "drop (p + 1 + length t + length (wire ts)) ?q = drop (p + length (wire (t # ts))) q"
      using w by (simp add: drop_Cons' ac_simps)
    ultimately show ?thesis by simp
  qed simp
  ultimately show ?case by simp
qed simp


section \<open>Names\<close>

text \<open>The text of the name that starts at an index: labels up to a zero, or a pointer to where it goes on, of which the code reads the low byte.\<close>

inductive name_at :: "byte list \<Rightarrow> nat \<Rightarrow> byte list \<Rightarrow> bool" for buf where
  stop: "byte_at buf p = Some 0 \<Longrightarrow> name_at buf p []"
| jump: "byte_at buf p = Some c \<Longrightarrow> is_pointer c \<Longrightarrow> byte_at buf (p + 1) = Some n \<Longrightarrow> name_at buf (unat n) t \<Longrightarrow> name_at buf p t"
| label: "byte_at buf p = Some c \<Longrightarrow> c \<noteq> 0 \<Longrightarrow> \<not> is_pointer c \<Longrightarrow> bytes_at buf (p + 1) (unat c) = Some l \<Longrightarrow>
    byte_at buf (p + 1 + unat c) = Some d \<Longrightarrow> name_at buf (p + 1 + unat c) t \<Longrightarrow>
    name_at buf p (l @ (if d = 0 then [] else [46]) @ t)"

text \<open>The array after a text has been written at an index.\<close>

definition put_text :: "byte list \<Rightarrow> nat \<Rightarrow> byte list \<Rightarrow> byte list" where
  "put_text out n t = take n out @ t @ drop (n + length t) out"

lemma write_put: "n + length t \<le> length out \<Longrightarrow> write_at out n t = Some (put_text out n t)"
  by (simp add: write_at_def put_text_def)

lemma length_put [simp]: "n + length t \<le> length out \<Longrightarrow> length (put_text out n t) = length out"
  by (simp add: put_text_def)

lemma put_put: "n + length (s @ t) \<le> length out \<Longrightarrow> put_text (put_text out n s) (n + length s) t = put_text out n (s @ t)"
  by (simp add: put_text_def ac_simps)

lemma put_nil [simp]: "put_text out n [] = out"
  by (simp add: put_text_def)

lemma pointer_nonzero: "is_pointer c \<Longrightarrow> c \<noteq> 0"
  by (auto simp: is_pointer_def)

lemma length_bytes_at: "bytes_at buf p n = Some l \<Longrightarrow> length l = n"
  by (auto simp: bytes_at_def split: if_splits)

lemma name_parsed:
  "name_at buf p t \<Longrightarrow> n + length t \<le> length out \<Longrightarrow> dns_parse_name buf p out n = Some (put_text out n t, n + length t)"
proof (induction arbitrary: out n rule: name_at.induct)
  case (stop p)
  then show ?case by (subst dns_parse_name.simps) simp
next
  case (jump p c m t)
  then show ?case by (subst dns_parse_name.simps) (simp add: pointer_nonzero)
next
  case (label p c l d t)
  let ?e = "if d = 0 then [] else [46 :: byte]"
  have l: "length l = unat c" by (rule length_bytes_at [OF label(4)])
  have w: "write_at out n l = Some (put_text out n l)"
    using label.prems by (intro write_put) simp
  have e: "write_at (put_text out n l) (n + length l) ?e = Some (put_text out n (l @ ?e))"
    using label.prems put_put [of n l ?e out] by (subst write_put) auto
  have ih: "dns_parse_name buf (p + 1 + unat c) (put_text out n (l @ ?e)) (n + length (l @ ?e)) =
      Some (put_text out n (l @ ?e @ t), n + length (l @ ?e @ t))"
    using label.IH [of "n + length (l @ ?e)" "put_text out n (l @ ?e)"] label.prems put_put [of n "l @ ?e" t out]
    by (simp add: ac_simps)
  show ?case using label(1-5) w e ih l
    by (subst dns_parse_name.simps) (auto split: if_splits)
qed

lemma write_at_SomeD: "write_at a n t = Some a' \<Longrightarrow> n + length t \<le> length a \<and> length a' = length a"
  by (auto simp: write_at_def split: if_splits)

lemma parsed_name_raw:
  assumes "dns_parse_name buf p out n = Some r"
  shows "n \<le> length out \<longrightarrow> (\<exists>t. name_at buf p t \<and> n + length t \<le> length out)"
proof (rule dns_parse_name.raw_induct [where P = "\<lambda>buf p out n r. n \<le> length out \<longrightarrow> (\<exists>t. name_at buf p t \<and> n + length t \<le> length out)", OF _ assms])
  fix f buf p out n r
  assume IH: "\<And>buf p out n r. f buf p out n = Some r \<Longrightarrow> n \<le> length out \<longrightarrow> (\<exists>t. name_at buf p t \<and> n + length t \<le> length out)"
    and body: "(do {
     flag \<leftarrow> byte_at buf p;
     if flag = 0 then Some (out, n)
     else if is_pointer flag then do {
       m \<leftarrow> byte_at buf (p + 1);
       f buf (unat m) out n
     } else do {
       let p = p + 1;
       label \<leftarrow> bytes_at buf p (unat flag);
       out \<leftarrow> write_at out n label;
       let p = p + unat flag;
       let n = n + unat flag;
       c \<leftarrow> byte_at buf p;
       if c \<noteq> 0 then do {
         out \<leftarrow> write_at out n [46];
         f buf p out (n + 1)
       } else f buf p out n
     }
   }) = Some r"
  show "n \<le> length out \<longrightarrow> (\<exists>t. name_at buf p t \<and> n + length t \<le> length out)"
  proof
    assume n: "n \<le> length out"
    obtain c where c: "byte_at buf p = Some c" using body by (auto split: bind_splits)
    consider "c = 0" | "c \<noteq> 0" "is_pointer c" | "c \<noteq> 0" "\<not> is_pointer c" by blast
    then show "\<exists>t. name_at buf p t \<and> n + length t \<le> length out"
    proof cases
      case 1
      then have "name_at buf p []" using c by (simp add: name_at.stop)
      then show ?thesis using n by (metis add_0_right list.size(3))
    next
      case 2
      then obtain m where m: "byte_at buf (p + 1) = Some m" "f buf (unat m) out n = Some r"
        using body c by (auto split: bind_splits)
      obtain t where "name_at buf (unat m) t" "n + length t \<le> length out" using IH [OF m(2)] n by blast
      then show ?thesis using name_at.jump [OF c 2(2) m(1)] by blast
    next
      case 3
      then obtain l out1 d where l: "bytes_at buf (p + 1) (unat c) = Some l" and o: "write_at out n l = Some out1"
        and d: "byte_at buf (p + 1 + unat c) = Some d"
        using body c by (auto simp: Let_def split: bind_splits)
      have k: "length l = unat c" by (rule length_bytes_at [OF l])
      have b: "(if d \<noteq> 0 then do { out2 \<leftarrow> write_at out1 (n + unat c) [46]; f buf (p + 1 + unat c) out2 (n + unat c + 1) }
          else f buf (p + 1 + unat c) out1 (n + unat c)) = Some r"
        using body c 3 l o d by (cases "d = 0") (simp_all add: Let_def)
      obtain t where t: "name_at buf (p + 1 + unat c) t" "n + unat c + (if d = 0 then 0 else 1) + length t \<le> length out"
      proof (cases "d = 0")
        case True
        then have "f buf (p + 1 + unat c) out1 (n + unat c) = Some r" using b by simp
        then show thesis using IH that True write_at_SomeD [OF o] k by fastforce
      next
        case False
        then obtain out2 where x: "write_at out1 (n + unat c) [46] = Some out2" "f buf (p + 1 + unat c) out2 (n + unat c + 1) = Some r"
          using b by (auto split: bind_splits)
        have "n + unat c + 1 \<le> length out2" "length out2 = length out"
          using write_at_SomeD [OF x(1)] write_at_SomeD [OF o] by simp_all
        then obtain t where "name_at buf (p + 1 + unat c) t" "n + unat c + 1 + length t \<le> length out"
          using IH [OF x(2)] by auto
        then show thesis using that False by simp
      qed
      then show ?thesis using name_at.label [OF c 3 l d t(1)] k
        by (intro exI [of _ "l @ (if d = 0 then [] else [46]) @ t"]) auto
    qed
  qed
qed


section \<open>Names on the wire\<close>

lemma is_pointer_C0: "is_pointer 0xC0"
  unfolding is_pointer_def by (rule and.idem)

lemma at_drop:
  "drop p buf = c # r \<Longrightarrow> byte_at buf p = Some c \<and> drop (p + 1) buf = r"
  "drop p buf = l @ r \<Longrightarrow> l \<noteq> [] \<Longrightarrow> bytes_at buf p (length l) = Some l \<and> drop (p + length l) buf = r"
proof -
  assume d: "drop p buf = c # r"
  then have "p < length buf" by (metis drop_all list.distinct(1) not_le)
  then show "byte_at buf p = Some c \<and> drop (p + 1) buf = r"
    using d by (simp add: byte_at_def nth_via_drop) (metis drop_Suc list.sel(3) tl_drop)
next
  assume d: "drop p buf = l @ r" and l: "l \<noteq> []"
  then have "length l \<le> length buf - p" by (metis length_append length_drop le_add1)
  moreover have "drop (p + length l) buf = r" using d by (metis add.commute append_eq_conv_conj drop_drop)
  ultimately show "bytes_at buf p (length l) = Some l \<and> drop (p + length l) buf = r"
    using d l by (cases "p \<le> length buf") (auto simp: bytes_at_def)
qed

lemma length_byte: "n < 64 \<Longrightarrow> unat (of_nat n :: byte) = n"
  by (simp add: unat_of_nat)

lemma length_not_pointer: "n < 64 \<Longrightarrow> \<not> is_pointer (of_nat n)"
proof
  assume n: "n < 64" and p: "is_pointer (of_nat n)"
  have "(0xC0 :: byte) \<le> of_nat n" using p word_and_le2 [of "of_nat n" "0xC0 :: byte"] by (simp add: is_pointer_def)
  then show False using n length_byte [OF n] by (simp add: word_le_nat_alt)
qed

lemma length_not_zero: "0 < n \<Longrightarrow> n < 64 \<Longrightarrow> (of_nat n :: byte) \<noteq> 0"
  using length_byte [of n] by auto

lemma name_at_wire:
  "\<forall>l \<in> set ls. label_ok l \<Longrightarrow> drop p buf = wire ls @ r \<Longrightarrow> name_at buf p (dotted ls)"
proof (induction ls arbitrary: p)
  case Nil
  then show ?case using at_drop(1) by (auto intro: name_at.stop)
next
  case (Cons l ls)
  have l: "l \<noteq> []" "length l < 64" using Cons.prems(1) by (simp_all add: label_ok_def)
  let ?c = "of_nat (length l) :: byte"
  have c: "unat ?c = length l" by (rule length_byte [OF l(2)])
  have 1: "byte_at buf p = Some ?c" "drop (p + 1) buf = l @ wire ls @ r"
    using at_drop(1) [of p buf ?c] Cons.prems(2) by simp_all
  have 2: "bytes_at buf (p + 1) (unat ?c) = Some l" "drop (p + 1 + unat ?c) buf = wire ls @ r"
    using at_drop(2) [OF 1(2) l(1)] by (simp_all add: c)
  obtain d where d: "byte_at buf (p + 1 + unat ?c) = Some d" "(d = 0) = (ls = [])"
  proof (cases ls)
    case Nil
    then show thesis using that [of 0] at_drop(1) [of "p + 1 + unat ?c" buf 0 r] 2(2) by simp
  next
    case (Cons k ks)
    then have "k \<noteq> []" "length k < 64" using Cons.prems by (simp_all add: label_ok_def)
    then show thesis using that [of "of_nat (length k)"] at_drop(1) [of "p + 1 + unat ?c" buf "of_nat (length k)"] 2(2)
      length_not_zero [of "length k"] Cons by simp
  qed
  have "name_at buf (p + 1 + unat ?c) (dotted ls)" using Cons.IH [OF _ 2(2)] Cons.prems(1) by simp
  from name_at.label [OF 1(1) _ _ 2(1) d(1) this] show ?case
    using length_not_zero [OF _ l(2)] length_not_pointer [OF l(2)] l(1) d(2) by (auto simp: dotted_Cons)
qed

text \<open>A name that goes on with a pointer after its first labels.\<close>

lemma name_at_compressed:
  assumes "name_at buf (unat lo) t"
  shows "\<forall>l \<in> set ls. label_ok l \<Longrightarrow> drop p buf = labels ls @ [0xC0, lo] @ r \<Longrightarrow>
    name_at buf p (concat (map (\<lambda>l. l @ [46]) ls) @ t)"
proof (induction ls arbitrary: p)
  case Nil
  then have b: "byte_at buf p = Some 0xC0" "drop (p + 1) buf = lo # r" using at_drop(1) [of p buf "0xC0"] by simp_all
  have "byte_at buf (p + 1) = Some lo" using at_drop(1) [OF b(2)] by simp
  then show ?case using name_at.jump [OF b(1) is_pointer_C0 _ assms] by simp
next
  case (Cons l ls)
  have l: "l \<noteq> []" "length l < 64" using Cons.prems(1) by (simp_all add: label_ok_def)
  let ?c = "of_nat (length l) :: byte"
  have c: "unat ?c = length l" by (rule length_byte [OF l(2)])
  have 1: "byte_at buf p = Some ?c" "drop (p + 1) buf = l @ labels ls @ [0xC0, lo] @ r"
    using at_drop(1) [of p buf ?c] Cons.prems(2) by simp_all
  have 2: "bytes_at buf (p + 1) (unat ?c) = Some l" "drop (p + 1 + unat ?c) buf = labels ls @ [0xC0, lo] @ r"
    using at_drop(2) [OF 1(2) l(1)] by (simp_all add: c)
  obtain d where d: "byte_at buf (p + 1 + unat ?c) = Some d" "d \<noteq> 0"
  proof (cases ls)
    case Nil
    then show thesis using that [of "0xC0"] at_drop(1) [of "p + 1 + unat ?c" buf "0xC0"] 2(2) by simp
  next
    case (Cons k ks)
    then have "k \<noteq> []" "length k < 64" using Cons.prems by (simp_all add: label_ok_def)
    then show thesis using that [of "of_nat (length k)"] at_drop(1) [of "p + 1 + unat ?c" buf "of_nat (length k)"] 2(2)
      length_not_zero [of "length k"] Cons by simp
  qed
  have "name_at buf (p + 1 + unat ?c) (concat (map (\<lambda>l. l @ [46]) ls) @ t)" using Cons.IH [OF _ 2(2)] Cons.prems(1) by simp
  from name_at.label [OF 1(1) _ _ 2(1) d(1) this] show ?case
    using length_not_zero [OF _ l(2)] length_not_pointer [OF l(2)] l(1) d(2) by auto
qed

lemma dotted_no_zero: "\<forall>l \<in> set ls. label_ok l \<Longrightarrow> 0 \<notin> set (dotted ls)"
  by (induction ls rule: dotted.induct) (auto simp: label_ok_def)

text \<open>A name read into a cleared array, and its text.\<close>

lemma parse_into_zeros:
  assumes "name_at buf p t" and "length t \<le> 127" and "0 \<notin> set t"
  shows "dns_parse_name buf p (replicate 128 0) 0 = Some (t @ replicate (128 - length t) 0, length t)"
    and "text_of (t @ replicate (128 - length t) 0) = Some t"
proof -
  show "dns_parse_name buf p (replicate 128 0) 0 = Some (t @ replicate (128 - length t) 0, length t)"
    using name_parsed [OF assms(1), of 0 "replicate 128 0"] assms(2) by (simp add: put_text_def)
  have "replicate (128 - length t) (0 :: byte) = 0 # replicate (127 - length t) 0"
    using assms(2) by (simp flip: replicate_Suc add: Suc_diff_le)
  then show "text_of (t @ replicate (128 - length t) 0) = Some t"
    using assms(3) by (simp add: text_of_def takeWhile_append)
qed

section \<open>The request and back\<close>

lemma question_wire:
  assumes "ls \<noteq> []" and "\<forall>l \<in> set ls. label_ok l" and "al (length (dotted ls) + 2) = Some block"
    and "length block = length (dotted ls) + 2"
  shows "dns_create_question al (dotted ls) =
    Some (0, \<lparr>q_length = length (wire ls), q_qtype = htons 1, q_qclass = htons 1, q_qname = wire ls\<rparr>)"
proof -
  have "strtok_all (dotted ls) = ls" using strtok_dotted [OF assms(2), of "[]"] by simp
  moreover have "put_tokens block 0 ls = Some (wire ls)"
    using put_tokens_wire [OF assms(1), of 0 block] assms(4) length_labels [OF assms(1)] by simp
  ultimately show ?thesis using assms(3) length_labels [OF assms(1)] by (simp add: dns_create_question_def Let_def)
qed

lemma length_header_bytes [simp]: "length (header_bytes h) = 12"
  by (simp add: header_bytes_def codec_simps)

lemma request_built:
  assumes "q_length q = length (q_qname q)" and "length (q_qname q) \<le> 1008"
  shows "dns_build_request h q (replicate 1024 0) = Some (q_length q + 16,
    header_bytes h @ q_qname q @ ikcp_encode16u [] (q_qtype q) @ ikcp_encode16u [] (q_qclass q) @ replicate (1008 - q_length q) 0)"
  using assms by (simp add: dns_build_request_def write_at_def codec_simps Let_def)


lemma skip_label:
  assumes "byte_at buf p = Some c" and "c \<noteq> 0"
  shows "skip_name buf p = skip_name buf (p + 1 + unat c)"
  using assms by (subst skip_name.simps) (auto simp: byte_at_def split: if_splits)

lemma skip_wire:
  "\<forall>l \<in> set ls. label_ok l \<Longrightarrow> drop p buf = wire ls @ r \<Longrightarrow> skip_name buf p = Some (p + length (wire ls))"
proof (induction ls arbitrary: p)
  case Nil
  then have "byte_at buf p = Some 0" using at_drop(1) by auto
  then show ?case by (subst skip_name.simps) (auto simp: byte_at_def split: if_splits)
next
  case (Cons l ls)
  have l: "l \<noteq> []" "length l < 64" using Cons.prems(1) by (simp_all add: label_ok_def)
  let ?c = "of_nat (length l) :: byte"
  have c: "unat ?c = length l" by (rule length_byte [OF l(2)])
  have 1: "byte_at buf p = Some ?c" "drop (p + 1) buf = l @ wire ls @ r"
    using at_drop(1) [of p buf ?c] Cons.prems(2) by simp_all
  have "drop (p + 1 + length l) buf = wire ls @ r" using at_drop(2) [OF 1(2) l(1)] by simp
  then have "skip_name buf (p + 1 + length l) = Some (p + 1 + length l + length (wire ls))"
    using Cons.IH [of "p + 1 + length l"] Cons.prems(1) by simp
  then show ?case using skip_label [OF 1(1)] length_not_zero [OF _ l(2)] l(1) c by simp
qed

lemma request_of_host:
  assumes "ls \<noteq> []" and "\<forall>l \<in> set ls. label_ok l" and "length (dotted ls) \<le> 1006"
    and "al (length (dotted ls) + 2) = Some block" and "length block = length (dotted ls) + 2"
  obtains r where "commit_request al rnd (dotted ls) = Some (length (dotted ls) + 18, header_bytes (dns_create_header rnd) @ wire ls @ r)"
proof -
  have n: "length (wire ls) = length (dotted ls) + 2" using length_labels [OF assms(1)] by simp
  show thesis using that question_wire [where al = al and block = block, OF assms(1,2,4,5)] assms(3) n
    by (simp add: commit_request_def request_built)
qed

section \<open>Responses\<close>

lemma htons_htons [simp]: "htons (htons w) = w"
  by (rule bit_word_eqI) (auto simp: htons_def bit_simps)

lemma short_drop: "drop p buf = ikcp_encode16u [] w @ r \<Longrightarrow> short_at buf p = Some w \<and> drop (p + 2) buf = r"
proof -
  assume d: "drop p buf = ikcp_encode16u [] w @ r"
  have n: "length (ikcp_encode16u [] w) = 2" by (simp add: codec_simps)
  then have "ikcp_encode16u [] w \<noteq> []" by auto
  then show ?thesis using at_drop(2) [OF d] by (simp add: short_at_def d c16.dec_enc n)
qed

text \<open>A record of an answer: the owner's name, a pointer to the byte at its low byte; the type; class and time to live; the data, that of
  an address or that of an alias.\<close>

datatype answer_record =
    Address byte "byte list" "byte list"
  | Alias byte "byte list" "byte list"

fun record_bytes :: "answer_record \<Rightarrow> byte list" where
  "record_bytes (Address lo m a) = [0xC0, lo] @ ikcp_encode16u [] (htons DNS_HOST) @ m @ ikcp_encode16u [] (htons (of_nat (length a))) @ a"
| "record_bytes (Alias lo m d) = [0xC0, lo] @ ikcp_encode16u [] (htons DNS_CNAME) @ m @ ikcp_encode16u [] (htons (of_nat (length d))) @ d"

text \<open>The record at an index can be read: the pointer leads to the text of a name that fits, and so does the data of an alias, in
  whatever way it is written (in full, as a pointer, as labels and a pointer).\<close>

fun record_reads :: "byte list \<Rightarrow> nat \<Rightarrow> answer_record \<Rightarrow> byte list \<Rightarrow> bool" where
  "record_reads buf p (Address lo m a) t \<longleftrightarrow>
     name_at buf (unat lo) t \<and> length t \<le> 127 \<and> 0 \<notin> set t \<and> length m = 6 \<and> length a < 65536"
| "record_reads buf p (Alias lo m d) t \<longleftrightarrow>
     name_at buf (unat lo) t \<and> length t \<le> 127 \<and> 0 \<notin> set t \<and> length m = 6 \<and> length d < 65536 \<and>
     (\<exists>c. name_at buf (p + 12) c \<and> length c \<le> 128)"

text \<open>Records one after another, with the names of their owners.\<close>

fun records_read :: "byte list \<Rightarrow> nat \<Rightarrow> answer_record list \<Rightarrow> byte list list \<Rightarrow> bool" where
  "records_read buf p (rec # rs) (t # ts) \<longleftrightarrow> record_reads buf p rec t \<and> records_read buf (p + length (record_bytes rec)) rs ts"
| "records_read buf p rs ts \<longleftrightarrow> rs = [] \<and> ts = []"

text \<open>What the list of addresses holds then: the addresses of four bytes, under their owners' names.\<close>

fun listed :: "answer_record \<Rightarrow> byte list \<Rightarrow> dns_item list" where
  "listed (Address lo m a) t = (if length a = 4 then [\<lparr>domain = t, ip = inet_ntop a\<rparr>] else [])"
| "listed (Alias lo m d) t = []"

lemma drop_plus: "drop p buf = x @ r \<Longrightarrow> drop (p + length x) buf = r"
  by (metis add.commute append_eq_conv_conj drop_drop)

text \<open>The fixed part of a record: the pointer, the type, class and time to live, the length of the data.\<close>

lemma record_head:
  assumes "drop p buf = [0xC0, lo] @ ikcp_encode16u [] t @ m @ ikcp_encode16u [] n @ r" and "length m = 6"
  shows "byte_at buf p = Some 0xC0" "byte_at buf (p + 1) = Some lo" "short_at buf (p + 2) = Some t"
    "short_at buf (p + 6) \<noteq> None" "short_at buf (p + 10) = Some n" "drop (p + 12) buf = r"
proof -
  show "byte_at buf p = Some 0xC0" and 1: "byte_at buf (p + 1) = Some lo"
    using at_drop(1) [of p buf "0xC0"] at_drop(1) [of "p + 1" buf lo] assms(1) by simp_all
  have "drop (p + 2) buf = ikcp_encode16u [] t @ m @ ikcp_encode16u [] n @ r"
    using drop_plus [of p buf "[0xC0, lo]"] assms(1) by simp
  moreover have "p + 2 + 2 = p + 4" "p + 10 + 2 = p + 12" "p + 4 + 6 = p + 10" "p + 4 + 2 = p + 6" by simp_all
  note e = this
  ultimately have t: "short_at buf (p + 2) = Some t" and d4: "drop (p + 4) buf = m @ ikcp_encode16u [] n @ r"
    using short_drop [of "p + 2" buf t] unfolding e by blast+
  show "short_at buf (p + 2) = Some t" by (rule t)
  have "drop (p + 10) buf = ikcp_encode16u [] n @ r" using drop_plus [OF d4] unfolding assms(2) e .
  then show "short_at buf (p + 10) = Some n" "drop (p + 12) buf = r" using short_drop [of "p + 10" buf n r] unfolding e by blast+
  have "drop (p + 4) buf = take 2 m @ (drop 2 m @ ikcp_encode16u [] n @ r)"
    using d4 by (metis append_assoc append_take_drop_id)
  moreover have "length (take 2 m) = 2" using assms(2) by simp
  ultimately have "drop (p + 6) buf = drop 2 m @ ikcp_encode16u [] n @ r"
    using drop_plus [of "p + 4" buf "take 2 m"] e(4) by metis
  then show "short_at buf (p + 6) \<noteq> None" using assms(2)
    by (simp add: short_at_def c16.dec_defined [simplified])
qed

lemma host_not_cname: "DNS_HOST \<noteq> DNS_CNAME"
  by (simp add: DNS_HOST_def DNS_CNAME_def)

text \<open>The owner's name of a record.\<close>

lemma owner_read:
  assumes "byte_at buf p = Some 0xC0" and "byte_at buf (p + 1) = Some lo"
    and "name_at buf (unat lo) t" and "length t \<le> 127" and "0 \<notin> set t"
  shows "dns_parse_name buf p (replicate 128 0) 0 = Some (t @ replicate (128 - length t) 0, length t)"
    and "text_of (t @ replicate (128 - length t) 0) = Some t"
  using parse_into_zeros [OF name_at.jump [OF assms(1) is_pointer_C0 assms(2,3)] assms(4,5)] .

lemma length_read: "n < 65536 \<Longrightarrow> unat (htons (htons (of_nat n :: u16))) = n"
  unfolding htons_htons by (simp add: unat_of_nat)

text \<open>One record in front of others: an address is listed, an alias stepped over.\<close>

lemma parse_record:
  assumes reads: "record_reads buf p rec t" and d: "drop p buf = record_bytes rec @ r"
  shows "parse_answers buf (Suc n) p items = parse_answers buf n (p + length (record_bytes rec)) (items @ listed rec t)"
proof -
  define q where "q = dns_parse_name buf p (replicate 128 0) 0"
  have p: "p + 2 + 4 = p + 6" "p + 6 + 4 = p + 10" "p + 10 + 2 = p + 12" by simp_all
  show ?thesis
  proof (cases rec)
    case (Address lo m a)
    then have l: "name_at buf (unat lo) t" "length t \<le> 127" "0 \<notin> set t" "length m = 6" "length a < 65536" using reads by simp_all
    have "drop p buf = [0xC0, lo] @ ikcp_encode16u [] (htons DNS_HOST) @ m @ ikcp_encode16u [] (htons (of_nat (length a))) @ a @ r"
      using d Address by simp
    note h = record_head [OF this l(4)]
    note name = owner_read [OF h(1,2) l(1-3), folded q_def]
    obtain ttl where ttl: "short_at buf (p + 6) = Some ttl" using h(4) by auto
    have n: "length (record_bytes rec) = 12 + length a" using l Address by (simp add: codec_simps)
    have b: "bytes_at buf (p + 12) 4 = Some a" if "length a = 4"
    proof -
      have "a \<noteq> []" using that by auto
      then show ?thesis using at_drop(2) [OF h(6)] that by simp
    qed
    show ?thesis unfolding parse_answers.simps q_def [symmetric] name(1) Let_def p
      h(3,5) ttl Option.bind.simps prod.case length_read [OF l(5)] n
      using b name(2) by (simp add: Address host_not_cname ac_simps)
  next
    case (Alias lo m x)
    then have l: "name_at buf (unat lo) t" "length t \<le> 127" "0 \<notin> set t" "length m = 6" "length x < 65536" using reads by simp_all
    obtain c where c: "name_at buf (p + 12) c" "length c \<le> 128" using reads Alias by auto
    have "drop p buf = [0xC0, lo] @ ikcp_encode16u [] (htons DNS_CNAME) @ m @ ikcp_encode16u [] (htons (of_nat (length x))) @ x @ r"
      using d Alias by simp
    note h = record_head [OF this l(4)]
    note name = owner_read [OF h(1,2) l(1-3), folded q_def]
    obtain ttl where ttl: "short_at buf (p + 6) = Some ttl" using h(4) by auto
    obtain v where v: "dns_parse_name buf (p + 12) (replicate 128 0) 0 = Some v"
      using name_parsed [OF c(1), of 0 "replicate 128 0"] c(2) by simp
    have n: "length (record_bytes rec) = 12 + length x" using l Alias by (simp add: codec_simps)
    show ?thesis unfolding parse_answers.simps q_def [symmetric] name(1) Let_def p
      h(3,5) ttl Option.bind.simps prod.case length_read [OF l(5)] v n by (simp add: Alias ac_simps split: prod.splits)
  qed
qed

lemma parse_records:
  "records_read buf p rs ts \<Longrightarrow> drop p buf = concat (map record_bytes rs) @ r \<Longrightarrow>
    parse_answers buf (length rs) p items = Some (items @ concat (map2 listed rs ts))"
proof (induction buf p rs ts arbitrary: items rule: records_read.induct)
  case (1 buf p rec rs t ts)
  have d: "drop p buf = record_bytes rec @ (concat (map record_bytes rs) @ r)" using "1.prems"(2) by simp
  have reads: "record_reads buf p rec t" "records_read buf (p + length (record_bytes rec)) rs ts" using "1.prems"(1) by simp_all
  show ?case using parse_record [OF reads(1) d, of "length rs" items] "1.IH" [OF reads(2) drop_plus [OF d]] by simp
qed auto

text \<open>A question: a name, and four bytes of type and class.\<close>

definition question_bytes :: "byte list list \<times> byte list \<Rightarrow> byte list" where
  "question_bytes q = wire (fst q) @ snd q"

definition question_ok :: "byte list list \<times> byte list \<Rightarrow> bool" where
  "question_ok q \<longleftrightarrow> (\<forall>l \<in> set (fst q). label_ok l) \<and> length (snd q) = 4"

lemma questions_skipped:
  "\<forall>q \<in> set qs. question_ok q \<Longrightarrow> drop p buf = concat (map question_bytes qs) @ r \<Longrightarrow>
    skip_questions buf (length qs) p = Some (p + length (concat (map question_bytes qs)))"
proof (induction qs arbitrary: p)
  case (Cons q qs)
  have q: "\<forall>l \<in> set (fst q). label_ok l" "length (snd q) = 4" using Cons.prems(1) by (simp_all add: question_ok_def)
  have b: "question_bytes q = wire (fst q) @ snd q" by (simp only: question_bytes_def)
  have d: "drop p buf = wire (fst q) @ (snd q @ concat (map question_bytes qs) @ r)" using Cons.prems(2) by (simp add: b)
  have "drop (p + length (wire (fst q))) buf = snd q @ (concat (map question_bytes qs) @ r)" by (rule drop_plus [OF d])
  then have "drop (p + length (wire (fst q)) + 4) buf = concat (map question_bytes qs) @ r" using drop_plus [of _ buf "snd q"] q(2) by metis
  from Cons.IH [OF _ this] show ?case using skip_wire [OF q(1) d] Cons.prems(1) q(2) by (simp add: b ac_simps)
qed simp

text \<open>A response: identifier and flags, the numbers of questions and of answers, two more numbers, the questions and the records.\<close>

definition response :: "byte list \<Rightarrow> byte list \<Rightarrow> (byte list list \<times> byte list) list \<Rightarrow> answer_record list \<Rightarrow> byte list" where
  "response front back qs rs = front @ ikcp_encode16u [] (htons (of_nat (length qs))) @ ikcp_encode16u [] (htons (of_nat (length rs))) @ back @
     concat (map question_bytes qs) @ concat (map record_bytes rs)"

section \<open>Properties\<close>

text \<open>C18: Reading a name ends inside the datagram and the array exactly when the pointers lead to an end and the text fits, and then it writes the text and nothing else.\<close>

theorem dns_parse_name_exact:
  assumes "n \<le> length out"
  shows "dns_parse_name buf p out n = Some r \<longleftrightarrow>
    (\<exists>t. name_at buf p t \<and> n + length t \<le> length out \<and> r = (put_text out n t, n + length t))"
proof
  assume d: "dns_parse_name buf p out n = Some r"
  then obtain t where "name_at buf p t" "n + length t \<le> length out" using parsed_name_raw [OF d] assms by blast
  then show "\<exists>t. name_at buf p t \<and> n + length t \<le> length out \<and> r = (put_text out n t, n + length t)"
    using name_parsed d by (intro exI [of _ t]) simp
qed (use name_parsed in blast)

theorem dns_parse_name_exact_witness:
  "dns_parse_name [0, 1, 97, 0xC0, 0] 1 (replicate 4 0) 0 = Some ([97, 46, 0, 0], 2)"
proof -
  let ?b = "[0, 1, 97, 0xC0, 0] :: byte list"
  have "name_at ?b 3 []"
    by (rule name_at.jump [of _ _ "0xC0" 0]) (simp_all add: byte_at_def is_pointer_C0 name_at.stop)
  then have "name_at ?b 1 ([97] @ (if (0xC0 :: byte) = 0 then [] else [46]) @ [])"
    using length_not_pointer [of 1]
    by (intro name_at.label [where c = 1]) (simp_all add: byte_at_def bytes_at_def eval_nat_numeral)
  then have "name_at ?b 1 [97, 46]" unfolding if_not_P [OF pointer_nonzero [OF is_pointer_C0]] by simp
  then show ?thesis using dns_parse_name_exact [of 0 "replicate 4 0" ?b 1 "([97, 46, 0, 0], 2)"]
    by (auto simp: put_text_def numeral_eq_Suc)
qed

text \<open>C20: The request for a host name carries the name so that reading it back gives the host, and stepping over it leads to the type and class.\<close>

theorem dns_request_roundtrip:
  assumes "ls \<noteq> []" and "\<forall>l \<in> set ls. label_ok l" and "length (dotted ls) \<le> 127"
    and "al (length (dotted ls) + 2) = Some block" and "length block = length (dotted ls) + 2"
  shows "\<exists>n buf. commit_request al rnd (dotted ls) = Some (n, buf) \<and> n = length (dotted ls) + 18 \<and>
    dns_parse_name buf 12 (replicate 128 0) 0 = Some (dotted ls @ replicate (128 - length (dotted ls)) 0, length (dotted ls)) \<and>
    skip_name buf 12 = Some (n - 4)"
proof -
  have h: "length (dotted ls) \<le> 1006" using assms(3) by simp
  obtain r where c: "commit_request al rnd (dotted ls) = Some (length (dotted ls) + 18, header_bytes (dns_create_header rnd) @ wire ls @ r)"
    using assms(1,2) h assms(4,5) by (rule request_of_host)
  have d: "drop 12 (header_bytes (dns_create_header rnd) @ wire ls @ r) = wire ls @ r" by simp
  show ?thesis using c parse_into_zeros(1) [OF name_at_wire [OF assms(2) d] assms(3) dotted_no_zero [OF assms(2)]]
    skip_wire [OF assms(2) d] length_labels [OF assms(1)] by simp
qed

theorem dns_request_roundtrip_witness:
  "\<exists>n buf. commit_request (\<lambda>n. Some (replicate n 255)) 7 [97, 98, 46, 99] = Some (n, buf) \<and> n = 22 \<and>
    dns_parse_name buf 12 (replicate 128 0) 0 = Some ([97, 98, 46, 99] @ replicate 124 0, 4) \<and> skip_name buf 12 = Some (n - 4)"
proof -
  have r: "replicate 6 (255 :: byte) = [255, 255, 255, 255, 255, 255]" by (simp add: numeral_eq_Suc)
  have d: "dotted [[97, 98], [99]] = [97, 98, 46, 99 :: byte]" "length [97, 98, 46, 99 :: byte] = 4" by simp_all
  have "\<exists>n buf. commit_request (\<lambda>n. Some (replicate n 255)) 7 (dotted [[97, 98], [99]]) = Some (n, buf) \<and> n = length (dotted [[97, 98], [99]]) + 18 \<and>
    dns_parse_name buf 12 (replicate 128 0) 0 =
      Some (dotted [[97, 98], [99]] @ replicate (128 - length (dotted [[97, 98], [99]])) 0, length (dotted [[97, 98], [99]])) \<and>
    skip_name buf 12 = Some (n - 4)"
    by (rule dns_request_roundtrip [where block = "[255, 255, 255, 255, 255, 255]"]) (simp_all add: label_ok_def r)
  then show ?thesis unfolding d by simp
qed

text \<open>C19: A response with any number of questions and any number of address and alias records, whose owners are pointers into the
  first 256 bytes of the datagram to names that can be read there and have fewer than 128 bytes, gives, when \<open>calloc\<close> succeeds, the list of the four-byte addresses in order, each under the name
  of its own record's owner; so the address at the end of a chain of aliases is listed under the last alias.\<close>

theorem dns_response_parsed:
  assumes "length front = 4" and "length back = 4" and "\<forall>q \<in> set qs. question_ok q" and "length qs < 65536" and "length rs < 65536"
    and "buf = response front back qs rs @ pad" and "records_read buf (12 + length (concat (map question_bytes qs))) rs ts"
  shows "dns_parse_response True buf = Some (int (length (concat (map2 listed rs ts))), concat (map2 listed rs ts))"
proof -
  let ?k = "of_nat (length qs) :: u16" and ?n = "of_nat (length rs) :: u16"
  let ?q = "concat (map question_bytes qs)" and ?r = "concat (map record_bytes rs) @ pad"
  have "drop 4 buf = ikcp_encode16u [] (htons ?k) @ (ikcp_encode16u [] (htons ?n) @ back @ ?q @ ?r)"
    using assms(1) by (simp add: assms(6) response_def)
  from short_drop [OF this] have 1: "short_at buf 4 = Some (htons ?k)" and 6: "drop 6 buf = ikcp_encode16u [] (htons ?n) @ (back @ ?q @ ?r)"
    by simp_all
  from short_drop [OF 6] have 2: "short_at buf 6 = Some (htons ?n)" and 8: "drop 8 buf = back @ ?q @ ?r" by simp_all
  have 12: "drop 12 buf = ?q @ ?r" using drop_plus [OF 8] assms(2) by simp
  have d: "drop (12 + length ?q) buf = ?r" by (rule drop_plus [OF 12])
  show ?thesis
    using questions_skipped [OF assms(3) 12] parse_records [OF assms(7) d, of "[]"] 1 2
      length_read [OF assms(4)] length_read [OF assms(5)]
    by (simp add: dns_parse_response_def)
qed

theorem dns_response_parsed_witness:
  "dns_parse_response True (response [0, 7, 0x81, 0x80] [0, 0, 0, 0] [([[97], [98, 99]], [0, 1, 0, 1])]
      [Alias 12 [0, 1, 0, 0, 0, 60] [1, 100, 0xC0, 14], Address 34 [0, 1, 0, 0, 0, 60] [192, 168, 0, 1]] @ [0, 0]) =
    Some (1, [\<lparr>domain = [100, 46, 98, 99], ip = [49, 57, 50, 46, 49, 54, 56, 46, 48, 46, 49]\<rparr>])"
proof -
  let ?qs = "[([[97], [98, 99]], [0, 1, 0, 1 :: byte])]" and ?al = "Alias 12 [0, 1, 0, 0, 0, 60] [1, 100, 0xC0, 14]"
    and ?ad = "Address 34 [0, 1, 0, 0, 0, 60] [192, 168, 0, 1]"
  define buf where "buf = response [0, 7, 0x81, 0x80] [0, 0, 0, 0] ?qs [?al, ?ad] @ [0, 0]"
  have buf: "buf = [0, 7, 0x81, 0x80, 0, 1, 0, 2, 0, 0, 0, 0, 1, 97, 2, 98, 99, 0, 0, 1, 0, 1,
      0xC0, 12, 0, 5, 0, 1, 0, 0, 0, 60, 0, 4, 1, 100, 0xC0, 14, 0xC0, 34, 0, 1, 0, 1, 0, 0, 0, 60, 0, 4, 192, 168, 0, 1, 0, 0]"
    unfolding buf_def by code_simp
  have drops: "drop 12 buf = wire [[97], [98, 99]] @ drop 18 buf" "drop 14 buf = wire [[98, 99]] @ drop 18 buf"
    "drop 34 buf = labels [[100]] @ [0xC0, 14] @ drop 38 buf"
    by (simp_all add: buf)
  have "name_at buf 12 (dotted [[97], [98, 99]])" by (rule name_at_wire [OF _ drops(1)]) (simp add: label_ok_def)
  then have n12: "name_at buf 12 [97, 46, 98, 99]" by simp
  have "name_at buf 14 (dotted [[98, 99]])" by (rule name_at_wire [OF _ drops(2)]) (simp add: label_ok_def)
  then have "name_at buf (unat (14 :: byte)) [98, 99]" by simp
  from name_at_compressed [OF this _ drops(3)] have n34: "name_at buf 34 [100, 46, 98, 99]" by (simp add: label_ok_def)
  have q: "length (concat (map question_bytes ?qs)) = 10" by (simp add: question_bytes_def)
  have r: "length (record_bytes ?al) = 16" by (simp add: codec_simps)
  have "\<exists>c. name_at buf 34 c \<and> length c \<le> 128" using n34 by (intro exI [of _ "[100, 46, 98, 99]"]) simp
  then have "records_read buf (12 + length (concat (map question_bytes ?qs))) [?al, ?ad] [[97, 46, 98, 99], [100, 46, 98, 99]]"
    unfolding q records_read.simps r using n12 n34 by simp
  from dns_response_parsed [OF _ _ _ _ _ buf_def this]
  have "dns_parse_response True buf = Some (1, [\<lparr>domain = [100, 46, 98, 99], ip = inet_ntop [192, 168, 0, 1]\<rparr>])"
    by (simp add: question_ok_def label_ok_def)
  moreover have "inet_ntop [192, 168, 0, 1] = [49, 57, 50, 46, 49, 54, 56, 46, 48, 46, 49]" by (simp add: inet_ntop_def decimal_def Let_def)
  ultimately show ?thesis unfolding buf_def by (simp only:)
qed

lemma loop_no_name: "name_at buf q t \<Longrightarrow> byte_at buf p = Some 0xC0 \<Longrightarrow> byte_at buf (p + 1) = Some (of_nat p) \<Longrightarrow> p < 256 \<Longrightarrow> q \<noteq> p"
proof (induction rule: name_at.induct)
  case (jump q c n t)
  have "unat (of_nat p :: byte) = p" using jump.prems(3) by (simp add: unat_of_nat)
  then show ?case using jump by auto
qed (auto simp: is_pointer_C0)

text \<open>A name that points to itself is followed for ever; a host name that ends in a dot leaves the last byte of the block as \<open>malloc\<close> gave it in the request; the data of a record of a third type is read as the next record.\<close>

theorem dns_defects:
  assumes "byte_at buf p = Some 0xC0" and "byte_at buf (p + 1) = Some (of_nat p)" and "p < 256"
    and "ls \<noteq> []" and "\<forall>l \<in> set ls. label_ok l"
    and "al (length (dotted ls @ [46]) + 2) = Some (block @ [junk])" and "length block = length (dotted ls) + 2"
    and "name_at buf2 p2 t" and "length t \<le> 128" and "short_at buf2 (p2 + 2) = Some (htons type)"
    and "type \<noteq> DNS_HOST" and "type \<noteq> DNS_CNAME" and "p2 + 12 \<le> length buf2"
  shows "dns_parse_name buf p out 0 = None \<and>
    dns_create_question al (dotted ls @ [46]) = Some (0, \<lparr>q_length = length (wire ls) + 1, q_qtype = htons 1,
      q_qclass = htons 1, q_qname = wire ls @ [junk]\<rparr>) \<and>
    parse_answers buf2 (Suc n) p2 items = parse_answers buf2 n (p2 + 12) items"
proof (intro conjI)
  show "dns_parse_name buf p out 0 = None"
    using parsed_name_raw [of buf p out 0] loop_no_name assms(1-3) by (cases "dns_parse_name buf p out 0") blast+
  have w: "length (wire ls) = length block" using length_labels [OF assms(4)] assms(7) by simp
  have "put_tokens (block @ [junk]) 0 ls = Some (wire ls @ [junk])"
    using put_tokens_wire [OF assms(4), of 0 "block @ [junk]"] w by simp
  then show "dns_create_question al (dotted ls @ [46]) = Some (0, \<lparr>q_length = length (wire ls) + 1, q_qtype = htons 1,
      q_qclass = htons 1, q_qname = wire ls @ [junk]\<rparr>)"
    using assms(6,7) w strtok_dotted [OF assms(5), of "[46]"] by (simp add: dns_create_question_def Let_def)
  have s: "short_at buf2 (p2 + 6) \<noteq> None" "short_at buf2 (p2 + 10) \<noteq> None"
    unfolding short_at_def option.map_disc_iff c16.dec_defined using assms(13) by simp_all
  have e: "p2 + 2 + 4 = p2 + 6" "p2 + 6 + 4 = p2 + 10" "p2 + 10 + 2 = p2 + 12" by simp_all
  obtain r where "dns_parse_name buf2 p2 (replicate 128 0) 0 = Some r"
    using name_parsed [OF assms(8), of 0 "replicate 128 0"] assms(9) by simp
  then show "parse_answers buf2 (Suc n) p2 items = parse_answers buf2 n (p2 + 12) items"
    using s assms(10-12) unfolding parse_answers.simps Let_def e by (auto split: prod.splits)
qed

theorem dns_defects_witness:
  "dns_parse_name [0xC0, 0] 0 [] 0 = None \<and>
    dns_create_question (\<lambda>n. Some (replicate n 255)) [97, 46] = Some (0, \<lparr>q_length = 4, q_qtype = htons 1,
      q_qclass = htons 1, q_qname = [1, 97, 0, 255]\<rparr>) \<and>
    parse_answers [0, 0, 0, 28, 0, 1, 0, 0, 0, 9, 0, 16, 1] (Suc 0) 0 [] = parse_answers [0, 0, 0, 28, 0, 1, 0, 0, 0, 9, 0, 16, 1] 0 12 []"
proof -
  let ?b = "[0, 0, 0, 28, 0, 1, 0, 0, 0, 9, 0, 16, 1] :: byte list"
  have r: "replicate 4 (255 :: byte) = [255, 255, 255, 255]" by (simp add: numeral_eq_Suc)
  have n: "name_at ?b 0 []" by (rule name_at.stop) (simp add: byte_at_def)
  have t: "short_at ?b (0 + 2) = Some (htons 28)" by (simp add: short_at_def htons_def)
  have "dns_parse_name [0xC0, 0] 0 [] 0 = None \<and>
    dns_create_question (\<lambda>n. Some (replicate n 255)) (dotted [[97]] @ [46]) = Some (0, \<lparr>q_length = length (wire [[97]]) + 1, q_qtype = htons 1,
      q_qclass = htons 1, q_qname = wire [[97]] @ [255]\<rparr>) \<and>
    parse_answers ?b (Suc 0) 0 [] = parse_answers ?b 0 (0 + 12) []"
    by (rule dns_defects [where block = "[255, 255, 255]", OF _ _ _ _ _ _ _ n _ t])
      (simp_all add: byte_at_def label_ok_def DNS_HOST_def DNS_CNAME_def r)
  then show ?thesis by (simp del: parse_answers.simps)
qed

end
