(* ===== verification/Base64.thy ===== *)
theory Base64
  imports Prelude
begin

text \<open>
  Base64 encoding and decoding of the cloud disk
  (\<open>HuLianWangYunPan/0voice-cloud-disk/common/base64.c\<close>). Characters are bytes and a C string is the
  list of its bytes with the terminating zero. The decoder always reads four characters at once, so
  a string whose length is not a multiple of four makes it read past the terminator: that is
  \<open>None\<close>. Decoding inverts encoding on every byte sequence.
\<close>

section \<open>Operations\<close>

definition base64char :: "byte list" where
  "base64char = map of_char ''ABCDEFGHIJKLMNOPQRSTUVWXYZabcdefghijklmnopqrstuvwxyz0123456789+/''"

definition pad_char :: byte where
  "pad_char = of_char CHR ''=''"

text \<open>The loop of \<open>base64_encode\<close>, three bytes at a time; the two \<open>break\<close>s end it.\<close>

fun encode_loop :: "byte list \<Rightarrow> byte list" where
  "encode_loop [] = []"
| "encode_loop [b0] =
     (let c0 = drop_bit 2 b0 AND 0x3F;
          c1 = push_bit 4 b0 AND 0x30
      in [base64char ! unat c0, base64char ! unat c1, pad_char, pad_char])"
| "encode_loop [b0, b1] =
     (let c0 = drop_bit 2 b0 AND 0x3F;
          c1 = push_bit 4 b0 AND 0x30;
          c1 = c1 OR (drop_bit 4 b1 AND 0x0F);
          c2 = push_bit 2 b1 AND 0x3C
      in [base64char ! unat c0, base64char ! unat c1, base64char ! unat c2, pad_char])"
| "encode_loop (b0 # b1 # b2 # bs) =
     (let c0 = drop_bit 2 b0 AND 0x3F;
          c1 = push_bit 4 b0 AND 0x30;
          c1 = c1 OR (drop_bit 4 b1 AND 0x0F);
          c2 = push_bit 2 b1 AND 0x3C;
          c2 = c2 OR (drop_bit 6 b2 AND 0x03);
          c3 = b2 AND 0x3F
      in base64char ! unat c0 # base64char ! unat c1 # base64char ! unat c2 # base64char ! unat c3 #
         encode_loop bs)"

definition base64_encode :: "byte list \<Rightarrow> byte list" where
  "base64_encode bindata = encode_loop bindata @ [0]"

text \<open>The search for a character: the last index that matches, \<open>0xFF\<close> when none does.\<close>

fun find_loop :: "byte \<Rightarrow> byte list \<Rightarrow> byte \<Rightarrow> byte \<Rightarrow> byte" where
  "find_loop c [] k temp = temp"
| "find_loop c (x # xs) k temp = find_loop c xs (k + 1) (if x = c then k else temp)"

definition find_char :: "byte \<Rightarrow> byte" where
  "find_char c = find_loop c base64char 0 0xFF"

fun decode_loop :: "byte list \<Rightarrow> byte list option" where
  "decode_loop (a0 # rest) =
     (if a0 = 0 then Some []
      else case rest of
        a1 # a2 # a3 # m \<Rightarrow>
          (let t0 = find_char a0; t1 = find_char a1; t2 = find_char a2; t3 = find_char a3;
               o0 = (push_bit 2 t0 AND 0xFC) OR (drop_bit 4 t1 AND 0x03);
               o1 = (push_bit 4 t1 AND 0xF0) OR (drop_bit 2 t2 AND 0x0F);
               o2 = (push_bit 6 t2 AND 0xF0) OR (t3 AND 0x3F)
           in if a2 = pad_char then Some [o0]
              else if a3 = pad_char then Some [o0, o1]
              else map_option (\<lambda>out. o0 # o1 # o2 # out) (decode_loop m))
      | _ \<Rightarrow> None)"
| "decode_loop [] = None"

definition base64_decode :: "byte list \<Rightarrow> byte list option" where
  "base64_decode base64 = decode_loop base64"

section \<open>The alphabet\<close>

lemma length_base64char: "length base64char = 64"
  by (simp add: base64char_def)

lemma distinct_base64char: "distinct base64char"
  by (simp add: base64char_def)

lemma base64char_plain: "c \<in> set base64char \<Longrightarrow> c \<noteq> 0 \<and> c \<noteq> pad_char"
  by (auto simp: base64char_def pad_char_def)

lemma find_loop_other: "c \<notin> set xs \<Longrightarrow> find_loop c xs k t = t"
  by (induction xs arbitrary: k t) auto

lemma find_loop_nth:
  "distinct xs \<Longrightarrow> i < length xs \<Longrightarrow> find_loop (xs ! i) xs k t = k + of_nat i"
proof (induction xs arbitrary: i k t)
  case (Cons x xs)
  show ?case
  proof (cases i)
    case 0
    then show ?thesis using Cons.prems by (simp add: find_loop_other)
  next
    case (Suc j)
    then have "x \<noteq> xs ! j" using Cons.prems by (auto simp: in_set_conv_nth)
    then show ?thesis using Cons Suc by (simp add: algebra_simps)
  qed
qed simp

lemma find_char_nth [simp]:
  assumes "unat (x :: byte) < 64"
  shows "find_char (base64char ! unat x) = x" "base64char ! unat x \<noteq> 0" "base64char ! unat x \<noteq> pad_char"
  using assms find_loop_nth [OF distinct_base64char, of "unat x" 0 "0xFF"] base64char_plain
  by (simp_all add: find_char_def length_base64char)

lemma sextet_less: "unat (x AND 0x3F :: byte) < 64"
proof -
  have "x AND 0x3F \<le> 0x3F" by (rule word_and_le1)
  then show ?thesis by (simp add: word_le_nat_alt)
qed

text \<open>Sextets cut from three bytes and joined again.\<close>

lemma byte_bits: "(\<And>n. n < 8 \<Longrightarrow> bit (a :: byte) n = bit b n) \<Longrightarrow> a = b"
  by (rule bit_word_eqI) simp

lemma byte_cases: "n < 8 \<Longrightarrow> n \<in> {0, 1, 2, 3, 4, 5, 6, 7 :: nat}"
  by auto

lemmas bits_of = bit_or_iff bit_and_iff bit_push_bit_iff bit_drop_bit_eq comp_def

lemma join0: "(push_bit 2 (drop_bit 2 a AND 0x3F) AND 0xFC) OR
    (drop_bit 4 (push_bit 4 a AND 0x30 OR x AND 0x0F) AND 0x03) = (a :: byte)"
  by (rule byte_bits, drule byte_cases, unfold bits_of) (auto simp: eval_nat_numeral)

lemma join0_last: "(push_bit 2 (drop_bit 2 a AND 0x3F) AND 0xFC) OR
    (drop_bit 4 (push_bit 4 a AND 0x30) AND 0x03) = (a :: byte)"
  using join0 [of a 0] by simp

lemma join1: "(push_bit 4 (push_bit 4 a AND 0x30 OR drop_bit 4 b AND 0x0F) AND 0xF0) OR
    (drop_bit 2 (push_bit 2 b AND 0x3C OR x AND 0x03) AND 0x0F) = (b :: byte)"
  by (rule byte_bits, drule byte_cases, unfold bits_of) (auto simp: eval_nat_numeral)

lemma join1_last: "(push_bit 4 (push_bit 4 a AND 0x30 OR drop_bit 4 b AND 0x0F) AND 0xF0) OR
    (drop_bit 2 (push_bit 2 b AND 0x3C) AND 0x0F) = (b :: byte)"
  using join1 [of a b 0] by simp

lemma join2: "(push_bit 6 (push_bit 2 b AND 0x3C OR drop_bit 6 c AND 0x03) AND 0xF0) OR
    ((c AND 0x3F) AND 0x3F) = (c :: byte)"
  by (rule byte_bits, drule byte_cases, unfold bits_of) (auto simp: eval_nat_numeral)

text \<open>Every value looked up in the alphabet is a sextet.\<close>

lemma sextets:
  "unat (drop_bit 2 a AND 0x3F :: byte) < 64"
  "unat (push_bit 4 a AND 0x30 :: byte) < 64"
  "unat (push_bit 4 a AND 0x30 OR drop_bit 4 b AND 0x0F :: byte) < 64"
  "unat (push_bit 2 b AND 0x3C :: byte) < 64"
  "unat (push_bit 2 b AND 0x3C OR drop_bit 6 c AND 0x03 :: byte) < 64"
  "unat (c AND 0x3F :: byte) < 64"
proof -
  have low: "unat y < 64" if "y = y AND 0x3F" for y :: byte using sextet_less [of y] that by simp
  show "unat (drop_bit 2 a AND 0x3F :: byte) < 64" "unat (c AND 0x3F :: byte) < 64" by (rule sextet_less)+
  show "unat (push_bit 4 a AND 0x30 :: byte) < 64"
    by (rule low, rule byte_bits, drule byte_cases, unfold bits_of) auto
  show "unat (push_bit 4 a AND 0x30 OR drop_bit 4 b AND 0x0F :: byte) < 64"
    by (rule low, rule byte_bits, drule byte_cases, unfold bits_of) auto
  show "unat (push_bit 2 b AND 0x3C :: byte) < 64"
    by (rule low, rule byte_bits, drule byte_cases, unfold bits_of) auto
  show "unat (push_bit 2 b AND 0x3C OR drop_bit 6 c AND 0x03 :: byte) < 64"
    by (rule low, rule byte_bits, drule byte_cases, unfold bits_of) auto
qed

section \<open>Decoding inverts encoding\<close>

lemma decode_encode_loop: "decode_loop (encode_loop bs @ [0]) = Some bs"
proof (induction bs rule: encode_loop.induct)
  case 1
  show ?case by simp
next
  case (2 b0)
  show ?case using join0_last [of b0] by (simp add: Let_def sextets)
next
  case (3 b0 b1)
  show ?case using join0 [of b0] join1_last [of b0 b1] by (simp add: Let_def sextets)
next
  case (4 b0 b1 b2 bs)
  then show ?case using join0 [of b0] join1 [of b0 b1] join2 [of b1 b2] by (simp add: Let_def sextets)
qed

text \<open>Base64 round trip: decoding the string \<open>base64_encode\<close> writes gives back the bytes it was
  given, for every length, without reading past the end of that string.\<close>

theorem base64_roundtrip: "base64_decode (base64_encode bs) = Some bs"
  by (simp add: base64_decode_def base64_encode_def decode_encode_loop)

text \<open>The length of the encoded string: four characters for every three bytes begun.\<close>

lemma length_encode_loop: "length (encode_loop bs) = 4 * ((length bs + 2) div 3)"
proof (induction bs rule: encode_loop.induct)
  case (4 b0 b1 b2 bs)
  have "length (b0 # b1 # b2 # bs) + 2 = length bs + 2 + 3" by simp
  then have "(length (b0 # b1 # b2 # bs) + 2) div 3 = Suc ((length bs + 2) div 3)" by (simp only: div_add_self2)
  then show ?case using 4 by (simp add: Let_def)
qed (simp_all add: Let_def)

text \<open>The encoder writes exactly four characters per started group of three bytes and a terminator,
  and every character is one of the alphabet or the padding sign.\<close>

theorem base64_encode_shape:
  "length (base64_encode bs) = 4 * ((length bs + 2) div 3) + 1 \<and>
   set (base64_encode bs) \<subseteq> set base64char \<union> {pad_char, 0}"
proof -
  have "set (encode_loop bs) \<subseteq> set base64char \<union> {pad_char}"
    by (induction bs rule: encode_loop.induct)
      (auto simp: Let_def sextets length_base64char intro!: nth_mem)
  then show ?thesis by (auto simp: base64_encode_def length_encode_loop)
qed

text \<open>The decoder's blind spot: on a string whose length is not a multiple of four it reads past the
  terminator.\<close>

theorem base64_decode_overread: "base64_decode (map of_char ''TWE'' @ [0]) = None"
  by (simp add: base64_decode_def Let_def pad_char_def)

end
