(* ===== verification/Des.thy ===== *)
theory Des
  imports Prelude
begin

text \<open>
  The DES cipher of the cloud disk (\<open>HuLianWangYunPan/0voice-cloud-disk/common/des.c\<close>): key
  schedule, the Feistel network with its initial and final permutation, block and buffer
  encryption, padding.

  How wide an \<open>unsigned long\<close> is, is a parameter of the routines that depend on it: \<open>long_size\<close>, in bytes, 4 or 8. A key
  schedule is 32 of them, and \<open>DES_KEYBYTES\<close>, 128 bytes, of it are copied from routine to routine ("32 long = 128 bytes" says a
  comment); where a \<open>long\<close> has 8 bytes these are the first 16 words only, and the cipher reads words of its own copy that
  nobody has written. The same routines store a length through an \<open>unsigned long *\<close> that points to an \<open>int\<close>. Both are \<open>None\<close>
  here, as is a read outside an array. The words of the schedule and of a block fit in 32 bits at either width, and with
  the 8-byte width no round is ever computed on defined values, so the words of the model have 32 bits. A routine that
  returns \<open>0xEE20\<close> or another non-zero code is \<open>Inl\<close> of that code.

  Whatever the round function computes from its tables, decryption undoes encryption: that is
  proved for the Feistel network as a locale and instantiated with the code's round function. The
  tables themselves are looked at too: one of the eight boxes is not the one of the standard.
\<close>

section \<open>Tables\<close>

definition pc1 :: "nat list" where
  "pc1 =
    [56, 48, 40, 32, 24, 16, 8, 0, 57, 49, 41, 33, 25, 17,
     9, 1, 58, 50, 42, 34, 26, 18, 10, 2, 59, 51, 43, 35,
     62, 54, 46, 38, 30, 22, 14, 6, 61, 53, 45, 37, 29, 21,
     13, 5, 60, 52, 44, 36, 28, 20, 12, 4, 27, 19, 11, 3]"

definition pc2 :: "nat list" where
  "pc2 =
    [13, 16, 10, 23, 0, 4, 2, 27, 14, 5, 20, 9,
     22, 18, 11, 3, 25, 7, 15, 6, 26, 19, 12, 1,
     40, 51, 30, 36, 46, 54, 29, 39, 50, 44, 32, 47,
     43, 48, 38, 55, 33, 52, 45, 41, 49, 35, 28, 31]"

definition totrot :: "nat list" where
  "totrot =
    [1, 2, 4, 6, 8, 10, 12, 14, 15, 17, 19, 21, 23, 25, 27, 28]"

definition bytebit :: "u32 list" where
  "bytebit = [128, 64, 32, 16, 8, 4, 2, 1]"

definition bigbyte :: "u32 list" where
  "bigbyte =
    [0x800000, 0x400000, 0x200000, 0x100000, 0x80000, 0x40000,
     0x20000, 0x10000, 0x8000, 0x4000, 0x2000, 0x1000,
     0x800, 0x400, 0x200, 0x100, 0x80, 0x40,
     0x20, 0x10, 0x8, 0x4, 0x2, 0x1]"

definition SP1 :: "u32 list" where
  "SP1 =
    [0x01010400, 0x00000000, 0x00010000, 0x01010404,
     0x01010004, 0x00010404, 0x00000004, 0x00010000,
     0x00000400, 0x01010400, 0x01010404, 0x00000400,
     0x01000404, 0x01010004, 0x01000000, 0x00000004,
     0x00000404, 0x01000400, 0x01000400, 0x00010400,
     0x00010400, 0x01010000, 0x01010000, 0x01000404,
     0x00010004, 0x01000004, 0x01000004, 0x00010004,
     0x00000000, 0x00000404, 0x00010404, 0x01000000,
     0x00010000, 0x01010404, 0x00000004, 0x01010000,
     0x01010400, 0x01000000, 0x01000000, 0x00000400,
     0x01010004, 0x00010000, 0x00010400, 0x01000004,
     0x00000400, 0x00000004, 0x01000404, 0x00010404,
     0x01010404, 0x00010004, 0x01010000, 0x01000404,
     0x01000004, 0x00000404, 0x00010404, 0x01010400,
     0x00000404, 0x01000400, 0x01000400, 0x00000000,
     0x00010004, 0x00010400, 0x00000000, 0x01010004]"

definition SP2 :: "u32 list" where
  "SP2 =
    [0x80108020, 0x80008000, 0x00008000, 0x00108020,
     0x00100000, 0x00000020, 0x80100020, 0x80008020,
     0x80000020, 0x80108020, 0x80108000, 0x80000000,
     0x80008000, 0x00100000, 0x00000020, 0x80100020,
     0x00108000, 0x00100020, 0x80008020, 0x00000000,
     0x80000000, 0x00008000, 0x00108020, 0x80100000,
     0x00100020, 0x80000020, 0x00000000, 0x00108000,
     0x00008020, 0x80108000, 0x80100000, 0x00008020,
     0x00000000, 0x00108020, 0x80100020, 0x00100000,
     0x80008020, 0x80100000, 0x80108000, 0x00008000,
     0x80100000, 0x80008000, 0x00000020, 0x80108020,
     0x00108020, 0x00000020, 0x00008000, 0x80000000,
     0x00008020, 0x80108000, 0x00100000, 0x80000020,
     0x00100020, 0x80008020, 0x80000020, 0x00100020,
     0x00108000, 0x00000000, 0x80008000, 0x00008020,
     0x80000000, 0x80100020, 0x80108020, 0x00108000]"

definition SP3 :: "u32 list" where
  "SP3 =
    [0x00000208, 0x08020200, 0x00000000, 0x08020008,
     0x08000200, 0x00000000, 0x00020208, 0x08000200,
     0x00020008, 0x08000008, 0x08000008, 0x00020000,
     0x08020208, 0x00020008, 0x08020000, 0x00000208,
     0x08000000, 0x00000008, 0x08020200, 0x00000200,
     0x00020200, 0x08020000, 0x08020008, 0x00020208,
     0x08000208, 0x00020200, 0x00020000, 0x08000208,
     0x00000008, 0x08020208, 0x00000200, 0x08000000,
     0x08020200, 0x08000000, 0x00020008, 0x00000208,
     0x00020000, 0x08020200, 0x08000200, 0x00000000,
     0x00000200, 0x00020008, 0x08020208, 0x08000200,
     0x08000008, 0x00000200, 0x00000000, 0x08020008,
     0x08000208, 0x00020000, 0x08000000, 0x08020208,
     0x00000008, 0x00020208, 0x00020200, 0x08000008,
     0x08020000, 0x08000208, 0x00000208, 0x08020000,
     0x00020208, 0x00000008, 0x08020008, 0x00020200]"

definition SP4 :: "u32 list" where
  "SP4 =
    [0x00802001, 0x00002081, 0x00002081, 0x00000080,
     0x00802080, 0x00800081, 0x00800001, 0x00002001,
     0x00000000, 0x00802000, 0x00802000, 0x00802081,
     0x00000081, 0x00000000, 0x00800080, 0x00800001,
     0x00000001, 0x00002000, 0x00800000, 0x00802001,
     0x00000080, 0x00800000, 0x00002001, 0x00002080,
     0x00800081, 0x00000001, 0x00002080, 0x00800080,
     0x00002000, 0x00802080, 0x00802081, 0x00000081,
     0x00800080, 0x00800001, 0x00802000, 0x00802081,
     0x00000081, 0x00000000, 0x00000000, 0x00802000,
     0x00002080, 0x00800080, 0x00800081, 0x00000001,
     0x00802001, 0x00002081, 0x00002081, 0x00000080,
     0x00802081, 0x00000081, 0x00000001, 0x00002000,
     0x00800001, 0x00002001, 0x00802080, 0x00800081,
     0x00002001, 0x00002080, 0x00800000, 0x00802001,
     0x00000080, 0x00800000, 0x00002000, 0x00802080]"

definition SP5 :: "u32 list" where
  "SP5 =
    [0x00000100, 0x02080100, 0x02080000, 0x42000100,
     0x00080000, 0x00000100, 0x40000000, 0x02080000,
     0x40080100, 0x00080000, 0x02000100, 0x40080100,
     0x42000100, 0x42080000, 0x00080100, 0x40000000,
     0x02000000, 0x40080000, 0x40080000, 0x00000000,
     0x40000100, 0x42080100, 0x42080100, 0x02000100,
     0x42080000, 0x40000100, 0x00000000, 0x42000000,
     0x02080100, 0x02000000, 0x42000000, 0x00080100,
     0x00080000, 0x42000100, 0x00000100, 0x02000000,
     0x40000000, 0x02080000, 0x42000100, 0x40080100,
     0x02000100, 0x40000000, 0x42080000, 0x02080100,
     0x40080100, 0x00000100, 0x20000000, 0x42080000,
     0x42080100, 0x00080100, 0x42000000, 0x42080100,
     0x02080000, 0x02000100, 0x40000100, 0x00080000,
     0x00080100, 0x02000100, 0x40000100, 0x00080000,
     0x00000000, 0x40080000, 0x02080100, 0x40000100]"

definition SP6 :: "u32 list" where
  "SP6 =
    [0x20000010, 0x20400000, 0x00004000, 0x20404010,
     0x20400000, 0x00000010, 0x20404010, 0x00400000,
     0x20004000, 0x00404010, 0x00400000, 0x20000010,
     0x00400010, 0x20004000, 0x20000000, 0x00004010,
     0x00000000, 0x00400010, 0x20004010, 0x00004000,
     0x00404000, 0x20004010, 0x00000010, 0x20400010,
     0x20400010, 0x00000000, 0x00404010, 0x20404000,
     0x00004010, 0x00404000, 0x20404000, 0x20000000,
     0x20004000, 0x00000010, 0x20400010, 0x00404000,
     0x20404010, 0x00400000, 0x00004010, 0x20000010,
     0x00400000, 0x20004000, 0x20000000, 0x00004010,
     0x20000010, 0x20404010, 0x00404000, 0x20400000,
     0x00404010, 0x20404000, 0x00000000, 0x20400010,
     0x00000010, 0x00004000, 0x20400000, 0x00404010,
     0x00004000, 0x00400010, 0x20004010, 0x00000000,
     0x20404000, 0x20000000, 0x00400010, 0x20004010]"

definition SP7 :: "u32 list" where
  "SP7 =
    [0x00200000, 0x04200002, 0x04000802, 0x00000000,
     0x00000800, 0x04000802, 0x00200802, 0x04200800,
     0x04200802, 0x00200000, 0x00000000, 0x04000002,
     0x00000002, 0x04000000, 0x04200002, 0x00000802,
     0x04000800, 0x00200802, 0x00200002, 0x04000800,
     0x04000002, 0x04200000, 0x04200800, 0x00200002,
     0x04200000, 0x00000800, 0x00000802, 0x04200802,
     0x00200800, 0x00000002, 0x04000000, 0x00200800,
     0x04000000, 0x00200800, 0x00200000, 0x04000802,
     0x04000802, 0x04200002, 0x04200002, 0x00000002,
     0x00200002, 0x04000000, 0x04000800, 0x00200000,
     0x04200800, 0x00000802, 0x00200802, 0x04200800,
     0x00000802, 0x04000002, 0x04200802, 0x04200000,
     0x00200800, 0x00000000, 0x00000002, 0x04200802,
     0x00000000, 0x00200802, 0x04200000, 0x00000800,
     0x04000002, 0x04000800, 0x00000800, 0x00200002]"

definition SP8 :: "u32 list" where
  "SP8 =
    [0x10001040, 0x00001000, 0x00040000, 0x10041040,
     0x10000000, 0x10001040, 0x00000040, 0x10000000,
     0x00040040, 0x10040000, 0x10041040, 0x00041000,
     0x10041000, 0x00041040, 0x00001000, 0x00000040,
     0x10040000, 0x10000040, 0x10001000, 0x00001040,
     0x00041000, 0x00040040, 0x10040040, 0x10041000,
     0x00001040, 0x00000000, 0x00000000, 0x10040040,
     0x10000040, 0x10001000, 0x00041040, 0x00040000,
     0x00041040, 0x00040000, 0x10041000, 0x00001000,
     0x00000040, 0x10040040, 0x00001000, 0x00041040,
     0x10001000, 0x00000040, 0x10000040, 0x10040000,
     0x10040040, 0x10000000, 0x00040000, 0x10001040,
     0x00000000, 0x10041040, 0x00040040, 0x10000040,
     0x10040000, 0x10001000, 0x10001040, 0x00000000,
     0x10041040, 0x00041000, 0x00041000, 0x00001040,
     0x00001040, 0x00040040, 0x10000000, 0x10041000]"

section \<open>Key schedule\<close>

datatype edf = EN0 | DE1

text \<open>The selected key bits, and their rotation for one round, each half of 28 on its own.\<close>

definition key_bits :: "byte list \<Rightarrow> u32 list" where
  "key_bits key = map (\<lambda>l. if ucast (key ! (l div 8)) AND bytebit ! (l mod 8) \<noteq> 0 then 1 else 0) pc1"

definition rot_bits :: "u32 list \<Rightarrow> nat \<Rightarrow> u32 list" where
  "rot_bits pc1m r =
     map (\<lambda>j. let l = j + r in if l < 28 then pc1m ! l else pc1m ! (l - 28)) [0..<28] @
     map (\<lambda>j. let l = j + r in if l < 56 then pc1m ! l else pc1m ! (l - 28)) [28..<56]"

text \<open>One word of a round key: the bits \<open>pc2[off] .. pc2[off + 23]\<close>, most significant first.\<close>

definition sel_bits :: "u32 list \<Rightarrow> nat \<Rightarrow> u32" where
  "sel_bits pcr off =
     foldl (\<lambda>k j. if pcr ! (pc2 ! (j + off)) \<noteq> 0 then k OR bigbyte ! j else k) 0 [0..<24]"

definition deskey_step :: "u32 list \<Rightarrow> edf \<Rightarrow> u32 list \<Rightarrow> nat \<Rightarrow> u32 list" where
  "deskey_step pc1m edf kn i =
     (let m = (case edf of DE1 \<Rightarrow> (15 - i) * 2 | EN0 \<Rightarrow> i * 2);
          pcr = rot_bits pc1m (totrot ! i)
      in kn[m := sel_bits pcr 0, m + 1 := sel_bits pcr 24])"

definition deskey :: "byte list \<Rightarrow> edf \<Rightarrow> u32 list" where
  "deskey key edf = foldl (deskey_step (key_bits key) edf) (replicate 32 0) [0..<16]"

text \<open>The round keys in the form the round function wants them.\<close>

definition cook_pair :: "u32 \<Rightarrow> u32 \<Rightarrow> u32 \<times> u32" where
  "cook_pair raw0 raw1 =
     (push_bit 6 (raw0 AND 0x00fc0000) OR push_bit 10 (raw0 AND 0x00000fc0) OR
        drop_bit 10 (raw1 AND 0x00fc0000) OR drop_bit 6 (raw1 AND 0x00000fc0),
      push_bit 12 (raw0 AND 0x0003f000) OR push_bit 16 (raw0 AND 0x0000003f) OR
        drop_bit 4 (raw1 AND 0x0003f000) OR (raw1 AND 0x0000003f))"

fun cookey :: "u32 list \<Rightarrow> u32 list" where
  "cookey (raw0 # raw1 # raw) = (let (c0, c1) = cook_pair raw0 raw1 in c0 # c1 # cookey raw)"
| "cookey _ = []"

section \<open>The block cipher\<close>

fun scrunch :: "byte list \<Rightarrow> u32 \<times> u32" where
  "scrunch [b0, b1, b2, b3, b4, b5, b6, b7] =
     (push_bit 24 (ucast b0) OR push_bit 16 (ucast b1) OR push_bit 8 (ucast b2) OR ucast b3,
      push_bit 24 (ucast b4) OR push_bit 16 (ucast b5) OR push_bit 8 (ucast b6) OR ucast b7)"
| "scrunch _ = (0, 0)"

definition unscrun :: "u32 \<times> u32 \<Rightarrow> byte list" where
  "unscrun w =
     [ucast (drop_bit 24 (fst w) AND 0xff), ucast (drop_bit 16 (fst w) AND 0xff),
      ucast (drop_bit 8 (fst w) AND 0xff), ucast (fst w AND 0xff),
      ucast (drop_bit 24 (snd w) AND 0xff), ucast (drop_bit 16 (snd w) AND 0xff),
      ucast (drop_bit 8 (snd w) AND 0xff), ucast (snd w AND 0xff)]"

text \<open>The statement group that occurs nine times in \<open>desfunc\<close>: exchange the bits of \<open>a\<close>, shifted by
  \<open>n\<close>, with those of \<open>b\<close> under the mask \<open>m\<close>.\<close>

definition swap_bits :: "nat \<Rightarrow> u32 \<Rightarrow> u32 \<times> u32 \<Rightarrow> u32 \<times> u32" where
  "swap_bits n m ab =
     (let (a, b) = ab; work = (drop_bit n a XOR b) AND m in (a XOR push_bit n work, b XOR work))"

definition swap_pair :: "'a \<times> 'b \<Rightarrow> 'b \<times> 'a" where
  "swap_pair ab = (snd ab, fst ab)"

text \<open>The value of one half round, from one half of the block and two words of the key.\<close>

definition des_f :: "u32 \<Rightarrow> u32 \<times> u32 \<Rightarrow> u32" where
  "des_f right key =
     (let work = (push_bit 28 right OR drop_bit 4 right) XOR fst key;
          fval = SP7 ! unat (work AND 0x3f);
          fval = fval OR SP5 ! unat (drop_bit 8 work AND 0x3f);
          fval = fval OR SP3 ! unat (drop_bit 16 work AND 0x3f);
          fval = fval OR SP1 ! unat (drop_bit 24 work AND 0x3f);
          work = right XOR snd key;
          fval = fval OR SP8 ! unat (work AND 0x3f);
          fval = fval OR SP6 ! unat (drop_bit 8 work AND 0x3f);
          fval = fval OR SP4 ! unat (drop_bit 16 work AND 0x3f);
          fval = fval OR SP2 ! unat (drop_bit 24 work AND 0x3f)
      in fval)"

fun des_rounds :: "nat \<Rightarrow> u32 list \<Rightarrow> u32 \<times> u32 \<Rightarrow> u32 \<times> u32" where
  "des_rounds (Suc n) (k0 # k1 # k2 # k3 # keys) (leftt, right) =
     (let leftt = leftt XOR des_f right (k0, k1);
          right = right XOR des_f leftt (k2, k3)
      in des_rounds n keys (leftt, right))"
| "des_rounds _ _ lr = lr"

definition des_ip :: "u32 \<times> u32 \<Rightarrow> u32 \<times> u32" where
  "des_ip block =
     (let (leftt, right) = swap_bits 4 0x0f0f0f0f block;
          (leftt, right) = swap_bits 16 0x0000ffff (leftt, right);
          (right, leftt) = swap_bits 2 0x33333333 (right, leftt);
          (right, leftt) = swap_bits 8 0x00ff00ff (right, leftt);
          right = (push_bit 1 right OR (drop_bit 31 right AND 1)) AND 0xffffffff;
          (leftt, right) = swap_bits 0 0xaaaaaaaa (leftt, right);
          leftt = (push_bit 1 leftt OR (drop_bit 31 leftt AND 1)) AND 0xffffffff
      in (leftt, right))"

definition des_fp :: "u32 \<times> u32 \<Rightarrow> u32 \<times> u32" where
  "des_fp lr =
     (let (leftt, right) = lr;
          right = push_bit 31 right OR drop_bit 1 right;
          (leftt, right) = swap_bits 0 0xaaaaaaaa (leftt, right);
          leftt = push_bit 31 leftt OR drop_bit 1 leftt;
          (leftt, right) = swap_bits 8 0x00ff00ff (leftt, right);
          (leftt, right) = swap_bits 2 0x33333333 (leftt, right);
          (right, leftt) = swap_bits 16 0x0000ffff (right, leftt);
          (right, leftt) = swap_bits 4 0x0f0f0f0f (right, leftt)
      in (right, leftt))"

definition desfunc :: "u32 \<times> u32 \<Rightarrow> u32 list \<Rightarrow> u32 \<times> u32" where
  "desfunc block keys = des_fp (des_rounds 8 keys (des_ip block))"

section \<open>The exported routines\<close>

definition DES_ERR :: u32 where "DES_ERR = 0xEE20"
definition DES_KEYBYTES :: nat where "DES_KEYBYTES = 128"
definition DES_KEYLONGS :: nat where "DES_KEYLONGS = 32"

text \<open>An expanded key is the list of the whole words in the \<open>DES_KEYBYTES\<close> bytes that are copied out of the schedule.\<close>

definition OPENCOMM_DesExpandEncKey :: "nat \<Rightarrow> byte list \<Rightarrow> u32 + u32 list" where
  "OPENCOMM_DesExpandEncKey long_size key =
     (if length key \<noteq> 8 then Inl DES_ERR
      else Inr (take (DES_KEYBYTES div long_size) (cookey (deskey key EN0))))"

definition OPENCOMM_DesExpandDecKey :: "nat \<Rightarrow> byte list \<Rightarrow> u32 + u32 list" where
  "OPENCOMM_DesExpandDecKey long_size key =
     (if length key \<noteq> 8 then Inl DES_ERR
      else Inr (take (DES_KEYBYTES div long_size) (cookey (deskey key DE1))))"

text \<open>The routines for one block copy the expanded key into an array of \<open>DES_KEYLONGS\<close> words, all of which the cipher reads.\<close>

definition OPENCOMM_DesEncRaw :: "nat \<Rightarrow> u32 list \<Rightarrow> byte list \<Rightarrow> (u32 + byte list) option" where
  "OPENCOMM_DesEncRaw long_size ek data =
     (if length data \<noteq> 8 then Some (Inl DES_ERR)
      else if length ek * long_size \<noteq> DES_KEYBYTES then Some (Inl DES_ERR)
      else if length ek < DES_KEYLONGS then None
      else Some (Inr (unscrun (desfunc (scrunch data) ek))))"

definition OPENCOMM_DesDecRaw :: "nat \<Rightarrow> u32 list \<Rightarrow> byte list \<Rightarrow> (u32 + byte list) option" where
  "OPENCOMM_DesDecRaw long_size dk data =
     (if length data \<noteq> 8 then Some (Inl DES_ERR)
      else if length dk * long_size \<noteq> DES_KEYBYTES then Some (Inl DES_ERR)
      else if length dk < DES_KEYLONGS then None
      else Some (Inr (unscrun (desfunc (scrunch data) dk))))"

text \<open>The loop over the blocks of a buffer, by the number of blocks left.\<close>

fun des_blocks :: "(byte list \<Rightarrow> (u32 + byte list) option) \<Rightarrow> nat \<Rightarrow> byte list \<Rightarrow> (u32 + byte list) option" where
  "des_blocks raw 0 data = Some (Inr [])"
| "des_blocks raw (Suc loops) data =
     (case raw (take 8 data) of
        None \<Rightarrow> None
      | Some (Inl e) \<Rightarrow> Some (Inl e)
      | Some (Inr out) \<Rightarrow>
          (case des_blocks raw loops (drop 8 data) of
             None \<Rightarrow> None
           | Some (Inl e) \<Rightarrow> Some (Inl e)
           | Some (Inr outs) \<Rightarrow> Some (Inr (out @ outs))))"

text \<open>The routines for a buffer have the length of the expanded key stored in an \<open>int\<close>, four bytes, by an assignment that is as wide
  as a \<open>long\<close>.\<close>

definition myic_DESEncrypt :: "nat \<Rightarrow> byte list \<Rightarrow> byte list \<Rightarrow> (u32 + byte list) option" where
  "myic_DESEncrypt long_size key data =
     (if length data mod 8 \<noteq> 0 then Some (Inl DES_ERR)
      else if length key \<noteq> 8 then Some (Inl DES_ERR)
      else case OPENCOMM_DesExpandEncKey long_size key of
        Inl e \<Rightarrow> Some (Inl e)
      | Inr ek \<Rightarrow>
          if long_size > 4 then None
          else des_blocks (OPENCOMM_DesEncRaw long_size ek) (length data div 8) data)"

definition myic_DESDecrypt :: "nat \<Rightarrow> byte list \<Rightarrow> byte list \<Rightarrow> (u32 + byte list) option" where
  "myic_DESDecrypt long_size key data =
     (if length data mod 8 \<noteq> 0 then Some (Inl DES_ERR)
      else if length key \<noteq> 8 then Some (Inl DES_ERR)
      else case OPENCOMM_DesExpandDecKey long_size key of
        Inl e \<Rightarrow> Some (Inl e)
      | Inr dk \<Rightarrow>
          if long_size > 4 then None
          else des_blocks (OPENCOMM_DesDecRaw long_size dk) (length data div 8) data)"

text \<open>Padding; \<open>malloc\<close> is a parameter, a predicate on sizes. A failed allocation leaves a null pointer
  and the length zero the caller initialised.\<close>

definition CW_dataPadAdd :: "(nat \<Rightarrow> bool) \<Rightarrow> int \<Rightarrow> byte list \<Rightarrow> byte list option" where
  "CW_dataPadAdd malloc tag date =
     (if \<not> malloc (length date + 24) then None
      else let block = (if tag = 0 then 8 else 16); padLen = block - length date mod block
           in Some (date @ replicate padLen (of_nat padLen)))"

definition USER_PASSWORD_KEY :: "byte list" where
  "USER_PASSWORD_KEY = map of_char ''abcd1234''"

definition DesEnc :: "nat \<Rightarrow> (nat \<Rightarrow> bool) \<Rightarrow> byte list \<Rightarrow> (u32 + byte list) option" where
  "DesEnc long_size malloc data =
     myic_DESEncrypt long_size USER_PASSWORD_KEY
       (case CW_dataPadAdd malloc 0 data of None \<Rightarrow> [] | Some padDate \<Rightarrow> padDate)"

definition DesEnc_raw :: "nat \<Rightarrow> byte list \<Rightarrow> (u32 + byte list) option" where
  "DesEnc_raw long_size data = myic_DESEncrypt long_size USER_PASSWORD_KEY data"

definition ERR_MALLOC :: u32 where "ERR_MALLOC = 20"
definition ERR_FILECONT :: u32 where "ERR_FILECONT = 20"

text \<open>\<open>None\<close>: an empty ciphertext makes the code read \<open>tmpPlain[-1]\<close>.\<close>

definition DesDec :: "nat \<Rightarrow> (nat \<Rightarrow> bool) \<Rightarrow> byte list \<Rightarrow> (u32 + byte list) option" where
  "DesDec long_size malloc data =
     (if \<not> malloc (length data + 24) then Some (Inl ERR_MALLOC)
      else case myic_DESDecrypt long_size USER_PASSWORD_KEY data of
        None \<Rightarrow> None
      | Some (Inl e) \<Rightarrow> Some (Inl e)
      | Some (Inr plain) \<Rightarrow>
          if plain = [] then None
          else let padChar = sint (last plain) in
            if padChar \<le> 0 \<or> padChar > 8 then Some (Inl ERR_FILECONT)
            else Some (Inr (take (length plain - nat padChar) plain)))"

definition DesDec_raw :: "nat \<Rightarrow> byte list \<Rightarrow> (u32 + byte list) option" where
  "DesDec_raw long_size data = myic_DESDecrypt long_size USER_PASSWORD_KEY data"

section \<open>The permutations undo each other\<close>

lemma mask_shift:
  assumes "take_bit (32 - n) m = m" and "n \<le> 32"
  shows "drop_bit n (push_bit n (x AND m)) = x AND (m :: u32)"
proof (rule bit_word_eqI)
  fix i assume "i < LENGTH(32)"
  have "bit m i \<Longrightarrow> i < 32 - n" using assms(1) by (metis bit_take_bit_iff)
  then show "bit (drop_bit n (push_bit n (x AND m))) i = bit (x AND m) i"
    using assms(2) by (auto simp: bit_and_iff bit_push_bit_iff bit_drop_bit_eq)
qed

lemma swap_bits_twice:
  assumes "take_bit (32 - n) m = m" and "n \<le> 32"
  shows "swap_bits n m (swap_bits n m ab) = ab"
proof -
  obtain a b where ab: "ab = (a, b)" by (cases ab)
  define w where "w = (drop_bit n a XOR b) AND m"
  have "drop_bit n (push_bit n w) = w" unfolding w_def by (rule mask_shift [OF assms])
  then have "drop_bit n (a XOR push_bit n w) XOR (b XOR w) = drop_bit n a XOR b"
    by (simp add: drop_bit_xor xor.assoc xor.left_commute xor.commute)
  then have e: "(drop_bit n (a XOR push_bit n w) XOR (b XOR w)) AND m = w" by (simp only: w_def)
  have s: "swap_bits n m (x, y) =
      (x XOR push_bit n ((drop_bit n x XOR y) AND m), y XOR ((drop_bit n x XOR y) AND m))" for x y
    by (simp add: swap_bits_def Let_def)
  show ?thesis
    unfolding ab s [of a b] w_def [symmetric] s e by (simp add: xor.assoc)
qed

lemma swap_masks:
  "swap_bits 4 0x0f0f0f0f (swap_bits 4 0x0f0f0f0f ab) = ab"
  "swap_bits 16 0x0000ffff (swap_bits 16 0x0000ffff ab) = ab"
  "swap_bits 2 0x33333333 (swap_bits 2 0x33333333 ab) = ab"
  "swap_bits 8 0x00ff00ff (swap_bits 8 0x00ff00ff ab) = ab"
  "swap_bits 0 0xaaaaaaaa (swap_bits 0 0xaaaaaaaa ab) = ab"
  by (rule swap_bits_twice; simp add: take_bit_eq_mask mask_eq_exp_minus_1)+

lemma swap_pair_twice [simp]: "swap_pair (swap_pair ab) = ab"
  by (simp add: swap_pair_def)

lemma swap_bits_0_pair: "swap_bits 0 m (swap_pair ab) = swap_pair (swap_bits 0 m ab)"
  by (cases ab) (simp add: swap_bits_def swap_pair_def Let_def xor.commute)

text \<open>Rotation by one bit, to the left and to the right.\<close>

definition rotl1 :: "u32 \<Rightarrow> u32" where
  "rotl1 w = (push_bit 1 w OR (drop_bit 31 w AND 1)) AND 0xffffffff"

definition rotr1 :: "u32 \<Rightarrow> u32" where
  "rotr1 w = push_bit 31 w OR drop_bit 1 w"

lemma bit_rotl1: "n < 32 \<Longrightarrow> bit (rotl1 w) n = (if n = 0 then bit w 31 else bit w (n - 1))"
proof -
  assume n: "n < 32"
  have m: "(0xffffffff :: u32) = -1" by simp
  show ?thesis
    using n unfolding rotl1_def m and.right_neutral bit_and_iff bit_or_iff bit_push_bit_iff bit_drop_bit_eq comp_def bit_1_iff
    by auto
qed

lemma bit_rotr1: "n < 32 \<Longrightarrow> bit (rotr1 w) n = (if n = 31 then bit w 0 else bit w (n + 1))"
  by (auto simp: rotr1_def bit_or_iff bit_push_bit_iff bit_drop_bit_eq dest: bit_imp_le_length)

lemma rot1_inverse [simp]: "rotl1 (rotr1 w) = w" "rotr1 (rotl1 w) = w"
  by (rule bit_word_eqI; auto simp: bit_rotl1 bit_rotr1)+

lemma des_ip_steps:
  "des_ip block =
     map_prod rotl1 id (swap_bits 0 0xaaaaaaaa (map_prod id rotl1 (swap_pair (swap_bits 8 0x00ff00ff
       (swap_bits 2 0x33333333 (swap_pair (swap_bits 16 0x0000ffff (swap_bits 4 0x0f0f0f0f block))))))))"
  by (simp add: des_ip_def Let_def split_beta swap_pair_def rotl1_def map_prod_def)

lemma des_fp_steps:
  "des_fp lr =
     swap_bits 4 0x0f0f0f0f (swap_bits 16 0x0000ffff (swap_pair (swap_bits 2 0x33333333
       (swap_bits 8 0x00ff00ff (map_prod rotr1 id (swap_bits 0 0xaaaaaaaa (map_prod id rotr1 lr)))))))"
  by (simp add: des_fp_def Let_def split_beta swap_pair_def rotr1_def map_prod_def)

lemma map_prod_swap: "map_prod f g (swap_pair ab) = swap_pair (map_prod g f ab)"
  by (simp add: swap_pair_def map_prod_def split_beta)

lemma map_prod_rot:
  "map_prod id rotl1 (map_prod id rotr1 ab) = ab" "map_prod rotl1 id (map_prod rotr1 id ab) = ab"
  "map_prod id rotr1 (map_prod id rotl1 ab) = ab" "map_prod rotr1 id (map_prod rotl1 id ab) = ab"
  by (simp_all add: map_prod_def split_beta)

lemma des_ip_fp: "des_ip (des_fp lr) = swap_pair lr"
  by (simp add: des_ip_steps des_fp_steps swap_masks map_prod_swap map_prod_rot swap_bits_0_pair)

lemma des_fp_ip: "des_fp (swap_pair (des_ip block)) = block"
  by (simp add: des_ip_steps des_fp_steps swap_masks map_prod_swap map_prod_rot swap_bits_0_pair)

section \<open>Feistel networks\<close>

definition feistel_step :: "(u32 \<Rightarrow> 'k \<Rightarrow> u32) \<Rightarrow> u32 \<times> u32 \<Rightarrow> 'k \<Rightarrow> u32 \<times> u32" where
  "feistel_step f ab k = (snd ab, fst ab XOR f (snd ab) k)"

definition feistel :: "(u32 \<Rightarrow> 'k \<Rightarrow> u32) \<Rightarrow> (u32 \<times> u32 \<Rightarrow> u32 \<times> u32) \<Rightarrow> (u32 \<times> u32 \<Rightarrow> u32 \<times> u32) \<Rightarrow>
    'k list \<Rightarrow> u32 \<times> u32 \<Rightarrow> u32 \<times> u32" where
  "feistel f ip fp ks block = fp (foldl (feistel_step f) (ip block) ks)"

text \<open>The contract of the two permutations around the rounds; the round function is arbitrary.\<close>

locale feistel_network =
  fixes f :: "u32 \<Rightarrow> 'k \<Rightarrow> u32"
    and ip fp :: "u32 \<times> u32 \<Rightarrow> u32 \<times> u32"
  assumes ip_fp: "ip (fp lr) = swap_pair lr"
    and fp_ip: "fp (swap_pair (ip block)) = block"
begin

lemma step_back: "feistel_step f (swap_pair (feistel_step f ab k)) k = swap_pair ab"
  by (simp add: feistel_step_def swap_pair_def xor.assoc)

lemma rounds_back: "foldl (feistel_step f) (swap_pair (foldl (feistel_step f) ab ks)) (rev ks) = swap_pair ab"
  by (induction ks arbitrary: ab) (simp_all add: step_back)

lemma decrypts: "feistel f ip fp (rev ks) (feistel f ip fp ks block) = block"
  by (simp add: feistel_def ip_fp rounds_back fp_ip)

end

interpretation des: feistel_network des_f des_ip des_fp
  by unfold_locales (rule des_ip_fp, rule des_fp_ip)

section \<open>The code's network\<close>

fun pairs :: "'a list \<Rightarrow> ('a \<times> 'a) list" where
  "pairs (a # b # xs) = (a, b) # pairs xs"
| "pairs _ = []"

lemma des_rounds_feistel:
  "length keys = 4 * n \<Longrightarrow> des_rounds n keys lr = foldl (feistel_step des_f) lr (pairs keys)"
proof (induction n arbitrary: keys lr)
  case 0
  then show ?case by simp
next
  case (Suc n)
  then have "length keys = Suc (Suc (Suc (Suc (4 * n))))" by simp
  then obtain k0 k1 k2 k3 ks where keys: "keys = k0 # k1 # k2 # k3 # ks" and len: "length ks = 4 * n"
    by (auto simp: length_Suc_conv)
  obtain l r where "lr = (l, r)" by (cases lr)
  then show ?case using Suc.IH [OF len] by (simp add: keys feistel_step_def Let_def)
qed

lemma desfunc_feistel: "length keys = 32 \<Longrightarrow> desfunc block keys = feistel des_f des_ip des_fp (pairs keys) block"
  by (simp add: desfunc_def feistel_def des_rounds_feistel)

text \<open>The two key schedules are the same round keys, in opposite order.\<close>

definition round_key :: "u32 list \<Rightarrow> nat \<Rightarrow> u32 \<times> u32" where
  "round_key pc1m i = (sel_bits (rot_bits pc1m (totrot ! i)) 0, sel_bits (rot_bits pc1m (totrot ! i)) 24)"

definition key_words :: "u32 list \<Rightarrow> nat \<Rightarrow> u32 list" where
  "key_words pc1m i = [fst (round_key pc1m i), snd (round_key pc1m i)]"

lemma length_key_words: "length (concat (map (key_words p) xs)) = 2 * length xs"
  by (induction xs) (simp_all add: key_words_def)

lemma pairs_key_words: "pairs (concat (map (key_words p) xs)) = map (round_key p) xs"
  by (induction xs) (simp_all add: key_words_def)

lemma deskey_EN0:
  "j \<le> 16 \<Longrightarrow> foldl (deskey_step p EN0) (replicate 32 0) [0..<j] =
     concat (map (key_words p) [0..<j]) @ replicate (32 - 2 * j) 0"
proof (induction j)
  case (Suc j)
  let ?c = "concat (map (key_words p) [0..<j])"
  have len: "length ?c = 2 * j" using length_key_words [of p "[0..<j]"] by simp
  have rep: "replicate (32 - 2 * j) (0 :: u32) = 0 # 0 # replicate (32 - 2 * Suc j) 0"
    using Suc.prems by (simp flip: replicate_Suc)
  have "deskey_step p EN0 (?c @ 0 # 0 # r) j = ?c @ key_words p j @ r" for r
    by (simp add: deskey_step_def Let_def key_words_def round_key_def list_update_append len mult.commute)
  then show ?case using Suc rep by simp
qed simp

lemma deskey_DE1:
  "j \<le> 16 \<Longrightarrow> foldl (deskey_step p DE1) (replicate 32 0) [0..<j] =
     replicate (32 - 2 * j) 0 @ concat (map (key_words p) (rev [0..<j]))"
proof (induction j)
  case (Suc j)
  let ?c = "concat (map (key_words p) (rev [0..<j]))" and ?n = "32 - 2 * Suc j"
  have "32 - 2 * j = ?n + 2" using Suc.prems by simp
  then have rep: "replicate (32 - 2 * j) (0 :: u32) = replicate ?n 0 @ [0, 0]"
    by (simp only: replicate_add) (simp only: numeral_2_eq_2 replicate.simps)
  have m: "(15 - j) * 2 = ?n" using Suc.prems by simp
  have "deskey_step p DE1 ((replicate ?n 0 @ [0, 0]) @ r) j = replicate ?n 0 @ key_words p j @ r" for r
    unfolding deskey_step_def edf.case m
    by (simp add: Let_def key_words_def round_key_def list_update_append)
  then show ?case using Suc rep by simp
qed simp

lemma deskey_pairs:
  "pairs (deskey key EN0) = map (round_key (key_bits key)) [0..<16]"
  "pairs (deskey key DE1) = map (round_key (key_bits key)) (rev [0..<16])"
  using deskey_EN0 [of 16 "key_bits key"] deskey_DE1 [of 16 "key_bits key"]
  by (simp_all add: deskey_def pairs_key_words del: upt_rec_numeral)

lemma length_deskey: "length (deskey key edf) = 32"
proof -
  have "length (foldl (deskey_step p edf) kn xs) = length kn" for p kn and xs :: "nat list"
    by (induction xs arbitrary: kn) (simp_all add: deskey_step_def Let_def)
  then show ?thesis by (simp add: deskey_def)
qed

lemma cookey_pairs: "pairs (cookey kn) = map (\<lambda>(a, b). cook_pair a b) (pairs kn)"
  by (induction kn rule: pairs.induct) (simp_all add: split_beta)

lemma length_cookey: "even (length kn) \<Longrightarrow> length (cookey kn) = length kn"
  by (induction kn rule: pairs.induct) (simp_all add: split_beta)

lemma schedules_reversed:
  "pairs (cookey (deskey key DE1)) = rev (pairs (cookey (deskey key EN0)))"
  by (simp only: cookey_pairs deskey_pairs rev_map)

section \<open>Bytes and words\<close>

lemma bit_ff: "bit (0xff :: int) n \<longleftrightarrow> n < 8"
proof -
  have "(0xff :: int) = mask 8" by (simp add: mask_eq_exp_minus_1)
  then show ?thesis by (simp only: bit_mask_iff) auto
qed

lemma word_bytes:
  fixes b0 b1 b2 b3 :: byte
  defines "w \<equiv> push_bit 24 (ucast b0) OR push_bit 16 (ucast b1) OR push_bit 8 (ucast b2) OR (ucast b3 :: u32)"
  shows "ucast (drop_bit 24 w AND 0xff) = b0" "ucast (drop_bit 16 w AND 0xff) = b1"
    "ucast (drop_bit 8 w AND 0xff) = b2" "ucast (w AND 0xff) = b3"
proof -
  have out: "\<not> bit x n" if "8 \<le> n" for x :: byte and n using that bit_imp_le_length [of x n] by auto
  show "ucast (drop_bit 24 w AND 0xff) = b0" "ucast (drop_bit 16 w AND 0xff) = b1"
    "ucast (drop_bit 8 w AND 0xff) = b2" "ucast (w AND 0xff) = b3"
    unfolding w_def
    by ((rule bit_word_eqI, auto simp: bit_ucast_iff bit_and_iff bit_or_iff bit_push_bit_iff bit_drop_bit_eq bit_ff out)[1])+
qed

lemma scrunch_unscrun: "scrunch (unscrun w) = w"
proof -
  have "push_bit 24 (ucast (ucast (drop_bit 24 x AND 0xff) :: byte)) OR
      push_bit 16 (ucast (ucast (drop_bit 16 x AND 0xff) :: byte)) OR
      push_bit 8 (ucast (ucast (drop_bit 8 x AND 0xff) :: byte)) OR
      ucast (ucast (x AND 0xff) :: byte) = (x :: u32)" (is "?l = x") for x
  proof (rule bit_word_eqI)
    fix n assume "n < LENGTH(32)"
    then consider "n < 8" | "8 \<le> n" "n - 8 < 8" "n < 16" | "16 \<le> n" "n - 16 < 8" "n < 24"
      | "24 \<le> n" "n - 24 < 8" "n < 32" by fastforce
    then show "bit ?l n = bit x n"
      by cases (auto simp: bit_ucast_iff bit_and_iff bit_or_iff bit_push_bit_iff bit_drop_bit_eq bit_ff)
  qed
  then show ?thesis by (cases w) (simp add: unscrun_def)
qed

lemma unscrun_scrunch:
  assumes "length bs = 8"
  shows "unscrun (scrunch bs) = bs"
proof -
  obtain b0 b1 b2 b3 b4 b5 b6 b7 where "bs = [b0, b1, b2, b3, b4, b5, b6, b7]"
    using assms by (auto simp: length_Suc_conv numeral_eq_Suc)
  then show ?thesis using word_bytes [of b0 b1 b2 b3] word_bytes [of b4 b5 b6 b7] by (simp add: unscrun_def)
qed

lemma length_unscrun [simp]: "length (unscrun w) = 8"
  by (simp add: unscrun_def)

section \<open>Blocks and buffers\<close>

lemma desfunc_inverse:
  "desfunc (desfunc block (cookey (deskey key EN0))) (cookey (deskey key DE1)) = block"
  by (simp add: desfunc_feistel length_cookey length_deskey schedules_reversed des.decrypts)

lemma block_roundtrip:
  assumes "length data = 8"
  shows "OPENCOMM_DesEncRaw 4 (cookey (deskey key EN0)) data =
      Some (Inr (unscrun (desfunc (scrunch data) (cookey (deskey key EN0)))))"
    and "OPENCOMM_DesDecRaw 4 (cookey (deskey key DE1))
      (unscrun (desfunc (scrunch data) (cookey (deskey key EN0)))) = Some (Inr data)"
  using assms by (simp_all add: OPENCOMM_DesEncRaw_def OPENCOMM_DesDecRaw_def DES_KEYBYTES_def DES_KEYLONGS_def length_cookey length_deskey
      scrunch_unscrun unscrun_scrunch desfunc_inverse)

text \<open>A buffer is transformed block by block, so the inverse of the block is the inverse of the buffer.\<close>

lemma des_blocks_inverse:
  assumes "\<And>b. length b = 8 \<Longrightarrow> enc b = Some (Inr (e b))" and "\<And>b. length b = 8 \<Longrightarrow> dec (e b) = Some (Inr b)"
    and "\<And>b. length b = 8 \<Longrightarrow> length (e b) = 8" and "length data = 8 * n"
  shows "\<exists>out. des_blocks enc n data = Some (Inr out) \<and> length out = 8 * n \<and> des_blocks dec n out = Some (Inr data)"
  using assms(4)
proof (induction n arbitrary: data)
  case (Suc n)
  then obtain out where out: "des_blocks enc n (drop 8 data) = Some (Inr out)" "length out = 8 * n"
    "des_blocks dec n out = Some (Inr (drop 8 data))" by force
  have "length (take 8 data) = 8" using Suc.prems by simp
  note b = assms(1-3) [OF this]
  have "des_blocks enc (Suc n) data = Some (Inr (e (take 8 data) @ out))" by (simp add: out(1) b(1))
  moreover have "des_blocks dec (Suc n) (e (take 8 data) @ out) = Some (Inr data)" by (simp add: b out(3))
  ultimately show ?case using b(3) out(2) by auto
qed simp

lemma expanded_keys:
  assumes "length key = 8"
  shows "OPENCOMM_DesExpandEncKey 4 key = Inr (cookey (deskey key EN0))" "OPENCOMM_DesExpandDecKey 4 key = Inr (cookey (deskey key DE1))"
  using assms
  by (simp_all add: OPENCOMM_DesExpandEncKey_def OPENCOMM_DesExpandDecKey_def DES_KEYBYTES_def length_cookey length_deskey)

lemma buffer_roundtrip:
  assumes "length key = 8" and "length data mod 8 = 0"
  obtains out where "myic_DESEncrypt 4 key data = Some (Inr out)" "length out = length data"
    "myic_DESDecrypt 4 key out = Some (Inr data)"
proof -
  have n: "length data = 8 * (length data div 8)" using assms(2) by auto
  obtain out where "des_blocks (OPENCOMM_DesEncRaw 4 (cookey (deskey key EN0))) (length data div 8) data = Some (Inr out)"
    "length out = 8 * (length data div 8)"
    "des_blocks (OPENCOMM_DesDecRaw 4 (cookey (deskey key DE1))) (length data div 8) out = Some (Inr data)"
    using des_blocks_inverse [OF block_roundtrip [of _ key] length_unscrun n] by blast
  then show ?thesis using that [of out] assms n by (simp add: myic_DESEncrypt_def myic_DESDecrypt_def expanded_keys)
qed

text \<open>Row \<open>r\<close> of a box: the entries whose index has the bits of \<open>r\<close> first and last.\<close>

definition box_row :: "u32 list \<Rightarrow> nat \<Rightarrow> int list" where
  "box_row SP r = map (uint \<circ> (if even r then fst else snd)) (pairs (if r < 2 then take 32 SP else drop 32 SP))"

lemma length_USER_PASSWORD_KEY: "length USER_PASSWORD_KEY = 8"
  by (simp add: USER_PASSWORD_KEY_def)

lemma sint_of_nat_byte: "n \<le> 8 \<Longrightarrow> sint (of_nat n :: byte) = int n"
  by (simp add: sint_uint unsigned_of_nat take_bit_nat_eq_self signed_take_bit_int_eq_self)

lemma des_blocks_total:
  assumes "\<And>b. length b = 8 \<Longrightarrow> \<exists>out. raw b = Some (Inr out)" and "length data = 8 * n"
  shows "\<exists>out. des_blocks raw n data = Some (Inr out)"
  using assms(2)
proof (induction n arbitrary: data)
  case (Suc n)
  then have "length (take 8 data) = 8" "length (drop 8 data) = 8 * n" by simp_all
  then obtain b bs where "raw (take 8 data) = Some (Inr b)" "des_blocks raw n (drop 8 data) = Some (Inr bs)"
    using assms(1) Suc.IH by blast
  then show ?case by simp
qed simp

lemma raw_total:
  assumes "length b = 8"
  shows "\<exists>out. OPENCOMM_DesEncRaw 4 (cookey (deskey key e)) b = Some (Inr out)"
    "\<exists>out. OPENCOMM_DesDecRaw 4 (cookey (deskey key e)) b = Some (Inr out)"
  using assms
  by (simp_all add: OPENCOMM_DesEncRaw_def OPENCOMM_DesDecRaw_def DES_KEYBYTES_def DES_KEYLONGS_def length_cookey length_deskey)

lemma des_blocks_length:
  assumes "\<And>b out. raw b = Some (Inr out) \<Longrightarrow> length out = 8"
  shows "des_blocks raw n data = Some (Inr out) \<Longrightarrow> length out = 8 * n"
  by (induction n arbitrary: data out) (auto split: option.splits sum.splits dest: assms)

lemma decrypt_length:
  assumes "length key = 8" and "length data mod 8 = 0"
  obtains plain where "myic_DESDecrypt 4 key data = Some (Inr plain)" "length plain = length data"
proof -
  have n: "length data = 8 * (length data div 8)" using assms(2) by auto
  obtain plain where p: "des_blocks (OPENCOMM_DesDecRaw 4 (cookey (deskey key DE1))) (length data div 8) data = Some (Inr plain)"
    using des_blocks_total [where raw = "OPENCOMM_DesDecRaw 4 (cookey (deskey key DE1))", OF raw_total(2) n] by blast
  then have "length plain = 8 * (length data div 8)"
    by (rule des_blocks_length [rotated]) (auto simp: OPENCOMM_DesDecRaw_def split: if_splits)
  then show ?thesis using that [of plain] p assms n by (simp add: myic_DESDecrypt_def expanded_keys)
qed

text \<open>With a \<open>long\<close> of eight bytes neither direction gets to a defined result.\<close>

lemma wide_long_undefined:
  assumes "length key = 8" and "length block = 8"
  shows "\<exists>ek. OPENCOMM_DesExpandEncKey 8 key = Inr ek \<and> length ek = 16 \<and> OPENCOMM_DesEncRaw 8 ek block = None"
    "\<exists>dk. OPENCOMM_DesExpandDecKey 8 key = Inr dk \<and> length dk = 16 \<and> OPENCOMM_DesDecRaw 8 dk block = None"
    "length data mod 8 = 0 \<Longrightarrow> myic_DESEncrypt 8 key data = None"
    "length data mod 8 = 0 \<Longrightarrow> myic_DESDecrypt 8 key data = None"
  using assms
  by (simp_all add: OPENCOMM_DesExpandEncKey_def OPENCOMM_DesExpandDecKey_def OPENCOMM_DesEncRaw_def OPENCOMM_DesDecRaw_def
      myic_DESEncrypt_def myic_DESDecrypt_def DES_KEYBYTES_def DES_KEYLONGS_def length_cookey length_deskey)

section \<open>Properties\<close>

text \<open>Decryption undoes encryption on buffers: where a \<open>long\<close> has four bytes, under an 8-byte key every buffer whose length is a
  multiple of eight is encrypted without error to a buffer of the same length, and decrypting that with the same
  key gives the buffer back.\<close>

theorem des_buffer_roundtrip:
  assumes "length key = 8" and "length data mod 8 = 0"
  shows "\<exists>out. myic_DESEncrypt 4 key data = Some (Inr out) \<and> length out = length data \<and> myic_DESDecrypt 4 key out = Some (Inr data)"
  using buffer_roundtrip [OF assms] by metis

theorem des_buffer_roundtrip_witness:
  "\<exists>out. myic_DESEncrypt 4 [1, 2, 3, 4, 5, 6, 7, 8] (replicate 16 0xAB) = Some (Inr out) \<and>
     length out = 16 \<and> myic_DESDecrypt 4 [1, 2, 3, 4, 5, 6, 7, 8] out = Some (Inr (replicate 16 0xAB))"
  using des_buffer_roundtrip [of "[1, 2, 3, 4, 5, 6, 7, 8]" "replicate 16 0xAB"] by simp

text \<open>C29: Passwords survive the round trip where an \<open>unsigned long\<close> has four bytes: when the allocations succeed, \<open>DesEnc\<close> pads
  data of any length (the empty string too) with one to eight bytes and encrypts it, and \<open>DesDec\<close> of the result strips
  exactly the padding and returns the data. Where an \<open>unsigned long\<close> has eight bytes, \<open>DesEnc\<close> never gets to a defined result: the
  length of the expanded key is stored over the end of an \<open>int\<close>, and of the 32 words of the expanded key only 16 are copied, so
  that the encryption of a block reads words that nobody has written.\<close>

theorem des_password_roundtrip:
  assumes "\<And>n. malloc n" and "length block = 8"
  shows "(\<exists>out. DesEnc 4 malloc data = Some (Inr out) \<and> length data < length out \<and> length out \<le> length data + 8 \<and>
      DesDec 4 malloc out = Some (Inr data)) \<and>
    DesEnc 8 malloc data = None \<and>
    (\<exists>ek. OPENCOMM_DesExpandEncKey 8 USER_PASSWORD_KEY = Inr ek \<and> length ek = 16 \<and> OPENCOMM_DesEncRaw 8 ek block = None)"
proof -
  define p where "p = 8 - length data mod 8"
  have p: "1 \<le> p" "p \<le> 8" unfolding p_def using mod_less_divisor [of 8 "length data"] by linarith+
  let ?padded = "data @ replicate p (of_nat p :: byte)"
  have m: "length ?padded mod 8 = 0" unfolding p_def length_append length_replicate by presburger
  have pad: "CW_dataPadAdd malloc 0 data = Some ?padded" using assms(1) by (simp add: CW_dataPadAdd_def p_def Let_def)
  obtain out where out: "myic_DESEncrypt 4 USER_PASSWORD_KEY ?padded = Some (Inr out)"
      "length out = length ?padded" "myic_DESDecrypt 4 USER_PASSWORD_KEY out = Some (Inr ?padded)"
    by (rule buffer_roundtrip [OF length_USER_PASSWORD_KEY m])
  have "DesEnc 4 malloc data = Some (Inr out)" by (simp add: DesEnc_def pad out(1))
  moreover have "last ?padded = of_nat p" "?padded \<noteq> []" using p(1) by auto
  then have "DesDec 4 malloc out = Some (Inr data)"
    using assms(1) out p sint_of_nat_byte [OF p(2)] by (simp add: DesDec_def Let_def)
  moreover have "DesEnc 8 malloc data = None"
    using wide_long_undefined(3) [OF length_USER_PASSWORD_KEY assms(2) m] by (simp add: DesEnc_def pad)
  ultimately show ?thesis using out(2) p wide_long_undefined(1) [OF length_USER_PASSWORD_KEY assms(2)] by auto
qed

theorem des_password_roundtrip_witness:
  "(\<exists>out. DesEnc 4 (\<lambda>_. True) [1, 2, 3] = Some (Inr out) \<and> 3 < length out \<and> length out \<le> 11 \<and>
     DesDec 4 (\<lambda>_. True) out = Some (Inr [1, 2, 3])) \<and> DesEnc 8 (\<lambda>_. True) [1, 2, 3] = None"
  using des_password_roundtrip [of "\<lambda>_. True" "replicate 8 0" "[1, 2, 3]"] by (simp add: eval_nat_numeral)

text \<open>Error behaviour of the password routines with a \<open>long\<close> of four bytes: \<open>DesDec\<close> rejects a ciphertext whose length is not a
  multiple of eight with the code 0xEE20; on the empty ciphertext it reads the byte before its buffer;
  on every other ciphertext it either reports a bad padding or returns a plaintext that is one to eight
  bytes shorter than the ciphertext. When the allocation fails, \<open>DesDec\<close> reports it, but \<open>DesEnc\<close>
  returns success with an empty result.\<close>

theorem des_password_errors:
  "DesEnc 4 (\<lambda>_. False) data = Some (Inr []) \<and> DesDec 4 (\<lambda>_. False) data = Some (Inl ERR_MALLOC) \<and> DesDec 4 (\<lambda>_. True) [] = None \<and>
   (length data mod 8 \<noteq> 0 \<longrightarrow> DesDec 4 (\<lambda>_. True) data = Some (Inl DES_ERR)) \<and>
   (length data mod 8 = 0 \<and> data \<noteq> [] \<longrightarrow> DesDec 4 (\<lambda>_. True) data = Some (Inl ERR_FILECONT) \<or>
     (\<exists>plain. DesDec 4 (\<lambda>_. True) data = Some (Inr plain) \<and> length plain < length data \<and> length data \<le> length plain + 8))"
proof (intro conjI impI)
  show "DesEnc 4 (\<lambda>_. False) data = Some (Inr [])"
    by (simp add: DesEnc_def CW_dataPadAdd_def myic_DESEncrypt_def expanded_keys length_USER_PASSWORD_KEY)
  show "DesDec 4 (\<lambda>_. False) data = Some (Inl ERR_MALLOC)" by (simp add: DesDec_def)
  show "DesDec 4 (\<lambda>_. True) [] = None"
    by (simp add: DesDec_def myic_DESDecrypt_def expanded_keys length_USER_PASSWORD_KEY)
  show "DesDec 4 (\<lambda>_. True) data = Some (Inl DES_ERR)" if "length data mod 8 \<noteq> 0"
    using that by (simp add: DesDec_def myic_DESDecrypt_def)
  assume "length data mod 8 = 0 \<and> data \<noteq> []"
  then have len: "length data mod 8 = 0" "data \<noteq> []" by simp_all
  obtain plain where plain: "myic_DESDecrypt 4 USER_PASSWORD_KEY data = Some (Inr plain)" "length plain = length data"
    by (rule decrypt_length [OF length_USER_PASSWORD_KEY len(1)])
  then show "DesDec 4 (\<lambda>_. True) data = Some (Inl ERR_FILECONT) \<or>
     (\<exists>plain. DesDec 4 (\<lambda>_. True) data = Some (Inr plain) \<and> length plain < length data \<and> length data \<le> length plain + 8)"
    using len by (auto simp: DesDec_def Let_def)
qed

theorem des_password_errors_witness:
  "DesDec 4 (\<lambda>_. True) [1, 2, 3] = Some (Inl DES_ERR) \<and>
   (DesDec 4 (\<lambda>_. True) (replicate 8 1) = Some (Inl ERR_FILECONT) \<or>
     (\<exists>plain. DesDec 4 (\<lambda>_. True) (replicate 8 1) = Some (Inr plain) \<and> length plain < 8 \<and> 8 \<le> length plain + 8))"
  using des_password_errors [of "[1, 2, 3]"] des_password_errors [of "replicate 8 1"] by simp

text \<open>The tables: in every row of a DES substitution box each of the sixteen values occurs once. The
  combined boxes of the code have this property except \<open>SP5\<close>, whose row 2 repeats a value, so the
  cipher is not the standard one (it still decrypts what it encrypts).\<close>

theorem des_boxes:
  "list_all (\<lambda>SP. list_all (\<lambda>r. distinct (box_row SP r)) [0, 1, 2, 3]) [SP1, SP2, SP3, SP4, SP6, SP7, SP8] \<and>
   \<not> distinct (box_row SP5 2)"
  by (intro conjI; code_simp)

end
