(* ===== verification/Md5.thy ===== *)
theory Md5
  imports Prelude
begin

text \<open>
  The MD5 digest of the cloud disk (\<open>HuLianWangYunPan/0voice-cloud-disk/common/md5.c\<close> and its macros in
  \<open>include/md5.h\<close>): the context with its two-word bit counter, the compression function with its 64
  unrolled steps, the incremental update and the final padding.

  The specification is the digest as RFC 1321 describes it: pad the whole message, cut it into
  64-byte blocks, run a loop of 64 steps driven by tables over each. The development shows that the
  unrolled compression is that loop and that any way of cutting a message into updates gives the
  digest of the whole. A \<open>memcpy\<close> or a block read past the end of the input is \<open>None\<close>.
\<close>

section \<open>Data\<close>

type_synonym md5_state = "u32 \<times> u32 \<times> u32 \<times> u32"

record md5_ctx =
  count0 :: u32
  count1 :: u32
  md5_state :: md5_state
  md5_buffer :: "byte list"

definition PADDING :: "byte list" where
  "PADDING = 0x80 # replicate 63 0"

section \<open>Compression\<close>

definition F :: "u32 \<Rightarrow> u32 \<Rightarrow> u32 \<Rightarrow> u32" where "F x y z = (x AND y) OR (NOT x AND z)"
definition G :: "u32 \<Rightarrow> u32 \<Rightarrow> u32 \<Rightarrow> u32" where "G x y z = (x AND z) OR (y AND NOT z)"
definition H :: "u32 \<Rightarrow> u32 \<Rightarrow> u32 \<Rightarrow> u32" where "H x y z = x XOR y XOR z"
definition I :: "u32 \<Rightarrow> u32 \<Rightarrow> u32 \<Rightarrow> u32" where "I x y z = y XOR (x OR NOT z)"

definition ROTATE_LEFT :: "u32 \<Rightarrow> nat \<Rightarrow> u32" where
  "ROTATE_LEFT x n = push_bit n x OR drop_bit (32 - n) x"

definition FF :: "u32 \<Rightarrow> u32 \<Rightarrow> u32 \<Rightarrow> u32 \<Rightarrow> u32 \<Rightarrow> nat \<Rightarrow> u32 \<Rightarrow> u32" where
  "FF a b c d x s ac = ROTATE_LEFT (a + (F b c d + x + ac)) s + b"

definition GG :: "u32 \<Rightarrow> u32 \<Rightarrow> u32 \<Rightarrow> u32 \<Rightarrow> u32 \<Rightarrow> nat \<Rightarrow> u32 \<Rightarrow> u32" where
  "GG a b c d x s ac = ROTATE_LEFT (a + (G b c d + x + ac)) s + b"

definition HH :: "u32 \<Rightarrow> u32 \<Rightarrow> u32 \<Rightarrow> u32 \<Rightarrow> u32 \<Rightarrow> nat \<Rightarrow> u32 \<Rightarrow> u32" where
  "HH a b c d x s ac = ROTATE_LEFT (a + (H b c d + x + ac)) s + b"

definition II :: "u32 \<Rightarrow> u32 \<Rightarrow> u32 \<Rightarrow> u32 \<Rightarrow> u32 \<Rightarrow> nat \<Rightarrow> u32 \<Rightarrow> u32" where
  "II a b c d x s ac = ROTATE_LEFT (a + (I b c d + x + ac)) s + b"

text \<open>Little-endian words; both loops run over the whole of their argument in the code.\<close>

fun MD5Encode :: "u32 list \<Rightarrow> byte list" where
  "MD5Encode [] = []"
| "MD5Encode (w # ws) =
     ucast (w AND 0xff) # ucast (drop_bit 8 w AND 0xff) # ucast (drop_bit 16 w AND 0xff) #
     ucast (drop_bit 24 w AND 0xff) # MD5Encode ws"

fun MD5Decode :: "byte list \<Rightarrow> u32 list" where
  "MD5Decode (b0 # b1 # b2 # b3 # bs) =
     (ucast b0 OR push_bit 8 (ucast b1) OR push_bit 16 (ucast b2) OR push_bit 24 (ucast b3)) # MD5Decode bs"
| "MD5Decode _ = []"

fun md5_add :: "md5_state \<Rightarrow> md5_state \<Rightarrow> md5_state" where
  "md5_add (s0, s1, s2, s3) (a, b, c, d) = (s0 + a, s1 + b, s2 + c, s3 + d)"

definition MD5Transform :: "md5_state \<Rightarrow> byte list \<Rightarrow> md5_state" where
  "MD5Transform state block =
     (let x = MD5Decode block; (a, b, c, d) = state;
       a = FF a b c d (x ! 0) 7 0xd76aa478;
       d = FF d a b c (x ! 1) 12 0xe8c7b756;
       c = FF c d a b (x ! 2) 17 0x242070db;
       b = FF b c d a (x ! 3) 22 0xc1bdceee;
       a = FF a b c d (x ! 4) 7 0xf57c0faf;
       d = FF d a b c (x ! 5) 12 0x4787c62a;
       c = FF c d a b (x ! 6) 17 0xa8304613;
       b = FF b c d a (x ! 7) 22 0xfd469501;
       a = FF a b c d (x ! 8) 7 0x698098d8;
       d = FF d a b c (x ! 9) 12 0x8b44f7af;
       c = FF c d a b (x ! 10) 17 0xffff5bb1;
       b = FF b c d a (x ! 11) 22 0x895cd7be;
       a = FF a b c d (x ! 12) 7 0x6b901122;
       d = FF d a b c (x ! 13) 12 0xfd987193;
       c = FF c d a b (x ! 14) 17 0xa679438e;
       b = FF b c d a (x ! 15) 22 0x49b40821;
       a = GG a b c d (x ! 1) 5 0xf61e2562;
       d = GG d a b c (x ! 6) 9 0xc040b340;
       c = GG c d a b (x ! 11) 14 0x265e5a51;
       b = GG b c d a (x ! 0) 20 0xe9b6c7aa;
       a = GG a b c d (x ! 5) 5 0xd62f105d;
       d = GG d a b c (x ! 10) 9 0x2441453;
       c = GG c d a b (x ! 15) 14 0xd8a1e681;
       b = GG b c d a (x ! 4) 20 0xe7d3fbc8;
       a = GG a b c d (x ! 9) 5 0x21e1cde6;
       d = GG d a b c (x ! 14) 9 0xc33707d6;
       c = GG c d a b (x ! 3) 14 0xf4d50d87;
       b = GG b c d a (x ! 8) 20 0x455a14ed;
       a = GG a b c d (x ! 13) 5 0xa9e3e905;
       d = GG d a b c (x ! 2) 9 0xfcefa3f8;
       c = GG c d a b (x ! 7) 14 0x676f02d9;
       b = GG b c d a (x ! 12) 20 0x8d2a4c8a;
       a = HH a b c d (x ! 5) 4 0xfffa3942;
       d = HH d a b c (x ! 8) 11 0x8771f681;
       c = HH c d a b (x ! 11) 16 0x6d9d6122;
       b = HH b c d a (x ! 14) 23 0xfde5380c;
       a = HH a b c d (x ! 1) 4 0xa4beea44;
       d = HH d a b c (x ! 4) 11 0x4bdecfa9;
       c = HH c d a b (x ! 7) 16 0xf6bb4b60;
       b = HH b c d a (x ! 10) 23 0xbebfbc70;
       a = HH a b c d (x ! 13) 4 0x289b7ec6;
       d = HH d a b c (x ! 0) 11 0xeaa127fa;
       c = HH c d a b (x ! 3) 16 0xd4ef3085;
       b = HH b c d a (x ! 6) 23 0x4881d05;
       a = HH a b c d (x ! 9) 4 0xd9d4d039;
       d = HH d a b c (x ! 12) 11 0xe6db99e5;
       c = HH c d a b (x ! 15) 16 0x1fa27cf8;
       b = HH b c d a (x ! 2) 23 0xc4ac5665;
       a = II a b c d (x ! 0) 6 0xf4292244;
       d = II d a b c (x ! 7) 10 0x432aff97;
       c = II c d a b (x ! 14) 15 0xab9423a7;
       b = II b c d a (x ! 5) 21 0xfc93a039;
       a = II a b c d (x ! 12) 6 0x655b59c3;
       d = II d a b c (x ! 3) 10 0x8f0ccc92;
       c = II c d a b (x ! 10) 15 0xffeff47d;
       b = II b c d a (x ! 1) 21 0x85845dd1;
       a = II a b c d (x ! 8) 6 0x6fa87e4f;
       d = II d a b c (x ! 15) 10 0xfe2ce6e0;
       c = II c d a b (x ! 6) 15 0xa3014314;
       b = II b c d a (x ! 13) 21 0x4e0811a1;
       a = II a b c d (x ! 4) 6 0xf7537e82;
       d = II d a b c (x ! 11) 10 0xbd3af235;
       c = II c d a b (x ! 2) 15 0x2ad7d2bb;
       b = II b c d a (x ! 9) 21 0xeb86d391
      in md5_add state (a, b, c, d))"

section \<open>The incremental interface\<close>

text \<open>\<open>buffer\<close> is not initialised by the code: whatever it holds is a parameter.\<close>

definition MD5Init :: "byte list \<Rightarrow> md5_ctx" where
  "MD5Init buf = \<lparr>count0 = 0, count1 = 0, md5_state = (0x67452301, 0xEFCDAB89, 0x98BADCFE, 0x10325476),
     md5_buffer = buf\<rparr>"

text \<open>The loop over the blocks inside the input; the \<open>unsigned int\<close> sum \<open>i + 64\<close> wraps.\<close>

function md5_loop :: "md5_state \<Rightarrow> byte list \<Rightarrow> nat \<Rightarrow> nat \<Rightarrow> (md5_state \<times> nat) option" where
  "md5_loop state input inputlen i =
     (if (i + 64) mod 2 ^ 32 \<le> inputlen
      then if length input < i + 64 then None
           else md5_loop (MD5Transform state (take 64 (drop i input))) input inputlen (i + 64)
      else Some (state, i))"
  by pat_completeness auto
termination by (relation "measure (\<lambda>(_, input, _, i). length input - i)") auto

definition copy_into :: "byte list \<Rightarrow> nat \<Rightarrow> byte list \<Rightarrow> byte list" where
  "copy_into buf index bs = take index buf @ bs @ drop (index + length bs) buf"

definition md5_count :: "md5_ctx \<Rightarrow> u32 \<Rightarrow> md5_ctx" where
  "md5_count context inputlen =
     (let c0 = count0 context + push_bit 3 inputlen;
          c1 = (if c0 < push_bit 3 inputlen then count1 context + 1 else count1 context)
      in context\<lparr>count0 := c0, count1 := c1 + drop_bit 29 inputlen\<rparr>)"

definition MD5Update :: "md5_ctx \<Rightarrow> byte list \<Rightarrow> u32 \<Rightarrow> md5_ctx option" where
  "MD5Update context input inputlen =
     (let index = unat (drop_bit 3 (count0 context) AND 0x3F); partlen = 64 - index;
          context = md5_count context inputlen
      in if length input < unat inputlen then None
         else if partlen \<le> unat inputlen
         then let buffer = copy_into (md5_buffer context) index (take partlen input) in
           do { (state, i) \<leftarrow> md5_loop (MD5Transform (md5_state context) buffer) input (unat inputlen) partlen;
                Some (context\<lparr>md5_state := state,
                  md5_buffer := copy_into buffer 0 (take (unat inputlen - i) (drop i input))\<rparr>) }
         else Some (context\<lparr>md5_buffer := copy_into (md5_buffer context) index (take (unat inputlen) input)\<rparr>))"

definition MD5Final :: "md5_ctx \<Rightarrow> (md5_ctx \<times> byte list) option" where
  "MD5Final context =
     (let index = unat (drop_bit 3 (count0 context) AND 0x3F);
          padlen = (if index < 56 then 56 - index else 120 - index);
          bits = MD5Encode [count0 context, count1 context]
      in do { context \<leftarrow> MD5Update context PADDING (of_nat padlen);
              context \<leftarrow> MD5Update context bits 8;
              (case md5_state context of (a, b, c, d) \<Rightarrow> Some (context, MD5Encode [a, b, c, d])) })"

section \<open>The digest of RFC 1321\<close>

definition md5_K :: "u32 list" where
  "md5_K =
    [0xd76aa478, 0xe8c7b756, 0x242070db, 0xc1bdceee, 0xf57c0faf, 0x4787c62a, 0xa8304613, 0xfd469501,
     0x698098d8, 0x8b44f7af, 0xffff5bb1, 0x895cd7be, 0x6b901122, 0xfd987193, 0xa679438e, 0x49b40821,
     0xf61e2562, 0xc040b340, 0x265e5a51, 0xe9b6c7aa, 0xd62f105d, 0x2441453, 0xd8a1e681, 0xe7d3fbc8,
     0x21e1cde6, 0xc33707d6, 0xf4d50d87, 0x455a14ed, 0xa9e3e905, 0xfcefa3f8, 0x676f02d9, 0x8d2a4c8a,
     0xfffa3942, 0x8771f681, 0x6d9d6122, 0xfde5380c, 0xa4beea44, 0x4bdecfa9, 0xf6bb4b60, 0xbebfbc70,
     0x289b7ec6, 0xeaa127fa, 0xd4ef3085, 0x4881d05, 0xd9d4d039, 0xe6db99e5, 0x1fa27cf8, 0xc4ac5665,
     0xf4292244, 0x432aff97, 0xab9423a7, 0xfc93a039, 0x655b59c3, 0x8f0ccc92, 0xffeff47d, 0x85845dd1,
     0x6fa87e4f, 0xfe2ce6e0, 0xa3014314, 0x4e0811a1, 0xf7537e82, 0xbd3af235, 0x2ad7d2bb, 0xeb86d391]"

text \<open>The sixty-four steps: round function, index of the message word, rotation, constant.\<close>

definition md5_words :: "nat list" where
  "md5_words = concat (map (\<lambda>(m, k). map (\<lambda>i. (m * i + k) mod 16) [0..<16]) [(1, 0), (5, 1), (3, 5), (7, 0)])"

definition md5_shifts :: "nat list" where
  "md5_shifts = concat (map (\<lambda>ss. ss @ ss @ ss @ ss) [[7, 12, 17, 22], [5, 9, 14, 20], [4, 11, 16, 23], [6, 10, 15, 21]])"

definition md5_table :: "((u32 \<Rightarrow> u32 \<Rightarrow> u32 \<Rightarrow> u32) \<times> nat \<times> nat \<times> u32) list" where
  "md5_table = zip (concat (map (replicate 16) [F, G, H, I])) (zip md5_words (zip md5_shifts md5_K))"

fun rfc_step :: "u32 list \<Rightarrow> md5_state \<Rightarrow> (u32 \<Rightarrow> u32 \<Rightarrow> u32 \<Rightarrow> u32) \<times> nat \<times> nat \<times> u32 \<Rightarrow> md5_state" where
  "rfc_step x (a, b, c, d) (f, k, s, t) = (d, ROTATE_LEFT (a + (f b c d + x ! k + t)) s + b, b, c)"

definition rfc_compress :: "md5_state \<Rightarrow> byte list \<Rightarrow> md5_state" where
  "rfc_compress s block = md5_add s (foldl (rfc_step (MD5Decode block)) s md5_table)"

definition rfc_pad :: "byte list \<Rightarrow> byte list" where
  "rfc_pad msg =
     msg @ [0x80] @ replicate ((119 - length msg mod 64) mod 64) 0 @
     map (\<lambda>k. word_of_int (8 * int (length msg) div 256 ^ k)) [0..<8]"

function hash_blocks :: "('s \<Rightarrow> 'b list \<Rightarrow> 's) \<Rightarrow> nat \<Rightarrow> 's \<Rightarrow> 'b list \<Rightarrow> 's" where
  "hash_blocks compress n s bs =
     (if n = 0 \<or> length bs < n then s else hash_blocks compress n (compress s (take n bs)) (drop n bs))"
  by pat_completeness auto
termination by (relation "measure (\<lambda>(_, _, _, bs). length bs)") auto

declare hash_blocks.simps [simp del] md5_loop.simps [simp del]

definition rfc_md5 :: "byte list \<Rightarrow> byte list" where
  "rfc_md5 msg =
     (case hash_blocks rfc_compress 64 (0x67452301, 0xEFCDAB89, 0x98BADCFE, 0x10325476) (rfc_pad msg)
      of (a, b, c, d) \<Rightarrow> MD5Encode [a, b, c, d])"


section \<open>The unrolled compression is the loop\<close>

lemma md5_words_eq: "md5_words =
    [0, 1, 2, 3, 4, 5, 6, 7, 8, 9, 10, 11, 12, 13, 14, 15,
     1, 6, 11, 0, 5, 10, 15, 4, 9, 14, 3, 8, 13, 2, 7, 12,
     5, 8, 11, 14, 1, 4, 7, 10, 13, 0, 3, 6, 9, 12, 15, 2,
     0, 7, 14, 5, 12, 3, 10, 1, 8, 15, 6, 13, 4, 11, 2, 9]"
  by code_simp

lemma rfc_fold:
  "md5_add s0 (foldl (rfc_step x) (a, b, c, d) ((f, k, s, t) # steps)) =
     (let b' = ROTATE_LEFT (a + (f b c d + x ! k + t)) s + b in md5_add s0 (foldl (rfc_step x) (d, b', b, c) steps))"
  "md5_add s0 (foldl (rfc_step x) r []) = md5_add s0 r"
  by (simp_all add: Let_def)

lemma Let_tuple: "Let (a, b, c, d) g = g (a, b, c, d)" "Let (MD5Decode block) h = h (MD5Decode block)"
  by (simp_all add: Let_def)

lemma MD5Transform_rfc: "MD5Transform = rfc_compress"
proof (intro ext)
  fix state :: md5_state and block
  obtain a b c d where s: "state = (a, b, c, d)" by (cases state)
  have rep: "replicate 16 f = [f, f, f, f, f, f, f, f, f, f, f, f, f, f, f, f]"
    for f :: "u32 \<Rightarrow> u32 \<Rightarrow> u32 \<Rightarrow> u32" by (simp add: eval_nat_numeral)
  show "MD5Transform state block = rfc_compress state block"
    unfolding s MD5Transform_def rfc_compress_def md5_table_def md5_words_eq md5_shifts_def md5_K_def rep
    by (simp only: list.map concat.simps append.simps zip_Cons_Cons zip_Nil rfc_fold Let_tuple prod.case
        FF_def GG_def HH_def II_def)
qed

section \<open>Hashing block by block\<close>

text \<open>A compression function of blocks of a positive size; what is left over is shorter than a block.\<close>

locale block_hash =
  fixes compress :: "'s \<Rightarrow> 'b list \<Rightarrow> 's" and size :: nat
  assumes size_pos: "0 < size"
begin

abbreviation rest :: "'b list \<Rightarrow> 'b list" where
  "rest bs \<equiv> drop (size * (length bs div size)) bs"

lemma blocks_short: "length bs < size \<Longrightarrow> hash_blocks compress size s bs = s"
  by (simp add: hash_blocks.simps)

lemma blocks_first:
  "length b = size \<Longrightarrow> hash_blocks compress size s (b @ bs) = hash_blocks compress size (compress s b) bs"
  using size_pos by (subst hash_blocks.simps) simp

lemma length_rest: "length (rest bs) = length bs mod size"
  by (simp add: minus_mult_div_eq_mod)

lemma rest_skip: "length b = size \<Longrightarrow> rest (b @ bs) = rest bs"
  using size_pos by (simp add: div_add_self1 distrib_left)

lemma blocks_append:
  "hash_blocks compress size s (xs @ ys) = hash_blocks compress size (hash_blocks compress size s xs) (rest xs @ ys)"
proof (induction "length xs" arbitrary: s xs rule: less_induct)
  case less
  show ?case
  proof (cases "length xs < size")
    case False
    define b xs' where "b = take size xs" and "xs' = drop size xs"
    have xs: "xs = b @ xs'" "length b = size" "length xs' < length xs"
      using False size_pos by (simp_all add: b_def xs'_def)
    show ?thesis
      unfolding xs(1) rest_skip [OF xs(2)] append_assoc blocks_first [OF xs(2)] by (rule less [OF xs(3)])
  qed (simp add: blocks_short)
qed

lemma rest_append: "rest (xs @ ys) = rest (rest xs @ ys)"
proof -
  let ?q = "length xs div size" and ?m = "length xs mod size"
  have "length xs = ?m + size * ?q" by simp
  then have "(length xs + length ys) div size = (?m + length ys + size * ?q) div size"
    by (metis add.assoc add.commute)
  also have "\<dots> = (?m + length ys) div size + ?q" using size_pos by (simp only: div_mult_self2)
  finally have "size * (length (xs @ ys) div size) = size * ((?m + length ys) div size) + size * ?q"
    by (simp add: distrib_left)
  then have "rest (xs @ ys) = drop (size * ((?m + length ys) div size)) (drop (size * ?q) (xs @ ys))"
    by (simp only: drop_drop)
  also have "drop (size * ?q) (xs @ ys) = rest xs @ ys" by simp
  finally show ?thesis by (simp add: minus_mult_div_eq_mod)
qed

end

interpretation md5: block_hash MD5Transform 64
  by unfold_locales simp

section \<open>The context represents the bytes seen so far\<close>

abbreviation md5_start :: md5_state where
  "md5_start \<equiv> (0x67452301, 0xEFCDAB89, 0x98BADCFE, 0x10325476)"

definition md5_inv :: "md5_ctx \<Rightarrow> byte list \<Rightarrow> bool" where
  "md5_inv c msg \<longleftrightarrow> length (md5_buffer c) = 64 \<and> md5_state c = hash_blocks MD5Transform 64 md5_start msg \<and>
     take (length msg mod 64) (md5_buffer c) = md5.rest msg \<and>
     unat (count1 c) * 2 ^ 32 + unat (count0 c) = 8 * length msg mod 2 ^ 64"

lemma md5_inv_init: "length buf = 64 \<Longrightarrow> md5_inv (MD5Init buf) []"
  by (simp add: md5_inv_def MD5Init_def md5.blocks_short)

text \<open>The index into the buffer, read off the low word of the bit counter.\<close>

lemma md5_index:
  assumes "md5_inv c msg"
  shows "unat (drop_bit 3 (count0 c) AND 0x3F) = length msg mod 64"
proof -
  have "(0x3F :: u32) = mask 6" by (simp add: mask_eq_exp_minus_1)
  then have "unat (drop_bit 3 (count0 c) AND 0x3F) = unat (count0 c) div 8 mod 64"
    by (simp only: unsigned_take_bit_eq unat_drop_bit flip: take_bit_eq_mask) (simp add: take_bit_eq_mod)
  moreover have "unat (count0 c) = 8 * length msg mod 2 ^ 64 mod 2 ^ 32"
  proof -
    have "unat (count0 c) = (unat (count1 c) * 2 ^ 32 + unat (count0 c)) mod 2 ^ 32" using unat_u32_lt [of "count0 c"] by simp
    then show ?thesis using assms by (simp only: md5_inv_def)
  qed
  moreover have "(8 * length msg mod 2 ^ 64 mod 2 ^ 32) div 8 mod 64 = length msg mod 64"
  proof -
    have "8 * length msg mod 2 ^ 64 mod 2 ^ 32 = 8 * length msg mod (8 * 2 ^ 29)"
      by (simp add: mod_mod_cancel)
    also have "\<dots> = 8 * (length msg mod 2 ^ 29)" by (rule mult_mod_right [symmetric])
    finally show ?thesis by (simp add: mod_mod_cancel)
  qed
  ultimately show ?thesis by (simp only:)
qed

lemma md5_count_bits:
  "unat (count1 (md5_count c n)) * 2 ^ 32 + unat (count0 (md5_count c n)) =
     (unat (count1 c) * 2 ^ 32 + unat (count0 c) + 8 * unat n) mod 2 ^ 64"
proof -
  define c0 c1 m where "c0 = unat (count0 c)" and "c1 = unat (count1 c)" and "m = unat n"
  have lt: "c0 < 2 ^ 32" "c1 < 2 ^ 32" "m < 2 ^ 32" by (simp_all only: c0_def c1_def m_def unat_u32_lt)
  have lo: "unat (push_bit 3 n) = 8 * m mod 2 ^ 32"
    by (simp only: m_def unsigned_push_bit_eq) (simp add: take_bit_eq_mod push_bit_eq_mult mult.commute)
  have hi: "unat (drop_bit 29 n) = m div 2 ^ 29" by (simp only: m_def unat_drop_bit)
  have n0: "unat (count0 (md5_count c n)) = (c0 + 8 * m mod 2 ^ 32) mod 2 ^ 32"
    by (simp add: md5_count_def Let_def c0_def unat_word_ariths lo)
  have carry: "(count0 c + push_bit 3 n < push_bit 3 n) = (2 ^ 32 \<le> c0 + 8 * m mod 2 ^ 32)"
  proof -
    define r where "r = 8 * m mod 2 ^ 32"
    have "r < 2 ^ 32" unfolding r_def by (rule mod_less_divisor) simp
    then have "(c0 + r) mod 2 ^ 32 < r \<longleftrightarrow> 2 ^ 32 \<le> c0 + r" using lt(1) by (auto simp: mod_if)
    then show ?thesis by (simp only: word_less_nat_alt unat_word_ariths lo c0_def r_def) simp
  qed
  have n1: "unat (count1 (md5_count c n)) =
      (c1 + (if 2 ^ 32 \<le> c0 + 8 * m mod 2 ^ 32 then 1 else 0) + m div 2 ^ 29) mod 2 ^ 32"
    unfolding carry [symmetric] by (simp add: md5_count_def Let_def c1_def unat_word_ariths hi mod_simps)
  have m: "8 * m = 2 ^ 32 * (m div 2 ^ 29) + 8 * m mod 2 ^ 32"
  proof -
    have "8 * m div 2 ^ 32 = m div 2 ^ 29" using div_mult_mult1 [of 8 m "2 ^ 29"] by simp
    then show ?thesis by (metis mult_div_mod_eq)
  qed
  have two: "(a * 2 ^ 32 + b) mod 2 ^ 64 = (a mod 2 ^ 32) * 2 ^ 32 + b" if "b < 2 ^ 32" for a b :: nat
    using that mod_mult2_eq [of "a * 2 ^ 32 + b" "2 ^ 32" "2 ^ 32"] by simp
  let ?k = "if 2 ^ 32 \<le> c0 + 8 * m mod 2 ^ 32 then 1 else 0 :: nat"
  have "c1 * 2 ^ 32 + c0 + 8 * m = (c1 + ?k + m div 2 ^ 29) * 2 ^ 32 + (c0 + 8 * m mod 2 ^ 32) mod 2 ^ 32"
  proof -
    have "(c0 + r) mod 2 ^ 32 + (if 2 ^ 32 \<le> c0 + r then 1 else 0) * 2 ^ 32 = c0 + r" if "r < 2 ^ 32" for r
      using lt(1) that by (auto simp: mod_if)
    from this [of "8 * m mod 2 ^ 32"]
    have "(c0 + 8 * m mod 2 ^ 32) mod 2 ^ 32 + ?k * 2 ^ 32 = c0 + 8 * m mod 2 ^ 32" by simp
    moreover have "d + c0 + M = d + k + q + x" if "x + k = c0 + r" "M = q + r" for d M k q x r :: nat
      using that by linarith
    ultimately show ?thesis unfolding distrib_right using m by (simp only: mult.commute)
  qed
  then show ?thesis
    unfolding n0 n1 c0_def [symmetric] c1_def [symmetric] m_def [symmetric] by (simp only: two mod_less_divisor zero_less_numeral zero_less_power)
qed

lemma md5_loop_blocks:
  assumes "n + 64 < 2 ^ 32" and "n \<le> length input" and "i \<le> n"
  shows "md5_loop s input n i =
    Some (hash_blocks MD5Transform 64 s (drop i (take n input)), i + 64 * ((n - i) div 64))"
  using assms(3)
proof (induction "n - i" arbitrary: s i rule: less_induct)
  case less
  have wrap: "(i + 64) mod 2 ^ 32 = i + 64" using assms(1) less.prems by simp
  show ?case
  proof (cases "i + 64 \<le> n")
    case True
    have split: "drop i (take n input) = take 64 (drop i input) @ drop (i + 64) (take n input)"
      using True append_take_drop_id [of 64 "drop i (take n input)"]
      by (simp add: drop_take min_absorb1 add.commute [of 64 i])
    have len: "length (take 64 (drop i input)) = 64" using True assms(2) by simp
    have "md5_loop s input n i = md5_loop (MD5Transform s (take 64 (drop i input))) input n (i + 64)"
      using True wrap assms(2) by (subst md5_loop.simps) simp
    also have "\<dots> = Some (hash_blocks MD5Transform 64 (MD5Transform s (take 64 (drop i input))) (drop (i + 64) (take n input)),
        i + 64 + 64 * ((n - (i + 64)) div 64))"
      using True by (intro less.hyps) simp_all
    also have "i + 64 + 64 * ((n - (i + 64)) div 64) = i + 64 * ((n - i) div 64)"
    proof -
      have "n - i = (n - (i + 64)) + 64" using True by simp
      then have "(n - i) div 64 = (n - (i + 64)) div 64 + 1" by (metis div_add_self2 zero_neq_numeral)
      then show ?thesis by (simp only: distrib_left)
    qed
    finally show ?thesis unfolding split md5.blocks_first [OF len] .
  next
    case False
    then show ?thesis using wrap less.prems assms(2) by (subst md5_loop.simps) (simp add: md5.blocks_short)
  qed
qed

lemma md5_count_frame [simp]:
  "md5_state (md5_count c n) = md5_state c" "md5_buffer (md5_count c n) = md5_buffer c"
  by (simp_all add: md5_count_def Let_def)

text \<open>The context after an update, from its four parts.\<close>

lemma md5_invI:
  assumes "md5_inv c msg" and "md5_buffer c' = md5.rest (msg @ x) @ tail" and "length (md5_buffer c') = 64"
    and "md5_state c' = hash_blocks MD5Transform 64 (md5_state c) (md5.rest msg @ x)"
    and "count0 c' = count0 (md5_count c n)" "count1 c' = count1 (md5_count c n)" "unat n = length x"
  shows "md5_inv c' (msg @ x)"
proof -
  have "take (length (msg @ x) mod 64) (md5_buffer c') = md5.rest (msg @ x)"
    unfolding md5.length_rest [symmetric] assms(2) by simp
  moreover have "md5_state c' = hash_blocks MD5Transform 64 md5_start (msg @ x)"
    using assms(1,4) unfolding md5_inv_def md5.blocks_append [of _ msg x] by simp
  moreover have "unat (count1 c') * 2 ^ 32 + unat (count0 c') = 8 * length (msg @ x) mod 2 ^ 64"
  proof -
    have "unat (count1 c') * 2 ^ 32 + unat (count0 c') = (8 * length msg mod 2 ^ 64 + 8 * length x) mod 2 ^ 64"
      using assms(1,7) unfolding assms(5,6) md5_count_bits md5_inv_def by simp
    then show ?thesis by (simp only: mod_add_left_eq distrib_left length_append)
  qed
  ultimately show ?thesis using assms(3) by (simp only: md5_inv_def)
qed

lemma MD5Update_inv:
  assumes "md5_inv c msg" and "unat n \<le> length input" and "unat n + 64 < 2 ^ 32"
  obtains c' where "MD5Update c input n = Some c'" "md5_inv c' (msg @ take (unat n) input)"
proof -
  define index x where "index = length msg mod 64" and "x = take (unat n) input"
  have index: "unat (drop_bit 3 (count0 c) AND 0x3F) = index" "index < 64"
    using md5_index [OF assms(1)] by (simp_all add: index_def)
  have buf: "take index (md5_buffer c) = md5.rest msg" "length (md5_buffer c) = 64" "length (md5.rest msg) = index"
    using assms(1) by (simp_all add: md5_inv_def index_def minus_mult_div_eq_mod)
  have x: "unat n = length x" using assms(2) by (simp add: x_def)
  show ?thesis
  proof (cases "64 - index \<le> unat n")
    case True
    define part B where "part = 64 - index" and "B = md5.rest msg @ take part x"
    have part: "part \<le> unat n" "part \<le> length x" "index + part = 64" using True x index(2) by (simp_all add: part_def)
    have B: "length B = 64" using part buf(3) by (simp add: B_def)
    have "take part input = take part x" using part(1) by (simp add: x_def min_absorb1)
    then have into: "copy_into (md5_buffer c) index (take part input) = B"
      using part buf by (simp add: copy_into_def B_def)
    have cut: "md5.rest msg @ x = B @ drop part x" by (simp add: B_def)
    define i where "i = part + 64 * ((unat n - part) div 64)"
    have rest: "md5.rest (msg @ x) = drop i x"
      unfolding md5.rest_append [of msg] cut md5.rest_skip [OF B] by (simp add: i_def x add.commute)
    have "unat n - i = (unat n - part) mod 64"
      unfolding i_def by (simp only: diff_diff_left [symmetric] minus_mult_div_eq_mod)
    then have i: "i \<le> unat n" "unat n - i \<le> 64"
      using part(1) times_div_less_eq_dividend [of 64 "unat n - part"] by (simp_all add: i_def)
    define c' where "c' = (md5_count c n)\<lparr>md5_state := hash_blocks MD5Transform 64 (MD5Transform (md5_state c) B) (drop part x),
        md5_buffer := copy_into B 0 (take (unat n - i) (drop i input))\<rparr>"
    have "MD5Update c input n = Some c'"
      using True assms(2) md5_loop_blocks [of "unat n" input part "MD5Transform (md5_state c) B"] assms(3)
      by (simp add: MD5Update_def Let_def index(1) part_def [symmetric] into c'_def x_def i_def)
    moreover have "md5_inv c' (msg @ x)"
    proof (rule md5_invI [OF assms(1) _ _ _ _ _ x])
      show "md5_buffer c' = md5.rest (msg @ x) @ drop (unat n - i) B"
        unfolding rest using i assms(2) by (simp add: c'_def copy_into_def x_def drop_take)
      show "length (md5_buffer c') = 64"
        using i(2) assms(2) B by (simp add: c'_def copy_into_def)
      show "md5_state c' = hash_blocks MD5Transform 64 (md5_state c) (md5.rest msg @ x)"
        unfolding cut md5.blocks_first [OF B] by (simp add: c'_def)
    qed (simp_all add: c'_def)
    ultimately show ?thesis using that x_def by blast
  next
    case False
    define c' where "c' = (md5_count c n)\<lparr>md5_buffer := copy_into (md5_buffer c) index x\<rparr>"
    have short: "length (md5.rest msg @ x) < 64" using False buf(3) x by simp
    have rest: "md5.rest (msg @ x) = md5.rest msg @ x"
      unfolding md5.rest_append [of msg] using short by simp
    have "MD5Update c input n = Some c'"
      using False assms(2) by (simp add: MD5Update_def Let_def index(1) c'_def x_def)
    moreover have "md5_inv c' (msg @ x)"
    proof (rule md5_invI [OF assms(1) _ _ _ _ _ x])
      show "md5_buffer c' = md5.rest (msg @ x) @ drop (index + length x) (md5_buffer c)"
        unfolding rest by (simp add: c'_def copy_into_def buf(1))
      show "length (md5_buffer c') = 64"
        using False buf(2) x by (simp add: c'_def copy_into_def)
      show "md5_state c' = hash_blocks MD5Transform 64 (md5_state c) (md5.rest msg @ x)"
        unfolding md5.blocks_short [OF short] by (simp add: c'_def)
    qed (simp_all add: c'_def)
    ultimately show ?thesis using that x_def by blast
  qed
qed


section \<open>Padding\<close>

text \<open>The eight bytes of the counter are the length of the message in bits, least significant byte first.\<close>

lemma mod_div_mod: "a + c \<le> b \<Longrightarrow> n mod 2 ^ b div 2 ^ a mod 2 ^ c = (n div 2 ^ a mod 2 ^ c :: nat)"
  by (simp only: flip: take_bit_eq_mod drop_bit_eq_div)
    (auto intro!: bit_eqI simp: bit_take_bit_iff bit_drop_bit_eq)

lemma byte_of_nat: "(w :: byte) = of_nat n \<longleftrightarrow> unat w = n mod 2 ^ 8"
  by (simp add: word_unat_eq_iff unsigned_of_nat take_bit_eq_mod)

lemma MD5Encode_count:
  assumes "unat c1 * 2 ^ 32 + unat c0 = n mod 2 ^ 64"
  shows "MD5Encode [c0, c1] = map (\<lambda>k. of_nat (n div 256 ^ k)) [0..<8]"
proof -
  have c0: "unat c0 = n mod 2 ^ 64 mod 2 ^ 32" and c1: "unat c1 = n mod 2 ^ 64 div 2 ^ 32"
    using unat_u32_lt [of c0] unfolding assms [symmetric] by simp_all
  have lo: "ucast (drop_bit k c0 AND 0xff) = (of_nat (n div 2 ^ k) :: byte)" if "k + 8 \<le> 32" for k
  proof -
    have "unat c0 div 2 ^ k mod 2 ^ 8 = n div 2 ^ k mod 2 ^ 8" unfolding c0 using that by (simp only: mod_div_mod)
    then show ?thesis unfolding byte_of_nat unat_low_byte by simp
  qed
  have hi: "ucast (drop_bit k c1 AND 0xff) = (of_nat (n div 2 ^ (32 + k)) :: byte)" if "k + 8 \<le> 32" for k
  proof -
    have "unat c1 div 2 ^ k mod 2 ^ 8 = n div 2 ^ (32 + k) mod 2 ^ 8"
      unfolding c1 using that by (simp only: div_mult2_eq [symmetric] power_add [symmetric]) (rule mod_div_mod, simp)
    then show ?thesis unfolding byte_of_nat unat_low_byte by simp
  qed
  have "(256 :: nat) ^ k = 2 ^ (8 * k)" for k by (simp add: power_mult)
  moreover have "[0..<8] = [0, 1, 2, 3, 4, 5, 6, 7]" by (simp add: upt_rec)
  ultimately show ?thesis using lo [of 0] lo [of 8] lo [of 16] lo [of 24] hi [of 0] hi [of 8] hi [of 16] hi [of 24]
    by (simp only:) simp
qed

lemma rfc_pad_eq:
  "rfc_pad msg =
     msg @ take (if length msg mod 64 < 56 then 56 - length msg mod 64 else 120 - length msg mod 64) PADDING @
     map (\<lambda>k. word_of_int (8 * int (length msg) div 256 ^ k)) [0..<8]"
proof -
  define l where "l = length msg mod 64"
  have l: "l < 64" by (simp add: l_def)
  have "take (if l < 56 then 56 - l else 120 - l) PADDING = 0x80 # replicate ((119 - l) mod 64) 0"
  proof (cases "l < 56")
    case True
    then have "56 - l = Suc (55 - l)" "(119 - l) mod 64 = 55 - l" by (simp_all add: mod_if)
    then show ?thesis using True by (simp add: PADDING_def)
  next
    case False
    then have "120 - l = Suc (119 - l)" "(119 - l) mod 64 = 119 - l" using l by simp_all
    then show ?thesis using False by (simp add: PADDING_def)
  qed
  then show ?thesis by (simp only: rfc_pad_def l_def [symmetric] append.simps)
qed

lemma MD5Final_digest:
  assumes "md5_inv c msg"
  shows "\<exists>c'. MD5Final c = Some (c', rfc_md5 msg)"
proof -
  define l pad where "l = length msg mod 64" and "pad = (if l < 56 then 56 - l else 120 - l)"
  have "l < 64" by (simp add: l_def)
  then have "pad \<le> 64" unfolding pad_def by auto
  moreover from this have "unat (of_nat pad :: u32) = pad" by (intro unat_of_nat_u32) simp
  ultimately have pad: "pad \<le> 64" "unat (of_nat pad :: u32) = pad" by simp_all
  obtain c1 where c1: "MD5Update c PADDING (of_nat pad) = Some c1" "md5_inv c1 (msg @ take pad PADDING)"
    using MD5Update_inv [OF assms, of "of_nat pad" PADDING] pad by (auto simp: PADDING_def)
  let ?bits = "MD5Encode [count0 c, count1 c]"
  have bits: "?bits = map (\<lambda>k. word_of_int (8 * int (length msg) div 256 ^ k)) [0..<8]"
  proof -
    have "(of_nat (8 * length msg div 256 ^ k) :: byte) = word_of_int (8 * int (length msg) div 256 ^ k)" for k
    proof -
      have "8 * int (length msg) div 256 ^ k = int (8 * length msg div 256 ^ k)" by (simp add: zdiv_int)
      then show ?thesis by (simp only: of_int_of_nat_eq)
    qed
    then show ?thesis
      using assms MD5Encode_count [of "count1 c" "count0 c" "8 * length msg"] by (simp only: md5_inv_def)
  qed
  obtain c2 where c2: "MD5Update c1 ?bits 8 = Some c2" "md5_inv c2 ((msg @ take pad PADDING) @ take (unat (8 :: u32)) ?bits)"
    by (rule MD5Update_inv [OF c1(2), of 8 ?bits]) simp_all
  have "(msg @ take pad PADDING) @ take (unat (8 :: u32)) ?bits = rfc_pad msg"
    unfolding rfc_pad_eq bits pad_def l_def by simp
  then have "md5_state c2 = hash_blocks MD5Transform 64 md5_start (rfc_pad msg)"
    using c2(2) by (simp only: md5_inv_def)
  then show ?thesis
    using c1(1) c2(1) md5_index [OF assms]
    by (auto simp: MD5Final_def Let_def rfc_md5_def MD5Transform_rfc pad_def l_def split: prod.splits)
qed

section \<open>Properties\<close>

text \<open>The way a caller hashes data that arrives in pieces.\<close>

primrec md5_feed :: "md5_ctx \<Rightarrow> byte list list \<Rightarrow> md5_ctx option" where
  "md5_feed c [] = Some c"
| "md5_feed c (p # ps) = do { c' \<leftarrow> MD5Update c p (of_nat (length p)); md5_feed c' ps }"

lemma md5_feed_inv:
  "md5_inv c msg \<Longrightarrow> list_all (\<lambda>p. length p + 64 < 2 ^ 32) ps \<Longrightarrow> \<exists>c'. md5_feed c ps = Some c' \<and> md5_inv c' (msg @ concat ps)"
proof (induction ps arbitrary: c msg)
  case (Cons p ps)
  have p: "length p + 64 < 2 ^ 32" "list_all (\<lambda>p. length p + 64 < 2 ^ 32) ps" using Cons.prems(2) by simp_all
  then have len: "unat (of_nat (length p) :: u32) = length p" by (intro unat_of_nat_u32) simp
  obtain c1 where "MD5Update c p (of_nat (length p)) = Some c1" "md5_inv c1 (msg @ p)"
    using MD5Update_inv [OF Cons.prems(1), of "of_nat (length p)" p] p(1) unfolding len by auto
  then show ?case using Cons.IH [of c1 "msg @ p"] p(2) by simp
qed simp

text \<open>C26: The incremental digest is the digest of the whole: however a message is cut into updates (each
  shorter than 4 GB by at least 64 bytes) and whatever the uninitialised buffer holds, every update and
  the final call run inside their buffers and the sixteen bytes they produce are the MD5 digest of the
  concatenated message as RFC 1321 defines it.\<close>

theorem md5_incremental:
  assumes "length buf = 64" and "list_all (\<lambda>p. length p + 64 < 2 ^ 32) pieces"
  shows "\<exists>c c'. md5_feed (MD5Init buf) pieces = Some c \<and> MD5Final c = Some (c', rfc_md5 (concat pieces))"
  using md5_feed_inv [OF md5_inv_init [OF assms(1)] assms(2)] MD5Final_digest by auto

theorem md5_incremental_witness:
  "\<exists>c c'. md5_feed (MD5Init (replicate 64 7)) [[0x61], [0x62, 0x63]] = Some c \<and>
     MD5Final c = Some (c', [0x90, 0x01, 0x50, 0x98, 0x3c, 0xd2, 0x4f, 0xb0, 0xd6, 0x96, 0x3f, 0x7d, 0x28, 0xe1, 0x7f, 0x72])"
proof -
  have "rfc_md5 [0x61, 0x62, 0x63] =
      [0x90, 0x01, 0x50, 0x98, 0x3c, 0xd2, 0x4f, 0xb0, 0xd6, 0x96, 0x3f, 0x7d, 0x28, 0xe1, 0x7f, 0x72]"
    by code_simp
  then show ?thesis using md5_incremental [of "replicate 64 7" "[[0x61], [0x62, 0x63]]"] by simp
qed

text \<open>C27: The sixty-four unrolled steps of \<open>MD5Transform\<close> compute, for every state and block, what the
  loop of RFC 1321 computes from its tables of round functions, message words, rotations and constants.\<close>

theorem md5_transform_is_rfc: "MD5Transform state block = rfc_compress state block"
  by (simp only: MD5Transform_rfc)

lemma md5_loop_wraps:
  assumes "2 ^ 32 - 64 \<le> n" and "length input < 2 ^ 32"
  shows "i + 64 * Suc k = 2 ^ 32 \<Longrightarrow> md5_loop s input n i = None"
proof (induction k arbitrary: s i)
  case 0
  then show ?case using assms by (subst md5_loop.simps) simp
next
  case (Suc k)
  show ?case
  proof (cases "length input < i + 64")
    case False
    have "(i + 64) mod 2 ^ 32 \<le> n" using Suc.prems assms(1) by simp
    then show ?thesis using False Suc.prems by (subst md5_loop.simps) (simp add: Suc.IH)
  qed (use assms Suc.prems in \<open>subst md5_loop.simps, simp\<close>)
qed

text \<open>The limit is sharp: on a fresh context an input of 2^32 - 64 bytes or more makes the sum \<open>i + 64\<close> wrap
  round to zero, the loop goes on past the last whole block and reads beyond the end of the input.\<close>

theorem md5_update_overread:
  assumes "length input = unat n" and "2 ^ 32 - 64 \<le> unat n"
  shows "MD5Update (MD5Init buf) input n = None"
proof -
  have "md5_loop s input (unat n) 64 = None" for s
    by (rule md5_loop_wraps [where k = "2 ^ 26 - 2"]) (use assms unat_u32_lt [of n] in simp_all)
  then show ?thesis using assms by (simp add: MD5Update_def Let_def MD5Init_def md5_count_def)
qed

theorem md5_update_overread_witness:
  "MD5Update (MD5Init (replicate 64 0)) (replicate (2 ^ 32 - 64) 0) (2 ^ 32 - 64) = None"
proof -
  have "unat (2 ^ 32 - 64 :: u32) = 2 ^ 32 - 64" by simp
  then show ?thesis by (intro md5_update_overread) (simp_all only: length_replicate order_refl)
qed

end
