(* ===== verification/Aes.thy ===== *)
theory Aes
  imports Prelude
begin

text \<open>
  The AES cipher of \<open>lingshengxueyuan/chap4.3/protocol/3-security/tiny-AES-c/aes.c\<close> in its three key sizes and three
  modes: key expansion, the block cipher and its inverse, ECB, CBC and CTR.

  A block is the list of its 16 bytes, column by column, as \<open>(state_t*)buf\<close> reads it: \<open>(*state)[i][j]\<close> is byte
  \<open>4 * i + j\<close>. The choice that the macros \<open>AES128\<close>, \<open>AES192\<close>, \<open>AES256\<close> make is an argument. A buffer shorter than what the
  code reads gives \<open>None\<close>.
\<close>

section \<open>Sizes and tables\<close>

datatype aes_size = AES128 | AES192 | AES256

primrec Nk :: "aes_size \<Rightarrow> nat" where
  "Nk AES128 = 4" | "Nk AES192 = 6" | "Nk AES256 = 8"

primrec Nr :: "aes_size \<Rightarrow> nat" where
  "Nr AES128 = 10" | "Nr AES192 = 12" | "Nr AES256 = 14"

definition AES_BLOCKLEN :: nat where "AES_BLOCKLEN = 16"

definition sbox :: "byte list" where
  "sbox =
  [0x63, 0x7c, 0x77, 0x7b, 0xf2, 0x6b, 0x6f, 0xc5, 0x30, 0x01, 0x67, 0x2b, 0xfe, 0xd7, 0xab, 0x76,
   0xca, 0x82, 0xc9, 0x7d, 0xfa, 0x59, 0x47, 0xf0, 0xad, 0xd4, 0xa2, 0xaf, 0x9c, 0xa4, 0x72, 0xc0,
   0xb7, 0xfd, 0x93, 0x26, 0x36, 0x3f, 0xf7, 0xcc, 0x34, 0xa5, 0xe5, 0xf1, 0x71, 0xd8, 0x31, 0x15,
   0x04, 0xc7, 0x23, 0xc3, 0x18, 0x96, 0x05, 0x9a, 0x07, 0x12, 0x80, 0xe2, 0xeb, 0x27, 0xb2, 0x75,
   0x09, 0x83, 0x2c, 0x1a, 0x1b, 0x6e, 0x5a, 0xa0, 0x52, 0x3b, 0xd6, 0xb3, 0x29, 0xe3, 0x2f, 0x84,
   0x53, 0xd1, 0x00, 0xed, 0x20, 0xfc, 0xb1, 0x5b, 0x6a, 0xcb, 0xbe, 0x39, 0x4a, 0x4c, 0x58, 0xcf,
   0xd0, 0xef, 0xaa, 0xfb, 0x43, 0x4d, 0x33, 0x85, 0x45, 0xf9, 0x02, 0x7f, 0x50, 0x3c, 0x9f, 0xa8,
   0x51, 0xa3, 0x40, 0x8f, 0x92, 0x9d, 0x38, 0xf5, 0xbc, 0xb6, 0xda, 0x21, 0x10, 0xff, 0xf3, 0xd2,
   0xcd, 0x0c, 0x13, 0xec, 0x5f, 0x97, 0x44, 0x17, 0xc4, 0xa7, 0x7e, 0x3d, 0x64, 0x5d, 0x19, 0x73,
   0x60, 0x81, 0x4f, 0xdc, 0x22, 0x2a, 0x90, 0x88, 0x46, 0xee, 0xb8, 0x14, 0xde, 0x5e, 0x0b, 0xdb,
   0xe0, 0x32, 0x3a, 0x0a, 0x49, 0x06, 0x24, 0x5c, 0xc2, 0xd3, 0xac, 0x62, 0x91, 0x95, 0xe4, 0x79,
   0xe7, 0xc8, 0x37, 0x6d, 0x8d, 0xd5, 0x4e, 0xa9, 0x6c, 0x56, 0xf4, 0xea, 0x65, 0x7a, 0xae, 0x08,
   0xba, 0x78, 0x25, 0x2e, 0x1c, 0xa6, 0xb4, 0xc6, 0xe8, 0xdd, 0x74, 0x1f, 0x4b, 0xbd, 0x8b, 0x8a,
   0x70, 0x3e, 0xb5, 0x66, 0x48, 0x03, 0xf6, 0x0e, 0x61, 0x35, 0x57, 0xb9, 0x86, 0xc1, 0x1d, 0x9e,
   0xe1, 0xf8, 0x98, 0x11, 0x69, 0xd9, 0x8e, 0x94, 0x9b, 0x1e, 0x87, 0xe9, 0xce, 0x55, 0x28, 0xdf,
   0x8c, 0xa1, 0x89, 0x0d, 0xbf, 0xe6, 0x42, 0x68, 0x41, 0x99, 0x2d, 0x0f, 0xb0, 0x54, 0xbb, 0x16]"

definition rsbox :: "byte list" where
  "rsbox =
  [0x52, 0x09, 0x6a, 0xd5, 0x30, 0x36, 0xa5, 0x38, 0xbf, 0x40, 0xa3, 0x9e, 0x81, 0xf3, 0xd7, 0xfb,
   0x7c, 0xe3, 0x39, 0x82, 0x9b, 0x2f, 0xff, 0x87, 0x34, 0x8e, 0x43, 0x44, 0xc4, 0xde, 0xe9, 0xcb,
   0x54, 0x7b, 0x94, 0x32, 0xa6, 0xc2, 0x23, 0x3d, 0xee, 0x4c, 0x95, 0x0b, 0x42, 0xfa, 0xc3, 0x4e,
   0x08, 0x2e, 0xa1, 0x66, 0x28, 0xd9, 0x24, 0xb2, 0x76, 0x5b, 0xa2, 0x49, 0x6d, 0x8b, 0xd1, 0x25,
   0x72, 0xf8, 0xf6, 0x64, 0x86, 0x68, 0x98, 0x16, 0xd4, 0xa4, 0x5c, 0xcc, 0x5d, 0x65, 0xb6, 0x92,
   0x6c, 0x70, 0x48, 0x50, 0xfd, 0xed, 0xb9, 0xda, 0x5e, 0x15, 0x46, 0x57, 0xa7, 0x8d, 0x9d, 0x84,
   0x90, 0xd8, 0xab, 0x00, 0x8c, 0xbc, 0xd3, 0x0a, 0xf7, 0xe4, 0x58, 0x05, 0xb8, 0xb3, 0x45, 0x06,
   0xd0, 0x2c, 0x1e, 0x8f, 0xca, 0x3f, 0x0f, 0x02, 0xc1, 0xaf, 0xbd, 0x03, 0x01, 0x13, 0x8a, 0x6b,
   0x3a, 0x91, 0x11, 0x41, 0x4f, 0x67, 0xdc, 0xea, 0x97, 0xf2, 0xcf, 0xce, 0xf0, 0xb4, 0xe6, 0x73,
   0x96, 0xac, 0x74, 0x22, 0xe7, 0xad, 0x35, 0x85, 0xe2, 0xf9, 0x37, 0xe8, 0x1c, 0x75, 0xdf, 0x6e,
   0x47, 0xf1, 0x1a, 0x71, 0x1d, 0x29, 0xc5, 0x89, 0x6f, 0xb7, 0x62, 0x0e, 0xaa, 0x18, 0xbe, 0x1b,
   0xfc, 0x56, 0x3e, 0x4b, 0xc6, 0xd2, 0x79, 0x20, 0x9a, 0xdb, 0xc0, 0xfe, 0x78, 0xcd, 0x5a, 0xf4,
   0x1f, 0xdd, 0xa8, 0x33, 0x88, 0x07, 0xc7, 0x31, 0xb1, 0x12, 0x10, 0x59, 0x27, 0x80, 0xec, 0x5f,
   0x60, 0x51, 0x7f, 0xa9, 0x19, 0xb5, 0x4a, 0x0d, 0x2d, 0xe5, 0x7a, 0x9f, 0x93, 0xc9, 0x9c, 0xef,
   0xa0, 0xe0, 0x3b, 0x4d, 0xae, 0x2a, 0xf5, 0xb0, 0xc8, 0xeb, 0xbb, 0x3c, 0x83, 0x53, 0x99, 0x61,
   0x17, 0x2b, 0x04, 0x7e, 0xba, 0x77, 0xd6, 0x26, 0xe1, 0x69, 0x14, 0x63, 0x55, 0x21, 0x0c, 0x7d]"

definition Rcon :: "byte list" where
  "Rcon = [0x8d, 0x01, 0x02, 0x04, 0x08, 0x10, 0x20, 0x40, 0x80, 0x1b, 0x36]"

definition getSBoxValue :: "byte \<Rightarrow> byte" where "getSBoxValue num = sbox ! unat num"
definition getSBoxInvert :: "byte \<Rightarrow> byte" where "getSBoxInvert num = rsbox ! unat num"

section \<open>Key expansion\<close>

definition SubWord :: "byte list \<Rightarrow> byte list" where "SubWord t = map getSBoxValue t"
definition RotWord :: "byte list \<Rightarrow> byte list" where "RotWord t = [t ! 1, t ! 2, t ! 3, t ! 0]"

text \<open>One round of the second loop: word \<open>i\<close> is written behind the words before it.\<close>

definition expand_word :: "aes_size \<Rightarrow> nat \<Rightarrow> byte list \<Rightarrow> byte list" where
  "expand_word sz i RoundKey =
     (let k = (i - 1) * 4;
          tempa = [RoundKey ! (k + 0), RoundKey ! (k + 1), RoundKey ! (k + 2), RoundKey ! (k + 3)];
          tempa = (if i mod Nk sz = 0
                   then let tempa = SubWord (RotWord tempa) in tempa[0 := tempa ! 0 XOR Rcon ! (i div Nk sz)]
                   else tempa);
          tempa = (if sz = AES256 \<and> i mod Nk sz = 4 then SubWord tempa else tempa);
          k = (i - Nk sz) * 4
      in RoundKey @ [RoundKey ! (k + 0) XOR tempa ! 0, RoundKey ! (k + 1) XOR tempa ! 1,
                     RoundKey ! (k + 2) XOR tempa ! 2, RoundKey ! (k + 3) XOR tempa ! 3])"

definition KeyExpansion :: "aes_size \<Rightarrow> byte list \<Rightarrow> byte list option" where
  "KeyExpansion sz Key =
     (if length Key < Nk sz * 4 then None
      else Some (fold (expand_word sz) [Nk sz..<4 * (Nr sz + 1)] (take (Nk sz * 4) Key)))"

record aes_ctx =
  RoundKey :: "byte list"
  Iv :: "byte list"

definition AES_init_ctx :: "aes_size \<Rightarrow> aes_ctx \<Rightarrow> byte list \<Rightarrow> aes_ctx option" where
  "AES_init_ctx sz ctx key = do { rk \<leftarrow> KeyExpansion sz key; Some (ctx\<lparr>RoundKey := rk\<rparr>) }"

definition AES_ctx_set_iv :: "aes_ctx \<Rightarrow> byte list \<Rightarrow> aes_ctx option" where
  "AES_ctx_set_iv ctx iv = (if length iv < AES_BLOCKLEN then None else Some (ctx\<lparr>Iv := take AES_BLOCKLEN iv\<rparr>))"

definition AES_init_ctx_iv :: "aes_size \<Rightarrow> aes_ctx \<Rightarrow> byte list \<Rightarrow> byte list \<Rightarrow> aes_ctx option" where
  "AES_init_ctx_iv sz ctx key iv = do { rk \<leftarrow> KeyExpansion sz key; AES_ctx_set_iv (ctx\<lparr>RoundKey := rk\<rparr>) iv }"

section \<open>The round functions\<close>

text \<open>\<open>(*state)[i][j]\<close>, read and written.\<close>

definition at :: "byte list \<Rightarrow> nat \<Rightarrow> nat \<Rightarrow> byte" where "at s i j = s ! (4 * i + j)"
definition set_at :: "nat \<Rightarrow> nat \<Rightarrow> byte \<Rightarrow> byte list \<Rightarrow> byte list" where "set_at i j x s = s[4 * i + j := x]"

definition AddRoundKey :: "byte \<Rightarrow> byte list \<Rightarrow> byte list \<Rightarrow> byte list" where
  "AddRoundKey round s rk = map2 (XOR) s (take 16 (drop (unat round * 4 * 4) rk))"

definition SubBytes :: "byte list \<Rightarrow> byte list" where "SubBytes s = map getSBoxValue s"
definition InvSubBytes :: "byte list \<Rightarrow> byte list" where "InvSubBytes s = map getSBoxInvert s"

definition ShiftRows :: "byte list \<Rightarrow> byte list" where
  "ShiftRows s =
     (let temp = at s 0 1;
          s = set_at 0 1 (at s 1 1) s; s = set_at 1 1 (at s 2 1) s; s = set_at 2 1 (at s 3 1) s; s = set_at 3 1 temp s;
          temp = at s 0 2; s = set_at 0 2 (at s 2 2) s; s = set_at 2 2 temp s;
          temp = at s 1 2; s = set_at 1 2 (at s 3 2) s; s = set_at 3 2 temp s;
          temp = at s 0 3;
          s = set_at 0 3 (at s 3 3) s; s = set_at 3 3 (at s 2 3) s; s = set_at 2 3 (at s 1 3) s
      in set_at 1 3 temp s)"

definition InvShiftRows :: "byte list \<Rightarrow> byte list" where
  "InvShiftRows s =
     (let temp = at s 3 1;
          s = set_at 3 1 (at s 2 1) s; s = set_at 2 1 (at s 1 1) s; s = set_at 1 1 (at s 0 1) s; s = set_at 0 1 temp s;
          temp = at s 0 2; s = set_at 0 2 (at s 2 2) s; s = set_at 2 2 temp s;
          temp = at s 1 2; s = set_at 1 2 (at s 3 2) s; s = set_at 3 2 temp s;
          temp = at s 0 3;
          s = set_at 0 3 (at s 1 3) s; s = set_at 1 3 (at s 2 3) s; s = set_at 2 3 (at s 3 3) s
      in set_at 3 3 temp s)"

definition xtime :: "byte \<Rightarrow> byte" where
  "xtime x = push_bit 1 x XOR ((drop_bit 7 x AND 1) * 0x1b)"

text \<open>The body of the loop of \<open>MixColumns\<close>, for column \<open>i\<close>.\<close>

definition mix_column :: "nat \<Rightarrow> byte list \<Rightarrow> byte list" where
  "mix_column i s =
     (let t = at s i 0;
          Tmp = at s i 0 XOR at s i 1 XOR at s i 2 XOR at s i 3;
          Tm = at s i 0 XOR at s i 1; Tm = xtime Tm; s = set_at i 0 (at s i 0 XOR (Tm XOR Tmp)) s;
          Tm = at s i 1 XOR at s i 2; Tm = xtime Tm; s = set_at i 1 (at s i 1 XOR (Tm XOR Tmp)) s;
          Tm = at s i 2 XOR at s i 3; Tm = xtime Tm; s = set_at i 2 (at s i 2 XOR (Tm XOR Tmp)) s;
          Tm = at s i 3 XOR t; Tm = xtime Tm
      in set_at i 3 (at s i 3 XOR (Tm XOR Tmp)) s)"

definition MixColumns :: "byte list \<Rightarrow> byte list" where
  "MixColumns s = fold mix_column [0, 1, 2, 3] s"

definition Multiply :: "byte \<Rightarrow> byte \<Rightarrow> byte" where
  "Multiply x y =
     ((y AND 1) * x) XOR
     ((drop_bit 1 y AND 1) * xtime x) XOR
     ((drop_bit 2 y AND 1) * xtime (xtime x)) XOR
     ((drop_bit 3 y AND 1) * xtime (xtime (xtime x))) XOR
     ((drop_bit 4 y AND 1) * xtime (xtime (xtime (xtime x))))"

definition inv_mix_column :: "nat \<Rightarrow> byte list \<Rightarrow> byte list" where
  "inv_mix_column i s =
     (let a = at s i 0; b = at s i 1; c = at s i 2; d = at s i 3;
          s = set_at i 0 (Multiply a 0x0e XOR Multiply b 0x0b XOR Multiply c 0x0d XOR Multiply d 0x09) s;
          s = set_at i 1 (Multiply a 0x09 XOR Multiply b 0x0e XOR Multiply c 0x0b XOR Multiply d 0x0d) s;
          s = set_at i 2 (Multiply a 0x0d XOR Multiply b 0x09 XOR Multiply c 0x0e XOR Multiply d 0x0b) s
      in set_at i 3 (Multiply a 0x0b XOR Multiply b 0x0d XOR Multiply c 0x09 XOR Multiply d 0x0e) s)"

definition InvMixColumns :: "byte list \<Rightarrow> byte list" where
  "InvMixColumns s = fold inv_mix_column [0, 1, 2, 3] s"

section \<open>The block cipher\<close>

text \<open>The loops over \<open>round\<close>, which is an 8-bit variable; the first one leaves before the last \<open>MixColumns\<close>.\<close>

function cipher_loop :: "aes_size \<Rightarrow> byte list \<Rightarrow> byte \<Rightarrow> byte list \<Rightarrow> byte list" where
  "cipher_loop sz rk round s =
     (let s = ShiftRows (SubBytes s)
      in if round = of_nat (Nr sz) then s
         else cipher_loop sz rk (round + 1) (AddRoundKey round (MixColumns s) rk))"
  by pat_completeness auto
termination
proof (relation "measure (\<lambda>(sz, rk, round, s). unat (of_nat (Nr sz) - round))")
  fix sz rk and round :: byte and s x
  assume "round \<noteq> of_nat (Nr sz)"
  then have "(of_nat (Nr sz) - round :: byte) \<noteq> 0" by simp
  then have "unat (of_nat (Nr sz) - round - 1) < unat (of_nat (Nr sz) - round)" by (simp add: unat_minus_one unat_gt_0)
  then show "((sz, rk, round + 1, AddRoundKey round (MixColumns x) rk), sz, rk, round, s)
      \<in> measure (\<lambda>(sz, rk, round, s). unat (of_nat (Nr sz) - round))" by (simp add: algebra_simps)
qed simp

definition Cipher :: "aes_size \<Rightarrow> byte list \<Rightarrow> byte list \<Rightarrow> byte list" where
  "Cipher sz s rk = AddRoundKey (of_nat (Nr sz)) (cipher_loop sz rk 1 (AddRoundKey 0 s rk)) rk"

function inv_cipher_loop :: "byte list \<Rightarrow> byte \<Rightarrow> byte list \<Rightarrow> byte list" where
  "inv_cipher_loop rk round s =
     (let s = AddRoundKey round (InvSubBytes (InvShiftRows s)) rk
      in if round = 0 then s else inv_cipher_loop rk (round - 1) (InvMixColumns s))"
  by pat_completeness auto
termination
  by (relation "measure (\<lambda>(rk, round, s). unat round)") (auto simp: unat_minus_one unat_gt_0)

definition InvCipher :: "aes_size \<Rightarrow> byte list \<Rightarrow> byte list \<Rightarrow> byte list" where
  "InvCipher sz s rk = inv_cipher_loop rk (of_nat (Nr sz - 1)) (AddRoundKey (of_nat (Nr sz)) s rk)"

declare cipher_loop.simps [simp del] inv_cipher_loop.simps [simp del]

section \<open>The modes\<close>

text \<open>The block at the front of a buffer is replaced by \<open>f\<close> of it.\<close>

definition on_block :: "(byte list \<Rightarrow> byte list) \<Rightarrow> byte list \<Rightarrow> byte list option" where
  "on_block f buf = (if length buf < AES_BLOCKLEN then None else Some (f (take AES_BLOCKLEN buf) @ drop AES_BLOCKLEN buf))"

definition AES_ECB_encrypt :: "aes_size \<Rightarrow> aes_ctx \<Rightarrow> byte list \<Rightarrow> byte list option" where
  "AES_ECB_encrypt sz ctx buf = on_block (\<lambda>s. Cipher sz s (RoundKey ctx)) buf"

definition AES_ECB_decrypt :: "aes_size \<Rightarrow> aes_ctx \<Rightarrow> byte list \<Rightarrow> byte list option" where
  "AES_ECB_decrypt sz ctx buf = on_block (\<lambda>s. InvCipher sz s (RoundKey ctx)) buf"

definition XorWithIv :: "byte list \<Rightarrow> byte list \<Rightarrow> byte list" where
  "XorWithIv buf iv = map2 (XOR) buf iv"

text \<open>The loops of CBC on what is left of the buffer and its length, with the current \<open>Iv\<close>; the results are the
  bytes from here on and the last \<open>Iv\<close>.\<close>

function cbc_encrypt_loop :: "aes_size \<Rightarrow> byte list \<Rightarrow> byte list \<Rightarrow> nat \<Rightarrow> byte list \<Rightarrow> (byte list \<times> byte list) option" where
  "cbc_encrypt_loop sz rk iv len buf =
     (if len = 0 then Some (buf, iv)
      else if length buf < AES_BLOCKLEN then None
      else let c = Cipher sz (XorWithIv (take AES_BLOCKLEN buf) iv) rk
           in do { (rest, iv) \<leftarrow> cbc_encrypt_loop sz rk c (len - AES_BLOCKLEN) (drop AES_BLOCKLEN buf); Some (c @ rest, iv) })"
  by pat_completeness auto
termination by (relation "measure (\<lambda>(sz, rk, iv, len, buf). len)") (auto simp: AES_BLOCKLEN_def)

definition AES_CBC_encrypt_buffer :: "aes_size \<Rightarrow> aes_ctx \<Rightarrow> byte list \<Rightarrow> u32 \<Rightarrow> (aes_ctx \<times> byte list) option" where
  "AES_CBC_encrypt_buffer sz ctx buf len =
     do { (buf, iv) \<leftarrow> cbc_encrypt_loop sz (RoundKey ctx) (Iv ctx) (unat len) buf; Some (ctx\<lparr>Iv := iv\<rparr>, buf) }"

function cbc_decrypt_loop :: "aes_size \<Rightarrow> byte list \<Rightarrow> byte list \<Rightarrow> nat \<Rightarrow> byte list \<Rightarrow> (byte list \<times> byte list) option" where
  "cbc_decrypt_loop sz rk iv len buf =
     (if len = 0 then Some (buf, iv)
      else if length buf < AES_BLOCKLEN then None
      else let storeNextIv = take AES_BLOCKLEN buf; p = XorWithIv (InvCipher sz (take AES_BLOCKLEN buf) rk) iv
           in do { (rest, iv) \<leftarrow> cbc_decrypt_loop sz rk storeNextIv (len - AES_BLOCKLEN) (drop AES_BLOCKLEN buf); Some (p @ rest, iv) })"
  by pat_completeness auto
termination by (relation "measure (\<lambda>(sz, rk, iv, len, buf). len)") (auto simp: AES_BLOCKLEN_def)

definition AES_CBC_decrypt_buffer :: "aes_size \<Rightarrow> aes_ctx \<Rightarrow> byte list \<Rightarrow> u32 \<Rightarrow> (aes_ctx \<times> byte list) option" where
  "AES_CBC_decrypt_buffer sz ctx buf len =
     do { (buf, iv) \<leftarrow> cbc_decrypt_loop sz (RoundKey ctx) (Iv ctx) (unat len) buf; Some (ctx\<lparr>Iv := iv\<rparr>, buf) }"

text \<open>The increment of the counter from byte \<open>bi\<close> on towards the front, for the \<open>bi + 1\<close> bytes left.\<close>

primrec inc_iv :: "nat \<Rightarrow> byte list \<Rightarrow> byte list" where
  "inc_iv 0 iv = iv"
| "inc_iv (Suc bi) iv = (if iv ! bi = 255 then inc_iv bi (iv[bi := 0]) else iv[bi := iv ! bi + 1])"

text \<open>The loop of CTR over the bytes left; \<open>bi\<close> is the index into the block of key stream \<open>buffer\<close>.\<close>

fun ctr_loop :: "aes_size \<Rightarrow> byte list \<Rightarrow> byte list \<Rightarrow> nat \<Rightarrow> byte list \<Rightarrow> byte list \<Rightarrow> byte list \<times> byte list" where
  "ctr_loop sz rk iv bi buffer [] = ([], iv)"
| "ctr_loop sz rk iv bi buffer (b # bs) =
     (let (bi, buffer, iv) = (if bi = AES_BLOCKLEN then (0, Cipher sz iv rk, inc_iv AES_BLOCKLEN iv) else (bi, buffer, iv));
          (out, iv) = ctr_loop sz rk iv (bi + 1) buffer bs
      in ((b XOR buffer ! bi) # out, iv))"

definition AES_CTR_xcrypt_buffer :: "aes_size \<Rightarrow> aes_ctx \<Rightarrow> byte list \<Rightarrow> u32 \<Rightarrow> (aes_ctx \<times> byte list) option" where
  "AES_CTR_xcrypt_buffer sz ctx buf len =
     (if length buf < unat len then None
      else let (out, iv) = ctr_loop sz (RoundKey ctx) (Iv ctx) AES_BLOCKLEN [] (take (unat len) buf)
           in Some (ctx\<lparr>Iv := iv\<rparr>, out @ drop (unat len) buf))"

declare cbc_encrypt_loop.simps [simp del] cbc_decrypt_loop.simps [simp del]

section \<open>The round functions have inverses\<close>

lemma boxes: "map (\<lambda>x. rsbox ! unat x) sbox = map of_nat [0..<256]"
  by code_simp

lemma InvSBox: "getSBoxInvert (getSBoxValue x) = x"
proof -
  have len: "length sbox = 256" by (simp add: sbox_def)
  have lt: "unat x < 256" using unsigned_less [of x, where 'a = nat] by simp
  have "map (\<lambda>x. rsbox ! unat x) sbox ! unat x = map of_nat [0..<256] ! unat x" by (simp only: boxes)
  then show ?thesis using lt len by (simp add: getSBoxInvert_def getSBoxValue_def)
qed

text \<open>A block as its sixteen bytes.\<close>

lemma block_cases:
  assumes "length s = 16"
  obtains a0 a1 a2 a3 a4 a5 a6 a7 a8 a9 aa ab ac ad ae af
  where "s = [a0, a1, a2, a3, a4, a5, a6, a7, a8, a9, aa, ab, ac, ad, ae, af]"
  using assms by (auto simp: eval_nat_numeral length_Suc_conv)

lemma InvSubBytes: "InvSubBytes (SubBytes s) = s"
  by (simp add: InvSubBytes_def SubBytes_def InvSBox comp_def)

lemma update_numeral: "(x # xs)[numeral v := y] = x # xs[pred_numeral v := y]"
  by (simp add: numeral_eq_Suc)

lemmas block_simps = at_def set_at_def update_numeral Let_def

lemma ShiftRows_bytes:
  "ShiftRows [a0, a1, a2, a3, a4, a5, a6, a7, a8, a9, aa, ab, ac, ad, ae, af] =
    [a0, a5, aa, af, a4, a9, ae, a3, a8, ad, a2, a7, ac, a1, a6, ab]"
  by (simp add: ShiftRows_def block_simps)

lemma InvShiftRows_bytes:
  "InvShiftRows [a0, a5, aa, af, a4, a9, ae, a3, a8, ad, a2, a7, ac, a1, a6, ab] =
    [a0, a1, a2, a3, a4, a5, a6, a7, a8, a9, aa, ab, ac, ad, ae, af]"
  by (simp add: InvShiftRows_def block_simps)

text \<open>The two mixings of a column.\<close>

definition mixed :: "byte \<Rightarrow> byte \<Rightarrow> byte \<Rightarrow> byte \<Rightarrow> byte list" where
  "mixed a b c d =
     [a XOR (xtime (a XOR b) XOR (a XOR b XOR c XOR d)), b XOR (xtime (b XOR c) XOR (a XOR b XOR c XOR d)),
      c XOR (xtime (c XOR d) XOR (a XOR b XOR c XOR d)), d XOR (xtime (d XOR a) XOR (a XOR b XOR c XOR d))]"

definition unmixed :: "byte \<Rightarrow> byte \<Rightarrow> byte \<Rightarrow> byte \<Rightarrow> byte list" where
  "unmixed a b c d =
     [Multiply a 0x0e XOR Multiply b 0x0b XOR Multiply c 0x0d XOR Multiply d 0x09,
      Multiply a 0x09 XOR Multiply b 0x0e XOR Multiply c 0x0b XOR Multiply d 0x0d,
      Multiply a 0x0d XOR Multiply b 0x09 XOR Multiply c 0x0e XOR Multiply d 0x0b,
      Multiply a 0x0b XOR Multiply b 0x0d XOR Multiply c 0x09 XOR Multiply d 0x0e]"

lemma MixColumns_bytes:
  "MixColumns [a0, a1, a2, a3, a4, a5, a6, a7, a8, a9, aa, ab, ac, ad, ae, af] =
    mixed a0 a1 a2 a3 @ mixed a4 a5 a6 a7 @ mixed a8 a9 aa ab @ mixed ac ad ae af"
  by (simp add: MixColumns_def mix_column_def mixed_def block_simps)

lemma InvMixColumns_bytes:
  "InvMixColumns [a0, a1, a2, a3, a4, a5, a6, a7, a8, a9, aa, ab, ac, ad, ae, af] =
    unmixed a0 a1 a2 a3 @ unmixed a4 a5 a6 a7 @ unmixed a8 a9 aa ab @ unmixed ac ad ae af"
  by (simp add: InvMixColumns_def inv_mix_column_def unmixed_def block_simps)

lemma length_round_functions [simp]:
  "length (SubBytes s) = length s" "length s = 16 \<Longrightarrow> length (ShiftRows s) = 16" "length s = 16 \<Longrightarrow> length (MixColumns s) = 16"
proof -
  show "length (SubBytes s) = length s" by (simp add: SubBytes_def)
  show "length (ShiftRows s) = 16" if "length s = 16" using that by (rule block_cases) (simp only: ShiftRows_bytes, simp)
  show "length (MixColumns s) = 16" if "length s = 16"
    using that by (rule block_cases) (simp only: MixColumns_bytes, simp add: mixed_def)
qed

lemma InvShiftRows: "length s = 16 \<Longrightarrow> InvShiftRows (ShiftRows s) = s"
  by (erule block_cases) (simp only: ShiftRows_bytes InvShiftRows_bytes)

lemma xtime_if: "xtime x = push_bit 1 x XOR (if bit x 7 then 0x1b else 0)"
proof -
  have "drop_bit 7 x AND 1 = (if bit x 7 then 1 else 0)"
    by (auto intro!: bit_word_eqI simp: bit_and_iff bit_drop_bit_eq bit_1_iff)
  then show ?thesis by (simp add: xtime_def)
qed

lemma xtime_xor: "xtime (x XOR y) = xtime x XOR xtime y"
  by (auto simp: xtime_if push_bit_xor bit_xor_iff ac_simps)

lemma Multiply_consts:
  "Multiply x 0x0e = xtime x XOR (xtime (xtime x) XOR xtime (xtime (xtime x)))"
  "Multiply x 0x0b = x XOR (xtime x XOR xtime (xtime (xtime x)))"
  "Multiply x 0x0d = x XOR (xtime (xtime x) XOR xtime (xtime (xtime x)))"
  "Multiply x 0x09 = x XOR xtime (xtime (xtime x))"
proof -
  have bits: "(0x0e :: byte) AND 1 = 0" "drop_bit 1 (0x0e :: byte) AND 1 = 1" "drop_bit 2 (0x0e :: byte) AND 1 = 1"
    "drop_bit 3 (0x0e :: byte) AND 1 = 1" "drop_bit 4 (0x0e :: byte) AND 1 = 0"
    "(0x0b :: byte) AND 1 = 1" "drop_bit 1 (0x0b :: byte) AND 1 = 1" "drop_bit 2 (0x0b :: byte) AND 1 = 0"
    "drop_bit 3 (0x0b :: byte) AND 1 = 1" "drop_bit 4 (0x0b :: byte) AND 1 = 0"
    "(0x0d :: byte) AND 1 = 1" "drop_bit 1 (0x0d :: byte) AND 1 = 0" "drop_bit 2 (0x0d :: byte) AND 1 = 1"
    "drop_bit 3 (0x0d :: byte) AND 1 = 1" "drop_bit 4 (0x0d :: byte) AND 1 = 0"
    "(0x09 :: byte) AND 1 = 1" "drop_bit 1 (0x09 :: byte) AND 1 = 0" "drop_bit 2 (0x09 :: byte) AND 1 = 0"
    "drop_bit 3 (0x09 :: byte) AND 1 = 1" "drop_bit 4 (0x09 :: byte) AND 1 = 0"
    by code_simp+
  show "Multiply x 0x0e = xtime x XOR (xtime (xtime x) XOR xtime (xtime (xtime x)))"
    "Multiply x 0x0b = x XOR (xtime x XOR xtime (xtime (xtime x)))"
    "Multiply x 0x0d = x XOR (xtime (xtime x) XOR xtime (xtime (xtime x)))"
    "Multiply x 0x09 = x XOR xtime (xtime (xtime x))"
    unfolding Multiply_def bits by (simp_all add: xor.assoc)
qed

lemma unmix_mix:
  "mixed a b c d = [p, q, r, s] \<Longrightarrow> unmixed p q r s = [a, b, c, d]"
  by (auto simp: mixed_def unmixed_def Multiply_consts xtime_xor xor.assoc xor.commute xor.left_commute)

lemma InvMixColumns: "length s = 16 \<Longrightarrow> InvMixColumns (MixColumns s) = s"
proof (erule block_cases)
  fix a0 a1 a2 a3 a4 a5 a6 a7 a8 a9 aa ab ac ad ae af
  assume s: "s = [a0, a1, a2, a3, a4, a5, a6, a7, a8, a9, aa, ab, ac, ad, ae, af]"
  have "\<exists>p q r t. mixed a b c d = [p, q, r, t]" for a b c d by (simp add: mixed_def)
  then obtain b0 b1 b2 b3 b4 b5 b6 b7 b8 b9 ba bb bc bd be bf where
    m: "mixed a0 a1 a2 a3 = [b0, b1, b2, b3]" "mixed a4 a5 a6 a7 = [b4, b5, b6, b7]"
      "mixed a8 a9 aa ab = [b8, b9, ba, bb]" "mixed ac ad ae af = [bc, bd, be, bf]" by metis
  show "InvMixColumns (MixColumns s) = s"
    by (simp only: s MixColumns_bytes m append.simps InvMixColumns_bytes m [THEN unmix_mix])
qed

section \<open>Decryption undoes encryption\<close>

lemma xor_twice: "length s \<le> length k \<Longrightarrow> map2 (XOR) (map2 (XOR) s k) k = (s :: byte list)"
  by (induction s k rule: list_induct2') (simp_all add: xor.assoc)

lemma AddRoundKey_twice:
  "length s = 16 \<Longrightarrow> 16 * (unat round + 1) \<le> length rk \<Longrightarrow> AddRoundKey round (AddRoundKey round s rk) rk = s"
  unfolding AddRoundKey_def by (rule xor_twice) simp

lemma length_AddRoundKey: "length s = 16 \<Longrightarrow> 16 * (unat round + 1) \<le> length rk \<Longrightarrow> length (AddRoundKey round s rk) = 16"
  by (simp add: AddRoundKey_def)

text \<open>A round before the last one.\<close>

definition full_round :: "byte list \<Rightarrow> nat \<Rightarrow> byte list \<Rightarrow> byte list" where
  "full_round rk r s = AddRoundKey (of_nat r) (MixColumns (ShiftRows (SubBytes s))) rk"

lemma unat_round: "r < 15 \<Longrightarrow> unat (of_nat r :: byte) = r"
  by (simp add: unat_of_nat)

lemma Nr_small: "1 \<le> Nr sz \<and> Nr sz < 15"
  by (cases sz) simp_all

lemma cipher_loop_rounds:
  "r \<le> Nr sz \<Longrightarrow> cipher_loop sz rk (of_nat r) s = ShiftRows (SubBytes (fold (full_round rk) [r..<Nr sz] s))"
proof (induction "Nr sz - r" arbitrary: r s)
  case 0
  then show ?case by (simp add: cipher_loop.simps)
next
  case (Suc d)
  then have r: "r < Nr sz" by simp
  have "(of_nat r :: byte) \<noteq> of_nat (Nr sz)"
    using unat_round [of r] unat_round [of "Nr sz"] r Nr_small [of sz] by (metis less_irrefl less_trans)
  then have "cipher_loop sz rk (of_nat r) s = cipher_loop sz rk (of_nat (Suc r)) (full_round rk r s)"
    by (subst cipher_loop.simps) (simp add: full_round_def Let_def add.commute)
  then show ?case using Suc.hyps(1) [of "Suc r" "full_round rk r s"] Suc.hyps(2) r by (simp add: upt_conv_Cons)
qed

lemma length_full_round: "length s = 16 \<Longrightarrow> r < 15 \<Longrightarrow> 16 * (r + 1) \<le> length rk \<Longrightarrow> length (full_round rk r s) = 16"
  by (simp add: full_round_def length_AddRoundKey unat_round)

lemma length_full_rounds:
  "length s = 16 \<Longrightarrow> k < 15 \<Longrightarrow> 16 * (k + 1) \<le> length rk \<Longrightarrow> length (fold (full_round rk) [1..<Suc k] s) = 16"
proof (induction k)
  case (Suc k)
  then have "length (fold (full_round rk) [1..<Suc k] s) = 16" by simp
  moreover have "[1..<Suc (Suc k)] = [1..<Suc k] @ [Suc k]" by simp
  ultimately show ?case
    using Suc.prems length_full_round [of _ "Suc k" rk] by (simp only: fold_append o_apply fold_simps)
qed simp

lemma inv_cipher_loop_rounds:
  "length s = 16 \<Longrightarrow> k < 15 \<Longrightarrow> 16 * (k + 1) \<le> length rk \<Longrightarrow>
    inv_cipher_loop rk (of_nat k) (ShiftRows (SubBytes (fold (full_round rk) [1..<Suc k] (AddRoundKey 0 s rk)))) = s"
proof (induction k)
  case 0
  then show ?case
    using AddRoundKey_twice [of s 0 rk]
    by (subst inv_cipher_loop.simps) (simp add: InvShiftRows InvSubBytes length_AddRoundKey)
next
  case (Suc k)
  let ?x = "fold (full_round rk) [1..<Suc k] (AddRoundKey 0 s rk)"
  have x: "length ?x = 16" using length_full_rounds [of "AddRoundKey 0 s rk" k rk] Suc.prems by (simp add: length_AddRoundKey)
  have "[1..<Suc (Suc k)] = [1..<Suc k] @ [Suc k]" by simp
  then have y: "fold (full_round rk) [1..<Suc (Suc k)] (AddRoundKey 0 s rk) = full_round rk (Suc k) ?x" by (simp only: fold_append o_apply fold_simps)
  let ?m = "MixColumns (ShiftRows (SubBytes ?x))"
  have m: "length ?m = 16" using x by simp
  have k: "unat (of_nat (Suc k) :: byte) = Suc k" "(of_nat (Suc k) :: byte) \<noteq> 0"
    using unat_round [of "Suc k"] Suc.prems(2) by (auto simp del: of_nat_Suc)
  have pred: "(of_nat (Suc k) :: byte) - 1 = of_nat k" by simp
  have "length (full_round rk (Suc k) ?x) = 16" using length_full_round [OF x, of "Suc k" rk] Suc.prems by simp
  then have "AddRoundKey (of_nat (Suc k)) (InvSubBytes (InvShiftRows (ShiftRows (SubBytes (full_round rk (Suc k) ?x))))) rk = ?m"
    using AddRoundKey_twice [OF m, of "of_nat (Suc k)" rk] k(1) Suc.prems(3)
    by (simp add: InvShiftRows InvSubBytes full_round_def del: of_nat_Suc)
  then have "inv_cipher_loop rk (of_nat (Suc k)) (ShiftRows (SubBytes (full_round rk (Suc k) ?x))) = inv_cipher_loop rk (of_nat k) (InvMixColumns ?m)"
    using k(2) pred by (subst inv_cipher_loop.simps) (simp add: Let_def del: of_nat_Suc)
  then show ?case using Suc x unfolding y by (simp add: InvMixColumns)
qed

lemma Cipher_length: "length s = 16 \<Longrightarrow> length rk = 16 * (Nr sz + 1) \<Longrightarrow> length (Cipher sz s rk) = 16"
proof -
  assume s: "length s = 16" "length rk = 16 * (Nr sz + 1)"
  obtain k where k: "Nr sz = Suc k" using Nr_small [of sz] by (cases "Nr sz") auto
  have "length (fold (full_round rk) [1..<Nr sz] (AddRoundKey 0 s rk)) = 16"
    using length_full_rounds [of "AddRoundKey 0 s rk" k rk] s k Nr_small [of sz] by (simp add: length_AddRoundKey)
  then show ?thesis
    using cipher_loop_rounds [of 1 sz rk] Nr_small [of sz] s unat_round [of "Nr sz"]
    by (simp add: Cipher_def length_AddRoundKey)
qed

lemma InvCipher_Cipher: "length s = 16 \<Longrightarrow> length rk = 16 * (Nr sz + 1) \<Longrightarrow> InvCipher sz (Cipher sz s rk) rk = s"
proof -
  assume s: "length s = 16" "length rk = 16 * (Nr sz + 1)"
  obtain k where k: "Nr sz = Suc k" using Nr_small [of sz] by (cases "Nr sz") auto
  let ?x = "fold (full_round rk) [1..<Nr sz] (AddRoundKey 0 s rk)"
  have x: "length ?x = 16"
    using length_full_rounds [of "AddRoundKey 0 s rk" k rk] s k Nr_small [of sz] by (simp add: length_AddRoundKey)
  then have "Cipher sz s rk = AddRoundKey (of_nat (Nr sz)) (ShiftRows (SubBytes ?x)) rk"
    using cipher_loop_rounds [of 1 sz rk] Nr_small [of sz] by (simp add: Cipher_def)
  then have "InvCipher sz (Cipher sz s rk) rk = inv_cipher_loop rk (of_nat k) (ShiftRows (SubBytes ?x))"
    using AddRoundKey_twice [of "ShiftRows (SubBytes ?x)" "of_nat (Nr sz)" rk] x s(2) k unat_round [of "Nr sz"] Nr_small [of sz]
    by (simp add: InvCipher_def)
  then show ?thesis using inv_cipher_loop_rounds [of s k rk] s k Nr_small [of sz] by simp
qed

lemma KeyExpansion_length:
  assumes "KeyExpansion sz Key = Some rk"
  shows "length rk = 16 * (Nr sz + 1)"
proof -
  have "length (fold (expand_word sz) ws r) = length r + 4 * length ws" for ws r
    by (induction ws arbitrary: r) (simp_all add: expand_word_def Let_def)
  then have "length rk = length (take (Nk sz * 4) Key) + 4 * length [Nk sz..<4 * (Nr sz + 1)]" "Nk sz * 4 \<le> length Key"
    using assms by (auto simp only: KeyExpansion_def split: if_splits)
  then show ?thesis by (cases sz) (simp_all del: upt_Suc)
qed

section \<open>Cipher block chaining\<close>

lemma cbc_loops:
  assumes "length rk = 16 * (Nr sz + 1)"
  shows "len mod 16 = 0 \<Longrightarrow> len \<le> length buf \<Longrightarrow> length iv = 16 \<Longrightarrow>
    \<exists>c iv'. cbc_encrypt_loop sz rk iv len buf = Some (c, iv') \<and> length c = length buf \<and> length iv' = 16 \<and> drop len c = drop len buf \<and>
      cbc_decrypt_loop sz rk iv len c = Some (buf, iv')"
proof (induction len arbitrary: buf iv rule: less_induct)
  case (less len)
  show ?case
  proof (cases "len = 0")
    case True
    then show ?thesis using less.prems by (simp add: cbc_encrypt_loop.simps cbc_decrypt_loop.simps)
  next
    case False
    then have len: "16 \<le> len" "(len - 16) mod 16 = 0" "len - 16 < len" using less.prems(1) by (auto simp: mod_eq_0_iff_dvd dest: dvd_imp_le)
    let ?x = "XorWithIv (take 16 buf) iv"
    have x: "length ?x = 16" using less.prems len by (simp add: XorWithIv_def)
    let ?c = "Cipher sz ?x rk"
    have c: "length ?c = 16" by (rule Cipher_length [OF x assms])
    have "len - 16 \<le> length (drop 16 buf)" using less.prems(2) by simp
    from less.IH [OF len(3,2) this c] obtain d iv' where d: "cbc_encrypt_loop sz rk ?c (len - 16) (drop 16 buf) = Some (d, iv')" "length d = length (drop 16 buf)"
      "length iv' = 16" "drop (len - 16) d = drop (len - 16) (drop 16 buf)" "cbc_decrypt_loop sz rk ?c (len - 16) d = Some (drop 16 buf, iv')" by blast
    have b: "\<not> length buf < 16" using less.prems(2) len(1) by simp
    have enc: "cbc_encrypt_loop sz rk iv len buf = Some (?c @ d, iv')"
      using False b d(1) by (subst cbc_encrypt_loop.simps) (simp add: AES_BLOCKLEN_def Let_def)
    have "XorWithIv (InvCipher sz ?c rk) iv = take 16 buf"
      unfolding InvCipher_Cipher [OF x assms] unfolding XorWithIv_def by (rule xor_twice) (simp add: less.prems(3))
    then have "cbc_decrypt_loop sz rk iv len (?c @ d) = Some (take 16 buf @ drop 16 buf, iv')"
      using False c d(5) by (subst cbc_decrypt_loop.simps) (simp add: AES_BLOCKLEN_def Let_def)
    then show ?thesis using enc c d(2-4) b len(1) by (intro exI [of _ "?c @ d"] exI [of _ iv']) simp
  qed
qed

section \<open>Counter mode\<close>

lemma ctr_inside:
  "bi + length xs \<le> 16 \<Longrightarrow>
    ctr_loop sz rk iv bi buffer (xs @ ys) =
      (let (out, iv') = ctr_loop sz rk iv (bi + length xs) buffer ys in (map (\<lambda>i. xs ! i XOR buffer ! (bi + i)) [0..<length xs] @ out, iv'))"
proof (induction xs arbitrary: bi)
  case (Cons x xs)
  then have "bi \<noteq> AES_BLOCKLEN" "Suc bi + length xs \<le> 16" by (simp_all add: AES_BLOCKLEN_def)
  moreover have "map (\<lambda>i. (x # xs) ! i XOR buffer ! (bi + i)) [0..<length (x # xs)] =
      (x XOR buffer ! bi) # map (\<lambda>i. xs ! i XOR buffer ! (Suc bi + i)) [0..<length xs]"
    by (simp add: upt_conv_Cons del: upt_Suc flip: map_Suc_upt)
  ultimately show ?case using Cons.IH [of "Suc bi"] by (simp add: Let_def split: prod.splits)
qed (simp add: Let_def split: prod.splits)

lemma ctr_new_block:
  "xs \<noteq> [] \<Longrightarrow> ctr_loop sz rk iv 16 buffer xs = ctr_loop sz rk (inc_iv 16 iv) 0 (Cipher sz iv rk) xs"
  by (cases xs) (simp_all add: AES_BLOCKLEN_def)

text \<open>The byte of the key stream at position \<open>i\<close>.\<close>

definition key_stream :: "aes_size \<Rightarrow> byte list \<Rightarrow> byte list \<Rightarrow> nat \<Rightarrow> byte" where
  "key_stream sz rk iv i = Cipher sz ((inc_iv 16 ^^ (i div 16)) iv) rk ! (i mod 16)"

lemma key_stream_later: "key_stream sz rk iv (i + 16) = key_stream sz rk (inc_iv 16 iv) i"
proof -
  have "(i + 16) div 16 = Suc (i div 16)" by simp
  then show ?thesis by (simp only: key_stream_def funpow_Suc_right o_apply mod_add_self2)
qed

lemma ctr_loop_stream:
  "ctr_loop sz rk iv 16 buffer buf =
    (map (\<lambda>i. buf ! i XOR key_stream sz rk iv i) [0..<length buf], (inc_iv 16 ^^ ((length buf + 15) div 16)) iv)"
proof (induction buf arbitrary: iv buffer rule: length_induct)
  case (1 buf)
  show ?case
  proof (cases "buf = []")
    case False
    let ?xs = "take 16 buf" and ?ys = "drop 16 buf" and ?iv = "inc_iv 16 iv"
    have first: "map (\<lambda>i. ?xs ! i XOR Cipher sz iv rk ! (0 + i)) [0..<length ?xs] = map (\<lambda>i. buf ! i XOR key_stream sz rk iv i) [0..<length ?xs]"
      by (auto simp: key_stream_def)
    have start: "ctr_loop sz rk iv 16 buffer buf = ctr_loop sz rk ?iv 0 (Cipher sz iv rk) (?xs @ ?ys)"
      using ctr_new_block [OF False] by simp
    show ?thesis
    proof (cases "length buf \<le> 16")
      case True
      moreover have "(length buf + 15) div 16 = 1" using True False by (cases buf) auto
      ultimately show ?thesis using start ctr_inside [of 0 ?xs sz rk ?iv "Cipher sz iv rk" ?ys] first by simp
    next
      case long: False
      then have "length ?ys < length buf" by simp
      from 1 [rule_format, OF this] have rest: "ctr_loop sz rk ?iv 16 (Cipher sz iv rk) ?ys =
          (map (\<lambda>i. ?ys ! i XOR key_stream sz rk ?iv i) [0..<length ?ys], (inc_iv 16 ^^ ((length ?ys + 15) div 16)) ?iv)" .
      have split: "[0..<length buf] = [0..<16] @ map (\<lambda>i. i + 16) [0..<length ?ys]"
        using long upt_add_eq_append [of 0 16 "length buf - 16"] map_add_upt [of 16 "length buf - 16"] by (simp add: add.commute)
      have second: "map (\<lambda>i. buf ! i XOR key_stream sz rk iv i) (map (\<lambda>i. i + 16) [0..<length ?ys]) =
          map (\<lambda>i. ?ys ! i XOR key_stream sz rk ?iv i) [0..<length ?ys]"
        using long by (simp add: key_stream_later add.commute)
      have "(length buf + 15) div 16 = Suc ((length ?ys + 15) div 16)" using long by simp
      then have ivs: "(inc_iv 16 ^^ ((length buf + 15) div 16)) iv = (inc_iv 16 ^^ ((length ?ys + 15) div 16)) ?iv"
        by (simp add: funpow_swap1)
      have "length ?xs = 16" using long by simp
      then show ?thesis
        using start ctr_inside [of 0 ?xs sz rk ?iv "Cipher sz iv rk" ?ys] rest first
        unfolding split map_append second ivs by simp
    qed
  qed simp
qed

text \<open>The counter as a number, most significant byte first; an increment adds one and wraps.\<close>

definition counter_value :: "nat \<Rightarrow> byte list \<Rightarrow> nat" where
  "counter_value n iv = (\<Sum>i<n. unat (iv ! i) * 256 ^ (n - 1 - i))"

lemma counter_value_Suc: "counter_value (Suc n) iv = counter_value n iv * 256 + unat (iv ! n)"
proof -
  have "(\<Sum>i<n. unat (iv ! i) * 256 ^ (n - i)) = (\<Sum>i<n. unat (iv ! i) * 256 ^ (n - 1 - i) * 256)"
    by (rule sum.cong) (auto simp: power_Suc2 [symmetric] Suc_diff_Suc simp del: power_Suc)
  then show ?thesis by (simp add: counter_value_def sum_distrib_right)
qed

lemma counter_value_update: "n \<le> k \<Longrightarrow> counter_value n (iv[k := x]) = counter_value n iv"
  by (auto simp: counter_value_def intro!: sum.cong)

lemma counter_value_lt: "counter_value n iv < 256 ^ n"
proof (induction n)
  case (Suc n)
  have "unat (iv ! n) < 256" using unsigned_less [of "iv ! n", where 'a = nat] by simp
  then show ?case using Suc by (simp add: counter_value_Suc)
qed (simp add: counter_value_def)

lemma inc_iv_value: "n \<le> length iv \<Longrightarrow> counter_value n (inc_iv n iv) = (counter_value n iv + 1) mod 256 ^ n \<and> drop n (inc_iv n iv) = drop n iv \<and> length (inc_iv n iv) = length iv"
proof (induction n arbitrary: iv)
  case (Suc n)
  let ?b = "iv ! n"
  show ?case
  proof (cases "?b = 255")
    case True
    let ?iv = "iv[n := 0]"
    have IH: "counter_value n (inc_iv n ?iv) = (counter_value n ?iv + 1) mod 256 ^ n" "drop n (inc_iv n ?iv) = drop n ?iv" "length (inc_iv n ?iv) = length ?iv"
      using Suc.IH [of ?iv] Suc.prems by simp_all
    have "inc_iv n ?iv ! n = drop n (inc_iv n ?iv) ! 0" using Suc.prems IH(3) by simp
    then have b: "inc_iv n ?iv ! n = 0" using Suc.prems by (simp add: IH(2))
    have "drop (Suc n) (inc_iv n ?iv) = drop 1 (drop n (inc_iv n ?iv))" by simp
    then have rest: "drop (Suc n) (inc_iv n ?iv) = drop (Suc n) iv" unfolding IH(2) by (simp add: drop_update_swap)
    have "counter_value (Suc n) iv + 1 = (counter_value n iv + 1) * 256" using True by (simp add: counter_value_Suc)
    then have "(counter_value (Suc n) iv + 1) mod 256 ^ Suc n = (counter_value n iv + 1) mod 256 ^ n * 256"
      by (simp add: mult_mod_right mult.commute)
    then show ?thesis using True IH(1,3) b rest by (simp add: counter_value_Suc counter_value_update)
  next
    case False
    have "unat ?b < 256" using unsigned_less [of ?b, where 'a = nat] by simp
    moreover have "unat ?b \<noteq> 255" using False by (simp add: word_unat_eq_iff)
    ultimately have b: "unat (?b + 1) = unat ?b + 1" by (simp add: unat_word_ariths)
    have "counter_value (Suc n) iv + 1 < 256 ^ Suc n"
      using b counter_value_lt [of n iv] counter_value_lt [of "Suc n" "iv[n := ?b + 1]"] Suc.prems
      by (simp add: counter_value_Suc counter_value_update)
    then show ?thesis using False b Suc.prems by (simp add: counter_value_Suc counter_value_update)
  qed
qed (simp add: counter_value_def)

section \<open>Properties\<close>

text \<open>C34: A block decrypts to what was encrypted: for every key size, a key of that size and a buffer of at least a
  block, ECB encryption and decryption stay inside key, round keys and buffer, change only the first block,
  and decryption gives the buffer back.\<close>

theorem aes_ecb_roundtrip:
  assumes "AES_init_ctx sz ctx0 key = Some ctx" and "16 \<le> length buf"
  shows "\<exists>c. AES_ECB_encrypt sz ctx buf = Some c \<and> length c = length buf \<and> drop 16 c = drop 16 buf \<and>
    AES_ECB_decrypt sz ctx c = Some buf"
proof -
  have "length (RoundKey ctx) = 16 * (Nr sz + 1)"
    using assms(1) KeyExpansion_length by (auto simp: AES_init_ctx_def bind_eq_Some_conv)
  then show ?thesis
    using Cipher_length [of "take 16 buf"] InvCipher_Cipher [of "take 16 buf"] assms(2)
    by (auto simp: AES_ECB_encrypt_def AES_ECB_decrypt_def on_block_def AES_BLOCKLEN_def)
qed

text \<open>A key of the right size is expanded.\<close>

lemma KeyExpansion_Some:
  assumes "length key = Nk sz * 4"
  obtains rk where "KeyExpansion sz key = Some rk"
proof -
  have "\<not> length key < Nk sz * 4" using assms by simp
  then have "KeyExpansion sz key = Some (fold (expand_word sz) [Nk sz..<4 * (Nr sz + 1)] (take (Nk sz * 4) key))"
    by (simp only: KeyExpansion_def if_False)
  then show thesis by (rule that)
qed

theorem aes_ecb_roundtrip_witness:
  "\<exists>ctx c. AES_init_ctx AES256 \<lparr>RoundKey = [], Iv = []\<rparr> (replicate 32 7) = Some ctx \<and>
     AES_ECB_encrypt AES256 ctx (replicate 20 1) = Some c \<and> drop 16 c = [1, 1, 1, 1] \<and> AES_ECB_decrypt AES256 ctx c = Some (replicate 20 1)"
proof -
  obtain rk where "KeyExpansion AES256 (replicate 32 7) = Some rk" by (rule KeyExpansion_Some [of "replicate 32 7" AES256]) simp
  then have init: "AES_init_ctx AES256 \<lparr>RoundKey = [], Iv = []\<rparr> (replicate 32 7) = Some \<lparr>RoundKey = rk, Iv = []\<rparr>"
    by (simp add: AES_init_ctx_def)
  have "drop 16 (replicate 20 (1 :: byte)) = [1, 1, 1, 1]" by (simp add: eval_nat_numeral)
  then show ?thesis using aes_ecb_roundtrip [OF init, of "replicate 20 1"] init by auto
qed

text \<open>Cipher block chaining: for a length that is a multiple of sixteen and does not exceed the buffer, decryption
  from the same initial vector undoes encryption, leaves the bytes behind alone, and both leave the same vector in the
  context, so that the next call continues the chain on both sides.\<close>

theorem aes_cbc_roundtrip:
  assumes "AES_init_ctx_iv sz ctx0 key iv = Some ctx" and "unat len mod 16 = 0" and "unat len \<le> length buf"
  shows "\<exists>ctx' c. AES_CBC_encrypt_buffer sz ctx buf len = Some (ctx', c) \<and> length c = length buf \<and>
    drop (unat len) c = drop (unat len) buf \<and> AES_CBC_decrypt_buffer sz ctx c len = Some (ctx', buf)"
proof -
  have "length (RoundKey ctx) = 16 * (Nr sz + 1)" "length (Iv ctx) = 16"
    using assms(1) KeyExpansion_length
    by (auto simp: AES_init_ctx_iv_def AES_ctx_set_iv_def AES_BLOCKLEN_def bind_eq_Some_conv split: if_splits)
  from cbc_loops [OF this(1) assms(2,3) this(2)] show ?thesis
    by (auto simp: AES_CBC_encrypt_buffer_def AES_CBC_decrypt_buffer_def)
qed

theorem aes_cbc_roundtrip_witness:
  "\<exists>ctx ctx' c. AES_init_ctx_iv AES128 \<lparr>RoundKey = [], Iv = []\<rparr> (replicate 16 7) (replicate 16 9) = Some ctx \<and>
     AES_CBC_encrypt_buffer AES128 ctx (replicate 33 1) 32 = Some (ctx', c) \<and> length c = 33 \<and>
     AES_CBC_decrypt_buffer AES128 ctx c 32 = Some (ctx', replicate 33 1)"
proof -
  obtain rk where "KeyExpansion AES128 (replicate 16 7) = Some rk" by (rule KeyExpansion_Some [of "replicate 16 7" AES128]) simp
  then have init: "AES_init_ctx_iv AES128 \<lparr>RoundKey = [], Iv = []\<rparr> (replicate 16 7) (replicate 16 9) = Some \<lparr>RoundKey = rk, Iv = replicate 16 9\<rparr>"
    by (simp add: AES_init_ctx_iv_def AES_ctx_set_iv_def AES_BLOCKLEN_def)
  show ?thesis using aes_cbc_roundtrip [OF init, of 32 "replicate 33 1"] init by auto
qed

text \<open>C35: Counter mode for any length: byte \<open>i\<close> of the data is combined with byte \<open>i mod 16\<close> of the encrypted counter of block
  \<open>i div 16\<close>; the counter is the initial vector read as a 128-bit number, plus the block's index, modulo \<open>2 ^ 128\<close>; it ends
  one past the last block begun; and a second call from the same vector gives the data back.\<close>

theorem aes_ctr_stream:
  assumes "unat len \<le> length buf" and "length (Iv ctx) = 16"
  shows "\<exists>c. AES_CTR_xcrypt_buffer sz ctx buf len =
      Some (ctx\<lparr>Iv := (inc_iv 16 ^^ ((unat len + 15) div 16)) (Iv ctx)\<rparr>, c) \<and>
    c = map (\<lambda>i. buf ! i XOR Cipher sz ((inc_iv 16 ^^ (i div 16)) (Iv ctx)) (RoundKey ctx) ! (i mod 16)) [0..<unat len] @ drop (unat len) buf \<and>
    counter_value 16 ((inc_iv 16 ^^ k) (Iv ctx)) = (counter_value 16 (Iv ctx) + k) mod 2 ^ 128 \<and>
    map_option snd (AES_CTR_xcrypt_buffer sz ctx c len) = Some buf"
proof -
  let ?s = "key_stream sz (RoundKey ctx) (Iv ctx)"
  let ?c = "map (\<lambda>i. buf ! i XOR ?s i) [0..<unat len] @ drop (unat len) buf"
  have run: "AES_CTR_xcrypt_buffer sz ctx b len =
      Some (ctx\<lparr>Iv := (inc_iv 16 ^^ ((unat len + 15) div 16)) (Iv ctx)\<rparr>, map (\<lambda>i. b ! i XOR ?s i) [0..<unat len] @ drop (unat len) b)"
    if "unat len \<le> length b" for b
  proof -
    have "length (take (unat len) b) = unat len" using that by simp
    moreover have "map (\<lambda>i. take (unat len) b ! i XOR ?s i) [0..<unat len] = map (\<lambda>i. b ! i XOR ?s i) [0..<unat len]" by simp
    ultimately show ?thesis
      using that ctr_loop_stream [of sz "RoundKey ctx" "Iv ctx" "[]" "take (unat len) b"]
      by (simp add: AES_CTR_xcrypt_buffer_def AES_BLOCKLEN_def)
  qed
  have len: "length ?c = length buf" using assms(1) by simp
  have "map (\<lambda>i. ?c ! i XOR ?s i) [0..<unat len] = map (\<lambda>i. buf ! i) [0..<unat len]"
    by (auto simp: nth_append xor.assoc)
  also have "\<dots> = take (unat len) buf" using assms(1) by (intro nth_equalityI) simp_all
  finally have again: "map_option snd (AES_CTR_xcrypt_buffer sz ctx ?c len) = Some buf" using run [of ?c] len assms(1) by simp
  have "length ((inc_iv 16 ^^ k) (Iv ctx)) = 16 \<and> counter_value 16 ((inc_iv 16 ^^ k) (Iv ctx)) = (counter_value 16 (Iv ctx) + k) mod 256 ^ 16"
  proof (induction k)
    case 0
    then show ?case using assms(2) counter_value_lt [of 16 "Iv ctx"] by simp
  next
    case (Suc k)
    then show ?case using inc_iv_value [of 16 "(inc_iv 16 ^^ k) (Iv ctx)"] by (simp add: mod_Suc_eq)
  qed
  then show ?thesis using run [OF assms(1)] again by (simp add: key_stream_def)
qed

theorem aes_ctr_stream_witness:
  "\<exists>c. AES_CTR_xcrypt_buffer AES128 \<lparr>RoundKey = replicate 176 3, Iv = replicate 16 255\<rparr> (replicate 20 1) 18 =
      Some (\<lparr>RoundKey = replicate 176 3, Iv = (inc_iv 16 ^^ 2) (replicate 16 255)\<rparr>, c) \<and>
    counter_value 16 ((inc_iv 16 ^^ 1) (replicate 16 255)) = (counter_value 16 (replicate 16 255) + 1) mod 2 ^ 128 \<and>
    map_option snd (AES_CTR_xcrypt_buffer AES128 \<lparr>RoundKey = replicate 176 3, Iv = replicate 16 255\<rparr> c 18) = Some (replicate 20 1)"
  using aes_ctr_stream [of 18 "replicate 20 1" "\<lparr>RoundKey = replicate 176 3, Iv = replicate 16 255\<rparr>" AES128 1]
  by auto

end
