(* ===== verification/Xxtea.thy ===== *)
theory Xxtea
  imports Prelude
begin

text \<open>
  The block cipher of \<open>lingshengxueyuan/chap4.3/protocol/3-security/xxtea/xxtea.c\<close>: \<open>btea\<close> encrypts the first
  \<open>n\<close> words of an array in place, or decrypts them when \<open>n\<close> is negative.

  The array is a list; an array or key that is shorter than what the code reads gives \<open>None\<close>. Each pass
  of the code carries one neighbour of the current word in a variable; the lemmas show that the passes
  are sequences of steps that read both neighbours from the array, each step has an inverse, and the
  decoding passes are these inverses in the opposite order.
\<close>

section \<open>The code\<close>

definition DELTA :: u32 where "DELTA = 0x9e3779b9"

definition MX :: "u32 list \<Rightarrow> u32 \<Rightarrow> u32 \<Rightarrow> u32 \<Rightarrow> nat \<Rightarrow> u32 \<Rightarrow> u32" where
  "MX key y z sm p e =
     (((drop_bit 5 z XOR push_bit 2 y) + (drop_bit 3 y XOR push_bit 4 z)) XOR
      ((sm XOR y) + ((key ! unat ((of_nat p AND 3) XOR e)) XOR z)))"

text \<open>The loop over \<open>p\<close> of a coding round, for the words still to do; \<open>z\<close> is the word before, already coded.\<close>

function code_words :: "u32 list \<Rightarrow> u32 \<Rightarrow> u32 \<Rightarrow> nat \<Rightarrow> nat \<Rightarrow> u32 list \<Rightarrow> u32 \<Rightarrow> u32 list \<times> u32" where
  "code_words key sm e n p v z =
     (if p < n - 1
      then let y = v ! (p + 1); z = v ! p + MX key y z sm p e
           in code_words key sm e n (p + 1) (v[p := z]) z
      else (v, z))"
  by pat_completeness auto
termination by (relation "measure (\<lambda>(key, sm, e, n, p, v, z). n - p)") auto

declare code_words.simps [simp del]

primrec code_rounds :: "u32 list \<Rightarrow> nat \<Rightarrow> nat \<Rightarrow> u32 \<Rightarrow> u32 list \<Rightarrow> u32 \<Rightarrow> u32 list" where
  "code_rounds key n 0 sm v z = v"
| "code_rounds key n (Suc rounds) sm v z =
     (let sm = sm + DELTA; e = drop_bit 2 sm AND 3;
          (v, z) = code_words key sm e n 0 v z;
          y = v ! 0; z = v ! (n - 1) + MX key y z sm (n - 1) e
      in code_rounds key n rounds sm (v[n - 1 := z]) z)"

text \<open>The loop over \<open>p\<close> of a decoding round, from \<open>p\<close> down to 1; \<open>y\<close> is the word behind, already decoded.\<close>

primrec decode_words :: "u32 list \<Rightarrow> u32 \<Rightarrow> u32 \<Rightarrow> nat \<Rightarrow> u32 list \<Rightarrow> u32 \<Rightarrow> u32 list \<times> u32" where
  "decode_words key sm e 0 v y = (v, y)"
| "decode_words key sm e (Suc p) v y =
     (let z = v ! p; y = v ! Suc p - MX key y z sm (Suc p) e
      in decode_words key sm e p (v[Suc p := y]) y)"

primrec decode_rounds :: "u32 list \<Rightarrow> nat \<Rightarrow> nat \<Rightarrow> u32 \<Rightarrow> u32 list \<Rightarrow> u32 \<Rightarrow> u32 list" where
  "decode_rounds key n 0 sm v y = v"
| "decode_rounds key n (Suc rounds) sm v y =
     (let e = drop_bit 2 sm AND 3;
          (v, y) = decode_words key sm e (n - 1) v y;
          z = v ! (n - 1); y = v ! 0 - MX key y z sm 0 e
      in decode_rounds key n rounds (sm - DELTA) (v[0 := y]) y)"

definition btea :: "u32 list \<Rightarrow> int \<Rightarrow> u32 list \<Rightarrow> u32 list option" where
  "btea v n key =
     (if n > 1
      then if int (length v) < n \<or> length key < 4 then None
           else let rounds = nat (6 + 52 div n)
                in Some (code_rounds key (nat n) rounds 0 v (v ! (nat n - 1)))
      else if n < -1
      then if int (length v) < - n \<or> length key < 4 then None
           else let n = - n; rounds = nat (6 + 52 div n)
                in Some (decode_rounds key (nat n) rounds (of_nat rounds * DELTA) v (v ! 0))
      else Some v)"

section \<open>Steps and their inverses\<close>

definition mix :: "u32 list \<Rightarrow> u32 \<Rightarrow> nat \<Rightarrow> nat \<Rightarrow> u32 list \<Rightarrow> u32" where
  "mix key sm n p v = MX key (v ! (if p = n - 1 then 0 else p + 1)) (v ! (if p = 0 then n - 1 else p - 1)) sm p (drop_bit 2 sm AND 3)"

definition code_word :: "u32 list \<Rightarrow> u32 \<Rightarrow> nat \<Rightarrow> nat \<Rightarrow> u32 list \<Rightarrow> u32 list" where
  "code_word key sm n p v = v[p := v ! p + mix key sm n p v]"

definition decode_word :: "u32 list \<Rightarrow> u32 \<Rightarrow> nat \<Rightarrow> nat \<Rightarrow> u32 list \<Rightarrow> u32 list" where
  "decode_word key sm n p v = v[p := v ! p - mix key sm n p v]"

lemma length_steps [simp]: "length (code_word key sm n p v) = length v" "length (decode_word key sm n p v) = length v"
  by (simp_all add: code_word_def decode_word_def)

text \<open>A step does not touch the neighbours it reads.\<close>

lemma mix_update: "2 \<le> n \<Longrightarrow> p < n \<Longrightarrow> mix key sm n p (v[p := x]) = mix key sm n p v"
  by (auto simp: mix_def nth_list_update)

lemma decode_code_word: "2 \<le> n \<Longrightarrow> n \<le> length v \<Longrightarrow> p < n \<Longrightarrow> decode_word key sm n p (code_word key sm n p v) = v"
  by (simp add: decode_word_def code_word_def mix_update)

lemma code_decode_word: "2 \<le> n \<Longrightarrow> n \<le> length v \<Longrightarrow> p < n \<Longrightarrow> code_word key sm n p (decode_word key sm n p v) = v"
  by (simp add: decode_word_def code_word_def mix_update)

abbreviation code_pass :: "u32 list \<Rightarrow> u32 \<Rightarrow> nat \<Rightarrow> nat list \<Rightarrow> u32 list \<Rightarrow> u32 list" where
  "code_pass key sm n \<equiv> fold (code_word key sm n)"

abbreviation decode_pass :: "u32 list \<Rightarrow> u32 \<Rightarrow> nat \<Rightarrow> nat list \<Rightarrow> u32 list \<Rightarrow> u32 list" where
  "decode_pass key sm n ps \<equiv> fold (decode_word key sm n) (rev ps)"

lemma length_pass [simp]: "length (code_pass key sm n ps v) = length v" "length (fold (decode_word key sm n) ps v) = length v"
  by (induction ps arbitrary: v) simp_all

lemma decode_code_pass:
  "2 \<le> n \<Longrightarrow> n \<le> length v \<Longrightarrow> \<forall>p \<in> set ps. p < n \<Longrightarrow> decode_pass key sm n ps (code_pass key sm n ps v) = v"
  by (induction ps arbitrary: v) (simp_all add: decode_code_word)

lemma code_decode_pass:
  "2 \<le> n \<Longrightarrow> n \<le> length v \<Longrightarrow> \<forall>p \<in> set ps. p < n \<Longrightarrow> code_pass key sm n ps (decode_pass key sm n ps v) = v"
  by (induction ps arbitrary: v rule: rev_induct) (simp_all add: code_decode_word)

lemma steps_beyond: "p < n \<Longrightarrow> drop n (code_word key sm n p v) = drop n v"
  by (simp add: code_word_def)

lemma pass_beyond: "\<forall>p \<in> set ps. p < n \<Longrightarrow> drop n (code_pass key sm n ps v) = drop n v"
  by (induction ps arbitrary: v) (simp_all add: steps_beyond)

section \<open>The loops are passes\<close>

lemma code_words_pass:
  assumes "2 \<le> n" "n \<le> length v" "p < n" and "z = v ! (if p = 0 then n - 1 else p - 1)"
  shows "code_words key sm (drop_bit 2 sm AND 3) n p v z = (v', z') \<Longrightarrow>
    v' = code_pass key sm n [p..<n - 1] v \<and> z' = v' ! (n - 2)"
  using assms
proof (induction "n - 1 - p" arbitrary: p v z)
  case 0
  then have "p = n - 1" by simp
  then show ?case using 0 by (auto simp: numeral_2_eq_2 code_words.simps)
next
  case (Suc d)
  then have p: "p < n - 1" by simp
  let ?x = "v ! p + mix key sm n p v"
  have z: "MX key (v ! Suc p) z sm p (drop_bit 2 sm AND 3) = mix key sm n p v" using Suc.prems(5) p by (simp add: mix_def)
  have "code_words key sm (drop_bit 2 sm AND 3) n (Suc p) (v[p := ?x]) ?x = (v', z')"
    using Suc.prems(1) p z by (subst (asm) code_words.simps) (simp add: Let_def)
  moreover have "d = n - 1 - Suc p" using Suc.hyps(2) by simp
  ultimately have "v' = code_pass key sm n [Suc p..<n - 1] (v[p := ?x]) \<and> z' = v' ! (n - 2)"
    using Suc.hyps(1) [of "Suc p" "v[p := ?x]" ?x] Suc.prems p by simp
  then show ?case using p by (simp add: upt_conv_Cons code_word_def)
qed

lemma code_rounds_step:
  fixes key v :: "u32 list" and sm :: u32
  assumes "2 \<le> n" "n \<le> length v" "z = v ! (n - 1)"
  defines "v' \<equiv> code_pass key (sm + DELTA) n [0..<n] v"
  shows "code_rounds key n (Suc rounds) sm v z = code_rounds key n rounds (sm + DELTA) v' (v' ! (n - 1))"
proof -
  let ?sm = "sm + DELTA"
  obtain w x where w: "code_words key ?sm (drop_bit 2 ?sm AND 3) n 0 v z = (w, x)" by fastforce
  then have wx: "w = code_pass key ?sm n [0..<n - 1] v" "x = w ! (n - 2)"
    using code_words_pass [of n v 0 z key ?sm w x] assms(1-3) by simp_all
  have "[0..<n] = [0..<n - 1] @ [n - 1]" using assms(1) by (cases n) simp_all
  then have "v' = code_word key ?sm n (n - 1) w" by (simp add: v'_def wx(1))
  moreover have "w ! (n - 1) + MX key (w ! 0) x ?sm (n - 1) (drop_bit 2 ?sm AND 3) = w ! (n - 1) + mix key ?sm n (n - 1) w"
    using assms(1) wx(2) by (simp add: mix_def numeral_2_eq_2)
  ultimately show ?thesis
    using w wx(1) assms(1,2) by (simp add: code_word_def Let_def)
qed

lemma decode_words_pass:
  assumes "2 \<le> n" "n \<le> length v" "p < n" and "y = v ! (if p = n - 1 then 0 else p + 1)"
  shows "decode_words key sm (drop_bit 2 sm AND 3) p v y = (v', y') \<Longrightarrow>
    v' = fold (decode_word key sm n) (rev [1..<Suc p]) v \<and> y' = v' ! (if n = 1 then 0 else 1)"
  using assms
proof (induction p arbitrary: v y)
  case 0
  then show ?case by auto
next
  case (Suc p)
  let ?x = "v ! Suc p - mix key sm n (Suc p) v"
  have y: "MX key y (v ! p) sm (Suc p) (drop_bit 2 sm AND 3) = mix key sm n (Suc p) v" using Suc.prems(5) by (simp add: mix_def)
  have "decode_words key sm (drop_bit 2 sm AND 3) p (v[Suc p := ?x]) ?x = (v', y')"
    using Suc.prems(1) Suc.prems(5) y by (simp add: Let_def)
  then have "v' = fold (decode_word key sm n) (rev [1..<Suc p]) (v[Suc p := ?x]) \<and> y' = v' ! (if n = 1 then 0 else 1)"
    by (rule Suc.IH) (use Suc.prems in auto)
  moreover have "rev [1..<Suc (Suc p)] = Suc p # rev [1..<Suc p]" by simp
  moreover have "decode_word key sm n (Suc p) v = v[Suc p := ?x]" by (simp only: decode_word_def)
  ultimately show ?case by (simp only: fold_simps)
qed

lemma decode_rounds_step:
  fixes key v :: "u32 list" and sm :: u32
  assumes "2 \<le> n" "n \<le> length v" "y = v ! 0"
  defines "v' \<equiv> decode_pass key sm n [0..<n] v"
  shows "decode_rounds key n (Suc rounds) sm v y = decode_rounds key n rounds (sm - DELTA) v' (v' ! 0)"
proof -
  obtain w x where w: "decode_words key sm (drop_bit 2 sm AND 3) (n - 1) v y = (w, x)" by fastforce
  then have wx: "w = fold (decode_word key sm n) (rev [1..<n]) v" "x = w ! 1"
    using decode_words_pass [of n v "n - 1" y key sm w x] assms(1-3) by simp_all
  have "[0..<n] = 0 # [1..<n]" using assms(1) by (simp add: upt_conv_Cons)
  then have "v' = decode_word key sm n 0 w" by (simp add: v'_def wx(1))
  moreover have "w ! 0 - MX key x (w ! (n - 1)) sm 0 (drop_bit 2 sm AND 3) = w ! 0 - mix key sm n 0 w"
    using assms(1) wx(2) by (simp add: mix_def)
  moreover have "w[0 := a] ! 0 = a" for a
    by (rule nth_list_update_eq) (unfold wx(1) length_pass, use assms(1,2) in linarith)
  ultimately show ?thesis
    using w assms(1,2) by (simp add: decode_word_def Let_def)
qed

section \<open>Coding and decoding\<close>

text \<open>The sums of the rounds still to do, in the order of the coding rounds.\<close>

primrec sums :: "u32 \<Rightarrow> nat \<Rightarrow> u32 list" where
  "sums s 0 = []"
| "sums s (Suc k) = (s + DELTA) # sums (s + DELTA) k"

lemma code_rounds_fold:
  "2 \<le> n \<Longrightarrow> n \<le> length v \<Longrightarrow>
    code_rounds key n k s v (v ! (n - 1)) = fold (\<lambda>s. code_pass key s n [0..<n]) (sums s k) v"
proof (induction k arbitrary: s v)
  case (Suc k)
  show ?case
    using Suc.IH [of "code_pass key (s + DELTA) n [0..<n] v" "s + DELTA"] Suc.prems
      code_rounds_step [OF Suc.prems refl, where key = key and sm = s and rounds = k] by simp
qed simp

lemma sums_Suc: "sums s (Suc k) = sums s k @ [s + of_nat (Suc k) * DELTA]"
proof (induction k arbitrary: s)
  case (Suc k)
  have "s + DELTA + of_nat (Suc k) * DELTA = s + of_nat (Suc (Suc k)) * DELTA" by (simp add: algebra_simps)
  then show ?case by (subst sums.simps(2), subst Suc.IH) simp
qed simp

lemma decode_rounds_fold:
  "2 \<le> n \<Longrightarrow> n \<le> length v \<Longrightarrow>
    decode_rounds key n k (of_nat k * DELTA) v (v ! 0) = fold (\<lambda>s. decode_pass key s n [0..<n]) (rev (sums 0 k)) v"
proof (induction k arbitrary: v)
  case (Suc k)
  have "of_nat (Suc k) * DELTA - DELTA = of_nat k * DELTA" by (simp add: algebra_simps)
  then show ?case
    using Suc.IH [of "decode_pass key (of_nat (Suc k) * DELTA) n [0..<n] v"] Suc.prems
      decode_rounds_step [OF Suc.prems refl, where key = key and sm = "of_nat (Suc k) * DELTA" and rounds = k]
    by (simp add: sums_Suc del: sums.simps of_nat_Suc)
qed simp

lemma length_rounds [simp]:
  "length (fold (\<lambda>s. code_pass key s n ps) ss v) = length v" "length (fold (\<lambda>s. fold (decode_word key s n) qs) ss v) = length v"
  by (induction ss arbitrary: v) simp_all

lemma decode_code_rounds:
  "2 \<le> n \<Longrightarrow> n \<le> length v \<Longrightarrow>
    fold (\<lambda>s. decode_pass key s n [0..<n]) (rev ss) (fold (\<lambda>s. code_pass key s n [0..<n]) ss v) = v"
  by (induction ss arbitrary: v) (simp_all add: decode_code_pass)

lemma code_decode_rounds:
  "2 \<le> n \<Longrightarrow> n \<le> length v \<Longrightarrow>
    fold (\<lambda>s. code_pass key s n [0..<n]) ss (fold (\<lambda>s. decode_pass key s n [0..<n]) (rev ss) v) = v"
  by (induction ss arbitrary: v rule: rev_induct) (simp_all add: code_decode_pass)

lemma rounds_beyond: "drop n (fold (\<lambda>s. code_pass key s n [0..<n]) ss v) = drop n v"
  by (induction ss arbitrary: v) (simp_all add: pass_beyond)

text \<open>C36: Decrypting what \<open>btea\<close> encrypted gives the words back and so does encrypting what it decrypted: for
  any key of four words and any \<open>n\<close> of at least 2 that the array has, the two calls end, stay inside the
  array, leave the words from the \<open>n\<close>-th on alone and undo each other.\<close>

theorem xxtea_roundtrip:
  assumes "2 \<le> n" and "n \<le> length v" and "length key = 4"
  shows "\<exists>c d. btea v (int n) key = Some c \<and> length c = length v \<and> drop n c = drop n v \<and> btea c (- int n) key = Some v \<and>
    btea v (- int n) key = Some d \<and> btea d (int n) key = Some v"
proof -
  let ?k = "nat (6 + 52 div int n)"
  let ?c = "fold (\<lambda>s. code_pass key s n [0..<n]) (sums 0 ?k) v"
  let ?d = "fold (\<lambda>s. decode_pass key s n [0..<n]) (rev (sums 0 ?k)) v"
  have "btea w (int n) key = Some (fold (\<lambda>s. code_pass key s n [0..<n]) (sums 0 ?k) w)"
    "btea w (- int n) key = Some (fold (\<lambda>s. decode_pass key s n [0..<n]) (rev (sums 0 ?k)) w)" if "length w = length v" for w
    using assms that code_rounds_fold [of n w key ?k 0] decode_rounds_fold [of n w key ?k] by (simp_all add: btea_def Let_def)
  then show ?thesis
    using decode_code_rounds [OF assms(1,2), of key "sums 0 ?k"] code_decode_rounds [OF assms(1,2), of key "sums 0 ?k"]
    by (intro exI [of _ ?c] exI [of _ ?d]) (simp add: rounds_beyond)
qed

theorem xxtea_roundtrip_witness:
  "\<exists>c. btea [0, 1, 2, 3] 3 [2, 2, 3, 4] = Some c \<and> drop 3 c = [3] \<and> btea c (- 3) [2, 2, 3, 4] = Some [0, 1, 2, 3]"
  using xxtea_roundtrip [of 3 "[0, 1, 2, 3]" "[2, 2, 3, 4]"] by (auto simp: eval_nat_numeral)

end
