(* ===== verification/Util_Cgi.thy ===== *)
theory Util_Cgi
  imports Cstring
begin

text \<open>
  The string helpers of the cloud disk's CGI programs
  (\<open>HuLianWangYunPan/0voice-cloud-disk/common/util_cgi.c\<close>): trimming, searching in a byte region, reading a
  value out of a URL query, file suffixes and replacement in place. Arrays are the lists of \<open>Cstring\<close>; an
  out-parameter is a component of the result; \<open>None\<close> is an access outside an array. \<open>strncpy\<close> between
  overlapping parts of one array copies forwards, as the implementations do.
\<close>

section \<open>trim_space\<close>

function skip_fwd :: "string \<Rightarrow> nat \<Rightarrow> nat option" where
  "skip_fwd str i =
     (if length str \<le> i then None
      else if isspace (str ! i) \<and> str ! i \<noteq> NUL then skip_fwd str (i + 1) else Some i)"
  by pat_completeness auto
termination by (relation "measure (\<lambda>(str, i). length str - i)") auto

function skip_back :: "string \<Rightarrow> nat \<Rightarrow> int \<Rightarrow> int option" where
  "skip_back str i j =
     (if j < 0 \<or> int (length str) \<le> j then None
      else if isspace (str ! nat j) \<and> int i < j then skip_back str i (j - 1) else Some j)"
  by pat_completeness auto
termination by (relation "measure (\<lambda>(str, i, j). nat (j + 1))") auto

definition trim_space :: "string \<Rightarrow> string option" where
  "trim_space inbuf =
     do { n \<leftarrow> strlen inbuf 0;
          i \<leftarrow> skip_fwd inbuf 0;
          j \<leftarrow> skip_back inbuf i (int n - 1);
          let count = nat (j - int i + 1);
          inbuf \<leftarrow> write_at inbuf 0 (strncpy_bytes (drop i inbuf) count);
          write_at inbuf count [NUL] }"

section \<open>memstr\<close>

text \<open>The region is the list of its bytes; null pointers are \<open>None\<close>. The result is the index of the match.\<close>

function memstr_loop :: "string \<Rightarrow> string \<Rightarrow> int \<Rightarrow> nat \<Rightarrow> nat option" where
  "memstr_loop full_data sub last_possible i =
     (if int i < last_possible
      then if full_data ! i = hd sub
           then if take (length sub) (drop i full_data) = sub then Some i
                else memstr_loop full_data sub last_possible (i + 1)
           else memstr_loop full_data sub last_possible (i + 1)
      else None)"
  by pat_completeness auto
termination by (relation "measure (\<lambda>(_, _, last_possible, i). nat (last_possible - int i))") auto

definition memstr :: "string option \<Rightarrow> string option \<Rightarrow> nat option" where
  "memstr full_data substr =
     (case (full_data, substr) of
        (Some full_data, Some substr) \<Rightarrow>
          if full_data = [] then None
          else if cstr substr 0 = [] then None
          else memstr_loop full_data (cstr substr 0)
                 (int (length full_data) - int (length (cstr substr 0)) + 1) 0
      | _ \<Rightarrow> None)"

section \<open>query_parse_key_value\<close>

function value_end :: "string \<Rightarrow> nat \<Rightarrow> nat option" where
  "value_end query e =
     (if length query \<le> e then None
      else if NUL \<noteq> query ! e \<and> CHR ''#'' \<noteq> query ! e \<and> CHR ''&'' \<noteq> query ! e then value_end query (e + 1)
      else Some e)"
  by pat_completeness auto
termination by (relation "measure (\<lambda>(query, e). length query - e)") auto

definition query_parse_key_value :: "string \<Rightarrow> string \<Rightarrow> (int + string) option" where
  "query_parse_key_value query key =
     (case strstr query key of
        None \<Rightarrow> Some (Inl (-1))
      | Some i \<Rightarrow>
          let temp = i + length (cstr key 0) + 1 in
          do { e \<leftarrow> value_end query temp;
               Some (Inr (strncpy_bytes (drop temp query) (e - temp))) })"

section \<open>get_file_suffix\<close>

primrec suffix_back :: "string \<Rightarrow> nat \<Rightarrow> nat" where
  "suffix_back p 0 = 0"
| "suffix_back p (Suc k) = (if p ! Suc k \<noteq> CHR ''.'' then suffix_back p k else Suc k)"

definition get_file_suffix :: "string option \<Rightarrow> (int + string) option" where
  "get_file_suffix file_name =
     (case file_name of
        None \<Rightarrow> Some (Inl (-1))
      | Some p \<Rightarrow>
          do { q \<leftarrow> strlen p 0;
               let k = suffix_back p q;
               Some (Inr (if p ! k = CHR ''.''
                          then let k = k + 1; len = q - k
                               in if len \<noteq> 0 then strncpy_bytes (drop k p) len else ''null''
                          else ''null'')) })"

section \<open>str_replace\<close>

text \<open>The body of the replacement at \<open>strSrc\<close>; returns the array and the pointer behind the new text.\<close>

definition replace_here :: "(nat \<Rightarrow> bool) \<Rightarrow> string \<Rightarrow> string \<Rightarrow> string \<Rightarrow> nat \<Rightarrow> (string \<times> nat) option" where
  "replace_here malloc strFind strReplace buf strSrc =
     do { let p = strSrc + length strFind;
          lastLen \<leftarrow> strlen buf p;
          (if malloc (lastLen + 1) then Some () else None);
          let temp = take lastLen (drop p buf);
          buf \<leftarrow> write_at buf strSrc strReplace;
          let strSrc = strSrc + length strReplace;
          buf \<leftarrow> write_at buf strSrc temp;
          buf \<leftarrow> write_at buf (strSrc + lastLen) [NUL];
          Some (buf, strSrc) }"

partial_function (option) str_replace :: "(nat \<Rightarrow> bool) \<Rightarrow> string \<Rightarrow> string \<Rightarrow> string \<Rightarrow> nat \<Rightarrow> string option" where
  [code]: "str_replace malloc strFind strReplace buf strSrc =
     (if length buf \<le> strSrc then None
      else if buf ! strSrc = NUL then Some buf
      else if strFind \<noteq> [] \<and> buf ! strSrc = hd strFind \<and> take (length strFind) (cstr buf strSrc) = strFind
      then do { (buf', strSrc') \<leftarrow> replace_here malloc strFind strReplace buf strSrc;
                str_replace malloc strFind strReplace buf' strSrc' }
      else str_replace malloc strFind strReplace buf (strSrc + 1))"

declare skip_fwd.simps [simp del] skip_back.simps [simp del] memstr_loop.simps [simp del] value_end.simps [simp del]

section \<open>Specifications\<close>

definition strip :: "string \<Rightarrow> string" where
  "strip s = rev (dropWhile isspace (rev (dropWhile isspace s)))"

definition suffix_of :: "string \<Rightarrow> string" where
  "suffix_of s =
     (let ext = rev (takeWhile (\<lambda>c. c \<noteq> CHR ''.'') (rev s))
      in if CHR ''.'' \<in> set s \<and> ext \<noteq> [] then ext else ''null'')"

function replace_all :: "'a list \<Rightarrow> 'a list \<Rightarrow> 'a list \<Rightarrow> 'a list" where
  "replace_all pat repl [] = []"
| "replace_all pat repl (c # cs) =
     (if pat \<noteq> [] \<and> take (length pat) (c # cs) = pat
      then repl @ replace_all pat repl (drop (length pat) (c # cs))
      else c # replace_all pat repl cs)"
  by pat_completeness auto
termination by (relation "measure (\<lambda>(pat, _, s). length s)") auto

section \<open>Trimming\<close>

lemma skip_fwd_spec:
  "holds_at str i s \<Longrightarrow> skip_fwd str i = Some (i + length (takeWhile isspace s))"
proof (induction s arbitrary: i)
  case Nil
  then show ?case by (subst skip_fwd.simps) (simp add: holds_Nil)
next
  case (Cons c s)
  then have h: "c \<noteq> NUL" "i < length str" "str ! i = c" "holds_at str (Suc i) s" by (simp_all add: holds_Cons)
  then show ?case using Cons.IH [OF h(4)] by (subst skip_fwd.simps) simp
qed

lemma skip_back_spec:
  assumes "\<And>k. k < length t \<Longrightarrow> str ! (i + k) = t ! k" and "t \<noteq> []" and "i + length t \<le> length str"
  shows "skip_back str i (int (i + length t) - 1) =
    Some (int i + int (max 1 (length (dropWhile isspace (rev t)))) - 1)"
  using assms
proof (induction t rule: rev_induct)
  case (snoc c t)
  have c: "str ! (i + length t) = c" using snoc.prems(1) [of "length t"] by simp
  have j: "int (i + length (t @ [c])) - 1 = int (i + length t)" by simp
  show ?case
  proof (cases "isspace c \<and> t \<noteq> []")
    case True
    have "skip_back str i (int (i + length t)) = skip_back str i (int (i + length t) - 1)"
      using True c snoc.prems(3) by (subst skip_back.simps) (simp add: nat_add_distrib)
    also have "\<dots> = Some (int i + int (max 1 (length (dropWhile isspace (rev t)))) - 1)"
      using snoc.prems True by (intro snoc.IH) (auto simp: nth_append)
    finally show ?thesis unfolding j using True by simp
  next
    case False
    then have "skip_back str i (int (i + length t)) = Some (int (i + length t))"
      using c snoc.prems(3) by (subst skip_back.simps) (auto simp: nat_add_distrib)
    then show ?thesis unfolding j using False by (cases "isspace c") auto
  qed
qed simp

lemma strip_prefix:
  obtains tail where "dropWhile isspace s = strip s @ tail"
proof -
  define t where "t = dropWhile isspace s"
  have "t = strip s @ rev (takeWhile isspace (rev t))"
    by (metis rev_append rev_rev_ident strip_def t_def takeWhile_dropWhile_id)
  then show ?thesis using that t_def by blast
qed

lemma strip_length: "dropWhile isspace s \<noteq> [] \<Longrightarrow> 1 \<le> length (strip s)"
proof -
  assume "dropWhile isspace s \<noteq> []"
  then have "\<not> isspace (hd (dropWhile isspace s))" "hd (dropWhile isspace s) \<in> set (dropWhile isspace s)"
    by (rule hd_dropWhile, simp)
  then have "strip s \<noteq> []" by (auto simp: strip_def)
  then show ?thesis by (simp add: Suc_le_eq)
qed

lemma trim_indices:
  assumes "holds_at buf 0 s" and "s \<noteq> []"
  shows "\<exists>j. skip_back buf (length (takeWhile isspace s)) (int (length s) - 1) = Some j \<and>
    nat (j - int (length (takeWhile isspace s)) + 1) = length (strip s)"
proof -
  let ?i = "length (takeWhile isspace s)" and ?t = "dropWhile isspace s"
  have len: "?i + length ?t = length s" by (metis length_append takeWhile_dropWhile_id)
  have lb: "length s < length buf" using holds_len [OF assms(1)] by simp
  show ?thesis
  proof (cases "?t = []")
    case True
    moreover from this have "?i = length s" using len by (simp only: list.size)
    ultimately have "?i = length s" "strip s = []" by (simp_all only: strip_def rev.simps dropWhile.simps)
    moreover have "skip_back buf (length s) (int (length s) - 1) = Some (int (length s) - 1)"
      using assms(2) lb by (subst skip_back.simps) simp
    ultimately show ?thesis by simp
  next
    case False
    have nth: "buf ! (?i + k) = ?t ! k" if "k < length ?t" for k
    proof -
      have "s ! (?i + k) = ?t ! k" by (metis nth_append_length_plus takeWhile_dropWhile_id)
      then show ?thesis using holds_nth(1) [OF assms(1), of "?i + k"] that len by simp
    qed
    have "skip_back buf ?i (int (length s) - 1) = Some (int ?i + int (max 1 (length (strip s))) - 1)"
      using skip_back_spec [OF nth False] len lb by (simp add: strip_def)
    then show ?thesis using strip_length [OF False] by simp
  qed
qed

section \<open>Replacing\<close>

lemma replace_all_longer: "length pat \<le> length repl \<Longrightarrow> length s \<le> length (replace_all pat repl s)"
proof (induction pat repl s rule: replace_all.induct)
  case (2 pat repl c cs)
  show ?case
  proof (cases "pat \<noteq> [] \<and> take (length pat) (c # cs) = pat")
    case True
    then have "length (c # cs) \<le> length pat + length (drop (length pat) (c # cs))" by simp
    then show ?thesis using 2(1) [OF True] 2(3) True by (simp del: drop_Cons')
  qed (use 2 in auto)
qed simp

lemma set_replace_all: "set (replace_all pat repl s) \<subseteq> set s \<union> set repl"
proof (induction pat repl s rule: replace_all.induct)
  case (2 pat repl c cs)
  then show ?case using set_drop_subset [of "length pat" "c # cs"]
    by (cases "pat \<noteq> [] \<and> take (length pat) (c # cs) = pat") (simp_all, blast+)
qed simp

text \<open>Writing over the front of what stands behind \<open>pre\<close>.\<close>

lemma write_at_over:
  assumes "length new \<le> length post"
  shows "write_at (pre @ post) (length pre) new = Some (pre @ new @ drop (length new) post)"
  using assms by (simp add: write_at_def)

lemma replace_here_spec:
  assumes "\<And>n. malloc n" and "NUL \<notin> set rest" and "length repl + length rest < length (pat @ rest @ NUL # tail)"
  shows "\<exists>tail'. replace_here malloc pat repl (pre @ pat @ rest @ NUL # tail) (length pre) =
      Some (pre @ repl @ rest @ NUL # tail', length pre + length repl) \<and>
    length (repl @ rest @ NUL # tail') = length (pat @ rest @ NUL # tail)"
proof -
  define post where "post = pat @ rest @ NUL # tail"
  have rest: "strlen (pre @ post) (length pre + length pat) = Some (length rest)"
    "take (length rest) (drop (length pre + length pat) (pre @ post)) = rest"
    using assms(2) by (simp_all add: post_def strlen_def cstr_def takeWhile_NUL)
  have fit: "length repl + length rest < length post" using assms(3) by (simp only: post_def)
  define tail' where "tail' = drop 1 (drop (length rest) (drop (length repl) post))"
  have w1: "write_at (pre @ post) (length pre) repl = Some (pre @ repl @ drop (length repl) post)"
    using fit by (intro write_at_over) simp
  have w2: "write_at (pre @ repl @ drop (length repl) post) (length pre + length repl) rest =
      Some (pre @ repl @ rest @ drop (length rest) (drop (length repl) post))"
    using fit write_at_over [of rest "drop (length repl) post" "pre @ repl"] by (simp del: drop_drop)
  have w3: "write_at (pre @ repl @ rest @ drop (length rest) (drop (length repl) post))
      (length pre + length repl + length rest) [NUL] = Some (pre @ repl @ rest @ NUL # tail')"
    using fit write_at_over [of "[NUL]" "drop (length rest) (drop (length repl) post)" "pre @ repl @ rest"]
    by (simp add: tail'_def add.assoc del: drop_drop)
  have "replace_here malloc pat repl (pre @ post) (length pre) =
      Some (pre @ repl @ rest @ NUL # tail', length pre + length repl)"
    unfolding replace_here_def Let_def rest(1) bind.bind_lunit rest(2) w1 w2 w3 using assms(1) by simp
  moreover have "length (repl @ rest @ NUL # tail') = length post"
    using fit by (simp add: tail'_def)
  ultimately show ?thesis unfolding post_def by blast
qed

lemma str_replace_spec:
  assumes "\<And>n. malloc n"
  shows "NUL \<notin> set s \<Longrightarrow> length (replace_all pat repl s) < length (s @ NUL # tail) \<Longrightarrow>
    \<exists>tail'. str_replace malloc pat repl (pre @ s @ NUL # tail) (length pre) =
        Some (pre @ replace_all pat repl s @ NUL # tail') \<and>
      length (replace_all pat repl s @ NUL # tail') = length (s @ NUL # tail)"
proof (induction pat repl s arbitrary: pre tail rule: replace_all.induct)
  case (1 pat repl)
  then show ?case by (subst str_replace.simps) auto
next
  case (2 pat repl c cs)
  let ?buf = "pre @ (c # cs) @ NUL # tail"
  have at: "cstr ?buf (length pre) = c # cs" "?buf ! length pre = c" "length pre < length ?buf" "c \<noteq> NUL"
    using 2(3) takeWhile_NUL [of "c # cs"] by (auto simp: cstr_def)
  show ?case
  proof (cases "pat \<noteq> [] \<and> take (length pat) (c # cs) = pat")
    case True
    define rest where "rest = drop (length pat) (c # cs)"
    have s: "c # cs = pat @ rest" unfolding rest_def by (metis True append_take_drop_id)
    have repl: "replace_all pat repl (c # cs) = repl @ replace_all pat repl rest" using True rest_def by simp
    have fit: "length repl + length (replace_all pat repl rest) < length (pat @ rest @ NUL # tail)"
      using 2(4) arg_cong [OF s, of length] unfolding repl by simp
    have "length repl + length rest < length (pat @ rest @ NUL # tail)"
      using fit replace_all_longer [of pat repl rest] by (cases "length pat \<le> length repl") auto
    moreover have nul: "NUL \<notin> set rest" using 2(3) unfolding s by simp
    ultimately obtain tail1 where here: "replace_here malloc pat repl ?buf (length pre) =
        Some (pre @ repl @ rest @ NUL # tail1, length pre + length repl)"
      and len: "length (repl @ rest @ NUL # tail1) = length (pat @ rest @ NUL # tail)"
      using replace_here_spec [where malloc = malloc and rest = rest and repl = repl and pat = pat and tail = tail and pre = pre] assms unfolding s by auto
    have "length (replace_all pat repl rest) < length (rest @ NUL # tail1)" using fit len by simp
    from 2(1) [OF True, folded rest_def, OF nul this, of "pre @ repl"]
    obtain tail' where ih: "str_replace malloc pat repl (pre @ repl @ rest @ NUL # tail1) (length pre + length repl) =
        Some (pre @ repl @ replace_all pat repl rest @ NUL # tail')"
      "length (replace_all pat repl rest @ NUL # tail') = length (rest @ NUL # tail1)" by auto
    have "c = hd pat" using s True by (metis hd_append2 list.sel(1))
    then have "str_replace malloc pat repl ?buf (length pre) = Some (pre @ (repl @ replace_all pat repl rest) @ NUL # tail')"
      using at True here ih(1) by (subst str_replace.simps) simp
    moreover have "length ((repl @ replace_all pat repl rest) @ NUL # tail') = length ((c # cs) @ NUL # tail)"
      using ih(2) len arg_cong [OF s, of length] by simp
    ultimately show ?thesis unfolding repl by blast
  next
    case False
    from 2(2) [OF False, of tail "pre @ [c]"] 2(3,4)
    obtain tail' where ih: "str_replace malloc pat repl ?buf (Suc (length pre)) =
        Some (pre @ [c] @ replace_all pat repl cs @ NUL # tail')"
      "length (replace_all pat repl cs @ NUL # tail') = length (cs @ NUL # tail)"
      using False by auto
    have "str_replace malloc pat repl ?buf (length pre) = str_replace malloc pat repl ?buf (Suc (length pre))"
      using at False by (subst str_replace.simps) auto
    then show ?thesis using ih False by auto
  qed
qed

section \<open>Searching\<close>

lemma memstr_loop_spec:
  assumes "sub \<noteq> []"
  shows "i \<le> length full_data \<Longrightarrow>
    memstr_loop full_data sub (int (length full_data) - int (length sub) + 1) i =
      map_option (\<lambda>k. i + k) (find_sub sub (drop i full_data))"
proof (induction "length full_data - i" arbitrary: i)
  case 0
  then have "i = length full_data" by simp
  then show ?case using assms by (subst memstr_loop.simps) simp
next
  case (Suc n)
  then have i: "i < length full_data" and d: "drop i full_data = full_data ! i # drop (Suc i) full_data"
    by (simp_all add: Cons_nth_drop_Suc)
  have ih: "memstr_loop full_data sub (int (length full_data) - int (length sub) + 1) (i + 1) =
      map_option (\<lambda>k. i + 1 + k) (find_sub sub (drop (i + 1) full_data))"
    using Suc i by (intro Suc.hyps) simp_all
  show ?case
  proof (cases "take (length sub) (drop i full_data) = sub")
    case True
    then have "length sub \<le> length full_data - i" by (metis length_drop length_take min.cobounded1 min.commute)
    moreover have "full_data ! i = hd sub" using True assms by (metis d hd_take length_greater_0_conv list.sel(1))
    ultimately show ?thesis using True i by (subst memstr_loop.simps) (simp add: d)
  next
    case False
    have "memstr_loop full_data sub (int (length full_data) - int (length sub) + 1) i =
        memstr_loop full_data sub (int (length full_data) - int (length sub) + 1) (i + 1)"
    proof (cases "int i < int (length full_data) - int (length sub) + 1")
      case True
      then show ?thesis using False by (subst memstr_loop.simps) simp
    next
      case no: False
      then show ?thesis by (subst (1 2) memstr_loop.simps) simp
    qed
    also have "\<dots> = map_option (\<lambda>k. i + k) (map_option Suc (find_sub sub (drop (Suc i) full_data)))"
      unfolding ih by (cases "find_sub sub (drop (Suc i) full_data)") simp_all
    finally show ?thesis using False d by simp
  qed
qed

lemma value_end_spec:
  assumes "holds_at query e s"
  shows "value_end query e = Some (e + length (takeWhile (\<lambda>c. c \<noteq> CHR ''#'' \<and> c \<noteq> CHR ''&'') s))"
  using assms
proof (induction s arbitrary: e)
  case Nil
  then show ?case by (subst value_end.simps) (simp add: holds_Nil)
next
  case (Cons c s)
  then have h: "c \<noteq> NUL" "e < length query" "query ! e = c" "holds_at query (Suc e) s" by (simp_all add: holds_Cons)
  then show ?case using Cons.IH [OF h(4)] by (subst value_end.simps) auto
qed

lemma holds_drop: "holds_at buf i (s @ t) \<Longrightarrow> holds_at buf (i + length s) t"
proof (induction s arbitrary: i)
  case (Cons c s)
  then show ?case using Cons.IH [of "Suc i"] by (simp add: holds_Cons)
qed simp

lemma strncpy_holds:
  assumes "holds_at buf i (s @ t)" shows "strncpy_bytes (drop i buf) (length s) = s"
proof -
  obtain tail where "NUL \<notin> set s" "drop i buf = s @ (t @ NUL # tail)" using assms by (auto simp: holds_at_def)
  then show ?thesis by (rule strncpy_exact)
qed

lemma query_value:
  assumes "holds_at query 0 q" and "cstr key 0 = k" and "find_sub k q = Some i" and "i + length k < length q"
  shows "query_parse_key_value query key =
    Some (Inr (takeWhile (\<lambda>c. c \<noteq> CHR ''#'' \<and> c \<noteq> CHR ''&'') (drop (i + length k + 1) q)))"
proof -
  let ?t = "i + length k + 1"
  have "holds_at query 0 (take ?t q @ drop ?t q)" using assms(1) by simp
  then have h: "holds_at query ?t (drop ?t q)" using holds_drop [of query 0 "take ?t q"] assms(4) by simp
  let ?v = "takeWhile (\<lambda>c. c \<noteq> CHR ''#'' \<and> c \<noteq> CHR ''&'') (drop ?t q)"
  have "holds_at query ?t (?v @ dropWhile (\<lambda>c. c \<noteq> CHR ''#'' \<and> c \<noteq> CHR ''&'') (drop ?t q))"
    using h by (simp only: takeWhile_dropWhile_id)
  from strncpy_holds [OF this] show ?thesis
    using assms(2,3) value_end_spec [OF h] holds_cstr [OF assms(1)]
    by (simp add: query_parse_key_value_def strstr_def Let_def)
qed

lemma suffix_back_stop:
  "k \<le> n \<Longrightarrow> k = 0 \<or> p ! k = CHR ''.'' \<Longrightarrow> (\<And>m. k < m \<Longrightarrow> m \<le> n \<Longrightarrow> p ! m \<noteq> CHR ''.'') \<Longrightarrow> suffix_back p n = k"
  by (induction n) (auto simp: le_Suc_eq)

lemma file_suffix:
  assumes "holds_at p 0 s"
  shows "get_file_suffix (Some p) = Some (Inr (suffix_of s))"
proof -
  have len: "strlen p 0 = Some (length s)" by (rule holds_strlen [OF assms])
  have nth: "p ! m = (if m < length s then s ! m else NUL)" if "m \<le> length s" for m
    using that holds_nth(1) [OF assms, of m] holds_nth(2) [OF assms] by (cases "m = length s") auto
  have dot: "NUL \<noteq> CHR ''.''" by (simp add: NUL_def)
  show ?thesis
  proof (cases "CHR ''.'' \<in> set s")
    case True
    then obtain stem ext where s: "s = stem @ CHR ''.'' # ext" and ext: "CHR ''.'' \<notin> set ext" by (metis split_list_last)
    have "suffix_back p (length s) = length stem"
    proof (rule suffix_back_stop)
      fix m assume m: "length stem < m" "m \<le> length s"
      then show "p ! m \<noteq> CHR ''.''" using ext dot nth [OF m(2)]
        by (auto simp: s nth_append nth_Cons' in_set_conv_nth split: if_splits)
    qed (simp_all add: s nth)
    moreover have "p ! length stem = CHR ''.''" using nth [of "length stem"] by (simp add: s)
    moreover have "strncpy_bytes (drop (length stem + 1) p) (length ext) = ext"
      using strncpy_holds [of p "length stem + 1" ext "[]"] holds_drop [of p 0 "stem @ [CHR ''.'']" ext] assms s by simp
    moreover have "suffix_of s = (if ext = [] then ''null'' else ext)"
      using ext by (simp add: suffix_of_def s takeWhile_append)
    ultimately show ?thesis by (simp add: get_file_suffix_def len s)
  next
    case False
    have "suffix_back p (length s) = 0"
      using False dot by (intro suffix_back_stop) (auto simp: nth in_set_conv_nth)
    moreover have "p ! 0 \<noteq> CHR ''.''" using nth [of 0] False dot by (cases s) auto
    ultimately show ?thesis using False by (simp add: get_file_suffix_def len suffix_of_def)
  qed
qed

section \<open>Properties\<close>

text \<open>\<open>trim_space\<close> on a buffer that holds a non-empty string leaves in the same buffer, properly
  terminated, the string without its leading and trailing white space (the empty string when there is
  nothing else).\<close>

theorem trim_space_strips:
  assumes "holds_at buf 0 s" and "s \<noteq> []"
  shows "\<exists>buf'. trim_space buf = Some buf' \<and> length buf' = length buf \<and> holds_at buf' 0 (strip s)"
proof -
  let ?i = "length (takeWhile isspace s)"
  obtain j where j: "skip_back buf ?i (int (length s) - 1) = Some j" "nat (j - int ?i + 1) = length (strip s)"
    using trim_indices [OF assms] by blast
  obtain tail where t: "dropWhile isspace s = strip s @ tail" by (rule strip_prefix)
  have s: "s = takeWhile isspace s @ strip s @ tail" by (metis t takeWhile_dropWhile_id)
  have h: "holds_at buf ?i (strip s @ tail)"
    using holds_drop [of buf 0 "takeWhile isspace s" "strip s @ tail"] assms(1) s by simp
  have fit: "length (strip s) < length buf" using holds_len [OF h] by simp
  have nul: "NUL \<notin> set (strip s)" using h by (simp add: holds_at_def)
  define buf' where "buf' = strip s @ NUL # drop (Suc (length (strip s))) buf"
  have "trim_space buf = Some buf'"
    using holds_strlen [OF assms(1)] skip_fwd_spec [OF assms(1)] j strncpy_holds [OF h] fit
    by (simp add: trim_space_def write_at_def buf'_def Let_def)
  moreover have "length buf' = length buf" "holds_at buf' 0 (strip s)"
    using fit nul by (simp_all add: buf'_def holds_at_def)
  ultimately show ?thesis by blast
qed

theorem trim_space_strips_witness:
  "\<exists>buf'. trim_space ('' ab  '' @ [NUL]) = Some buf' \<and> length buf' = 6 \<and> holds_at buf' 0 ''ab''"
proof -
  have "holds_at ('' ab  '' @ [NUL]) 0 '' ab  ''" "strip '' ab  '' = ''ab''"
    by (simp_all add: holds_at_def strip_def isspace_def NUL_def)
  then show ?thesis using trim_space_strips [of "'' ab  '' @ [NUL]" "'' ab  ''"] by (simp add: eval_nat_numeral)
qed

text \<open>On an empty string \<open>trim_space\<close> looks at the character before its buffer.\<close>

theorem trim_space_empty:
  assumes "holds_at buf 0 []"
  shows "trim_space buf = None"
  using holds_strlen [OF assms] skip_fwd_spec [OF assms]
  by (simp add: trim_space_def skip_back.simps)

theorem trim_space_empty_witness: "trim_space [NUL] = None"
  by (rule trim_space_empty) (simp add: holds_Nil)

text \<open>\<open>memstr\<close> returns the first position at which the non-empty substring occurs in the region, and null
  exactly when the region is empty, the substring is empty or there is no occurrence.\<close>

theorem memstr_first:
  "memstr (Some full_data) (Some sub) =
     (if full_data = [] \<or> cstr sub 0 = [] then None else find_sub (cstr sub 0) full_data) \<and>
   memstr None sub' = None \<and> memstr full_data' None = None"
  using memstr_loop_spec [of "cstr sub 0" 0 full_data]
  by (auto simp: memstr_def option.map_ident split: option.splits)

text \<open>Reading a query: the value of a key that does not occur earlier in the query is everything between
  the character behind the key and the next \<open>&\<close> or \<open>#\<close> or the end.\<close>

theorem query_value_found:
  assumes "holds_at query 0 (pre @ k @ CHR ''='' # v @ rest)" and "cstr key 0 = k"
    and "\<And>j. j < length pre \<Longrightarrow> take (length k) (drop j (pre @ k @ CHR ''='' # v @ rest)) \<noteq> k"
    and "CHR ''#'' \<notin> set v" "CHR ''&'' \<notin> set v" and "rest = [] \<or> hd rest \<in> {CHR ''#'', CHR ''&''}"
  shows "query_parse_key_value query key = Some (Inr v)"
proof -
  let ?q = "pre @ k @ CHR ''='' # v @ rest"
  have "find_sub k ?q = Some (length pre)" using assms(3) by (intro find_sub_I) simp_all
  then have "query_parse_key_value query key =
      Some (Inr (takeWhile (\<lambda>c. c \<noteq> CHR ''#'' \<and> c \<noteq> CHR ''&'') (drop (length pre + length k + 1) ?q)))"
    using assms(1,2) by (intro query_value) simp_all
  also have "drop (length pre + length k + 1) ?q = v @ rest" by simp
  also have "takeWhile (\<lambda>c. c \<noteq> CHR ''#'' \<and> c \<noteq> CHR ''&'') (v @ rest) = v"
    using assms(4-6) by (cases rest) (auto simp: takeWhile_append)
  finally show ?thesis .
qed

theorem query_value_found_witness:
  "query_parse_key_value (''cmd=up&user=bob&x=1'' @ [NUL]) (''user'' @ [NUL]) = Some (Inr ''bob'')"
proof -
  have *: "take (length ''user'') (drop j ''cmd=up&user=bob&x=1'') \<noteq> ''user''" if "j < length ''cmd=up&''" for j
    using that by (auto simp: less_Suc_eq)
  show ?thesis
    by (rule query_value_found [where pre = "''cmd=up&''" and k = "''user''" and v = "''bob''" and rest = "''&x=1''"])
      (use * in \<open>simp_all add: holds_at_def NUL_def cstr_def\<close>)
qed

text \<open>A key is found inside a longer one, and a key at the very end of the query makes the code read past
  the terminator.\<close>

theorem query_confusions:
  "query_parse_key_value (''userid=7&id=9'' @ [NUL]) (''id'' @ [NUL]) = Some (Inr ''7'') \<and>
   query_parse_key_value (''a=1&b'' @ [NUL]) (''b'' @ [NUL]) = None"
  by (intro conjI; code_simp)

text \<open>\<open>get_file_suffix\<close> returns what stands behind the last dot of the file name, or the string "null"
  when there is no dot or nothing behind it.\<close>

theorem file_suffix_spec:
  assumes "holds_at p 0 s"
  shows "get_file_suffix (Some p) = Some (Inr (suffix_of s))" "get_file_suffix None = Some (Inl (-1))"
  using file_suffix [OF assms] by (simp_all add: get_file_suffix_def)

theorem file_suffix_spec_witness:
  "get_file_suffix (Some (''a.tar.gz'' @ [NUL])) = Some (Inr ''gz'')"
proof -
  have "holds_at (''a.tar.gz'' @ [NUL]) 0 ''a.tar.gz''" by (simp add: holds_at_def NUL_def)
  from file_suffix_spec(1) [OF this] show ?thesis by (simp add: suffix_of_def)
qed

text \<open>C30: \<open>str_replace\<close> always ends, and when the array has room for the result it holds, properly terminated,
  the string with every occurrence of the pattern, from left to right and without rescanning the
  replacement, replaced; nothing outside the array is touched although the intermediate strings are
  built in place.\<close>

theorem str_replace_all:
  assumes "\<And>n. malloc n" and "NUL \<notin> set s" "NUL \<notin> set repl" and "length (replace_all pat repl s) \<le> length s + length tail"
  shows "\<exists>buf'. str_replace malloc pat repl (s @ NUL # tail) 0 = Some buf' \<and>
    length buf' = length (s @ NUL # tail) \<and> holds_at buf' 0 (replace_all pat repl s)"
proof -
  have "NUL \<notin> set (replace_all pat repl s)"
    using assms(2,3) set_replace_all [of pat repl s] by auto
  moreover obtain tail' where "str_replace malloc pat repl ([] @ s @ NUL # tail) (length []) =
        Some ([] @ replace_all pat repl s @ NUL # tail')"
      "length (replace_all pat repl s @ NUL # tail') = length (s @ NUL # tail)"
    using str_replace_spec [of malloc s pat repl tail "[]"] assms(1,2,4) by auto
  ultimately show ?thesis by (auto simp: holds_at_def)
qed

theorem str_replace_all_witness:
  "\<exists>buf'. str_replace (\<lambda>_. True) ''a'' ''aa'' (''xaya'' @ NUL # ''....'') 0 = Some buf' \<and>
     length buf' = 9 \<and> holds_at buf' 0 ''xaayaa''"
  using str_replace_all [of "\<lambda>_. True" "''xaya''" "''aa''" "''a''" "''....''"] by (simp add: NUL_def eval_nat_numeral)

end
