(* ===== verification/Kmp.thy ===== *)
theory Kmp
  imports Cstring "HOL-Library.Sublist"
begin

text \<open>
  The string search study \<open>lingshengxueyuan/chap1.1/kmp.c\<close>: three routines that build the table of borders of a
  pattern and three that search with it.

  Strings are arrays with their terminator (theory \<open>Cstring\<close>), the table is the caller's array of \<open>int\<close>s.
  Reading or writing outside an array is \<open>None\<close>, and so is a loop that does not end.
\<close>

section \<open>The tables\<close>

definition get :: "'a list \<Rightarrow> int \<Rightarrow> 'a option" where
  "get xs i = (if 0 \<le> i \<and> i < int (length xs) then Some (xs ! nat i) else None)"

definition put :: "'a list \<Rightarrow> int \<Rightarrow> 'a \<Rightarrow> 'a list option" where
  "put xs i x = (if 0 \<le> i \<and> i < int (length xs) then Some (xs[nat i := x]) else None)"

text \<open>A plain \<open>char\<close> is signed.\<close>

definition schar :: "char \<Rightarrow> int" where
  "schar c = (let v = of_char c in if v < 128 then v else v - 256)"

fun compare :: "string \<Rightarrow> int \<Rightarrow> string \<Rightarrow> int \<Rightarrow> nat \<Rightarrow> int option" where
  "compare str1 a str2 b 0 = Some 0"
| "compare str1 a str2 b (Suc n) =
     do { x \<leftarrow> get str1 a; y \<leftarrow> get str2 b;
          if schar x < schar y then Some (-1) else if schar x > schar y then Some 1
          else compare str1 (a + 1) str2 (b + 1) n }"

text \<open>\<open>getNext\<close> tries every shift of the pattern against itself.\<close>

function shift_loop :: "string \<Rightarrow> int \<Rightarrow> int \<Rightarrow> int option" where
  "shift_loop pattern i j =
     (if j \<le> i
      then do { c \<leftarrow> compare pattern 0 pattern j (nat (i + 1 - j));
                if c = 0 then Some j else shift_loop pattern i (j + 1) }
      else Some j)"
  by pat_completeness auto
termination by (relation "measure (\<lambda>(pattern, i, j). nat (i + 1 - j))") auto

function getNext_loop :: "string \<Rightarrow> int \<Rightarrow> int \<Rightarrow> int list \<Rightarrow> int list option" where
  "getNext_loop pattern n i nxt =
     (if i < n
      then do { j \<leftarrow> shift_loop pattern i 1; nxt \<leftarrow> put nxt i (i + 1 - j); getNext_loop pattern n (i + 1) nxt }
      else Some nxt)"
  by pat_completeness auto
termination by (relation "measure (\<lambda>(pattern, n, i, nxt). nat (n - i))") auto

definition getNext :: "string \<Rightarrow> int list \<Rightarrow> int list option" where
  "getNext pattern nxt =
     do { nxt \<leftarrow> put nxt 0 0; n \<leftarrow> strlen pattern 0; getNext_loop pattern (int n) 1 nxt }"

text \<open>The inner loop of the other routines: follow the table while the character \<open>c\<close> does not continue the match.\<close>

partial_function (option) fall_back :: "string \<Rightarrow> int list \<Rightarrow> char \<Rightarrow> int \<Rightarrow> int option" where
  [code]: "fall_back pattern nxt c k =
     (if k > 0
      then do { p \<leftarrow> get pattern k;
                if c \<noteq> p then do { k \<leftarrow> get nxt (k - 1); fall_back pattern nxt c k } else Some k }
      else Some k)"

text \<open>One character: fall back, then extend the match if the character continues it.\<close>

definition advance :: "string \<Rightarrow> int list \<Rightarrow> char \<Rightarrow> int \<Rightarrow> int option" where
  "advance pattern nxt c k =
     do { k \<leftarrow> fall_back pattern nxt c k; p \<leftarrow> get pattern k; Some (if p = c then k + 1 else k) }"

function make_next_loop :: "string \<Rightarrow> int \<Rightarrow> int \<Rightarrow> int \<Rightarrow> int list \<Rightarrow> int list option" where
  "make_next_loop pattern m q k nxt =
     (if q < m
      then do { c \<leftarrow> get pattern q; k \<leftarrow> advance pattern nxt c k; nxt \<leftarrow> put nxt q k;
                make_next_loop pattern m (q + 1) k nxt }
      else Some nxt)"
  by pat_completeness auto
termination by (relation "measure (\<lambda>(pattern, m, q, k, nxt). nat (m - q))") auto

definition getNext2 :: "string \<Rightarrow> int list \<Rightarrow> int list option" where
  "getNext2 pattern nxt =
     do { nxt \<leftarrow> put nxt 0 0; n \<leftarrow> strlen pattern 0; make_next_loop pattern (int n) 1 0 nxt }"

definition make_next :: "string \<Rightarrow> int list \<Rightarrow> int list option" where
  "make_next pattern nxt =
     do { m \<leftarrow> strlen pattern 0; nxt \<leftarrow> put nxt 0 0; make_next_loop pattern (int m) 1 0 nxt }"

section \<open>The searches\<close>

text \<open>The inner loop of \<open>kmp_my1\<close>, with \<open>d = n - m\<close>.\<close>

partial_function (option) run_on :: "string \<Rightarrow> string \<Rightarrow> int \<Rightarrow> int \<Rightarrow> int \<Rightarrow> int \<Rightarrow> (int \<times> int) option" where
  [code]: "run_on text pattern d m i j =
     (if i \<le> d \<and> j < m
      then do { c \<leftarrow> get text i; p \<leftarrow> get pattern j; if c = p then run_on text pattern d m (i + 1) (j + 1) else Some (i, j) }
      else Some (i, j))"

partial_function (option) kmp_my1_loop :: "string \<Rightarrow> string \<Rightarrow> int list \<Rightarrow> int \<Rightarrow> int \<Rightarrow> int \<Rightarrow> int \<Rightarrow> int option" where
  [code]: "kmp_my1_loop text pattern nxt d m i j =
     (if i \<le> d
      then do { c \<leftarrow> get text i; p \<leftarrow> get pattern j;
                (i, j) \<leftarrow> (if c \<noteq> p then run_on text pattern d m (i + 1) 0 else run_on text pattern d m i j);
                if j = m then Some (i - m)
                else do { j \<leftarrow> get nxt (j - 1); kmp_my1_loop text pattern nxt d m i j } }
      else Some (-1))"

definition kmp_my1 :: "string \<Rightarrow> string \<Rightarrow> int list \<Rightarrow> int option" where
  "kmp_my1 text pattern nxt =
     do { n \<leftarrow> strlen text 0; m \<leftarrow> strlen pattern 0; kmp_my1_loop text pattern nxt (int n - int m) (int m) 0 0 }"

function kmp_my2_loop :: "string \<Rightarrow> string \<Rightarrow> int list \<Rightarrow> int \<Rightarrow> int \<Rightarrow> int \<Rightarrow> int \<Rightarrow> int option" where
  "kmp_my2_loop text pattern nxt d m i j =
     (if i \<le> d
      then do { c \<leftarrow> get text i; j \<leftarrow> advance pattern nxt c j;
                if j = m then Some (i + 1 - m) else kmp_my2_loop text pattern nxt d m (i + 1) j }
      else Some (-1))"
  by pat_completeness auto
termination by (relation "measure (\<lambda>(text, pattern, nxt, d, m, i, j). nat (d + 1 - i))") auto

definition kmp_my2 :: "string \<Rightarrow> string \<Rightarrow> int list \<Rightarrow> int option" where
  "kmp_my2 text pattern nxt =
     do { n \<leftarrow> strlen text 0; m \<leftarrow> strlen pattern 0; kmp_my2_loop text pattern nxt (int n - int m) (int m) 0 0 }"

text \<open>The loop of \<open>kmp\<close> ends with \<open>i\<close> and \<open>q\<close>.\<close>

function kmp_loop :: "string \<Rightarrow> string \<Rightarrow> int list \<Rightarrow> int \<Rightarrow> int \<Rightarrow> int \<Rightarrow> int \<Rightarrow> (int \<times> int) option" where
  "kmp_loop text pattern nxt n m i q =
     (if i < n
      then do { c \<leftarrow> get text i; q \<leftarrow> advance pattern nxt c q;
                if q = m then Some (i, q) else kmp_loop text pattern nxt n m (i + 1) q }
      else Some (i, q))"
  by pat_completeness auto
termination by (relation "measure (\<lambda>(text, pattern, nxt, n, m, i, q). nat (n - i))") auto

text \<open>The result and the table it leaves behind.\<close>

definition kmp :: "string \<Rightarrow> string \<Rightarrow> int list \<Rightarrow> (int \<times> int list) option" where
  "kmp text pattern nxt =
     do { n \<leftarrow> strlen text 0; m \<leftarrow> strlen pattern 0; nxt \<leftarrow> make_next pattern nxt;
          (i, q) \<leftarrow> kmp_loop text pattern nxt (int n) (int m) 0 0; Some (i - q + 1, nxt) }"

declare shift_loop.simps [simp del] getNext_loop.simps [simp del] make_next_loop.simps [simp del]
  kmp_my2_loop.simps [simp del] kmp_loop.simps [simp del]

section \<open>Borders\<close>

text \<open>The longest prefix of \<open>p\<close>, shorter than \<open>b\<close>, that \<open>u\<close> ends with, and the longest proper border of the first \<open>l\<close>
  characters of \<open>p\<close>.\<close>

definition overlap :: "'a list \<Rightarrow> nat \<Rightarrow> 'a list \<Rightarrow> nat" where
  "overlap p b u = last (filter (\<lambda>k. suffix (take k p) u) [0..<b])"

definition border :: "'a list \<Rightarrow> nat \<Rightarrow> nat" where
  "border p l = overlap p l (take l p)"

text \<open>\<open>k\<close> is the longest prefix of \<open>p\<close> shorter than \<open>b\<close> that \<open>u\<close> ends with.\<close>

definition longest :: "'a list \<Rightarrow> nat \<Rightarrow> 'a list \<Rightarrow> nat \<Rightarrow> bool" where
  "longest p b u k \<longleftrightarrow> k < b \<and> suffix (take k p) u \<and> (\<forall>k'<b. suffix (take k' p) u \<longrightarrow> k' \<le> k)"

lemma longest_unique: "longest p b u k \<Longrightarrow> longest p b u k' \<Longrightarrow> k = k'"
  unfolding longest_def by (metis le_antisym)

lemma overlap_longest: "0 < b \<Longrightarrow> longest p b u (overlap p b u)"
proof -
  assume "0 < b"
  let ?ks = "filter (\<lambda>k. suffix (take k p) u) [0..<b]"
  have "0 \<in> set ?ks" using \<open>0 < b\<close> by simp
  then have ne: "?ks \<noteq> []" by (metis empty_iff list.set(1))
  then have in_ks: "overlap p b u \<in> set ?ks" unfolding overlap_def by (rule last_in_set)
  have "sorted ?ks" by (rule sorted_wrt_filter) simp
  then have "\<forall>k \<in> set ?ks. k \<le> last ?ks" using ne by (cases ?ks rule: rev_cases) (auto simp: sorted_append)
  with in_ks show ?thesis by (auto simp: longest_def overlap_def)
qed

lemma border_longest: "0 < l \<Longrightarrow> longest p l (take l p) (border p l)"
  unfolding border_def by (rule overlap_longest)

text \<open>Two prefixes that a list ends with: the shorter is a border of the longer.\<close>

lemma shorter_border:
  assumes "suffix (take k' p) u" "suffix (take k p) u" "k' \<le> k" "k \<le> length p"
  shows "suffix (take k' p) (take k p)"
  using suffix_length_suffix [OF assms(1,2)] assms(3,4) by simp

lemma suffix_iff_drop: "suffix xs ys \<longleftrightarrow> length xs \<le> length ys \<and> drop (length ys - length xs) ys = xs"
proof
  assume "length xs \<le> length ys \<and> drop (length ys - length xs) ys = xs"
  then show "suffix xs ys" using suffix_drop [of "length ys - length xs" ys] by simp
qed (auto simp: suffix_def)

lemma suffix_snoc: "k < length p \<Longrightarrow> suffix (take (Suc k) p) (u @ [c]) \<longleftrightarrow> p ! k = c \<and> suffix (take k p) u"
  by (auto simp: take_Suc_conv_app_nth)

definition table_ok :: "string \<Rightarrow> int list \<Rightarrow> nat \<Rightarrow> bool" where
  "table_ok p nxt b \<longleftrightarrow> b \<le> length nxt \<and> (\<forall>l. 0 < l \<and> l \<le> b \<longrightarrow> nxt ! (l - 1) = int (border p l))"

lemma get_nat: "get xs (int k) = (if k < length xs then Some (xs ! k) else None)"
  by (simp add: get_def)

lemma put_nat: "put xs (int k) x = (if k < length xs then Some (xs[k := x]) else None)"
  by (simp add: put_def)

lemma get_pattern: "holds_at pattern 0 p \<Longrightarrow> k < length p \<Longrightarrow> get pattern (int k) = Some (p ! k)"
  using holds_nth(1) [of pattern 0 p k] holds_len [of pattern 0 p] by (simp add: get_nat)

lemma fall_back_spec:
  assumes "holds_at pattern 0 p" and "table_ok p nxt k" "k < length p" and "suffix (take k p) u"
    and "\<And>k'. k' < b \<Longrightarrow> suffix (take k' p) u \<Longrightarrow> p ! k' = c \<Longrightarrow> k' \<le> k"
  shows "\<exists>k2. fall_back pattern nxt c (int k) = Some (int k2) \<and> k2 \<le> k \<and> suffix (take k2 p) u \<and> (k2 = 0 \<or> p ! k2 = c) \<and>
    (\<forall>k'<b. suffix (take k' p) u \<and> p ! k' = c \<longrightarrow> k' \<le> k2)"
  using assms(2-5)
proof (induction k rule: less_induct)
  case (less k)
  show ?case
  proof (cases "k = 0 \<or> p ! k = c")
    case True
    then have "fall_back pattern nxt c (int k) = Some (int k)"
      using get_pattern [OF assms(1) less.prems(2)] by (subst fall_back.simps) auto
    then show ?thesis using True less.prems by blast
  next
    case False
    let ?k = "border p k"
    have bd: "longest p k (take k p) ?k" using border_longest False by blast
    then have k: "?k < k" "suffix (take ?k p) (take k p)" by (simp_all add: longest_def)
    have "nxt ! (k - 1) = int ?k" "k - 1 < length nxt" using less.prems(1) False by (auto simp: table_ok_def)
    then have "get nxt (int k - 1) = Some (int ?k)" using get_nat [of nxt "k - 1"] False by (simp add: of_nat_diff)
    moreover have "0 < k" "c \<noteq> p ! k" using False by auto
    ultimately have step: "fall_back pattern nxt c (int k) = fall_back pattern nxt c (int ?k)"
      using get_pattern [OF assms(1) less.prems(2)] by (subst fall_back.simps) simp
    have IH: "\<exists>k2. fall_back pattern nxt c (int ?k) = Some (int k2) \<and> k2 \<le> ?k \<and> suffix (take k2 p) u \<and> (k2 = 0 \<or> p ! k2 = c) \<and>
      (\<forall>k'<b. suffix (take k' p) u \<and> p ! k' = c \<longrightarrow> k' \<le> k2)"
    proof (rule less.IH [OF k(1)])
      show "table_ok p nxt ?k" "?k < length p" using less.prems(1,2) k(1) by (auto simp: table_ok_def)
      show "suffix (take ?k p) u" using k(2) less.prems(3) by (rule suffix_order.trans)
      show "k' \<le> ?k" if "k' < b" "suffix (take k' p) u" "p ! k' = c" for k'
      proof -
        have "k' < k" using less.prems(4) [OF that] that(3) False by (cases "k' = k") auto
        then show ?thesis using shorter_border [OF that(2) less.prems(3)] less.prems(2) bd by (simp add: longest_def)
      qed
    qed
    then obtain k2 where "fall_back pattern nxt c (int ?k) = Some (int k2)" "k2 \<le> ?k" "suffix (take k2 p) u" "k2 = 0 \<or> p ! k2 = c"
      "\<forall>k'<b. suffix (take k' p) u \<and> p ! k' = c \<longrightarrow> k' \<le> k2" by blast
    then show ?thesis using step k(1) by (intro exI [of _ k2]) simp
  qed
qed

lemma advance_spec:
  assumes "holds_at pattern 0 p" and "longest p b u k" "b \<le> length p" and "table_ok p nxt k"
  shows "\<exists>k2. advance pattern nxt c (int k) = Some (int k2) \<and> longest p (Suc b) (u @ [c]) k2"
proof -
  obtain k1 where k1: "fall_back pattern nxt c (int k) = Some (int k1)" "k1 \<le> k" "suffix (take k1 p) u" "k1 = 0 \<or> p ! k1 = c"
    "\<forall>k'<b. suffix (take k' p) u \<and> p ! k' = c \<longrightarrow> k' \<le> k1"
    using fall_back_spec [OF assms(1,4), of u b c] assms(2,3) by (auto simp: longest_def)
  have lt: "k1 < b" "k1 < length p" using assms(2,3) k1(2) by (auto simp: longest_def)
  let ?k2 = "if p ! k1 = c then Suc k1 else k1"
  have "advance pattern nxt c (int k) = Some (int ?k2)"
    using k1(1) get_pattern [OF assms(1) lt(2)] by (simp add: advance_def)
  moreover have "longest p (Suc b) (u @ [c]) ?k2"
    unfolding longest_def
  proof (intro conjI allI impI)
    show "?k2 < Suc b" using lt by simp
    show "suffix (take ?k2 p) (u @ [c])" using k1(3,4) suffix_snoc [OF lt(2), of u c] by auto
    fix k' assume k': "k' < Suc b" "suffix (take k' p) (u @ [c])"
    show "k' \<le> ?k2"
    proof (cases k')
      case (Suc j)
      then have "p ! j = c" "suffix (take j p) u" using k' suffix_snoc [of j p u c] assms(3) by simp_all
      moreover from this have "j \<le> k1" using k1(5) k'(1) Suc by simp
      ultimately show ?thesis using Suc k1(4) by (cases "k1 = 0") auto
    qed simp
  qed
  ultimately show ?thesis by blast
qed

section \<open>The table routines\<close>

definition table :: "string \<Rightarrow> int list" where
  "table p = map (\<lambda>l. int (border p (Suc l))) [0..<length p]"

lemma length_table [simp]: "length (table p) = length p"
  by (simp add: table_def)

lemma table_okI: "table_ok p nxt (length p) \<Longrightarrow> nxt = table p @ drop (length p) nxt"
proof (rule nth_equalityI)
  fix i assume ok: "table_ok p nxt (length p)"
  then show "nxt ! i = (table p @ drop (length p) nxt) ! i" if "i < length nxt"
    using that by (cases "i < length p") (auto simp: table_ok_def table_def nth_append dest: spec [of _ "Suc i"])
qed (auto simp: table_ok_def)

lemma table_ok_table: "table_ok p (table p @ xs) (length p)"
  by (auto simp: table_ok_def table_def nth_append)

lemma table_ok_put: "table_ok p nxt q \<Longrightarrow> q < length nxt \<Longrightarrow> k = border p (Suc q) \<Longrightarrow> table_ok p (nxt[q := int k]) (Suc q)"
  by (auto simp: table_ok_def nth_list_update le_Suc_eq)

lemma make_next_loop_spec:
  assumes "holds_at pattern 0 p" and "length p \<le> length nxt" and "0 < q" "q \<le> length p"
    and "table_ok p nxt q" and "longest p q (take q p) k"
  shows "\<exists>nxt'. make_next_loop pattern (int (length p)) (int q) (int k) nxt = Some nxt' \<and> table_ok p nxt' (length p) \<and>
    length nxt' = length nxt \<and> drop (length p) nxt' = drop (length p) nxt"
  using assms(2-6)
proof (induction "length p - q" arbitrary: q k nxt)
  case 0
  then show ?case by (auto simp: make_next_loop.simps)
next
  case (Suc d)
  then have q: "q < length p" by simp
  have "table_ok p nxt k" using Suc.prems(4,5) by (auto simp: longest_def table_ok_def)
  then obtain k2 where k2: "advance pattern nxt (p ! q) (int k) = Some (int k2)" "longest p (Suc q) (take (Suc q) p) k2"
    using advance_spec [OF assms(1) Suc.prems(5,3), of nxt "p ! q"] q by (auto simp: take_Suc_conv_app_nth)
  then have "k2 = border p (Suc q)" using longest_unique border_longest by blast
  then have ok: "table_ok p (nxt[q := int k2]) (Suc q)" using table_ok_put [OF Suc.prems(4)] Suc.prems(1) q by simp
  have "make_next_loop pattern (int (length p)) (int q) (int k) nxt =
      make_next_loop pattern (int (length p)) (int (Suc q)) (int k2) (nxt[q := int k2])"
    using q Suc.prems(1) k2(1) get_pattern [OF assms(1) q]
    by (subst make_next_loop.simps) (simp add: put_nat add.commute)
  moreover have "d = length p - Suc q" using Suc.hyps(2) by simp
  ultimately show ?case
    using Suc.hyps(1) [of "Suc q" "nxt[q := int k2]" k2] Suc.prems(1) q ok k2(2) by simp
qed

lemma make_next_spec:
  assumes "holds_at pattern 0 p" and "p \<noteq> []" "length p \<le> length nxt"
  shows "make_next pattern nxt = Some (table p @ drop (length p) nxt)" "getNext2 pattern nxt = Some (table p @ drop (length p) nxt)"
proof -
  have nxt: "0 < length nxt" "0 < length p" using assms(2,3) by (cases p; cases nxt; simp)+
  have "longest p 1 (take 1 p) 0" by (simp add: longest_def)
  then have b: "border p 1 = 0" using longest_unique border_longest [of 1 p] by simp
  then have "table_ok p (nxt[0 := 0]) 1" using nxt by (auto simp: table_ok_def le_Suc_eq Suc_le_eq)
  then obtain nxt' where nxt': "make_next_loop pattern (int (length p)) 1 0 (nxt[0 := 0]) = Some nxt'" "table_ok p nxt' (length p)"
    "drop (length p) nxt' = drop (length p) nxt"
    using make_next_loop_spec [OF assms(1), of "nxt[0 := 0]" 1 0] assms(3) nxt \<open>longest p 1 (take 1 p) 0\<close> by auto
  have "put nxt 0 0 = Some (nxt[0 := 0])" using put_nat [of nxt 0 0] nxt by simp
  moreover have "nxt' = table p @ drop (length p) nxt" using table_okI [OF nxt'(2)] nxt'(3) by simp
  ultimately show "make_next pattern nxt = Some (table p @ drop (length p) nxt)" "getNext2 pattern nxt = Some (table p @ drop (length p) nxt)"
    using holds_strlen [OF assms(1)] nxt'(1) by (simp_all add: make_next_def getNext2_def)
qed

text \<open>The routine that tries every shift arrives at the same table.\<close>

lemma schar_inj: "schar x = schar y \<longleftrightarrow> x = y"
proof
  assume eq: "schar x = schar y"
  have bound: "(of_char c :: int) < 256" "0 \<le> (of_char c :: int)" for c
    by (simp_all add: of_char_def horner_sum_bound flip: of_nat_of_char)
  have "(of_char x :: int) = of_char y" using eq bound [of x] bound [of y] by (auto simp: schar_def Let_def split: if_splits)
  then show "x = y" by simp
qed simp

lemma compare_zero:
  assumes "holds_at pattern 0 p" and "a + n \<le> length p" "b + n \<le> length p"
  shows "\<exists>c. compare pattern (int a) pattern (int b) n = Some c \<and> (c = 0 \<longleftrightarrow> take n (drop a p) = take n (drop b p))"
  using assms(2,3)
proof (induction n arbitrary: a b)
  case (Suc n)
  then have "get pattern (int a) = Some (p ! a)" "get pattern (int b) = Some (p ! b)" using get_pattern [OF assms(1)] by simp_all
  moreover have "take (Suc n) (drop k p) = p ! k # take n (drop (Suc k) p)" if "k + Suc n \<le> length p" for k
    using that by (simp flip: Cons_nth_drop_Suc)
  ultimately show ?case
    using Suc.IH [of "Suc a" "Suc b"] Suc.prems schar_inj [of "p ! a" "p ! b"] by (auto simp: add.commute)
qed simp

lemma shift_loop_spec:
  assumes "holds_at pattern 0 p" and "i < length p" and "0 < j" "j \<le> Suc i" and "\<And>k. k < Suc i \<Longrightarrow> suffix (take k p) (take (Suc i) p) \<Longrightarrow> k \<le> Suc i - j"
  shows "shift_loop pattern (int i) (int j) = Some (int (Suc i - border p (Suc i)))"
  using assms(3-5)
proof (induction "Suc i - j" arbitrary: j)
  case 0
  then have j: "j = Suc i" by simp
  have "longest p (Suc i) (take (Suc i) p) 0" using 0(4) j by (auto simp: longest_def)
  then have "border p (Suc i) = 0" using longest_unique border_longest by blast
  then show ?case using j by (simp add: shift_loop.simps)
next
  case (Suc d)
  then have j: "j \<le> i" "d = Suc i - Suc j" by simp_all
  let ?n = "Suc i - j"
  have "nat (int i + 1 - int j) = ?n" using j by simp
  moreover obtain c where c: "compare pattern (int 0) pattern (int j) ?n = Some c"
    "c = 0 \<longleftrightarrow> take ?n (drop 0 p) = take ?n (drop j p)" using compare_zero [OF assms(1), of 0 ?n j] assms(2) j by auto
  ultimately have loop: "shift_loop pattern (int i) (int j) = (if c = 0 then Some (int j) else shift_loop pattern (int i) (int (Suc j)))"
    using j by (subst shift_loop.simps) (simp add: add.commute)
  have "take ?n (drop j p) = drop j (take (Suc i) p)" by (simp add: drop_take)
  moreover have "suffix (take ?n p) (take (Suc i) p) \<longleftrightarrow> drop j (take (Suc i) p) = take ?n p"
    using assms(2) j by (simp add: suffix_iff_drop)
  ultimately have c': "c = 0 \<longleftrightarrow> suffix (take ?n p) (take (Suc i) p)" using c(2) by auto
  show ?case
  proof (cases "c = 0")
    case True
    then have "longest p (Suc i) (take (Suc i) p) ?n" using c' Suc.prems(1,3) by (auto simp: longest_def)
    then have "border p (Suc i) = ?n" using longest_unique border_longest by blast
    then show ?thesis using loop True j by simp
  next
    case False
    have "k \<le> Suc i - Suc j" if "k < Suc i" "suffix (take k p) (take (Suc i) p)" for k
      using Suc.prems(3) [OF that] that(2) False c' by (cases "k = ?n") auto
    then show ?thesis using Suc.hyps(1) [of "Suc j"] j loop False by simp
  qed
qed

lemma getNext_loop_spec:
  assumes "holds_at pattern 0 p" and "length p \<le> length nxt" and "q \<le> length p" and "table_ok p nxt q" "0 < q"
  shows "getNext_loop pattern (int (length p)) (int q) nxt = Some (table p @ drop (length p) nxt)"
  using assms(2-5)
proof (induction "length p - q" arbitrary: q nxt)
  case 0
  then show ?case using table_okI [of p nxt] by (simp add: getNext_loop.simps)
next
  case (Suc d)
  then have q: "q < length p" by simp
  have "border p (Suc q) < Suc q" using border_longest [of "Suc q" p] by (simp add: longest_def)
  then have b: "1 + int q - int (Suc q - border p (Suc q)) = int (border p (Suc q))" by simp
  have "shift_loop pattern (int q) 1 = Some (int (Suc q - border p (Suc q)))"
    using shift_loop_spec [OF assms(1) q, of 1] by simp
  then have "getNext_loop pattern (int (length p)) (int q) nxt =
      getNext_loop pattern (int (length p)) (int (Suc q)) (nxt[q := int (border p (Suc q))])"
    using q Suc.prems(1) by (subst getNext_loop.simps) (simp add: put_nat b add.commute)
  moreover have "d = length p - Suc q" using Suc.hyps(2) by simp
  ultimately show ?case
    using Suc.hyps(1) [of "Suc q" "nxt[q := int (border p (Suc q))]"] Suc.prems table_ok_put [of p nxt q] q by simp
qed

lemma getNext_spec:
  assumes "holds_at pattern 0 p" and "p \<noteq> []" "length p \<le> length nxt"
  shows "getNext pattern nxt = Some (table p @ drop (length p) nxt)"
proof -
  have nxt: "0 < length nxt" "0 < length p" using assms(2,3) by (cases p; cases nxt; simp)+
  have "longest p 1 (take 1 p) 0" by (simp add: longest_def)
  then have b: "border p 1 = 0" using longest_unique border_longest [of 1 p] by simp
  then have "table_ok p (nxt[0 := 0]) 1" using nxt by (auto simp: table_ok_def le_Suc_eq Suc_le_eq)
  then have "getNext_loop pattern (int (length p)) (int 1) (nxt[0 := 0]) = Some (table p @ drop (length p) nxt)"
    using getNext_loop_spec [OF assms(1), of "nxt[0 := 0]" 1] assms(3) nxt by simp
  moreover have "put nxt 0 0 = Some (nxt[0 := 0])" using put_nat [of nxt 0 0] nxt by simp
  ultimately show ?thesis using holds_strlen [OF assms(1)] by (simp add: getNext_def)
qed

section \<open>The search\<close>

lemma ends_with: "j \<le> length t \<Longrightarrow> suffix p (take j t) \<longleftrightarrow> length p \<le> j \<and> take (length p) (drop (j - length p) t) = p"
  by (auto simp: suffix_iff_drop drop_take)

lemma kmp_loop_spec:
  assumes "holds_at text 0 t" "holds_at pattern 0 p" and "p \<noteq> []" and "table_ok p nxt (length p)"
    and "i \<le> length t" "longest p (length p) (take i t) q" "\<forall>j \<le> i. \<not> suffix p (take j t)"
  shows "kmp_loop text pattern nxt (int (length t)) (int (length p)) (int i) (int q) =
    Some (case find_sub p t of
        Some s \<Rightarrow> (int s + int (length p) - 1, int (length p))
      | None \<Rightarrow> (int (length t), int (overlap p (length p) t)))"
  using assms(5-7)
proof (induction "length t - i" arbitrary: i q)
  case 0
  then have i: "i = length t" by simp
  have "find_sub p t = None"
    unfolding find_sub_None
  proof (intro allI impI)
    fix s assume "s \<le> length t"
    show "take (length p) (drop s t) \<noteq> p"
    proof
      assume occ: "take (length p) (drop s t) = p"
      have "length p \<le> length t - s" using arg_cong [OF occ, of length] by (simp only: length_take length_drop min_def split: if_splits)
      then have "s + length p \<le> length t" using \<open>s \<le> length t\<close> by simp
      then show False using 0(4) occ ends_with [of "s + length p" t p] i by simp
    qed
  qed
  moreover have "q = overlap p (length p) t" using 0(3) i overlap_longest [of "length p" p t] assms(3) longest_unique by auto
  ultimately show ?case using i by (simp add: kmp_loop.simps)
next
  case (Suc d)
  then have i: "i < length t" by simp
  have "table_ok p nxt q" using assms(4) Suc.prems(2) by (auto simp: longest_def table_ok_def)
  then obtain q2 where q2: "advance pattern nxt (t ! i) (int q) = Some (int q2)" "longest p (Suc (length p)) (take (Suc i) t) q2"
    using advance_spec [OF assms(2) Suc.prems(2) order.refl, of nxt "t ! i"] i by (auto simp: take_Suc_conv_app_nth)
  have loop: "kmp_loop text pattern nxt (int (length t)) (int (length p)) (int i) (int q) =
      (if q2 = length p then Some (int i, int q2)
       else kmp_loop text pattern nxt (int (length t)) (int (length p)) (int (Suc i)) (int q2))"
    using i q2(1) get_pattern [OF assms(1) i] by (subst kmp_loop.simps) (simp add: add.commute)
  show ?case
  proof (cases "q2 = length p")
    case True
    then have suf: "suffix p (take (Suc i) t)" using q2(2) by (simp add: longest_def)
    then have len: "length p \<le> Suc i" "take (length p) (drop (Suc i - length p) t) = p" using ends_with [of "Suc i" t p] i by auto
    have "find_sub p t = Some (Suc i - length p)"
    proof (rule find_sub_I [OF len(2)])
      show "Suc i - length p \<le> length t" using i by simp
      fix s assume s: "s < Suc i - length p"
      then show "take (length p) (drop s t) \<noteq> p" using Suc.prems(3) ends_with [of "s + length p" t p] i by simp
    qed
    then show ?thesis using loop True len(1) by simp
  next
    case False
    then have q2': "longest p (length p) (take (Suc i) t) q2" using q2(2) by (auto simp: longest_def)
    moreover have "\<not> suffix p (take (Suc i) t)"
      using q2(2) False unfolding longest_def by (metis le_antisym less_Suc_eq less_Suc_eq_le order.refl take_all)
    ultimately show ?thesis
      using Suc.hyps(1) [of "Suc i" q2] Suc.hyps(2) Suc.prems(3) i loop False by (auto simp: le_Suc_eq)
  qed
qed

section \<open>Properties\<close>

text \<open>The three table routines agree. For a non-empty pattern in an array with its terminator and a table
  with at least as many entries, \<open>getNext\<close>, which tries every shift, and the linear \<open>getNext2\<close> and \<open>make_next\<close>
  end without leaving the arrays and write the same table: entry \<open>l - 1\<close> is the length of the longest proper
  prefix of the first \<open>l\<close> characters that they also end with; further entries are left alone.\<close>

theorem kmp_tables_agree:
  assumes "holds_at pattern 0 p" and "p \<noteq> []" and "length p \<le> length nxt"
  shows "getNext pattern nxt = Some (table p @ drop (length p) nxt) \<and>
    getNext2 pattern nxt = getNext pattern nxt \<and> make_next pattern nxt = getNext pattern nxt"
  using getNext_spec [OF assms] make_next_spec [OF assms] by simp

theorem kmp_tables_agree_witness:
  "getNext (''abcabd'' @ [NUL]) (replicate 7 9) = Some [0, 0, 0, 1, 2, 0, 9] \<and>
   make_next (''abcabd'' @ [NUL]) (replicate 7 9) = Some [0, 0, 0, 1, 2, 0, 9]"
proof -
  have "holds_at (''abcabd'' @ [NUL]) 0 ''abcabd''" by (simp add: holds_at_def NUL_def)
  moreover have "table ''abcabd'' @ drop 6 (replicate 7 9) = [0, 0, 0, 1, 2, 0, 9]" by code_simp
  ultimately show ?thesis using kmp_tables_agree [of "''abcabd'' @ [NUL]" "''abcabd''" "replicate 7 9"] by simp
qed

text \<open>C37: The search. \<open>kmp\<close> ends without leaving its arrays and agrees with \<open>strstr\<close> when the pattern occurs: the
  result is the index of the first occurrence. When it does not occur, the result is not a negative number but
  the length of the text plus one less the length of the longest prefix of the pattern the text ends with,
  always an index at which the pattern has no room.\<close>

theorem kmp_finds_first:
  assumes "holds_at text 0 t" "holds_at pattern 0 p" and "p \<noteq> []" and "length p \<le> length nxt"
  shows "kmp text pattern nxt = Some (case strstr text pattern of
      Some s \<Rightarrow> int s
    | None \<Rightarrow> int (length t) + 1 - int (overlap p (length p) t), table p @ drop (length p) nxt) \<and>
    overlap p (length p) t < length p"
proof -
  have "longest p (length p) (take 0 t) 0" "\<forall>j \<le> 0. \<not> suffix p (take j t)" using assms(3) by (auto simp: longest_def)
  from kmp_loop_spec [OF assms(1-3) table_ok_table _ this] have loop:
    "kmp_loop text pattern (table p @ drop (length p) nxt) (int (length t)) (int (length p)) 0 0 =
      Some (case find_sub p t of
          Some s \<Rightarrow> (int s + int (length p) - 1, int (length p))
        | None \<Rightarrow> (int (length t), int (overlap p (length p) t)))" by simp
  have "longest p (length p) t (overlap p (length p) t)" using overlap_longest assms(3) by blast
  then have "overlap p (length p) t < length p" by (simp add: longest_def)
  moreover have "kmp text pattern nxt = Some (case find_sub p t of
      Some s \<Rightarrow> int s | None \<Rightarrow> int (length t) + 1 - int (overlap p (length p) t), table p @ drop (length p) nxt)"
    using loop make_next_spec(1) [OF assms(2-4)] holds_strlen [OF assms(1)] holds_strlen [OF assms(2)]
    by (simp add: kmp_def split: option.splits)
  ultimately show ?thesis using holds_cstr [OF assms(1)] holds_cstr [OF assms(2)] by (simp add: strstr_def)
qed

theorem kmp_finds_first_witness:
  "map_option fst (kmp (''ababcab'' @ [NUL]) (''abc'' @ [NUL]) [7, 7, 7]) = Some 2 \<and>
   map_option fst (kmp (''ababcab'' @ [NUL]) (''abd'' @ [NUL]) [7, 7, 7]) = Some 6"
proof -
  have h: "holds_at (''ababcab'' @ [NUL]) 0 ''ababcab''" "holds_at (''abc'' @ [NUL]) 0 ''abc''" "holds_at (''abd'' @ [NUL]) 0 ''abd''"
    by (simp_all add: holds_at_def NUL_def)
  have "strstr (''ababcab'' @ [NUL]) (''abc'' @ [NUL]) = Some 2" "strstr (''ababcab'' @ [NUL]) (''abd'' @ [NUL]) = None"
    "overlap ''abd'' (Suc (Suc (Suc 0))) ''ababcab'' = 2" by code_simp+
  then show ?thesis
    using kmp_finds_first [OF h(1,2), of "[7, 7, 7]"] kmp_finds_first [OF h(1,3), of "[7, 7, 7]"] by simp
qed

text \<open>The other two searches are wrong. \<open>kmp_my2\<close>, which the program calls, gives up when fewer characters than the pattern has
  are left although a match is under way: it does not find "ab" in "ab". \<open>kmp_my1\<close> reads the table at index -1 when the first
  two characters of the text do not begin a match. And \<open>kmp\<close> itself answers 1 for an empty pattern.\<close>

theorem kmp_variants_wrong:
  "kmp_my2 (''ab'' @ [NUL]) (''ab'' @ [NUL]) [0, 0] = Some (-1) \<and>
   kmp_my1 (''xxxabxxx'' @ [NUL]) (''ab'' @ [NUL]) [0, 0] = None \<and>
   kmp (''ab'' @ [NUL]) [NUL] [0] = Some (1, [0])"
  by (intro conjI; code_simp)

end
