(* ===== verification/Btree.thy ===== *)
theory Btree
  imports Prelude "HOL-Library.Multiset"
begin

text \<open>
  The B-tree of \<open>lingshengxueyuan/chap1.3/code/btree.c\<close>: creation, splitting, insertion, merging and deletion.

  A node is its keys and its children: the first \<open>num\<close> entries of the \<open>keys\<close> array and, in an inner
  node, the first \<open>num + 1\<close> of \<open>childrens\<close> (a leaf's pointers are all null). No node is shared, so a
  routine that changes a node in place is a function that returns it. The result is \<open>None\<close> where the
  code reads or writes outside the part of an array that is in use, follows a null pointer or uses a
  node it has freed; a routine that calls itself is a \<open>partial_function\<close>, so that \<open>Some\<close> also says
  that it ends.
\<close>

section \<open>Data\<close>

datatype btree_node = BNode (keys: "int list") (childrens: "btree_node list") (leaf: bool)

abbreviation num :: "btree_node \<Rightarrow> nat" where "num x \<equiv> length (keys x)"

record btree =
  root :: "btree_node option"
  bt :: nat

definition btree_create_node :: "bool \<Rightarrow> btree_node" where
  "btree_create_node lf = BNode [] [] lf"

definition btree_create :: "nat \<Rightarrow> btree" where
  "btree_create t = \<lparr>root = Some (btree_create_node True), bt = t\<rparr>"

section \<open>Insertion\<close>

text \<open>Child \<open>i\<close>, which is full, is cut in two around its middle key.\<close>

definition btree_split_child :: "nat \<Rightarrow> btree_node \<Rightarrow> nat \<Rightarrow> btree_node option" where
  "btree_split_child t x i =
     (if length (childrens x) \<le> i \<or> 2 * t - 1 \<le> num x then None
      else let y = childrens x ! i in
        if num y \<noteq> 2 * t - 1 then None
        else let z = BNode (map (\<lambda>j. keys y ! (j + t)) [0..<t - 1])
                       (if leaf y then [] else map (\<lambda>j. childrens y ! (j + t)) [0..<t]) (leaf y);
                 y' = BNode (take (t - 1) (keys y)) (take t (childrens y)) (leaf y)
             in Some (BNode (take i (keys x) @ keys y ! (t - 1) # drop i (keys x))
                  (take i (childrens x) @ y' # z # drop (i + 1) (childrens x)) (leaf x)))"

text \<open>The loops \<open>while (i >= 0 && keys[i] > k) i--\<close>, by \<open>i + 1\<close>.\<close>

primrec scan_down :: "int list \<Rightarrow> nat \<Rightarrow> int \<Rightarrow> nat" where
  "scan_down ks 0 k = 0"
| "scan_down ks (Suc i) k = (if ks ! i > k then scan_down ks i k else Suc i)"

partial_function (option) btree_insert_nonfull :: "nat \<Rightarrow> btree_node \<Rightarrow> int \<Rightarrow> btree_node option" where
  [code]: "btree_insert_nonfull t x k =
     (let p = scan_down (keys x) (num x) k in
      if leaf x
      then if 2 * t - 1 \<le> num x then None
           else Some (BNode (take p (keys x) @ k # drop p (keys x)) (childrens x) (leaf x))
      else if length (childrens x) \<le> p then None
      else if num (childrens x ! p) = 2 * t - 1
      then do { x' \<leftarrow> btree_split_child t x p;
                let q = (if k > keys x' ! p then p + 1 else p);
                c \<leftarrow> btree_insert_nonfull t (childrens x' ! q) k;
                Some (BNode (keys x') ((childrens x')[q := c]) (leaf x')) }
      else do { c \<leftarrow> btree_insert_nonfull t (childrens x ! p) k;
                Some (BNode (keys x) ((childrens x)[p := c]) (leaf x)) })"

definition btree_insert :: "btree \<Rightarrow> int \<Rightarrow> btree option" where
  "btree_insert T key =
     (case root T of
        None \<Rightarrow> None
      | Some r \<Rightarrow>
          if num r = 2 * bt T - 1
          then do { node \<leftarrow> btree_split_child (bt T) (BNode [] [r] False) 0;
                    let i = (if keys node ! 0 < key then 1 else 0);
                    c \<leftarrow> btree_insert_nonfull (bt T) (childrens node ! i) key;
                    Some (T\<lparr>root := Some (BNode (keys node) ((childrens node)[i := c]) (leaf node))\<rparr>) }
          else do { r' \<leftarrow> btree_insert_nonfull (bt T) r key; Some (T\<lparr>root := Some r'\<rparr>) })"

section \<open>Search and traversal\<close>

text \<open>The loop of \<open>btree_bin_search\<close>; its result is the least index whose key is not below.\<close>

function bin_search_loop :: "int list \<Rightarrow> int \<Rightarrow> int \<Rightarrow> int \<Rightarrow> int" where
  "bin_search_loop ks low high key =
     (if low \<le> high
      then let mid = (low + high) div 2 in
        if key > ks ! nat mid then bin_search_loop ks (mid + 1) high key
        else bin_search_loop ks low (mid - 1) key
      else low)"
  by pat_completeness auto
termination by (relation "measure (\<lambda>(_, low, high, _). nat (high - low + 1))") auto

definition btree_bin_search :: "btree_node \<Rightarrow> int \<Rightarrow> int \<Rightarrow> int \<Rightarrow> int" where
  "btree_bin_search node low high key =
     (if low > high \<or> low < 0 \<or> high < 0 then -1 else bin_search_loop (keys node) low high key)"

text \<open>The keys in the order in which \<open>btree_traverse\<close> prints them.\<close>

fun weave :: "'a list list \<Rightarrow> 'a list \<Rightarrow> 'a list" where
  "weave (c # cs) (k # ks) = c @ k # weave cs ks"
| "weave (c # cs) [] = c"
| "weave [] ks = []"

fun btree_traverse :: "btree_node \<Rightarrow> int list" where
  "btree_traverse (BNode ks cs lf) = (if lf then ks else weave (map btree_traverse cs) ks)"

section \<open>Deletion\<close>

text \<open>Child \<open>idx\<close>, key \<open>idx\<close> and child \<open>idx + 1\<close> become one node; returns the node and the merged child.\<close>

definition btree_merge :: "nat \<Rightarrow> btree_node \<Rightarrow> nat \<Rightarrow> (btree_node \<times> btree_node) option" where
  "btree_merge t node idx =
     (if num node \<le> idx \<or> length (childrens node) \<le> idx + 1 then None
      else let left = childrens node ! idx; right = childrens node ! (idx + 1) in
        if num left \<noteq> t - 1 \<or> num right \<noteq> t - 1 then None
        else let left' = BNode (keys left @ keys node ! idx # keys right)
                   (if leaf left then childrens left else childrens left @ childrens right) (leaf left)
             in Some (BNode (take idx (keys node) @ drop (idx + 1) (keys node))
                  (take idx (childrens node) @ left' # drop (idx + 2) (childrens node)) (leaf node), left'))"

text \<open>The loop that finds the first key that is not below \<open>key\<close>.\<close>

fun scan_up :: "int list \<Rightarrow> int \<Rightarrow> nat" where
  "scan_up [] key = 0"
| "scan_up (k # ks) key = (if key > k then Suc (scan_up ks key) else 0)"

text \<open>Rotate a key from a sibling through the parent into child \<open>idx\<close>; a leaf has no child to hand over.\<close>

definition borrow_next :: "btree_node \<Rightarrow> nat \<Rightarrow> btree_node" where
  "borrow_next node idx =
     (let child = childrens node ! idx; right = childrens node ! (idx + 1);
          child' = BNode (keys child @ [keys node ! idx]) (childrens child @ take 1 (childrens right)) (leaf child);
          right' = BNode (tl (keys right)) (tl (childrens right)) (leaf right)
      in BNode ((keys node)[idx := hd (keys right)]) ((childrens node)[idx := child', idx + 1 := right']) (leaf node))"

definition borrow_prev :: "btree_node \<Rightarrow> nat \<Rightarrow> btree_node" where
  "borrow_prev node idx =
     (let child = childrens node ! idx; left = childrens node ! (idx - 1);
          child' = BNode (keys node ! (idx - 1) # keys child)
            (drop (length (childrens left) - 1) (childrens left) @ childrens child) (leaf child);
          left' = BNode (butlast (keys left)) (butlast (childrens left)) (leaf left)
      in BNode ((keys node)[idx - 1 := last (keys left)]) ((childrens node)[idx := child', idx - 1 := left']) (leaf node))"

text \<open>The outcome of a deletion: the changed node, or a new root of the tree when the node was freed.\<close>

datatype del_result = Same btree_node | New_root "btree_node option"

text \<open>Put a changed child back, unless the root was replaced meanwhile.\<close>

definition put_child :: "btree_node \<Rightarrow> nat \<Rightarrow> del_result \<Rightarrow> del_result" where
  "put_child node i r =
     (case r of Same c \<Rightarrow> Same (BNode (keys node) ((childrens node)[i := c]) (leaf node)) | New_root x \<Rightarrow> New_root x)"

text \<open>The preparation of child \<open>idx\<close> when it has the minimal number of keys: the node afterwards, the
  index of the child to descend to, and whether the node has become empty (then that child is the new
  root and the node is freed).\<close>

definition del_fill :: "nat \<Rightarrow> btree_node \<Rightarrow> nat \<Rightarrow> (btree_node \<times> nat \<times> bool) option" where
  "del_fill t node idx =
     (let left = (if 1 \<le> idx then Some (childrens node ! (idx - 1)) else None);
          right = (if idx + 1 \<le> num node then Some (childrens node ! (idx + 1)) else None);
          n = (\<lambda>c. case c of None \<Rightarrow> 0 | Some c \<Rightarrow> num c)
      in if (left \<noteq> None \<and> t \<le> n left) \<or> (right \<noteq> None \<and> t \<le> n right)
         then let richR = (if left \<noteq> None \<and> right \<noteq> None then n right > n left else right \<noteq> None)
              in if right \<noteq> None \<and> t \<le> n right \<and> richR then Some (borrow_next node idx, idx, False)
                 else if left = None then None else Some (borrow_prev node idx, idx, False)
         else if (left = None \<or> n left = t - 1) \<and> (right = None \<or> n right = t - 1)
         then if left \<noteq> None \<and> n left = t - 1 then map_option (\<lambda>(x, _). (x, idx - 1, num x = 0)) (btree_merge t node (idx - 1))
              else if right \<noteq> None \<and> n right = t - 1 then map_option (\<lambda>(x, _). (x, idx, num x = 0)) (btree_merge t node idx)
              else Some (node, idx, False)
         else Some (node, idx, False))"

partial_function (option) btree_delete_key :: "nat \<Rightarrow> btree_node \<Rightarrow> int \<Rightarrow> del_result option" where
  [code]: "btree_delete_key t node key =
     (let idx = scan_up (keys node) key in
      if idx < num node \<and> key = keys node ! idx
      then if leaf node
           then let ks = take idx (keys node) @ drop (idx + 1) (keys node)
                in Some (if ks = [] then New_root None else Same (BNode ks (childrens node) (leaf node)))
           else if length (childrens node) \<le> idx + 1 then None
           else if t \<le> num (childrens node ! idx)
           then let left = childrens node ! idx; k = last (keys left);
                    node' = BNode ((keys node)[idx := k]) (childrens node) (leaf node)
                in do { r \<leftarrow> btree_delete_key t left k; Some (put_child node' idx r) }
           else if t \<le> num (childrens node ! (idx + 1))
           then let right = childrens node ! (idx + 1); k = hd (keys right);
                    node' = BNode ((keys node)[idx := k]) (childrens node) (leaf node)
                in do { r \<leftarrow> btree_delete_key t right k; Some (put_child node' (idx + 1) r) }
           else do { (node', c) \<leftarrow> btree_merge t node idx;
                     if num node' = 0 then None
                     else do { r \<leftarrow> btree_delete_key t c key; Some (put_child node' idx r) } }
      else if leaf node then Some (Same node)
      else if length (childrens node) \<le> idx then None
      else do { (node', i, freed) \<leftarrow> (if num (childrens node ! idx) = t - 1 then del_fill t node idx else Some (node, idx, False));
                r \<leftarrow> btree_delete_key t (childrens node' ! i) key;
                Some (if freed then (case r of Same c \<Rightarrow> New_root (Some c) | New_root x \<Rightarrow> New_root x)
                      else put_child node' i r) })"

definition btree_delete :: "btree \<Rightarrow> int \<Rightarrow> (int \<times> btree) option" where
  "btree_delete T key =
     (case root T of
        None \<Rightarrow> Some (-1, T)
      | Some r \<Rightarrow>
          do { res \<leftarrow> btree_delete_key (bt T) r key;
               Some (0, T\<lparr>root := (case res of Same x \<Rightarrow> Some x | New_root x \<Rightarrow> x)\<rparr>) })"

section \<open>Invariant\<close>

text \<open>A node of height \<open>h\<close>: all leaves are at depth \<open>h\<close>, no node has more than \<open>2t - 1\<close> keys, every node
  below has at least \<open>t - 1\<close>, and an inner node has one child more than keys.\<close>

fun btree_inv :: "nat \<Rightarrow> nat \<Rightarrow> btree_node \<Rightarrow> bool" where
  "btree_inv t 0 x \<longleftrightarrow> leaf x \<and> childrens x = [] \<and> num x \<le> 2 * t - 1"
| "btree_inv t (Suc h) x \<longleftrightarrow> \<not> leaf x \<and> length (childrens x) = Suc (num x) \<and> num x \<le> 2 * t - 1 \<and>
     (\<forall>c \<in> set (childrens x). btree_inv t h c \<and> t - 1 \<le> num c)"

section \<open>Traversal around a child\<close>

abbreviation wl :: "'a list list \<Rightarrow> 'a list \<Rightarrow> 'a list" where
  "wl as ks \<equiv> concat (map2 (\<lambda>a k. a @ [k]) as ks)"

abbreviation wr :: "'a list \<Rightarrow> 'a list list \<Rightarrow> 'a list" where
  "wr ks bs \<equiv> concat (map2 (\<lambda>k b. k # b) ks bs)"

lemma weave_right: "length bs = length ks \<Longrightarrow> weave (c # bs) ks = c @ wr ks bs"
  by (induction bs ks arbitrary: c rule: list_induct2) simp_all

lemma weave_mid:
  "length as = length ks1 \<Longrightarrow> length bs = length ks2 \<Longrightarrow> weave (as @ c # bs) (ks1 @ ks2) = wl as ks1 @ c @ wr ks2 bs"
  by (induction as ks1 rule: list_induct2) (simp_all add: weave_right)

lemma weave_keys: "length cs = Suc (length ks) \<Longrightarrow> set ks \<subseteq> set (weave cs ks)"
  by (induction cs ks rule: weave.induct) auto

lemma weave_sorted_keys: "length cs = Suc (length ks) \<Longrightarrow> sorted (weave cs ks) \<Longrightarrow> sorted (ks :: int list)"
proof (induction cs ks rule: weave.induct)
  case (1 c cs k ks)
  then show ?case using weave_keys [of cs ks] by (auto simp: sorted_append)
qed auto

lemma wl_le: "length as = length ks \<Longrightarrow> sorted (wl as ks) \<Longrightarrow> \<forall>x \<in> set ks. x \<le> k \<Longrightarrow> \<forall>y \<in> set (wl as ks). y \<le> (k :: int)"
proof (induction as ks rule: list_induct2)
  case (Cons a as x ks)
  then have "\<forall>y \<in> set a. y \<le> x" "x \<le> k" "\<forall>y \<in> set (wl as ks). y \<le> k" by (simp_all add: sorted_append)
  then show ?case by (auto intro: order_trans)
qed simp

lemma wr_ge: "length ks = length bs \<Longrightarrow> sorted (wr ks bs) \<Longrightarrow> \<forall>x \<in> set ks. k \<le> x \<Longrightarrow> \<forall>y \<in> set (wr ks bs). (k :: int) \<le> y"
proof (induction ks bs rule: list_induct2)
  case (Cons x ks b bs)
  then have "\<forall>y \<in> set b. x \<le> y" "k \<le> x" "\<forall>y \<in> set (wr ks bs). k \<le> y" by (simp_all add: sorted_append)
  then show ?case by (auto intro: order_trans)
qed simp

lemma traverse_node: "\<not> lf \<Longrightarrow> btree_traverse (BNode ks cs lf) = weave (map btree_traverse cs) ks"
  by simp

text \<open>The traversal of an inner node around its child \<open>q\<close>.\<close>

lemma traverse_at:
  assumes "\<not> lf" and "length cs = Suc (length ks)" and "q \<le> length ks"
  shows "btree_traverse (BNode ks cs lf) = wl (map btree_traverse (take q cs)) (take q ks) @
    btree_traverse (cs ! q) @ wr (drop q ks) (map btree_traverse (drop (Suc q) cs))"
proof -
  have "cs = take q cs @ cs ! q # drop (Suc q) cs" using assms(2,3) by (simp add: id_take_nth_drop)
  then have "map btree_traverse cs =
      map btree_traverse (take q cs) @ btree_traverse (cs ! q) # map btree_traverse (drop (Suc q) cs)"
    by (metis list.simps(9) map_append)
  then have "weave (map btree_traverse cs) ks = weave (map btree_traverse (take q cs) @ btree_traverse (cs ! q) #
      map btree_traverse (drop (Suc q) cs)) (take q ks @ drop q ks)" by simp
  also have "\<dots> = wl (map btree_traverse (take q cs)) (take q ks) @
      btree_traverse (cs ! q) @ wr (drop q ks) (map btree_traverse (drop (Suc q) cs))"
    using assms(2,3) by (intro weave_mid) simp_all
  finally show ?thesis using assms(1) by simp
qed

section \<open>Insertion\<close>

lemma scan_down_spec:
  assumes "sorted ks" and "i \<le> length ks"
  shows "scan_down ks i k \<le> i" and "\<forall>x \<in> set (take (scan_down ks i k) ks). x \<le> k"
    and "\<forall>j. scan_down ks i k \<le> j \<longrightarrow> j < i \<longrightarrow> k < ks ! j"
  using assms(2)
proof (induction i)
  case (Suc i)
  { case 1 then show ?case using Suc by simp }
  { case 2
    have "x \<le> k" if "ks ! i \<le> k" "x \<in> set (take (Suc i) ks)" for x
      using that 2 assms(1) by (auto simp: in_set_conv_nth dest: sorted_nth_mono [OF assms(1)] intro: order_trans)
        (metis Suc_le_lessD less_Suc_eq_le order_trans sorted_nth_mono [OF assms(1)])
    then show ?case using Suc 2 by auto }
  { case 3 then show ?case using Suc by (auto simp: less_Suc_eq) }
qed simp_all

lemma scan_down_keys:
  fixes k :: int
  assumes "sorted ks" defines "p \<equiv> scan_down ks (length ks) k"
  shows "p \<le> length ks" "\<forall>x \<in> set (take p ks). x \<le> k" "\<forall>x \<in> set (drop p ks). k \<le> x"
  using scan_down_spec [OF assms(1) order_refl, of k]
  by (auto simp: p_def in_set_conv_nth less_imp_le)

lemma map_nth_shift: "n + m \<le> length xs \<Longrightarrow> map (\<lambda>j. xs ! (j + n)) [0..<m] = take m (drop n xs)"
  by (rule nth_equalityI) (simp_all add: add.commute)

lemma weave_join:
  "length cs1 = Suc (length ks1) \<Longrightarrow> cs2 \<noteq> [] \<Longrightarrow> weave (cs1 @ cs2) (ks1 @ m # ks2) = weave cs1 ks1 @ m # weave cs2 ks2"
  by (induction cs1 ks1 rule: weave.induct) auto

lemma split_child_spec:
  assumes "btree_inv t (Suc h) x" and "num x < 2 * t - 1" and "i \<le> num x" and "num (childrens x ! i) = 2 * t - 1" and "2 \<le> t"
  obtains y z m where
    "btree_split_child t x i = Some (BNode (take i (keys x) @ m # drop i (keys x)) (take i (childrens x) @ y # z # drop (Suc i) (childrens x)) False)"
    "btree_inv t h y" "btree_inv t h z" "num y = t - 1" "num z = t - 1"
    "btree_traverse (childrens x ! i) = btree_traverse y @ m # btree_traverse z"
proof -
  obtain ks cs lf where y0: "childrens x ! i = BNode ks cs lf" by (cases "childrens x ! i")
  have inv: "btree_inv t h (BNode ks cs lf)" using assms(1,3) y0 by (metis btree_inv.simps(2) le_imp_less_Suc nth_mem)
  have len: "length ks = 2 * t - 1" using assms(4) y0 by simp
  define kl m kr where "kl = take (t - 1) ks" and "m = ks ! (t - 1)" and "kr = drop t ks"
  have ks: "ks = kl @ m # kr" "length kl = t - 1" "length kr = t - 1"
    using len assms(5) id_take_nth_drop [of "t - 1" ks] by (simp_all add: kl_def m_def kr_def)
  define y z where "y = BNode kl (take t cs) lf" and "z = BNode kr (drop t cs) lf"
  have kr: "map (\<lambda>j. ks ! (j + t)) [0..<t - 1] = kr"
    using len assms(5) by (simp add: map_nth_shift kr_def)
  have cr: "(if lf then [] else map (\<lambda>j. cs ! (j + t)) [0..<t]) = drop t cs"
    using inv len assms(5) by (cases h) (simp_all add: map_nth_shift)
  have x: "\<not> leaf x" "length (childrens x) = Suc (num x)" using assms(1) by simp_all
  have "btree_split_child t x i =
      Some (BNode (take i (keys x) @ m # drop i (keys x)) (take i (childrens x) @ y # z # drop (Suc i) (childrens x)) False)"
    unfolding btree_split_child_def Let_def y0 btree_node.sel kr cr y_def z_def kl_def [symmetric] m_def [symmetric]
    using assms(2,3) x len by simp
  moreover have "btree_inv t h y" "btree_inv t h z"
    using inv ks len assms(5) by (cases h; auto simp: y_def z_def dest: in_set_takeD in_set_dropD)+
  moreover have "btree_traverse (childrens x ! i) = btree_traverse y @ m # btree_traverse z"
  proof (cases h)
    case 0
    then show ?thesis using inv ks(1) by (simp add: y0 y_def z_def)
  next
    case (Suc h')
    have "weave (map btree_traverse (take t cs) @ map btree_traverse (drop t cs)) (kl @ m # kr) =
        weave (map btree_traverse (take t cs)) kl @ m # weave (map btree_traverse (drop t cs)) kr"
      using inv Suc ks len assms(5) by (intro weave_join) auto
    moreover have "\<not> lf" using inv Suc by simp
    ultimately show ?thesis using ks(1) by (simp add: y0 y_def z_def flip: map_append)
  qed
  ultimately show ?thesis using that ks by (simp add: y_def z_def)
qed

text \<open>Putting a changed child back where the key belongs.\<close>

lemma descend:
  assumes "btree_inv t (Suc h) x" and "q \<le> num x" and "sorted (btree_traverse x)"
    and "\<forall>a \<in> set (take q (keys x)). a \<le> k" and "\<forall>a \<in> set (drop q (keys x)). k \<le> a"
    and "btree_inv t h c" and "t - 1 \<le> num c" and "sorted (btree_traverse c)"
    and "mset (btree_traverse c) = add_mset k (mset (btree_traverse (childrens x ! q)))"
  defines "x' \<equiv> BNode (keys x) ((childrens x)[q := c]) (leaf x)"
  shows "btree_inv t (Suc h) x'" and "sorted (btree_traverse x')"
    and "mset (btree_traverse x') = add_mset k (mset (btree_traverse x))"
proof -
  obtain ks cs lf where x: "x = BNode ks cs lf" by (cases x)
  have len: "\<not> lf" "length cs = Suc (length ks)" "q \<le> length ks" using assms(1,2) x by simp_all
  let ?l = "wl (map btree_traverse (take q cs)) (take q ks)" and ?r = "wr (drop q ks) (map btree_traverse (drop (Suc q) cs))"
  have tx: "btree_traverse x = ?l @ btree_traverse (cs ! q) @ ?r" unfolding x by (rule traverse_at [OF len])
  have tx': "btree_traverse x' = ?l @ btree_traverse c @ ?r"
    using traverse_at [of lf "cs[q := c]" ks q] len by (simp add: x'_def x)
  have sl: "sorted ?l" "sorted ?r" using assms(3) unfolding tx by (simp_all add: sorted_append)
  have "\<forall>y \<in> set ?l. y \<le> k" using len assms(4) x by (intro wl_le sl(1)) simp_all
  moreover have "\<forall>y \<in> set ?r. k \<le> y" using len assms(5) x by (intro wr_ge sl(2)) simp_all
  moreover have "set (btree_traverse c) = insert k (set (btree_traverse (cs ! q)))"
    using arg_cong [OF assms(9), of set_mset] x by simp
  ultimately show "sorted (btree_traverse x')"
    using assms(3,8) unfolding tx tx' by (auto simp: sorted_append)
  show "mset (btree_traverse x') = add_mset k (mset (btree_traverse x))"
    using assms(9) unfolding tx tx' by (simp add: x)
  show "btree_inv t (Suc h) x'"
    using assms(1,6,7) set_update_subset_insert [of "childrens x" q c] by (auto simp: x'_def)
qed


lemma insert_leaf:
  fixes k :: int
  assumes "sorted ks" defines "p \<equiv> scan_down ks (length ks) k"
  shows "sorted (take p ks @ k # drop p ks)" "mset (take p ks @ k # drop p ks) = add_mset k (mset ks)"
proof -
  have "sorted (take p ks @ drop p ks)" using assms(1) by simp
  then show "sorted (take p ks @ k # drop p ks)"
    using scan_down_keys [OF assms(1), of k] unfolding p_def sorted_append by auto
  have "mset (take p ks) + mset (drop p ks) = mset ks" by (simp only: append_take_drop_id flip: mset_append)
  then show "mset (take p ks @ k # drop p ks) = add_mset k (mset ks)" by simp
qed

text \<open>The induction step, for a node whose child \<open>q\<close> is the right one and not full.\<close>

lemma insert_into_child:
  assumes "2 \<le> t" and "btree_inv t (Suc h) x" and "q \<le> num x" and "sorted (btree_traverse x)"
    and "num (childrens x ! q) < 2 * t - 1"
    and "\<forall>a \<in> set (take q (keys x)). a \<le> k" and "\<forall>a \<in> set (drop q (keys x)). k \<le> a"
    and ih: "\<And>c. btree_inv t h c \<Longrightarrow> num c < 2 * t - 1 \<Longrightarrow> sorted (btree_traverse c) \<Longrightarrow>
      \<exists>c'. btree_insert_nonfull t c k = Some c' \<and> btree_inv t h c' \<and> num c \<le> num c' \<and> sorted (btree_traverse c') \<and>
        mset (btree_traverse c') = add_mset k (mset (btree_traverse c))"
  obtains c' where "btree_insert_nonfull t (childrens x ! q) k = Some c'"
    "btree_inv t (Suc h) (BNode (keys x) ((childrens x)[q := c']) (leaf x))"
    "sorted (btree_traverse (BNode (keys x) ((childrens x)[q := c']) (leaf x)))"
    "mset (btree_traverse (BNode (keys x) ((childrens x)[q := c']) (leaf x))) = add_mset k (mset (btree_traverse x))"
proof -
  obtain ks cs lf where x: "x = BNode ks cs lf" by (cases x)
  have len: "\<not> lf" "length cs = Suc (length ks)" "q \<le> length ks" using assms(2,3) by (simp_all add: x)
  have child: "btree_inv t h (childrens x ! q)" "t - 1 \<le> num (childrens x ! q)" using assms(2) len by (auto simp: x)
  have "sorted (btree_traverse (childrens x ! q))"
    using assms(4) traverse_at [OF len] by (simp add: x sorted_append)
  from ih [OF child(1) assms(5) this] obtain c' where c': "btree_insert_nonfull t (childrens x ! q) k = Some c'"
    "btree_inv t h c'" "num (childrens x ! q) \<le> num c'" "sorted (btree_traverse c')"
    "mset (btree_traverse c') = add_mset k (mset (btree_traverse (childrens x ! q)))" by blast
  show ?thesis
    by (rule that [OF c'(1)]; rule descend [OF assms(2,3,4,6,7) c'(2) _ c'(4,5)]) (use child(2) c'(3) in simp_all)
qed

text \<open>Splitting a full child in front of the descent.\<close>

lemma split_keeps:
  assumes "btree_inv t (Suc h) x" and "num x < 2 * t - 1" and "i \<le> num x" and "num (childrens x ! i) = 2 * t - 1" and "2 \<le> t"
    and "btree_split_child t x i = Some x'"
  obtains m where "btree_inv t (Suc h) x'" "btree_traverse x' = btree_traverse x" "keys x' = take i (keys x) @ m # drop i (keys x)"
    "num (childrens x' ! i) = t - 1" "num (childrens x' ! Suc i) = t - 1"
proof -
  obtain ks cs lf where x: "x = BNode ks cs lf" by (cases x)
  have len: "\<not> lf" "length cs = Suc (length ks)" "i \<le> length ks" using assms(1,3) by (simp_all add: x)
  obtain y z m where
    s: "btree_split_child t x i = Some (BNode (take i (keys x) @ m # drop i (keys x)) (take i (childrens x) @ y # z # drop (Suc i) (childrens x)) False)"
    and yz: "btree_inv t h y" "btree_inv t h z" "num y = t - 1" "num z = t - 1"
      "btree_traverse (childrens x ! i) = btree_traverse y @ m # btree_traverse z"
    by (rule split_child_spec [OF assms(1-5)])
  have split: "x' = BNode (take i ks @ m # drop i ks) (take i cs @ y # z # drop (Suc i) cs) False"
    "btree_inv t h y" "btree_inv t h z" "num y = t - 1" "num z = t - 1"
    "btree_traverse (cs ! i) = btree_traverse y @ m # btree_traverse z"
    using s yz assms(6) by (simp_all add: x)
  have lt: "length (take i cs) = i" using len by simp
  have "btree_inv t (Suc h) x'"
    using assms(1,2) split(2-5) len by (auto simp: split(1) x dest: in_set_takeD in_set_dropD)
  moreover have "btree_traverse x' = btree_traverse x"
  proof -
    have "btree_traverse x' = wl (map btree_traverse (take i cs)) (take i ks) @ btree_traverse y @
        wr (m # drop i ks) (map btree_traverse (z # drop (Suc i) cs))"
      using weave_mid [of "map btree_traverse (take i cs)" "take i ks" "map btree_traverse (z # drop (Suc i) cs)" "m # drop i ks" "btree_traverse y"]
        len by (simp add: split(1))
    also have "\<dots> = btree_traverse x" unfolding x traverse_at [OF len] split(6) by simp
    finally show ?thesis .
  qed
  moreover have "childrens x' ! i = y" "childrens x' ! Suc i = z" using len by (simp_all add: split(1) nth_append min_absorb2)
  ultimately show ?thesis using that split by (simp add: x)
qed

lemma insert_nonfull_spec:
  assumes "2 \<le> t"
  shows "btree_inv t h x \<Longrightarrow> num x < 2 * t - 1 \<Longrightarrow> sorted (btree_traverse x) \<Longrightarrow>
    \<exists>x'. btree_insert_nonfull t x k = Some x' \<and> btree_inv t h x' \<and> num x \<le> num x' \<and> sorted (btree_traverse x') \<and>
      mset (btree_traverse x') = add_mset k (mset (btree_traverse x))"
proof (induction h arbitrary: x)
  case 0
  obtain ks cs lf where x: "x = BNode ks cs lf" by (cases x)
  then show ?case using 0 insert_leaf [of ks k] by (subst btree_insert_nonfull.simps) (auto simp: Let_def)
next
  case (Suc h)
  define p where "p = scan_down (keys x) (num x) k"
  obtain ks cs lf where x: "x = BNode ks cs lf" by (cases x)
  have len: "\<not> leaf x" "length (childrens x) = Suc (num x)" using Suc.prems(1) by simp_all
  have "sorted (keys x)"
    using Suc.prems(3) len weave_sorted_keys [of "map btree_traverse cs" ks] by (simp add: x)
  note p = scan_down_keys [OF this, of k, folded p_def]
  have start: "btree_insert_nonfull t x k =
      (if num (childrens x ! p) = 2 * t - 1
       then do { x' \<leftarrow> btree_split_child t x p;
                 let q = (if k > keys x' ! p then p + 1 else p);
                 c \<leftarrow> btree_insert_nonfull t (childrens x' ! q) k;
                 Some (BNode (keys x') ((childrens x')[q := c]) (leaf x')) }
       else do { c \<leftarrow> btree_insert_nonfull t (childrens x ! p) k;
                 Some (BNode (keys x) ((childrens x)[p := c]) (leaf x)) })"
    using len p(1) by (subst btree_insert_nonfull.simps) (simp add: Let_def flip: p_def)
  show ?case
  proof (cases "num (childrens x ! p) = 2 * t - 1")
    case False
    have "btree_inv t h (childrens x ! p)" using Suc.prems(1) len p(1) by simp
    then have "num (childrens x ! p) < 2 * t - 1" using False by (cases h) auto
    from insert_into_child [OF assms Suc.prems(1) p(1) Suc.prems(3) this p(2,3) Suc.IH]
    show ?thesis unfolding start using False by fastforce
  next
    case True
    obtain x1 where s: "btree_split_child t x p = Some x1"
      by (rule split_child_spec [OF Suc.prems(1,2) p(1) True assms])
    from split_keeps [OF Suc.prems(1,2) p(1) True assms s] obtain m where x1: "btree_inv t (Suc h) x1"
      "btree_traverse x1 = btree_traverse x" "keys x1 = take p (keys x) @ m # drop p (keys x)"
      "num (childrens x1 ! p) = t - 1" "num (childrens x1 ! Suc p) = t - 1" by blast
    define q where "q = (if k > keys x1 ! p then p + 1 else p)"
    have m: "keys x1 ! p = m" using p(1) by (simp add: x1(3) nth_append)
    have lt: "length (take p (keys x)) = p" using p(1) by simp
    have qm: "q = (if k > m then p + 1 else p)" by (simp only: q_def m)
    have q: "q \<le> num x1" "num (childrens x1 ! q) < 2 * t - 1"
      "\<forall>a \<in> set (take q (keys x1)). a \<le> k" "\<forall>a \<in> set (drop q (keys x1)). k \<le> a"
      using p x1(4,5) assms lt unfolding qm x1(3) by auto
    have ord: "sorted (btree_traverse x1)" using Suc.prems(3) x1(2) by simp
    from insert_into_child [OF assms x1(1) q(1) ord q(2-4) Suc.IH]
    obtain c' where c': "btree_insert_nonfull t (childrens x1 ! q) k = Some c'"
      "btree_inv t (Suc h) (BNode (keys x1) ((childrens x1)[q := c']) (leaf x1))"
      "sorted (btree_traverse (BNode (keys x1) ((childrens x1)[q := c']) (leaf x1)))"
      "mset (btree_traverse (BNode (keys x1) ((childrens x1)[q := c']) (leaf x1))) = add_mset k (mset (btree_traverse x))"
      unfolding x1(2) by blast
    moreover have "btree_insert_nonfull t x k = Some (BNode (keys x1) ((childrens x1)[q := c']) (leaf x1))"
      unfolding start using True s c' by (simp add: Let_def flip: q_def)
    moreover have "num x \<le> num (BNode (keys x1) ((childrens x1)[q := c']) (leaf x1))" by (simp add: x1(3))
    ultimately show ?thesis by blast
  qed
qed

section \<open>The tree\<close>

text \<open>A well-formed tree holding the keys \<open>ks\<close> in order.\<close>

definition btree_ok :: "btree \<Rightarrow> int list \<Rightarrow> bool" where
  "btree_ok T ks \<longleftrightarrow> 2 \<le> bt T \<and>
     (\<exists>r h. root T = Some r \<and> btree_inv (bt T) h r \<and> btree_traverse r = ks \<and> sorted ks)"

lemma btree_okI:
  "2 \<le> bt T \<Longrightarrow> btree_inv (bt T) h r \<Longrightarrow> sorted (btree_traverse r) \<Longrightarrow> btree_ok (T\<lparr>root := Some r\<rparr>) (btree_traverse r)"
  by (auto simp: btree_ok_def)

lemma btree_keeps_bt: "bt (T\<lparr>root := r\<rparr>) = bt T"
  by simp

lemma btree_insert_spec:
  assumes "btree_ok T ks"
  shows "\<exists>T' ks'. btree_insert T k = Some T' \<and> btree_ok T' ks' \<and> mset ks' = add_mset k (mset ks) \<and> bt T' = bt T"
proof -
  obtain r h where r: "root T = Some r" "btree_inv (bt T) h r" "btree_traverse r = ks" "sorted ks" and t: "2 \<le> bt T"
    using assms by (auto simp: btree_ok_def)
  show ?thesis
  proof (cases "num r = 2 * bt T - 1")
    case False
    have "num r < 2 * bt T - 1" using False r(2) by (cases h) auto
    from insert_nonfull_spec [OF t r(2) this] obtain r' where
      "btree_insert_nonfull (bt T) r k = Some r'" "btree_inv (bt T) h r'" "sorted (btree_traverse r')"
      "mset (btree_traverse r') = add_mset k (mset ks)" using r(3,4) by auto
    then show ?thesis using r(1) t False by (auto simp: btree_insert_def btree_ok_def)
  next
    case True
    let ?x = "BNode [] [r] False"
    have x: "btree_inv (bt T) (Suc h) ?x" "num ?x < 2 * bt T - 1" "0 \<le> num ?x" "num (childrens ?x ! 0) = 2 * bt T - 1"
      using r(2) t True by simp_all
    obtain x1 where s: "btree_split_child (bt T) ?x 0 = Some x1" by (rule split_child_spec [OF x t])
    from split_keeps [OF x t s] obtain m where x1: "btree_inv (bt T) (Suc h) x1" "btree_traverse x1 = ks" "keys x1 = [m]"
      "num (childrens x1 ! 0) = bt T - 1" "num (childrens x1 ! Suc 0) = bt T - 1" using r(3) by auto
    define q where "q = (if keys x1 ! 0 < k then 1 else 0 :: nat)"
    have q: "q \<le> num x1" "num (childrens x1 ! q) < 2 * bt T - 1"
      "\<forall>a \<in> set (take q (keys x1)). a \<le> k" "\<forall>a \<in> set (drop q (keys x1)). k \<le> a"
      using x1(3-5) t by (auto simp: q_def)
    have ord: "sorted (btree_traverse x1)" using x1(2) r(4) by simp
    from insert_into_child [OF t x1(1) q(1) ord q(2-4) insert_nonfull_spec [OF t]]
    obtain c' where c': "btree_insert_nonfull (bt T) (childrens x1 ! q) k = Some c'"
      "btree_inv (bt T) (Suc h) (BNode (keys x1) ((childrens x1)[q := c']) (leaf x1))"
      "sorted (btree_traverse (BNode (keys x1) ((childrens x1)[q := c']) (leaf x1)))"
      "mset (btree_traverse (BNode (keys x1) ((childrens x1)[q := c']) (leaf x1))) = add_mset k (mset ks)"
      unfolding x1(2) by blast
    moreover have "btree_insert T k = Some (T\<lparr>root := Some (BNode (keys x1) ((childrens x1)[q := c']) (leaf x1))\<rparr>)"
      using r(1) True s c' by (simp add: btree_insert_def Let_def flip: q_def)
    ultimately show ?thesis using btree_okI [OF t] btree_keeps_bt by blast
  qed
qed

section \<open>The two searches in a node\<close>

declare bin_search_loop.simps [simp del]

lemma scan_up_unique:
  "n \<le> length ks \<Longrightarrow> (\<forall>j < n. ks ! j < key) \<Longrightarrow> n < length ks \<longrightarrow> key \<le> ks ! n \<Longrightarrow> scan_up ks key = n"
proof (induction ks arbitrary: n)
  case (Cons k ks)
  show ?case
  proof (cases n)
    case (Suc m)
    then have "\<forall>j < m. ks ! j < key" "k < key" using Cons.prems(2) by (metis Suc_less_eq nth_Cons_Suc, force)
    then show ?thesis using Cons Suc by simp
  qed (use Cons.prems in simp)
qed simp

lemma bin_search_scan:
  "sorted ks \<Longrightarrow> 0 \<le> low \<Longrightarrow> low \<le> high + 1 \<Longrightarrow> high < int (length ks) \<Longrightarrow> (\<forall>j. int j < low \<longrightarrow> ks ! j < key) \<Longrightarrow>
    (\<forall>j < length ks. high < int j \<longrightarrow> key \<le> ks ! j) \<Longrightarrow> bin_search_loop ks low high key = int (scan_up ks key)"
proof (induction ks low high key rule: bin_search_loop.induct)
  case (1 ks low high key)
  show ?case
  proof (cases "low \<le> high")
    case True
    define mid where "mid = (low + high) div 2"
    have mid: "low \<le> mid" "mid \<le> high" "0 \<le> mid" "nat mid < length ks"
      using True "1.prems"(2,4) by (simp_all add: mid_def)
    note mono = sorted_nth_mono [OF "1.prems"(1)]
    show ?thesis
    proof (cases "ks ! nat mid < key")
      case less: True
      have "\<forall>j. int j < mid + 1 \<longrightarrow> ks ! j < key"
      proof (intro allI impI)
        fix j assume "int j < mid + 1"
        then have "j \<le> nat mid" by simp
        from mono [OF this mid(4)] less show "ks ! j < key" by simp
      qed
      then have "bin_search_loop ks (mid + 1) high key = int (scan_up ks key)"
        using less "1.prems" mid by (intro "1.IH"(1) [OF True mid_def]) simp_all
      then show ?thesis using True less by (subst bin_search_loop.simps) (simp add: Let_def flip: mid_def)
    next
      case more: False
      have "\<forall>j < length ks. mid - 1 < int j \<longrightarrow> key \<le> ks ! j"
        using more mid mono [of "nat mid"] by (auto simp: not_less intro: order_trans)
      then have "bin_search_loop ks low (mid - 1) key = int (scan_up ks key)"
        using more "1.prems" mid by (intro "1.IH"(2) [OF True mid_def]) simp_all
      then show ?thesis using True more by (subst bin_search_loop.simps) (simp add: Let_def flip: mid_def)
    qed
  next
    case False
    then have "scan_up ks key = nat low" using "1.prems" by (intro scan_up_unique) auto
    then show ?thesis using False "1.prems"(2) by (subst bin_search_loop.simps) simp
  qed
qed

section \<open>Properties\<close>

primrec btree_insert_all :: "btree \<Rightarrow> int list \<Rightarrow> btree option" where
  "btree_insert_all T [] = Some T"
| "btree_insert_all T (k # ks) = do { T' \<leftarrow> btree_insert T k; btree_insert_all T' ks }"

lemma btree_insert_all_spec:
  "btree_ok T ks \<Longrightarrow> \<exists>T' ks'. btree_insert_all T new = Some T' \<and> btree_ok T' ks' \<and> mset ks' = mset ks + mset new"
proof (induction new arbitrary: T ks)
  case (Cons k new)
  obtain T1 ks1 where "btree_insert T k = Some T1" "btree_ok T1 ks1" "mset ks1 = add_mset k (mset ks)"
    using btree_insert_spec [OF Cons.prems] by blast
  then show ?case using Cons.IH [of T1 ks1] by (auto simp: ac_simps)
qed auto

text \<open>C28: Insertion into a well-formed B-tree of minimum degree at least two ends without touching anything
  outside its arrays and gives a well-formed B-tree (same depth for all leaves, between t - 1 and 2t - 1
  keys in every node but the root, one child more than keys) whose keys in order are the old ones and
  the new one.\<close>

theorem btree_insert_correct:
  assumes "btree_ok T ks"
  shows "\<exists>T' ks'. btree_insert T k = Some T' \<and> btree_ok T' ks' \<and> mset ks' = add_mset k (mset ks)"
  using btree_insert_spec [OF assms] by blast

theorem btree_insert_correct_witness:
  "\<exists>T' ks'. btree_insert (btree_create 3) 7 = Some T' \<and> btree_ok T' ks' \<and> mset ks' = {#7#}"
proof -
  have "btree_ok (btree_create 3) []"
    unfolding btree_ok_def btree_create_def btree_create_node_def
    by (auto intro!: exI [of _ "0 :: nat"])
  from btree_insert_correct [OF this, of 7] show ?thesis by simp
qed

text \<open>A tree built by inserting any keys in any order prints them sorted.\<close>

theorem btree_sorts:
  assumes "2 \<le> t"
  shows "\<exists>T r. btree_insert_all (btree_create t) ks = Some T \<and> root T = Some r \<and> btree_traverse r = sort ks"
proof -
  have "btree_ok (btree_create t) []"
    unfolding btree_ok_def btree_create_def btree_create_node_def
    using assms by (auto intro!: exI [of _ "0 :: nat"])
  from btree_insert_all_spec [OF this] obtain T ks' where T: "btree_insert_all (btree_create t) ks = Some T"
    "btree_ok T ks'" "mset ks' = mset ks" by fastforce
  then have "ks' = sort ks" by (auto simp: btree_ok_def intro!: properties_for_sort [symmetric])
  then show ?thesis using T by (auto simp: btree_ok_def)
qed

theorem btree_sorts_witness:
  "\<exists>T r. btree_insert_all (btree_create 2) [5, 1, 4] = Some T \<and> root T = Some r \<and> btree_traverse r = [1, 4, 5]"
  using btree_sorts [of 2 "[5, 1, 4]"] by simp

text \<open>Deletion is not as careful. With the degree 3 of the program and the keys 0 to 25 inserted in order,
  deleting 8 from the root replaces it by the first key of the right child instead of by its successor:
  the order of the tree is broken, and a deletion of the key 9 no longer finds it. With degree 2 and nine keys
  deleting 3 merges the children of the root, frees it, and then goes on using it. Deleting the only key
  of a tree leaves no root, and the next insertion follows the null pointer.\<close>

theorem btree_delete_breaks:
  "map_option (\<lambda>(rv, T). map_option (\<lambda>r. sorted (btree_traverse r)) (root T))
     (do { T \<leftarrow> btree_insert_all (btree_create 3) (map int [0..<26]); btree_delete T 8 }) = Some (Some False) \<and>
   map_option (\<lambda>(rv, T). map_option (\<lambda>r. 9 \<in> set (btree_traverse r)) (root T))
     (do { T \<leftarrow> btree_insert_all (btree_create 3) (map int [0..<26]); (rv, T) \<leftarrow> btree_delete T 8; btree_delete T 9 })
     = Some (Some True) \<and>
   (do { T \<leftarrow> btree_insert_all (btree_create 2) (map int [0..<9]); btree_delete T 3 }) = None \<and>
   (do { T \<leftarrow> btree_insert (btree_create 3) 7; (rv, T) \<leftarrow> btree_delete T 7; btree_insert T 7 }) = None"
  by (intro conjI; code_simp)

text \<open>On the sorted keys of a node the binary search gives the same index as the linear scan that deletion
  uses: the first key that is not below the one looked for, or the number of keys when there is none.\<close>

theorem btree_search_scan:
  assumes "sorted (keys node)" and "keys node \<noteq> []"
  shows "btree_bin_search node 0 (int (num node) - 1) key = int (scan_up (keys node) key)"
  using assms bin_search_scan [of "keys node" 0 "int (num node) - 1" key]
  by (auto simp: btree_bin_search_def Suc_le_eq)

theorem btree_search_scan_witness:
  "btree_bin_search (BNode [2, 4, 4, 9] [] True) 0 3 4 = int (scan_up [2, 4, 4, 9] 4)"
  using btree_search_scan [of "BNode [2, 4, 4, 9] [] True" 4] by simp

end
