(* ===== verification/Mempool.thy ===== *)
theory Mempool
  imports Prelude
begin

text \<open>
  The memory pool of \<open>lingshengxueyuan/chap3.3/mmpool.c\<close>: blocks carved from the system allocator, small
  requests served from them by moving a pointer, large ones passed on and remembered in a list.

  Addresses and sizes are 64-bit words, so that the differences the code takes between pointers wrap as
  they do there. A block is the record of its header (at address \<open>base\<close>); the chain of blocks is a list,
  a pointer into it is an index, and \<open>chain_end\<close> is the \<open>next\<close> field of the last one. What the system
  allocator answers is an argument of each operation. The result is \<open>None\<close> where the code follows
  a pointer it never set or calls itself for ever; an inner \<open>None\<close> is a null pointer it returns.
\<close>

section \<open>Data\<close>

record mp_node =
  base :: u64
  last_ptr :: u64
  end_ptr :: u64
  failed :: nat

record mp_large =
  struct_at :: u64
  alloc :: u64

record mp_pool =
  pool_at :: u64
  max_size :: u64
  current :: nat
  large :: "mp_large list"
  nodes :: "mp_node list"
  chain_end :: u64

definition MP_ALIGNMENT :: u64 where "MP_ALIGNMENT = 32"
definition MP_MAX_ALLOC_FROM_POOL :: u64 where "MP_MAX_ALLOC_FROM_POOL = 4096 - 1"

text \<open>The sizes of the three structures on a 64-bit machine.\<close>

definition sizeof_pool :: u64 where "sizeof_pool = 24"
definition sizeof_node :: u64 where "sizeof_node = 32"
definition sizeof_large :: u64 where "sizeof_large = 16"

definition mp_align_ptr :: "u64 \<Rightarrow> u64 \<Rightarrow> u64" where
  "mp_align_ptr p alignment = (p + (alignment - 1)) AND NOT (alignment - 1)"

section \<open>Creation and destruction\<close>

text \<open>\<open>head->next\<close> is never set: \<open>junk\<close> is what the memory held.\<close>

definition mp_create_pool :: "u64 option \<Rightarrow> u64 \<Rightarrow> u64 \<Rightarrow> mp_pool option" where
  "mp_create_pool memalign junk sz =
     (case memalign of
        None \<Rightarrow> None
      | Some p \<Rightarrow>
          let lst = p + sizeof_pool + sizeof_node
          in Some \<lparr>pool_at = p, max_size = (if sz < MP_MAX_ALLOC_FROM_POOL then sz else MP_MAX_ALLOC_FROM_POOL),
               current = 0, large = [],
               nodes = [\<lparr>base = p + sizeof_pool, last_ptr = lst, end_ptr = lst + sz, failed = 0\<rparr>],
               chain_end = junk\<rparr>)"

text \<open>What is handed back to the system, in order.\<close>

definition mp_destory_pool :: "mp_pool \<Rightarrow> u64 list option" where
  "mp_destory_pool pool =
     (if chain_end pool \<noteq> 0 then None
      else Some (filter (\<lambda>a. a \<noteq> 0) (map alloc (large pool)) @ map base (tl (nodes pool)) @ [pool_at pool]))"

definition mp_reset_pool :: "mp_pool \<Rightarrow> (mp_pool \<times> u64 list) option" where
  "mp_reset_pool pool =
     (if chain_end pool \<noteq> 0 then None
      else Some (pool\<lparr>large := [], nodes := map (\<lambda>h. h\<lparr>last_ptr := base h + sizeof_node\<rparr>) (nodes pool)\<rparr>,
        filter (\<lambda>a. a \<noteq> 0) (map alloc (large pool))))"

section \<open>Small requests\<close>

text \<open>The loop over the blocks from \<open>i\<close> on: the first whose rest, as a difference of pointers, is enough.\<close>

fun find_room :: "(u64 \<Rightarrow> u64) \<Rightarrow> u64 \<Rightarrow> mp_node list \<Rightarrow> nat \<Rightarrow> nat option" where
  "find_room start sz [] i = None"
| "find_room start sz (p # ps) i =
     (if sz \<le> end_ptr p - start (last_ptr p) then Some i else find_room start sz ps (i + 1))"

text \<open>The walk from \<open>current\<close> to the last block: every block passed over counts a failure, and the pointer
  moves behind a block that had more than four.\<close>

fun bump :: "mp_node list \<Rightarrow> nat \<Rightarrow> nat \<Rightarrow> mp_node list \<times> nat" where
  "bump (p # q # ps) i cur =
     (let (ps', cur') = bump (q # ps) (i + 1) (if failed p > 4 then i + 1 else cur)
      in (p\<lparr>failed := failed p + 1\<rparr> # ps', cur'))"
| "bump ps i cur = (ps, cur)"

definition mp_alloc_block :: "u64 option \<Rightarrow> mp_pool \<Rightarrow> u64 \<Rightarrow> mp_pool \<times> u64 option" where
  "mp_alloc_block memalign pool sz =
     (case memalign of
        None \<Rightarrow> (pool, None)
      | Some b \<Rightarrow>
          let h = hd (nodes pool); psize = end_ptr h - base h;
              m = mp_align_ptr (b + sizeof_node) MP_ALIGNMENT;
              new_node = \<lparr>base = b, last_ptr = m + sz, end_ptr = b + psize, failed = 0\<rparr>;
              (passed, cur) = bump (drop (current pool) (nodes pool)) (current pool) (current pool)
          in (pool\<lparr>nodes := take (current pool) (nodes pool) @ passed @ [new_node], current := cur\<rparr>, Some m))"

text \<open>The body that \<open>mp_alloc\<close> and \<open>mp_nalloc\<close> share, for a request not above the maximum.\<close>

definition mp_small :: "(u64 \<Rightarrow> u64) \<Rightarrow> u64 option \<Rightarrow> mp_pool \<Rightarrow> u64 \<Rightarrow> (mp_pool \<times> u64 option) option" where
  "mp_small start memalign pool sz =
     (case find_room start sz (drop (current pool) (nodes pool)) (current pool) of
        Some i \<Rightarrow>
          let p = nodes pool ! i; m = start (last_ptr p)
          in Some (pool\<lparr>nodes := (nodes pool)[i := p\<lparr>last_ptr := m + sz\<rparr>]\<rparr>, Some m)
      | None \<Rightarrow> if chain_end pool \<noteq> 0 then None else Some (mp_alloc_block memalign pool sz))"

abbreviation aligned_start :: "u64 \<Rightarrow> u64" where
  "aligned_start p \<equiv> mp_align_ptr p MP_ALIGNMENT"

section \<open>Large requests\<close>

text \<open>The list record comes from the pool itself; with a maximum below its size the code would call itself
  again for ever.\<close>

definition mp_push_large :: "u64 option \<Rightarrow> mp_pool \<Rightarrow> u64 \<Rightarrow> (mp_pool \<times> u64 option) option" where
  "mp_push_large memalign pool p =
     (if sizeof_large \<le> max_size pool
      then do { (pool, a) \<leftarrow> mp_small aligned_start memalign pool sizeof_large;
                Some (case a of
                   None \<Rightarrow> (pool, None)
                 | Some l \<Rightarrow> (pool\<lparr>large := \<lparr>struct_at = l, alloc = p\<rparr> # large pool\<rparr>, Some p)) }
      else None)"

text \<open>A record freed earlier is looked for among the first five.\<close>

fun reuse_large :: "u64 \<Rightarrow> nat \<Rightarrow> mp_large list \<Rightarrow> mp_large list option" where
  "reuse_large p n [] = None"
| "reuse_large p n (l # ls) =
     (if alloc l = 0 then Some (l\<lparr>alloc := p\<rparr> # ls)
      else if n > 3 then None else map_option ((#) l) (reuse_large p (n + 1) ls))"

definition mp_alloc_large :: "u64 option \<Rightarrow> u64 option \<Rightarrow> mp_pool \<Rightarrow> (mp_pool \<times> u64 option) option" where
  "mp_alloc_large malloc memalign pool =
     (case malloc of
        None \<Rightarrow> Some (pool, None)
      | Some p \<Rightarrow>
          (case reuse_large p 0 (large pool) of
             Some ls \<Rightarrow> Some (pool\<lparr>large := ls\<rparr>, Some p)
           | None \<Rightarrow> mp_push_large memalign pool p))"

definition mp_memalign :: "u64 option \<Rightarrow> u64 option \<Rightarrow> mp_pool \<Rightarrow> (mp_pool \<times> u64 option) option" where
  "mp_memalign answer memalign pool =
     (case answer of None \<Rightarrow> Some (pool, None) | Some p \<Rightarrow> mp_push_large memalign pool p)"

section \<open>The interface\<close>

definition mp_alloc :: "u64 option \<Rightarrow> u64 option \<Rightarrow> mp_pool \<Rightarrow> u64 \<Rightarrow> (mp_pool \<times> u64 option) option" where
  "mp_alloc malloc memalign pool sz =
     (if sz \<le> max_size pool then mp_small aligned_start memalign pool sz
      else mp_alloc_large malloc memalign pool)"

definition mp_nalloc :: "u64 option \<Rightarrow> u64 option \<Rightarrow> mp_pool \<Rightarrow> u64 \<Rightarrow> (mp_pool \<times> u64 option) option" where
  "mp_nalloc malloc memalign pool sz =
     (if sz \<le> max_size pool then mp_small (\<lambda>p. p) memalign pool sz
      else mp_alloc_large malloc memalign pool)"

text \<open>The third component is the region that is set to zero.\<close>

definition mp_calloc :: "u64 option \<Rightarrow> u64 option \<Rightarrow> mp_pool \<Rightarrow> u64 \<Rightarrow> (mp_pool \<times> u64 option \<times> (u64 \<times> u64) list) option" where
  "mp_calloc malloc memalign pool sz =
     do { (pool, p) \<leftarrow> mp_alloc malloc memalign pool sz;
          Some (pool, p, case p of None \<Rightarrow> [] | Some m \<Rightarrow> [(m, sz)]) }"

text \<open>The first record with this pointer; the list of pointers freed.\<close>

fun free_large :: "u64 \<Rightarrow> mp_large list \<Rightarrow> mp_large list \<times> u64 list" where
  "free_large p [] = ([], [])"
| "free_large p (l # ls) =
     (if p = alloc l then (l\<lparr>alloc := 0\<rparr> # ls, [p]) else let (ls', fs) = free_large p ls in (l # ls', fs))"

definition mp_free :: "mp_pool \<Rightarrow> u64 \<Rightarrow> mp_pool \<times> u64 list" where
  "mp_free pool p = (let (ls, fs) = free_large p (large pool) in (pool\<lparr>large := ls\<rparr>, fs))"

section \<open>Alignment\<close>

lemma unat_u64_lt: "unat (x :: u64) < 2 ^ 64"
  using unsigned_less [of x] by simp

lemma unat_add_u64: "unat (a :: u64) + unat b < 2 ^ 64 \<Longrightarrow> unat (a + b) = unat a + unat b"
  by (simp add: unat_word_ariths)

lemma and_not_mask: "w AND NOT (mask n) = push_bit n (drop_bit n (w :: u64))"
  by (auto intro!: bit_word_eqI simp: bit_and_iff bit_not_iff bit_mask_iff bit_push_bit_iff bit_drop_bit_eq)

lemma unat_align: "unat p + 31 < 2 ^ 64 \<Longrightarrow> unat (aligned_start p) = (unat p + 31) div 32 * 32"
proof -
  assume "unat p + 31 < 2 ^ 64"
  then have sum: "unat (p + 31) = unat p + 31" using unat_add_u64 [of p 31] by simp
  have "(32 - 1 :: u64) = mask 5" "(31 :: u64) = mask 5" by (simp_all add: mask_eq_exp_minus_1)
  then have "aligned_start p = push_bit 5 (drop_bit 5 (p + 31))"
    unfolding mp_align_ptr_def MP_ALIGNMENT_def
    by (simp only: and_not_mask)
  then have "unat (aligned_start p) = take_bit 64 ((unat p + 31) div 32 * 32)"
    by (simp only: unsigned_push_bit_eq unat_drop_bit sum) (simp add: push_bit_eq_mult)
  moreover have "(unat p + 31) div 32 * 32 < 2 ^ 64"
    using \<open>unat p + 31 < 2 ^ 64\<close> div_times_less_eq_dividend [of "unat p + 31" 32] by linarith
  ultimately show ?thesis by (simp only: take_bit_nat_eq_self)
qed

lemma align_id: "unat p + 31 < 2 ^ 64 \<Longrightarrow> unat p mod 32 = 0 \<Longrightarrow> aligned_start p = p"
proof -
  assume a: "unat p + 31 < 2 ^ 64" "unat p mod 32 = 0"
  then have "(unat p + 31) div 32 * 32 = unat p" by presburger
  then show ?thesis using unat_align [OF a(1)] by (simp add: word_unat_eq_iff)
qed

lemma align_ge: "unat p + 31 < 2 ^ 64 \<Longrightarrow> unat p \<le> unat (aligned_start p) \<and> unat (aligned_start p) mod 32 = 0"
  by (simp add: unat_align)

section \<open>Blocks and the regions handed out\<close>

definition node_ok :: "mp_node \<Rightarrow> bool" where
  "node_ok n \<longleftrightarrow> unat (base n) + 32 \<le> unat (last_ptr n) \<and> unat (last_ptr n) \<le> unat (end_ptr n) \<and> unat (end_ptr n) \<le> 2 ^ 63"

definition nodes_apart :: "mp_node \<Rightarrow> mp_node \<Rightarrow> bool" where
  "nodes_apart n n' \<longleftrightarrow> unat (end_ptr n) \<le> unat (base n') \<or> unat (end_ptr n') \<le> unat (base n)"

definition inside :: "mp_node \<Rightarrow> u64 \<times> u64 \<Rightarrow> bool" where
  "inside n r \<longleftrightarrow> unat (base n) + 32 \<le> unat (fst r) \<and> unat (fst r) + unat (snd r) \<le> unat (last_ptr n)"

definition apart :: "u64 \<times> u64 \<Rightarrow> u64 \<times> u64 \<Rightarrow> bool" where
  "apart r r' \<longleftrightarrow> unat (fst r) + unat (snd r) \<le> unat (fst r') \<or> unat (fst r') + unat (snd r') \<le> unat (fst r)"

text \<open>The pool with the regions it has handed out.\<close>

definition mp_inv :: "mp_pool \<Rightarrow> (u64 \<times> u64) list \<Rightarrow> bool" where
  "mp_inv P rs \<longleftrightarrow> nodes P \<noteq> [] \<and> chain_end P = 0 \<and> (\<forall>n \<in> set (nodes P). node_ok n) \<and>
     sorted_wrt nodes_apart (nodes P) \<and> (\<forall>r \<in> set rs. \<exists>n \<in> set (nodes P). inside n r) \<and> sorted_wrt apart rs \<and>
     unat (base (hd (nodes P))) + 32 + unat (max_size P) \<le> unat (end_ptr (hd (nodes P)))"

text \<open>What \<open>posix_memalign\<close> promises: an aligned region that overlaps no block in use and lies, like all user
  addresses, in the lower half of the address space.\<close>

definition block_size :: "mp_pool \<Rightarrow> nat" where
  "block_size P = unat (end_ptr (hd (nodes P))) - unat (base (hd (nodes P)))"

definition fresh_block :: "mp_pool \<Rightarrow> u64 option \<Rightarrow> bool" where
  "fresh_block P answer =
     (case answer of None \<Rightarrow> True
      | Some b \<Rightarrow> unat b mod 32 = 0 \<and> unat b + block_size P \<le> 2 ^ 63 \<and>
          list_all (\<lambda>n. unat (end_ptr n) \<le> unat b \<or> unat b + block_size P \<le> unat (base n)) (nodes P))"

section \<open>A small request\<close>

lemma find_room_Some:
  "find_room start sz ps i = Some j \<Longrightarrow> i \<le> j \<and> j < i + length ps \<and>
     sz \<le> end_ptr (ps ! (j - i)) - start (last_ptr (ps ! (j - i)))"
  by (induction ps arbitrary: i) (fastforce split: if_splits simp: nth_Cons' Suc_le_eq)+

lemma bump_same:
  "map (\<lambda>n. (base n, last_ptr n, end_ptr n)) (fst (bump ps i cur)) = map (\<lambda>n. (base n, last_ptr n, end_ptr n)) ps"
  by (induction ps i cur rule: bump.induct) (auto split: prod.splits simp: Let_def)

lemma inside_apart:
  "node_ok n \<Longrightarrow> nodes_apart n n' \<or> nodes_apart n' n \<Longrightarrow> inside n r \<Longrightarrow> unat (base n') \<le> unat (fst r') \<Longrightarrow>
    unat (fst r') + unat (snd r') \<le> unat (end_ptr n') \<Longrightarrow> apart r' r"
  by (auto simp: node_ok_def nodes_apart_def inside_def apart_def)

lemma apart_nth:
  "sorted_wrt nodes_apart ns \<Longrightarrow> i < length ns \<Longrightarrow> j < length ns \<Longrightarrow> i \<noteq> j \<Longrightarrow>
    nodes_apart (ns ! i) (ns ! j) \<or> nodes_apart (ns ! j) (ns ! i)"
  by (metis linorder_neqE_nat sorted_wrt_nth_less)

text \<open>Taking room in block \<open>i\<close>.\<close>

lemma take_room:
  assumes "mp_inv P rs" and i: "i < length (nodes P)" and "m = start (last_ptr (nodes P ! i))"
    and "unat (last_ptr (nodes P ! i)) \<le> unat m" and "unat m + unat sz \<le> unat (end_ptr (nodes P ! i))"
  shows "mp_inv (P\<lparr>nodes := (nodes P)[i := (nodes P ! i)\<lparr>last_ptr := m + sz\<rparr>]\<rparr>) ((m, sz) # rs)"
proof -
  define n where "n = nodes P ! i"
  define n' where "n' = n\<lparr>last_ptr := m + sz\<rparr>"
  have ok: "node_ok x" if "x \<in> set (nodes P)" for x using assms(1) that by (simp add: mp_inv_def)
  have n: "node_ok n" "n \<in> set (nodes P)" using ok i by (simp_all add: n_def)
  have sum: "unat (m + sz) = unat m + unat sz"
    using assms(5) n(1) by (intro unat_add_u64) (simp add: node_ok_def flip: n_def)
  have n': "node_ok n'" "inside n' (m, sz)"
    using assms(4,5) n(1) sum by (simp_all add: n'_def node_ok_def inside_def flip: n_def)
  have grow: "inside n r \<Longrightarrow> inside n' r" for r
    using assms(4) sum by (auto simp: inside_def n'_def simp flip: n_def)
  let ?ns = "(nodes P)[i := n']"
  have "\<forall>x \<in> set ?ns. node_ok x" using ok n'(1) set_update_subset_insert [of "nodes P" i n'] by auto
  moreover have "sorted_wrt nodes_apart ?ns"
    using assms(1) i unfolding mp_inv_def sorted_wrt_iff_nth_less
    by (auto simp: nth_list_update nodes_apart_def n'_def n_def)
  moreover have "\<exists>x \<in> set ?ns. inside x r" if r: "r \<in> set ((m, sz) # rs)" for r
  proof (cases "r = (m, sz)")
    case True
    then show ?thesis using n'(2) i by (auto simp: set_update_memI)
  next
    case False
    then obtain x where "x \<in> set (nodes P)" "inside x r" using r assms(1) by (auto simp: mp_inv_def)
    then obtain k where k: "k < length (nodes P)" "inside (nodes P ! k) r" by (auto simp: in_set_conv_nth)
    then have "inside (?ns ! k) r" using grow by (cases "k = i") (simp_all add: n_def)
    then show ?thesis using k(1) by (metis length_list_update nth_mem)
  qed
  moreover have "apart (m, sz) r" if r: "r \<in> set rs" for r
  proof -
    obtain x where "x \<in> set (nodes P)" "inside x r" using r assms(1) by (auto simp: mp_inv_def)
    then obtain k where k: "k < length (nodes P)" "inside (nodes P ! k) r" by (auto simp: in_set_conv_nth)
    show ?thesis
    proof (cases "k = i")
      case True
      then show ?thesis using k(2) assms(4) by (auto simp: inside_def apart_def)
    next
      case False
      have "nodes_apart (nodes P ! k) n \<or> nodes_apart n (nodes P ! k)"
        using apart_nth [of "nodes P" k i] assms(1) k(1) i False by (simp add: mp_inv_def n_def)
      then show ?thesis
        using k assms(4,5) ok n(1) by (intro inside_apart [of "nodes P ! k" n r]) (simp_all add: node_ok_def flip: n_def)
    qed
  qed
  moreover have "base (hd ?ns) = base (hd (nodes P)) \<and> end_ptr (hd ?ns) = end_ptr (hd (nodes P))"
    using i by (cases "nodes P"; cases i) (auto simp: n'_def n_def)
  ultimately show ?thesis using assms(1) by (simp add: mp_inv_def n'_def n_def)
qed

text \<open>The walk over the chain changes only failure counts.\<close>

definition shape :: "mp_node \<Rightarrow> u64 \<times> u64 \<times> u64" where
  "shape n = (base n, last_ptr n, end_ptr n)"

lemma bump_shape: "map shape (fst (bump ps i cur)) = map shape ps"
  by (induction ps i cur rule: bump.induct) (auto split: prod.splits simp: Let_def shape_def)

lemma shape_inv:
  assumes "map shape ns = map shape (nodes P)"
  shows "mp_inv (P\<lparr>nodes := ns, current := c\<rparr>) rs = mp_inv P rs"
proof -
  have all: "(\<forall>x \<in> set ns. Q (shape x)) = (\<forall>x \<in> set (nodes P). Q (shape x))" for Q
    using arg_cong [OF assms, of "\<lambda>l. \<forall>s \<in> set l. Q s"] by simp
  have ex: "(\<exists>x \<in> set ns. Q (shape x)) = (\<exists>x \<in> set (nodes P). Q (shape x))" for Q
    using arg_cong [OF assms, of "\<lambda>l. \<exists>s \<in> set l. Q s"] by simp
  have "sorted_wrt (\<lambda>x y. R (shape x) (shape y)) ns = sorted_wrt (\<lambda>x y. R (shape x) (shape y)) (nodes P)" for R
    using arg_cong [OF assms, of "sorted_wrt R"] by (simp add: sorted_wrt_map)
  from this [of "\<lambda>(b, l, e) (b', l', e'). unat e \<le> unat b' \<or> unat e' \<le> unat b"]
  have 1: "sorted_wrt nodes_apart ns = sorted_wrt nodes_apart (nodes P)"
    by (simp add: shape_def nodes_apart_def [abs_def])
  have 2: "(\<forall>x \<in> set ns. node_ok x) = (\<forall>x \<in> set (nodes P). node_ok x)"
    using all [of "\<lambda>(b, l, e). unat b + 32 \<le> unat l \<and> unat l \<le> unat e \<and> unat e \<le> 2 ^ 63"]
    by (simp add: shape_def node_ok_def)
  have 3: "(\<exists>x \<in> set ns. inside x r) = (\<exists>x \<in> set (nodes P). inside x r)" for r
    using ex [of "\<lambda>(b, l, e). unat b + 32 \<le> unat (fst r) \<and> unat (fst r) + unat (snd r) \<le> unat l"]
    by (simp add: shape_def inside_def)
  have 4: "ns = [] \<longleftrightarrow> nodes P = []" using assms by auto
  have 5: "ns \<noteq> [] \<Longrightarrow> base (hd ns) = base (hd (nodes P)) \<and> end_ptr (hd ns) = end_ptr (hd (nodes P))"
    using assms 4 by (cases ns; cases "nodes P") (auto simp: shape_def)
  show ?thesis using 4 5 by (auto simp: mp_inv_def 1 2 3)
qed

text \<open>A new block at the end of the chain.\<close>

lemma append_block:
  assumes "mp_inv P rs" and "node_ok n" and "inside n r"
    and "list_all (\<lambda>x. unat (end_ptr x) \<le> unat (base n) \<or> unat (end_ptr n) \<le> unat (base x)) (nodes P)"
  shows "mp_inv (P\<lparr>nodes := nodes P @ [n]\<rparr>) (r # rs)"
proof -
  have ap: "nodes_apart x n" if "x \<in> set (nodes P)" for x
    using assms(4) that by (auto simp: list_all_iff nodes_apart_def)
  have "apart r r'" if r': "r' \<in> set rs" for r'
  proof -
    obtain x where x: "x \<in> set (nodes P)" "inside x r'" using r' assms(1) by (auto simp: mp_inv_def)
    then have "node_ok x" using assms(1) by (simp add: mp_inv_def)
    then show ?thesis using x ap assms(2,3) by (intro inside_apart [of x n r']) (auto simp: inside_def node_ok_def)
  qed
  then show ?thesis using assms(1-3) ap by (auto simp: mp_inv_def sorted_wrt_append)
qed

lemma add_block:
  assumes "mp_inv P rs" and "fresh_block P (Some b)" and "sz \<le> max_size P"
  obtains ns c f where "mp_alloc_block (Some b) P sz =
      (P\<lparr>nodes := ns @ [\<lparr>base = b, last_ptr = b + 32 + sz, end_ptr = b + (end_ptr (hd (nodes P)) - base (hd (nodes P))), failed = f\<rparr>], current := c\<rparr>, Some (b + 32))"
    "map shape ns = map shape (nodes P)"
    "mp_inv (P\<lparr>nodes := ns @ [\<lparr>base = b, last_ptr = b + 32 + sz, end_ptr = b + (end_ptr (hd (nodes P)) - base (hd (nodes P))), failed = f\<rparr>], current := c\<rparr>)
       ((b + 32, sz) # rs)"
    "unat (b + 32 + sz) = unat b + 32 + unat sz" "unat (b + (end_ptr (hd (nodes P)) - base (hd (nodes P)))) = unat b + block_size P"
    "32 + unat sz \<le> block_size P"
proof -
  define h where "h = hd (nodes P)"
  define n where "n = \<lparr>base = b, last_ptr = b + 32 + sz, end_ptr = b + (end_ptr h - base h), failed = 0\<rparr>"
  define ns c where "ns = take (current P) (nodes P) @ fst (bump (drop (current P) (nodes P)) (current P) (current P))"
    and "c = snd (bump (drop (current P) (nodes P)) (current P) (current P))"
  have h: "unat (base h) + 32 + unat (max_size P) \<le> unat (end_ptr h)" using assms(1) by (simp add: mp_inv_def h_def)
  have bs: "block_size P = unat (end_ptr h) - unat (base h)" by (simp add: block_size_def h_def)
  have diff: "unat (end_ptr h - base h) = block_size P"
    unfolding bs using h by (intro unat_sub) (simp add: word_le_nat_alt)
  have b: "unat b mod 32 = 0" "unat b + block_size P \<le> 2 ^ 63"
    "list_all (\<lambda>n. unat (end_ptr n) \<le> unat b \<or> unat b + block_size P \<le> unat (base n)) (nodes P)"
    using assms(2) by (simp_all add: fresh_block_def)
  have sz: "32 + unat sz \<le> block_size P" using h assms(3) unfolding bs by (simp add: word_le_nat_alt)
  have b32: "unat (b + 32) = unat b + 32" using b(2) sz unat_add_u64 [of b 32] by simp
  have last: "unat (b + 32 + sz) = unat b + 32 + unat sz" using b(2) sz b32 unat_add_u64 [of "b + 32" sz] by simp
  have endp: "unat (b + (end_ptr h - base h)) = unat b + block_size P"
    using b(2) diff unat_add_u64 [of b "end_ptr h - base h"] by simp
  have m: "aligned_start (b + 32) = b + 32"
    by (rule align_id) (use b(1,2) b32 sz in simp_all)
  have shape: "map shape ns = map shape (nodes P)"
    by (simp only: ns_def map_append bump_shape) (simp flip: map_append)
  have inv: "mp_inv (P\<lparr>nodes := ns, current := c\<rparr>) rs" using shape_inv [OF shape] assms(1) by simp
  have "list_all (\<lambda>x. unat (end_ptr x) \<le> unat (base n) \<or> unat (end_ptr n) \<le> unat (base x)) ns"
  proof -
    have "list_all (\<lambda>(b', l, e). unat e \<le> unat b \<or> unat b + block_size P \<le> unat b') (map shape ns)"
      using b(3) unfolding shape by (simp add: list_all_iff shape_def)
    then show ?thesis by (simp add: list_all_iff shape_def n_def endp)
  qed
  then have "mp_inv ((P\<lparr>nodes := ns, current := c\<rparr>)\<lparr>nodes := ns @ [n]\<rparr>) ((b + 32, sz) # rs)"
    using append_block [OF inv, of n "(b + 32, sz)"] b(2) sz last endp b32 by (simp add: node_ok_def inside_def n_def)
  moreover have "(P\<lparr>nodes := ns, current := c\<rparr>)\<lparr>nodes := ns @ [n]\<rparr> = P\<lparr>nodes := ns @ [n], current := c\<rparr>" by (cases P) simp
  ultimately have inv': "mp_inv (P\<lparr>nodes := ns @ [n], current := c\<rparr>) ((b + 32, sz) # rs)" by (simp only:)
  have "mp_alloc_block (Some b) P sz = (P\<lparr>nodes := ns @ [n], current := c\<rparr>, Some (b + 32))"
    by (simp add: mp_alloc_block_def Let_def sizeof_node_def m n_def ns_def c_def split_beta flip: h_def)
  from this [unfolded n_def h_def] shape inv' [unfolded n_def h_def] last endp [unfolded h_def] sz
  show ?thesis by (rule that)
qed

section \<open>Runs\<close>

text \<open>A call to a pool: a request of a size, or one to \<open>mp_memalign\<close>. What \<open>malloc\<close> and \<open>posix_memalign\<close> answer to a large request
  or to one with an alignment of its own is \<open>answer\<close>, what \<open>posix_memalign\<close> answers when the pool wants a block is \<open>memalign\<close>.\<close>

datatype mp_call = Alloc u64 | Nalloc u64 | Memalign

fun mp_call_step :: "u64 option \<Rightarrow> u64 option \<Rightarrow> mp_pool \<Rightarrow> mp_call \<Rightarrow> (mp_pool \<times> u64 option) option" where
  "mp_call_step answer memalign P (Alloc sz) = mp_alloc answer memalign P sz"
| "mp_call_step answer memalign P (Nalloc sz) = mp_nalloc answer memalign P sz"
| "mp_call_step answer memalign P Memalign = mp_memalign answer memalign P"

text \<open>Is the call served from the blocks, and with an aligned start? A call that is not served from the blocks may take room there for
  its list record, always with an aligned start.\<close>

fun small_call :: "mp_pool \<Rightarrow> mp_call \<Rightarrow> u64 option" where
  "small_call P (Alloc sz) = (if sz \<le> max_size P then Some sz else None)"
| "small_call P (Nalloc sz) = (if sz \<le> max_size P then Some sz else None)"
| "small_call P Memalign = None"

fun call_start :: "mp_pool \<Rightarrow> mp_call \<Rightarrow> u64 \<Rightarrow> u64" where
  "call_start P (Nalloc sz) = (if sz \<le> max_size P then (\<lambda>p. p) else aligned_start)"
| "call_start P c = aligned_start"

text \<open>In no block that the search looks at does the aligned start lie behind the end.\<close>

definition starts_in_blocks :: "(u64 \<Rightarrow> u64) \<Rightarrow> mp_pool \<Rightarrow> bool" where
  "starts_in_blocks start P \<longleftrightarrow> list_all (\<lambda>n. start (last_ptr n) \<le> end_ptr n) (drop (current P) (nodes P))"

text \<open>The region a call takes out of the blocks: the memory it returns, or a new list record.\<close>

definition taken :: "mp_pool \<Rightarrow> mp_call \<Rightarrow> mp_pool \<Rightarrow> u64 option \<Rightarrow> (u64 \<times> u64) list" where
  "taken P c P' r =
     (case small_call P c of
        Some sz \<Rightarrow> (case r of None \<Rightarrow> [] | Some m \<Rightarrow> [(m, sz)])
      | None \<Rightarrow> if length (large P) < length (large P') then [(struct_at (hd (large P')), sizeof_large)] else [])"

text \<open>Pools that are reached from a new one whose \<open>next\<close> field started as null, with the regions that are out.\<close>

inductive mp_run :: "mp_pool \<Rightarrow> (u64 \<times> u64) list \<Rightarrow> bool" where
  start: "mp_create_pool (Some p) 0 sz = Some P \<Longrightarrow> unat p mod 32 = 0 \<Longrightarrow> unat p + 56 + unat sz \<le> 2 ^ 63 \<Longrightarrow> mp_run P []"
| call: "mp_run P rs \<Longrightarrow> starts_in_blocks (call_start P c) P \<Longrightarrow> fresh_block P memalign \<Longrightarrow>
    mp_call_step answer memalign P c = Some (P', r) \<Longrightarrow> mp_run P' (taken P c P' r @ rs)"
| free: "mp_run P rs \<Longrightarrow> mp_free P p = (P', fs) \<Longrightarrow> mp_run P' rs"
| reset: "mp_run P rs \<Longrightarrow> mp_reset_pool P = Some (P', fs) \<Longrightarrow> mp_run P' []"

text \<open>A start never moves down, below the bound on addresses.\<close>

definition moves_up :: "(u64 \<Rightarrow> u64) \<Rightarrow> bool" where
  "moves_up start \<longleftrightarrow> (\<forall>l. unat l \<le> 2 ^ 63 \<longrightarrow> unat l \<le> unat (start l))"

lemma moves_up_start: "moves_up aligned_start" "moves_up (\<lambda>p. p)" "moves_up (call_start P c)"
proof -
  show 1: "moves_up aligned_start" using align_ge by (simp add: moves_up_def)
  show 2: "moves_up (\<lambda>p. p)" by (simp add: moves_up_def)
  show "moves_up (call_start P c)" using 1 2 by (cases c) simp_all
qed

text \<open>The block that the search finds has the room.\<close>

lemma found_room:
  assumes inv: "mp_inv P rs" and up: "moves_up start" and starts: "starts_in_blocks start P"
    and found: "find_room start sz (drop (current P) (nodes P)) (current P) = Some i"
  shows "i < length (nodes P)" "unat (last_ptr (nodes P ! i)) \<le> unat (start (last_ptr (nodes P ! i)))"
    "unat (start (last_ptr (nodes P ! i))) + unat sz \<le> unat (end_ptr (nodes P ! i))"
proof -
  from find_room_Some [OF found] have c: "current P \<le> i" "i < current P + (length (nodes P) - current P)"
    "sz \<le> end_ptr (drop (current P) (nodes P) ! (i - current P)) - start (last_ptr (drop (current P) (nodes P) ! (i - current P)))"
    by simp_all
  then show i: "i < length (nodes P)" by arith
  then have n: "drop (current P) (nodes P) ! (i - current P) = nodes P ! i" using c(1) by simp
  with c(3) have sz: "sz \<le> end_ptr (nodes P ! i) - start (last_ptr (nodes P ! i))" by (simp only:)
  have "i - current P < length (drop (current P) (nodes P))" using c(1,2) by simp
  then have e: "start (last_ptr (nodes P ! i)) \<le> end_ptr (nodes P ! i)"
    using starts n unfolding starts_in_blocks_def list_all_length by metis
  have "node_ok (nodes P ! i)" using inv i by (simp add: mp_inv_def)
  then show "unat (last_ptr (nodes P ! i)) \<le> unat (start (last_ptr (nodes P ! i)))" using up by (simp add: moves_up_def node_ok_def)
  have "unat (end_ptr (nodes P ! i) - start (last_ptr (nodes P ! i))) =
      unat (end_ptr (nodes P ! i)) - unat (start (last_ptr (nodes P ! i)))"
    using e by (intro unat_sub)
  then show "unat (start (last_ptr (nodes P ! i))) + unat sz \<le> unat (end_ptr (nodes P ! i))"
    using sz e by (simp add: word_le_nat_alt)
qed

text \<open>One request, served from a block or from a new one.\<close>

lemma mp_small_step:
  assumes inv: "mp_inv P rs" and up: "moves_up start" and starts: "starts_in_blocks start P" and fresh: "fresh_block P memalign"
    and sz: "sz \<le> max_size P" and step: "mp_small start memalign P sz = Some (P', r)"
  shows "mp_inv P' ((case r of None \<Rightarrow> [] | Some m \<Rightarrow> [(m, sz)]) @ rs)"
proof (cases "find_room start sz (drop (current P) (nodes P)) (current P)")
  case (Some i)
  note room = found_room [OF inv up starts Some]
  show ?thesis using take_room [where start = start, OF inv room(1) refl room(2,3)] step Some by (auto simp: mp_small_def Let_def)
next
  case None
  have "chain_end P = 0" using inv by (simp add: mp_inv_def)
  then have blk: "mp_alloc_block memalign P sz = (P', r)" using step None by (simp add: mp_small_def)
  show ?thesis
  proof (cases memalign)
    case None
    then show ?thesis using blk inv by (simp add: mp_alloc_block_def)
  next
    case (Some b)
    show ?thesis
      by (rule add_block [OF inv _ sz, of b]) (use fresh Some blk in auto)
  qed
qed

text \<open>What keeps the aligned starts in their blocks: as long as requests that align are for multiples of the alignment, they do.\<close>

definition aligned_ends :: "mp_pool \<Rightarrow> bool" where
  "aligned_ends P \<longleftrightarrow> (\<forall>n \<in> set (nodes P). aligned_start (last_ptr n) \<le> end_ptr n)"

lemma aligned_ends_starts: "aligned_ends P \<Longrightarrow> starts_in_blocks aligned_start P"
  by (auto simp: aligned_ends_def starts_in_blocks_def list_all_iff dest: in_set_dropD)

lemma aligned_end:
  assumes "unat m mod 32 = 0" "unat sz mod 32 = 0" "unat m + unat sz \<le> unat e" "unat e \<le> 2 ^ 63"
  shows "aligned_start (m + sz) \<le> e"
proof -
  have sum: "unat (m + sz) = unat m + unat sz" using assms(3,4) by (intro unat_add_u64) simp
  have "aligned_start (m + sz) = m + sz"
    by (rule align_id) (use assms in \<open>simp_all add: sum mod_add_eq [symmetric]\<close>)
  then show ?thesis using assms(3) sum by (simp add: word_le_nat_alt)
qed

lemma multiples_keep_aligned_ends:
  assumes inv: "mp_inv P rs" and ends: "aligned_ends P" and fresh: "fresh_block P memalign" and sz: "sz \<le> max_size P" "unat sz mod 32 = 0"
    and step: "mp_small aligned_start memalign P sz = Some (P', r)"
  shows "aligned_ends P'"
proof (cases "find_room aligned_start sz (drop (current P) (nodes P)) (current P)")
  case (Some i)
  note room = found_room [OF inv moves_up_start(1) aligned_ends_starts [OF ends] Some]
  have ok: "node_ok (nodes P ! i)" using inv room(1) by (simp add: mp_inv_def)
  have "unat (aligned_start (last_ptr (nodes P ! i))) mod 32 = 0" using align_ge [of "last_ptr (nodes P ! i)"] ok by (simp add: node_ok_def)
  from aligned_end [OF this sz(2) room(3)] show ?thesis
    using step Some ends ok set_update_subset_insert [of "nodes P" i "(nodes P ! i)\<lparr>last_ptr := aligned_start (last_ptr (nodes P ! i)) + sz\<rparr>"]
    by (auto simp: mp_small_def Let_def aligned_ends_def node_ok_def)
next
  case None
  have "chain_end P = 0" using inv by (simp add: mp_inv_def)
  then have blk: "mp_alloc_block memalign P sz = (P', r)" using step None by (simp add: mp_small_def)
  show ?thesis
  proof (cases memalign)
    case None
    then show ?thesis using blk ends by (simp add: mp_alloc_block_def)
  next
    case (Some b)
    then have fb: "fresh_block P (Some b)" using fresh by simp
    then have b: "unat b mod 32 = 0" "unat b + block_size P \<le> 2 ^ 63" by (simp_all add: fresh_block_def)
    show ?thesis
    proof (rule add_block [OF inv fb sz(1)])
      fix ns c f
      assume a: "mp_alloc_block (Some b) P sz = (P\<lparr>nodes := ns @ [\<lparr>base = b, last_ptr = b + 32 + sz, end_ptr = b + (end_ptr (hd (nodes P)) - base (hd (nodes P))), failed = f\<rparr>], current := c\<rparr>, Some (b + 32))"
        "map shape ns = map shape (nodes P)"
        "unat (b + 32 + sz) = unat b + 32 + unat sz" "unat (b + (end_ptr (hd (nodes P)) - base (hd (nodes P)))) = unat b + block_size P"
        "32 + unat sz \<le> block_size P"
      have "\<forall>x \<in> set ns. aligned_start (last_ptr x) \<le> end_ptr x"
        using ends arg_cong [OF a(2), of "\<lambda>l. \<forall>(b, l, e) \<in> set l. aligned_start l \<le> e"] by (simp add: shape_def aligned_ends_def)
      moreover have b32: "unat (b + 32) = unat b + 32" using b(2) a(5) unat_add_u64 [of b 32] by simp
      have "aligned_start (b + 32 + sz) \<le> b + (end_ptr (hd (nodes P)) - base (hd (nodes P)))"
        by (rule aligned_end) (use sz(2) b a(4,5) b32 in \<open>simp_all add: mod_add_eq [symmetric]\<close>)
      ultimately show ?thesis using blk Some a(1) by (auto simp: aligned_ends_def)
    qed
  qed
qed

lemma mp_inv_large: "mp_inv (P\<lparr>large := ls\<rparr>) rs = mp_inv P rs"
  by (simp add: mp_inv_def)

lemma reuse_large_length: "reuse_large p n ls = Some ls' \<Longrightarrow> length ls' = length ls"
  by (induction p n ls arbitrary: ls' rule: reuse_large.induct) (auto split: if_splits)

lemma mp_small_large: "mp_small start memalign P sz = Some (P', r) \<Longrightarrow> large P' = large P"
  by (auto simp: mp_small_def mp_alloc_block_def Let_def split: option.splits if_splits prod.splits)

text \<open>A list record that is added, or not for want of a block.\<close>

lemma mp_push_large_step:
  assumes inv: "mp_inv P rs" and starts: "starts_in_blocks aligned_start P" and fresh: "fresh_block P memalign"
    and step: "mp_push_large memalign P p = Some (P', r)"
  shows "mp_inv P' ((if length (large P) < length (large P') then [(struct_at (hd (large P')), sizeof_large)] else []) @ rs)"
proof -
  have sz: "sizeof_large \<le> max_size P" using step by (simp add: mp_push_large_def split: if_splits)
  with step obtain Q a where small: "mp_small aligned_start memalign P sizeof_large = Some (Q, a)"
    and P': "(P', r) = (case a of None \<Rightarrow> (Q, None) | Some l \<Rightarrow> (Q\<lparr>large := \<lparr>struct_at = l, alloc = p\<rparr> # large Q\<rparr>, Some p))"
    by (auto simp: mp_push_large_def split: Option.bind_splits)
  have "mp_inv Q ((case a of None \<Rightarrow> [] | Some m \<Rightarrow> [(m, sizeof_large)]) @ rs)"
    by (rule mp_small_step [OF inv moves_up_start(1) starts fresh sz small])
  then show ?thesis using P' mp_small_large [OF small] by (cases a) (simp_all add: mp_inv_large)
qed

lemma mp_alloc_large_step:
  assumes "mp_inv P rs" and "starts_in_blocks aligned_start P" and "fresh_block P memalign"
    and step: "mp_alloc_large answer memalign P = Some (P', r)"
  shows "mp_inv P' ((if length (large P) < length (large P') then [(struct_at (hd (large P')), sizeof_large)] else []) @ rs)"
proof (cases answer)
  case None
  then show ?thesis using assms(1) step by (simp add: mp_alloc_large_def)
next
  case (Some p)
  show ?thesis
  proof (cases "reuse_large p 0 (large P)")
    case None
    then show ?thesis using mp_push_large_step [OF assms(1-3)] step Some by (simp add: mp_alloc_large_def)
  next
    case (Some ls)
    then have "P' = P\<lparr>large := ls\<rparr>" using step \<open>answer = Some p\<close> by (simp add: mp_alloc_large_def)
    then show ?thesis using assms(1) reuse_large_length [OF Some] by (simp add: mp_inv_large)
  qed
qed

lemma mp_call_inv:
  assumes "mp_inv P rs" and "starts_in_blocks (call_start P c) P" and "fresh_block P memalign"
    and "mp_call_step answer memalign P c = Some (P', r)"
  shows "mp_inv P' (taken P c P' r @ rs)"
proof (cases "small_call P c")
  case (Some sz)
  then have "sz \<le> max_size P" "mp_small (call_start P c) memalign P sz = Some (P', r)"
    using assms(4) by (cases c; simp add: mp_alloc_def mp_nalloc_def split: if_splits)+
  then show ?thesis using mp_small_step [OF assms(1) moves_up_start(3) assms(2,3)] Some by (simp add: taken_def)
next
  case None
  then have start: "starts_in_blocks aligned_start P" using assms(2) by (cases c) (simp_all split: if_splits)
  show ?thesis
  proof (cases "c = Memalign")
    case True
    then show ?thesis
      using assms(1,4) None mp_push_large_step [OF assms(1) start assms(3)]
      by (cases answer) (simp_all add: mp_memalign_def taken_def)
  next
    case False
    then have "mp_alloc_large answer memalign P = Some (P', r)"
      using assms(4) None by (cases c) (simp_all add: mp_alloc_def mp_nalloc_def split: if_splits)
    then show ?thesis using mp_alloc_large_step [OF assms(1) start assms(3)] None by (simp add: taken_def)
  qed
qed

lemma mp_start_inv:
  assumes "mp_create_pool (Some p) 0 sz = Some P" and "unat p + 56 + unat sz \<le> 2 ^ 63"
  shows "mp_inv P []"
proof -
  have a: "unat (p + 24) = unat p + 24" "unat (p + 24 + 32) = unat p + 56" "unat (p + 24 + 32 + sz) = unat p + 56 + unat sz"
  proof -
    show 1: "unat (p + 24) = unat p + 24" using assms(2) unat_add_u64 [of p 24] by simp
    show 2: "unat (p + 24 + 32) = unat p + 56" using assms(2) 1 unat_add_u64 [of "p + 24" 32] by simp
    show "unat (p + 24 + 32 + sz) = unat p + 56 + unat sz" using assms(2) 2 unat_add_u64 [of "p + 24 + 32" sz] by simp
  qed
  have "unat (max_size P) \<le> unat sz"
    using assms(1) by (auto simp: mp_create_pool_def Let_def word_le_nat_alt word_less_nat_alt)
  then show ?thesis using assms a
    by (auto simp: mp_create_pool_def Let_def sizeof_pool_def sizeof_node_def mp_inv_def node_ok_def)
qed

lemma mp_reset_inv:
  assumes "mp_inv P rs" and "mp_reset_pool P = Some (P', fs)"
  shows "mp_inv P' []"
proof -
  let ?f = "\<lambda>h. h\<lparr>last_ptr := base h + sizeof_node\<rparr>"
  have P': "nodes P' = map ?f (nodes P)" "chain_end P' = 0" "max_size P' = max_size P"
    using assms by (auto simp: mp_reset_pool_def mp_inv_def split: if_splits)
  have ok: "node_ok (?f h)" if "node_ok h" for h
  proof -
    have "unat (base h + 32) = unat (base h) + 32" using that unat_add_u64 [of "base h" 32] by (simp add: node_ok_def)
    then show ?thesis using that by (simp add: node_ok_def sizeof_node_def)
  qed
  have "sorted_wrt nodes_apart (map ?f (nodes P))" using assms(1) by (simp add: mp_inv_def sorted_wrt_map nodes_apart_def [abs_def])
  then show ?thesis using assms(1) ok by (auto simp: mp_inv_def P' hd_map)
qed

lemma mp_run_inv: "mp_run P rs \<Longrightarrow> mp_inv P rs"
proof (induction rule: mp_run.induct)
  case (start p sz P)
  then show ?case using mp_start_inv by blast
next
  case (call P rs c memalign answer P' r)
  then show ?case using mp_call_inv by blast
next
  case (free P rs p P' fs)
  then show ?case by (auto simp: mp_free_def mp_inv_large split: prod.splits)
next
  case (reset P rs P' fs)
  then show ?case using mp_reset_inv by blast
qed

lemma mp_small_answers: "chain_end P = 0 \<Longrightarrow> mp_small start memalign P sz \<noteq> None"
  by (simp add: mp_small_def Let_def split: option.splits)

lemma mp_push_large_answers: "chain_end P = 0 \<Longrightarrow> sizeof_large \<le> max_size P \<Longrightarrow> mp_push_large memalign P p \<noteq> None"
  using mp_small_answers [of P aligned_start memalign sizeof_large] by (auto simp: mp_push_large_def)

lemma mp_call_answers:
  "chain_end P = 0 \<Longrightarrow> small_call P c \<noteq> None \<or> sizeof_large \<le> max_size P \<Longrightarrow> mp_call_step answer memalign P c \<noteq> None"
  using mp_small_answers [of P] mp_push_large_answers [of P]
  by (cases c) (auto simp: mp_alloc_def mp_nalloc_def mp_memalign_def mp_alloc_large_def split: option.splits)

section \<open>Properties\<close>

text \<open>C31: Pools never hand out the same memory twice, as long as no aligned start lies behind the end of its block: take any
  sequence of requests of any size to \<open>mp_alloc\<close>, \<open>mp_nalloc\<close> and \<open>mp_memalign\<close>, of calls of \<open>mp_free\<close> and of resets, on
  a pool of any size whose \<open>next\<close> field happened to start as null, with \<open>posix_memalign\<close> answering as \<open>fresh_block\<close> says, in which every request that aligns (all but the small ones to
  \<open>mp_nalloc\<close>) finds the aligned start of every block from \<open>current\<close> on not behind the end of that block. Then
  the regions taken from the blocks since the last reset, list records included, do not overlap, and each lies between the header
  and the end of one of the pool's blocks; and the next request is answered, if it is a small one or the pool's maximum is at least
  the 16 bytes of a list record.\<close>

theorem mp_regions_disjoint:
  assumes "mp_run P rs"
  shows "sorted_wrt apart rs \<and> list_all (\<lambda>r. list_ex (\<lambda>n. inside n r \<and> node_ok n) (nodes P)) rs \<and>
    (small_call P c \<noteq> None \<or> sizeof_large \<le> max_size P \<longrightarrow> mp_call_step answer memalign P c \<noteq> None)"
  using mp_run_inv [OF assms] mp_call_answers [of P c answer memalign]
  by (auto simp: mp_inv_def list_all_iff list_ex_iff)

theorem mp_regions_disjoint_witness:
  "sorted_wrt apart [(4192, 16), (4165, 3), (4160, 5 :: u64)] \<and>
   (\<exists>P. mp_call_step None None P (Alloc 64) \<noteq> None \<and> mp_run P [(4192, 16), (4165, 3), (4160, 5)])"
proof -
  define P0 where "P0 = the (mp_create_pool (Some 4096) 0 4096)"
  define P1 where "P1 = fst (the (mp_call_step None None P0 (Alloc 5)))"
  define P2 where "P2 = fst (the (mp_call_step None None P1 (Nalloc 3)))"
  define P3 where "P3 = fst (the (mp_call_step (Some 90000) None P2 (Alloc 5000)))"
  have P0: "P0 = \<lparr>pool_at = 4096, max_size = 4095, current = 0, large = [],
      nodes = [\<lparr>base = 4120, last_ptr = 4152, end_ptr = 8248, failed = 0\<rparr>], chain_end = 0\<rparr>"
    unfolding P0_def by code_simp
  have P1: "mp_call_step None None P0 (Alloc 5) = Some (P1, Some 4160)" "P1 = P0\<lparr>nodes := [\<lparr>base = 4120, last_ptr = 4165, end_ptr = 8248, failed = 0\<rparr>]\<rparr>"
    "starts_in_blocks (call_start P0 (Alloc 5)) P0" "taken P0 (Alloc 5) P1 (Some 4160) = [(4160, 5)]"
    unfolding P1_def P0 by code_simp+
  have P2: "mp_call_step None None P1 (Nalloc 3) = Some (P2, Some 4165)" "P2 = P0\<lparr>nodes := [\<lparr>base = 4120, last_ptr = 4168, end_ptr = 8248, failed = 0\<rparr>]\<rparr>"
    "starts_in_blocks (call_start P1 (Nalloc 3)) P1" "taken P1 (Nalloc 3) P2 (Some 4165) = [(4165, 3)]"
    unfolding P2_def P1(2) P0 by code_simp+
  have P3: "mp_call_step (Some 90000) None P2 (Alloc 5000) = Some (P3, Some 90000)" "max_size P3 = 4095"
    "starts_in_blocks (call_start P2 (Alloc 5000)) P2" "taken P2 (Alloc 5000) P3 (Some 90000) = [(4192, 16)]"
    unfolding P3_def P2(2) P0 by code_simp+
  have fresh: "fresh_block P None" for P by (simp add: fresh_block_def)
  have "mp_run P0 []" by (rule mp_run.start [of 4096 4096]) (simp_all add: P0_def mp_create_pool_def Let_def)
  from mp_run.call [OF this P1(3) fresh P1(1)] have "mp_run P1 [(4160, 5)]" by (simp add: P1(4))
  from mp_run.call [OF this P2(3) fresh P2(1)] have "mp_run P2 [(4165, 3), (4160, 5)]" by (simp add: P2(4))
  from mp_run.call [OF this P3(3) fresh P3(1)] have run: "mp_run P3 [(4192, 16), (4165, 3), (4160, 5)]" by (simp add: P3(4))
  have "small_call P3 (Alloc 64) \<noteq> None" by (simp add: P3(2))
  then show ?thesis using mp_regions_disjoint [OF run, of "Alloc 64" None None] run by blast
qed

text \<open>Three ways in which a pool goes wrong. A request that ends exactly at the end of the first block makes
  the aligned start of the next one lie behind the end; the difference wraps, and \<open>mp_alloc\<close> returns an
  address outside the block (8256, where the block ends at 8248). When the memory of the pool was not
  zero, the uninitialised \<open>next\<close> field is followed once the first block is full. And a pool of less than
  16 bytes calls itself for ever on the first large request.\<close>

theorem mp_pool_defects:
  "(do { P \<leftarrow> mp_create_pool (Some 4096) 0 4096;
         (P, a) \<leftarrow> mp_alloc None None P 4088; (P, b) \<leftarrow> mp_alloc None None P 1;
         Some (a, b, map end_ptr (nodes P)) }) = Some (Some 4160, Some 8256, [8248]) \<and>
   (do { P \<leftarrow> mp_create_pool (Some 4096) 77 4096;
         (P, a) \<leftarrow> mp_nalloc None None P 4000; mp_nalloc None None P 4000 }) = None \<and>
   (do { P \<leftarrow> mp_create_pool (Some 4096) 0 8; mp_alloc (Some 9000) None P 4096 }) = None"
  by (intro conjI; code_simp)

end
