(* ===== verification/Timer_Queue.thy ===== *)
theory Timer_Queue
  imports Prelude
begin

text \<open>
  What the two timer studies \<open>jiagoushi/chap2.5/test-timer/test-timer/rbt-timer.c\<close> and \<open>sl-timer.c\<close> share: the clock
  in milliseconds, and the interface between their loop over the due timers and the container that holds
  the timers in order.
\<close>

section \<open>The clock\<close>

text \<open>\<open>current_time\<close>, of the seconds and nanoseconds the monotonic clock answers: 32 bits of milliseconds, which wrap after
  49 days.\<close>

definition current_time :: "int \<Rightarrow> int \<Rightarrow> u32" where
  "current_time tv_sec tv_nsec = word_of_int tv_sec * 1000 + word_of_int (tv_nsec div 1000000)"

section \<open>The interface of the containers\<close>

text \<open>\<open>holds q as\<close>: the container \<open>q\<close> keeps the timers \<open>as\<close>, to be fired in this order. The client asks for the first
  timer, calls its handler, takes it out and goes on, as long as the first timer is due.\<close>

locale deadline_queue =
  fixes holds :: "'q \<Rightarrow> nat list \<Rightarrow> bool"
    and first :: "'q \<Rightarrow> nat option option"
    and due :: "u32 \<Rightarrow> nat \<Rightarrow> bool"
    and take_first :: "nat \<Rightarrow> 'q \<Rightarrow> 'q option"
    and due_now :: "u32 \<Rightarrow> 'q \<Rightarrow> nat \<Rightarrow> bool option"
    and call :: "nat \<Rightarrow> 'w \<times> 'q \<Rightarrow> ('w \<times> 'q) option"
    and expire :: "u32 \<Rightarrow> 'w \<times> 'q \<Rightarrow> ('w \<times> 'q) option"
  assumes first_holds: "holds q as \<Longrightarrow> first q = Some (case as of [] \<Rightarrow> None | a # _ \<Rightarrow> Some a)"
    and due_holds: "holds q (a # as) \<Longrightarrow> due_now now q a = Some (due now a)"
    and due_before: "holds q (a # as) \<Longrightarrow> b \<in> set as \<Longrightarrow> due now b \<Longrightarrow> due now a"
    and take_first_holds: "holds q (a # as) \<Longrightarrow> \<exists>q'. take_first a q = Some q' \<and> holds q' as"
    and expire_loop: "expire now (w, q) =
      do { m \<leftarrow> first q;
           case m of
             None \<Rightarrow> Some (w, q)
           | Some a \<Rightarrow>
               do { d \<leftarrow> due_now now q a;
                    if d then do { (w, q) \<leftarrow> call a (w, q); q \<leftarrow> take_first a q; expire now (w, q) }
                    else Some (w, q) } }"
begin

lemma due_prefix: "holds q as \<Longrightarrow> takeWhile (due now) as = filter (due now) as \<and> dropWhile (due now) as = filter (\<lambda>a. \<not> due now a) as"
proof (induction as arbitrary: q)
  case (Cons a as)
  obtain q' where q': "holds q' as" using take_first_holds [OF Cons.prems] by blast
  show ?case
  proof (cases "due now a")
    case True
    then show ?thesis using Cons.IH [OF q'] by simp
  next
    case False
    then have "\<forall>b \<in> set as. \<not> due now b" using due_before [OF Cons.prems] by blast
    then show ?thesis using False by (simp add: filter_empty_conv)
  qed
qed simp

text \<open>Handlers that leave the container alone: the loop calls them for exactly the timers that are due, in order, and keeps
  the others.\<close>

lemma expire_due:
  assumes "holds q as" and "\<And>q a as w. holds q (a # as) \<Longrightarrow> call a (w, q) = Some (eff a w, q)"
  shows "\<exists>q'. expire now (w, q) = Some (fold eff (filter (due now) as) w, q') \<and> holds q' (filter (\<lambda>a. \<not> due now a) as)"
  using assms(1)
proof (induction as arbitrary: q w)
  case Nil
  then show ?case using first_holds [OF Nil] by (subst expire_loop) simp
next
  case (Cons a as)
  show ?case
  proof (cases "due now a")
    case True
    obtain q' where q': "take_first a q = Some q'" "holds q' as" using take_first_holds [OF Cons.prems] by blast
    have "expire now (w, q) = expire now (eff a w, q')"
      using first_holds [OF Cons.prems] due_holds [OF Cons.prems] True assms(2) [OF Cons.prems] q'(1)
      by (subst expire_loop) simp
    then show ?thesis using Cons.IH [OF q'(2), of "eff a w"] True by simp
  next
    case False
    then have "filter (due now) (a # as) = []" "filter (\<lambda>a. \<not> due now a) (a # as) = a # as"
      using due_prefix [OF Cons.prems, of now] by simp_all
    moreover have "expire now (w, q) = Some (w, q)"
      using first_holds [OF Cons.prems] due_holds [OF Cons.prems] False by (subst expire_loop) simp
    ultimately show ?thesis using Cons.prems by simp
  qed
qed

end

end
