(* ===== verification/Rbtree.thy ===== *)
theory Rbtree
  imports Prelude
begin

text \<open>
  The red-black tree of the timer study (\<open>jiagoushi/chap2.5/test-timer/test-timer/rbtree.c\<close> and
  \<open>rbtree.h\<close>): insertion with its two comparison functions, deletion, the rotations, minimum and successor.

  The tree is a graph of nodes with parent pointers that the code rewires in place, so the model is a
  store: each field of \<open>ngx_rbtree_node_s\<close> is a function of the node's address, next to the set of
  addresses that hold a node. Address 0 is the null pointer and holds none. Reading or writing a field
  where there is no node is \<open>None\<close>, and so is a loop that does not end.
\<close>

section \<open>The store\<close>

record rbtree =
  root :: nat
  sentinel :: nat
  node_set :: "nat set"
  key :: "nat \<Rightarrow> u32"
  left :: "nat \<Rightarrow> nat"
  right :: "nat \<Rightarrow> nat"
  parent :: "nat \<Rightarrow> nat"
  red :: "nat \<Rightarrow> bool"

definition rd :: "(rbtree \<Rightarrow> nat \<Rightarrow> 'a) \<Rightarrow> rbtree \<Rightarrow> nat \<Rightarrow> 'a option" where
  "rd f t p = (if p \<in> node_set t then Some (f t p) else None)"

definition set_left :: "rbtree \<Rightarrow> nat \<Rightarrow> nat \<Rightarrow> rbtree option" where
  "set_left t p v = (if p \<in> node_set t then Some (t\<lparr>left := (left t)(p := v)\<rparr>) else None)"

definition set_right :: "rbtree \<Rightarrow> nat \<Rightarrow> nat \<Rightarrow> rbtree option" where
  "set_right t p v = (if p \<in> node_set t then Some (t\<lparr>right := (right t)(p := v)\<rparr>) else None)"

definition set_parent :: "rbtree \<Rightarrow> nat \<Rightarrow> nat \<Rightarrow> rbtree option" where
  "set_parent t p v = (if p \<in> node_set t then Some (t\<lparr>parent := (parent t)(p := v)\<rparr>) else None)"

definition set_key :: "rbtree \<Rightarrow> nat \<Rightarrow> u32 \<Rightarrow> rbtree option" where
  "set_key t p v = (if p \<in> node_set t then Some (t\<lparr>key := (key t)(p := v)\<rparr>) else None)"

text \<open>\<open>ngx_rbt_red\<close> and \<open>ngx_rbt_black\<close>; \<open>ngx_rbt_copy_color\<close>.\<close>

definition set_red :: "rbtree \<Rightarrow> nat \<Rightarrow> bool \<Rightarrow> rbtree option" where
  "set_red t p v = (if p \<in> node_set t then Some (t\<lparr>red := (red t)(p := v)\<rparr>) else None)"

definition ngx_rbt_copy_color :: "rbtree \<Rightarrow> nat \<Rightarrow> nat \<Rightarrow> rbtree option" where
  "ngx_rbt_copy_color t n1 n2 = do { c \<leftarrow> rd red t n2; set_red t n1 c }"

definition ngx_rbtree_init :: "rbtree \<Rightarrow> nat \<Rightarrow> rbtree option" where
  "ngx_rbtree_init t s = do { t \<leftarrow> set_red t s False; Some (t\<lparr>root := s, sentinel := s\<rparr>) }"

section \<open>Rotations\<close>

definition ngx_rbtree_left_rotate :: "rbtree \<Rightarrow> nat \<Rightarrow> rbtree option" where
  "ngx_rbtree_left_rotate t node =
     do { temp \<leftarrow> rd right t node;
          tl \<leftarrow> rd left t temp;
          t \<leftarrow> set_right t node tl;
          tl \<leftarrow> rd left t temp;
          t \<leftarrow> (if tl \<noteq> sentinel t then set_parent t tl node else Some t);
          p \<leftarrow> rd parent t node;
          t \<leftarrow> set_parent t temp p;
          t \<leftarrow> (if node = root t then Some (t\<lparr>root := temp\<rparr>)
               else do { p \<leftarrow> rd parent t node; pl \<leftarrow> rd left t p;
                         if node = pl then set_left t p temp else set_right t p temp });
          t \<leftarrow> set_left t temp node;
          set_parent t node temp }"

definition ngx_rbtree_right_rotate :: "rbtree \<Rightarrow> nat \<Rightarrow> rbtree option" where
  "ngx_rbtree_right_rotate t node =
     do { temp \<leftarrow> rd left t node;
          tr \<leftarrow> rd right t temp;
          t \<leftarrow> set_left t node tr;
          tr \<leftarrow> rd right t temp;
          t \<leftarrow> (if tr \<noteq> sentinel t then set_parent t tr node else Some t);
          p \<leftarrow> rd parent t node;
          t \<leftarrow> set_parent t temp p;
          t \<leftarrow> (if node = root t then Some (t\<lparr>root := temp\<rparr>)
               else do { p \<leftarrow> rd parent t node; pr \<leftarrow> rd right t p;
                         if node = pr then set_right t p temp else set_left t p temp });
          t \<leftarrow> set_right t temp node;
          set_parent t node temp }"

section \<open>Insertion\<close>

text \<open>The two ways of deciding for the left: plain keys, and 32-bit times that wrap.\<close>

definition value_less :: "u32 \<Rightarrow> u32 \<Rightarrow> bool" where "value_less a b \<longleftrightarrow> a < b"
definition timer_less :: "u32 \<Rightarrow> u32 \<Rightarrow> bool" where "timer_less a b \<longleftrightarrow> sint (a - b) < 0"

text \<open>The descent to the free place and the attachment there.\<close>

partial_function (option) insert_at :: "(u32 \<Rightarrow> u32 \<Rightarrow> bool) \<Rightarrow> rbtree \<Rightarrow> nat \<Rightarrow> nat \<Rightarrow> rbtree option" where
  [code]: "insert_at lt t temp node =
     do { k \<leftarrow> rd key t node; k' \<leftarrow> rd key t temp;
          let goes_left = lt k k';
          p \<leftarrow> (if goes_left then rd left t temp else rd right t temp);
          if p = sentinel t
          then do { t \<leftarrow> (if goes_left then set_left t temp node else set_right t temp node);
                    t \<leftarrow> set_parent t node temp;
                    t \<leftarrow> set_left t node (sentinel t);
                    t \<leftarrow> set_right t node (sentinel t);
                    set_red t node True }
          else insert_at lt t p node }"

definition ngx_rbtree_insert_value :: "rbtree \<Rightarrow> nat \<Rightarrow> nat \<Rightarrow> rbtree option" where
  "ngx_rbtree_insert_value = insert_at value_less"

definition ngx_rbtree_insert_timer_value :: "rbtree \<Rightarrow> nat \<Rightarrow> nat \<Rightarrow> rbtree option" where
  "ngx_rbtree_insert_timer_value = insert_at timer_less"

text \<open>The last three statements of the rebalancing loop's body: recolour and turn at the grandparent.\<close>

definition insert_turn :: "(rbtree \<Rightarrow> nat \<Rightarrow> rbtree option) \<Rightarrow> rbtree \<Rightarrow> nat \<Rightarrow> (rbtree \<times> nat) option" where
  "insert_turn rot t node =
     do { p \<leftarrow> rd parent t node; t \<leftarrow> set_red t p False;
          p \<leftarrow> rd parent t node; g \<leftarrow> rd parent t p; t \<leftarrow> set_red t g True;
          p \<leftarrow> rd parent t node; g \<leftarrow> rd parent t p;
          t \<leftarrow> rot t g; Some (t, node) }"

text \<open>One side of the body: \<open>far\<close> reads the child pointer of the other side (that of the uncle, and of a node
  that has to be turned first), \<open>rot\<close> and \<open>counter\<close> are the rotations of the side.\<close>

definition insert_side :: "(rbtree \<Rightarrow> nat \<Rightarrow> nat) \<Rightarrow> (rbtree \<Rightarrow> nat \<Rightarrow> rbtree option) \<Rightarrow> (rbtree \<Rightarrow> nat \<Rightarrow> rbtree option) \<Rightarrow>
    rbtree \<Rightarrow> nat \<Rightarrow> (rbtree \<times> nat) option" where
  "insert_side far rot counter t node =
     do { p \<leftarrow> rd parent t node; g \<leftarrow> rd parent t p;
          temp \<leftarrow> rd far t g;
          uncle_red \<leftarrow> rd red t temp;
          if uncle_red
          then do { t \<leftarrow> set_red t p False; t \<leftarrow> set_red t temp False; t \<leftarrow> set_red t g True; Some (t, g) }
          else do { inner \<leftarrow> rd far t p;
                    (t, node) \<leftarrow> (if node = inner then do { t \<leftarrow> counter t p; Some (t, p) } else Some (t, node));
                    insert_turn rot t node } }"

partial_function (option) insert_fix :: "rbtree \<Rightarrow> nat \<Rightarrow> rbtree option" where
  [code]: "insert_fix t node =
     (if node = root t then Some t
      else do { p \<leftarrow> rd parent t node;
                pr \<leftarrow> rd red t p;
                if \<not> pr then Some t
                else do { g \<leftarrow> rd parent t p; gl \<leftarrow> rd left t g;
                          (t, node) \<leftarrow> (if p = gl
                             then insert_side right ngx_rbtree_right_rotate ngx_rbtree_left_rotate t node
                             else insert_side left ngx_rbtree_left_rotate ngx_rbtree_right_rotate t node);
                          insert_fix t node } })"

definition ngx_rbtree_insert :: "(u32 \<Rightarrow> u32 \<Rightarrow> bool) \<Rightarrow> rbtree \<Rightarrow> nat \<Rightarrow> rbtree option" where
  "ngx_rbtree_insert lt t node =
     (if root t = sentinel t
      then do { t \<leftarrow> set_parent t node 0;
                t \<leftarrow> set_left t node (sentinel t);
                t \<leftarrow> set_right t node (sentinel t);
                t \<leftarrow> set_red t node False;
                Some (t\<lparr>root := node\<rparr>) }
      else do { t \<leftarrow> insert_at lt t (root t) node;
                t \<leftarrow> insert_fix t node;
                set_red t (root t) False })"

section \<open>Minimum and successor\<close>

partial_function (option) ngx_rbtree_min :: "rbtree \<Rightarrow> nat \<Rightarrow> nat option" where
  [code]: "ngx_rbtree_min t node =
     do { l \<leftarrow> rd left t node; if l \<noteq> sentinel t then ngx_rbtree_min t l else Some node }"

text \<open>The climb to the first ancestor of which the node lies on the left; null at the root.\<close>

partial_function (option) climb :: "rbtree \<Rightarrow> nat \<Rightarrow> nat option" where
  [code]: "climb t node =
     do { p \<leftarrow> rd parent t node;
          if node = root t then Some 0
          else do { pl \<leftarrow> rd left t p; if node = pl then Some p else climb t p } }"

definition ngx_rbtree_next :: "rbtree \<Rightarrow> nat \<Rightarrow> nat option" where
  "ngx_rbtree_next t node =
     do { r \<leftarrow> rd right t node; if r \<noteq> sentinel t then ngx_rbtree_min t r else climb t node }"

section \<open>Deletion\<close>

text \<open>The node that leaves its place and the subtree that moves up into it.\<close>

definition delete_choose :: "rbtree \<Rightarrow> nat \<Rightarrow> (nat \<times> nat) option" where
  "delete_choose t node =
     do { l \<leftarrow> rd left t node;
          if l = sentinel t then do { temp \<leftarrow> rd right t node; Some (node, temp) }
          else do { r \<leftarrow> rd right t node;
                    if r = sentinel t then Some (node, l)
                    else do { subst \<leftarrow> ngx_rbtree_min t r;
                              sl \<leftarrow> rd left t subst;
                              temp \<leftarrow> (if sl \<noteq> sentinel t then Some sl else rd right t subst);
                              Some (subst, temp) } } }"

text \<open>"DEBUG stuff"\<close>

definition delete_clear :: "rbtree \<Rightarrow> nat \<Rightarrow> rbtree option" where
  "delete_clear t node =
     do { t \<leftarrow> set_left t node 0; t \<leftarrow> set_right t node 0; t \<leftarrow> set_parent t node 0; set_key t node 0 }"

text \<open>\<open>subst\<close> takes over the links and the colour of \<open>node\<close>.\<close>

definition delete_replace :: "rbtree \<Rightarrow> nat \<Rightarrow> nat \<Rightarrow> nat \<Rightarrow> rbtree option" where
  "delete_replace t node subst temp =
     do { sp \<leftarrow> rd parent t subst;
          t \<leftarrow> (if sp = node then set_parent t temp subst else set_parent t temp sp);
          v \<leftarrow> rd left t node; t \<leftarrow> set_left t subst v;
          v \<leftarrow> rd right t node; t \<leftarrow> set_right t subst v;
          v \<leftarrow> rd parent t node; t \<leftarrow> set_parent t subst v;
          t \<leftarrow> ngx_rbt_copy_color t subst node;
          t \<leftarrow> (if node = root t then Some (t\<lparr>root := subst\<rparr>)
               else do { p \<leftarrow> rd parent t node; pl \<leftarrow> rd left t p;
                         if node = pl then set_left t p subst else set_right t p subst });
          l \<leftarrow> rd left t subst;
          t \<leftarrow> (if l \<noteq> sentinel t then set_parent t l subst else Some t);
          r \<leftarrow> rd right t subst;
          if r \<noteq> sentinel t then set_parent t r subst else Some t }"

text \<open>One side of the body of the fixup loop; \<open>near\<close> reads the side of \<open>temp\<close>, \<open>far\<close> the other one. The
  result is the state and the next \<open>temp\<close>.\<close>

definition delete_side :: "(rbtree \<Rightarrow> nat \<Rightarrow> nat) \<Rightarrow> (rbtree \<Rightarrow> nat \<Rightarrow> nat) \<Rightarrow> (rbtree \<Rightarrow> nat \<Rightarrow> rbtree option) \<Rightarrow>
    (rbtree \<Rightarrow> nat \<Rightarrow> rbtree option) \<Rightarrow> rbtree \<Rightarrow> nat \<Rightarrow> (rbtree \<times> nat) option" where
  "delete_side near far rot counter t temp =
     do { p \<leftarrow> rd parent t temp; w \<leftarrow> rd far t p;
          w_red \<leftarrow> rd red t w;
          (t, w) \<leftarrow> (if w_red
             then do { t \<leftarrow> set_red t w False;
                       p \<leftarrow> rd parent t temp; t \<leftarrow> set_red t p True;
                       p \<leftarrow> rd parent t temp; t \<leftarrow> rot t p;
                       p \<leftarrow> rd parent t temp; w \<leftarrow> rd far t p; Some (t, w) }
             else Some (t, w));
          l \<leftarrow> rd left t w; l_red \<leftarrow> rd red t l;
          r_red \<leftarrow> (if l_red then Some True else do { r \<leftarrow> rd right t w; rd red t r });
          if \<not> l_red \<and> \<not> r_red
          then do { t \<leftarrow> set_red t w True; p \<leftarrow> rd parent t temp; Some (t, p) }
          else do { f \<leftarrow> rd far t w; f_red \<leftarrow> rd red t f;
                    (t, w) \<leftarrow> (if \<not> f_red
                       then do { n \<leftarrow> rd near t w; t \<leftarrow> set_red t n False;
                                 t \<leftarrow> set_red t w True;
                                 t \<leftarrow> counter t w;
                                 p \<leftarrow> rd parent t temp; w \<leftarrow> rd far t p; Some (t, w) }
                       else Some (t, w));
                    p \<leftarrow> rd parent t temp; t \<leftarrow> ngx_rbt_copy_color t w p;
                    p \<leftarrow> rd parent t temp; t \<leftarrow> set_red t p False;
                    f \<leftarrow> rd far t w; t \<leftarrow> set_red t f False;
                    p \<leftarrow> rd parent t temp; t \<leftarrow> rot t p;
                    Some (t, root t) } }"

partial_function (option) delete_fix :: "rbtree \<Rightarrow> nat \<Rightarrow> rbtree option" where
  [code]: "delete_fix t temp =
     (if temp = root t then set_red t temp False
      else do { c \<leftarrow> rd red t temp;
                if c then set_red t temp False
                else do { p \<leftarrow> rd parent t temp; pl \<leftarrow> rd left t p;
                          (t, temp) \<leftarrow> (if temp = pl
                             then delete_side left right ngx_rbtree_left_rotate ngx_rbtree_right_rotate t temp
                             else delete_side right left ngx_rbtree_right_rotate ngx_rbtree_left_rotate t temp);
                          delete_fix t temp } })"

definition ngx_rbtree_delete :: "rbtree \<Rightarrow> nat \<Rightarrow> rbtree option" where
  "ngx_rbtree_delete t node =
     do { (subst, temp) \<leftarrow> delete_choose t node;
          if subst = root t
          then do { t \<leftarrow> set_red (t\<lparr>root := temp\<rparr>) temp False; delete_clear t node }
          else do { is_red \<leftarrow> rd red t subst;
                    p \<leftarrow> rd parent t subst; pl \<leftarrow> rd left t p;
                    t \<leftarrow> (if subst = pl then set_left t p temp else set_right t p temp);
                    t \<leftarrow> (if subst = node then do { p \<leftarrow> rd parent t subst; set_parent t temp p }
                         else delete_replace t node subst temp);
                    t \<leftarrow> delete_clear t node;
                    if is_red then Some t else delete_fix t temp } }"

section \<open>Trees and contexts in the store\<close>

datatype ptree = Lf | Nd ptree nat ptree

primrec addrs :: "ptree \<Rightarrow> nat list" where
  "addrs Lf = []"
| "addrs (Nd l a r) = addrs l @ a # addrs r"

primrec ptr :: "nat \<Rightarrow> ptree \<Rightarrow> nat" where
  "ptr s Lf = s"
| "ptr s (Nd l a r) = a"

text \<open>The tree hanging at pointer \<open>p\<close> whose node has the parent \<open>q\<close>.\<close>

primrec tree_at :: "rbtree \<Rightarrow> nat \<Rightarrow> nat \<Rightarrow> ptree \<Rightarrow> bool" where
  "tree_at t q p Lf \<longleftrightarrow> p = sentinel t"
| "tree_at t q p (Nd l a r) \<longleftrightarrow> p = a \<and> a \<in> node_set t \<and> a \<noteq> sentinel t \<and> parent t a = q \<and>
     tree_at t a (left t a) l \<and> tree_at t a (right t a) r"

text \<open>The way up from a subtree: the ancestors, innermost first, each with its other subtree.\<close>

datatype frame = InL nat ptree | InR ptree nat

primrec frame_addr :: "frame \<Rightarrow> nat" where
  "frame_addr (InL a r) = a" | "frame_addr (InR l a) = a"

primrec frame_sib :: "frame \<Rightarrow> ptree" where
  "frame_sib (InL a r) = r" | "frame_sib (InR l a) = l"

primrec plug1 :: "ptree \<Rightarrow> frame \<Rightarrow> ptree" where
  "plug1 T (InL a r) = Nd T a r" | "plug1 T (InR l a) = Nd l a T"

abbreviation plug :: "ptree \<Rightarrow> frame list \<Rightarrow> ptree" where
  "plug T C \<equiv> foldl plug1 T C"

abbreviation caddrs :: "frame list \<Rightarrow> nat list" where
  "caddrs C \<equiv> concat (map (\<lambda>f. frame_addr f # addrs (frame_sib f)) C)"

primrec frame_at :: "rbtree \<Rightarrow> nat \<Rightarrow> frame \<Rightarrow> bool" where
  "frame_at t p (InL a r) \<longleftrightarrow> left t a = p \<and> tree_at t a (right t a) r"
| "frame_at t p (InR l a) \<longleftrightarrow> right t a = p \<and> tree_at t a (left t a) l"

primrec ctx_at :: "rbtree \<Rightarrow> nat \<Rightarrow> nat \<Rightarrow> frame list \<Rightarrow> bool" where
  "ctx_at t p q [] \<longleftrightarrow> p = root t"
| "ctx_at t p q (f # C) \<longleftrightarrow> frame_addr f = q \<and> q \<in> node_set t \<and> q \<noteq> sentinel t \<and> frame_at t p f \<and> ctx_at t q (parent t q) C"

definition zip_at :: "rbtree \<Rightarrow> ptree \<Rightarrow> frame list \<Rightarrow> bool" where
  "zip_at t T C \<longleftrightarrow> (\<exists>q. tree_at t q (ptr (sentinel t) T) T \<and> ctx_at t (ptr (sentinel t) T) q C) \<and>
     distinct (addrs T @ caddrs C) \<and> sentinel t \<in> node_set t \<and> 0 \<notin> node_set t"

text \<open>What rebalancing leaves alone.\<close>

definition same_nodes :: "rbtree \<Rightarrow> rbtree \<Rightarrow> bool" where
  "same_nodes t t' \<longleftrightarrow> sentinel t' = sentinel t \<and> node_set t' = node_set t \<and> key t' = key t"

lemma tree_cong:
  "tree_at t q p T \<Longrightarrow> sentinel t' = sentinel t \<Longrightarrow> node_set t' = node_set t \<Longrightarrow>
    \<forall>a \<in> set (addrs T). left t' a = left t a \<and> right t' a = right t a \<and> parent t' a = parent t a \<Longrightarrow> tree_at t' q p T"
  by (induction T arbitrary: q p) auto

lemma tree_reparent:
  "tree_at t q p T \<Longrightarrow> sentinel t' = sentinel t \<Longrightarrow> node_set t' = node_set t \<Longrightarrow> distinct (addrs T) \<Longrightarrow>
    \<forall>a \<in> set (addrs T). left t' a = left t a \<and> right t' a = right t a \<and> parent t' a = (if a = p then q' else parent t a) \<Longrightarrow>
    tree_at t' q' p T"
  by (cases T) (auto intro!: tree_cong [of t _ _ _ t'])

lemma frame_cong:
  "frame_at t p f \<Longrightarrow> sentinel t' = sentinel t \<Longrightarrow> node_set t' = node_set t \<Longrightarrow>
    \<forall>a \<in> set (frame_addr f # addrs (frame_sib f)). left t' a = left t a \<and> right t' a = right t a \<and> parent t' a = parent t a \<Longrightarrow>
    frame_at t' p f"
  by (cases f) (auto intro: tree_cong [of t _ _ _ t'])

lemma ctx_cong:
  "ctx_at t p q C \<Longrightarrow> sentinel t' = sentinel t \<Longrightarrow> node_set t' = node_set t \<Longrightarrow> root t' = root t \<Longrightarrow>
    \<forall>a \<in> set (caddrs C). left t' a = left t a \<and> right t' a = right t a \<and> parent t' a = parent t a \<Longrightarrow> ctx_at t' p q C"
proof (induction C arbitrary: p q)
  case (Cons f C)
  then have "frame_at t' p f" by (intro frame_cong [of t p f t']) auto
  then show ?case using Cons by auto
qed simp

text \<open>The root of the tree is the outermost ancestor.\<close>

lemma ctx_root: "ctx_at t p q C \<Longrightarrow> root t = (if C = [] then p else frame_addr (last C))"
proof (induction C arbitrary: p q)
  case (Cons f C)
  from Cons.prems have "ctx_at t q (parent t q) C" "frame_addr f = q" by simp_all
  with Cons.IH [of q "parent t q"] show ?case by simp
qed simp

lemma ctx_root_in: "C \<noteq> [] \<Longrightarrow> ctx_at t p q C \<Longrightarrow> root t \<in> set (caddrs C)"
  using ctx_root [of t p q C] last_in_set [of C] by force

text \<open>Hanging another subtree into the hole: only the child pointer of the innermost ancestor changes.\<close>

lemma ctx_replace:
  assumes "ctx_at t p q C" and "sentinel t' = sentinel t" "node_set t' = node_set t" and "distinct (caddrs C)"
    and "root t' = (if C = [] then p' else root t)"
    and "\<forall>a \<in> set (caddrs C). parent t' a = parent t a"
    and "\<forall>a \<in> set (caddrs C). left t' a = (if a = q \<and> (\<exists>r C'. C = InL q r # C') then p' else left t a)"
    and "\<forall>a \<in> set (caddrs C). right t' a = (if a = q \<and> (\<exists>l C'. C = InR l q # C') then p' else right t a)"
  shows "ctx_at t' p' q C"
proof (cases C)
  case (Cons f C')
  have q: "q = frame_addr f" "q \<notin> set (addrs (frame_sib f))" "q \<notin> set (caddrs C')"
    using assms(1,4) Cons by auto
  have other: "left t' a = left t a \<and> right t' a = right t a \<and> parent t' a = parent t a"
    if "a \<in> set (caddrs C)" "a \<noteq> q" for a
    using bspec [OF assms(6) that(1)] bspec [OF assms(7) that(1)] bspec [OF assms(8) that(1)] that(2) by simp
  have "ctx_at t' q (parent t q) C'"
  proof (rule ctx_cong [of t])
    show "ctx_at t q (parent t q) C'" using assms(1) Cons by simp
    show "root t' = root t" using assms(5) Cons by simp
    show "\<forall>a \<in> set (caddrs C'). left t' a = left t a \<and> right t' a = right t a \<and> parent t' a = parent t a"
      using other q(3) Cons by auto
  qed (use assms in simp_all)
  moreover have sib: "tree_at t' q p0 (frame_sib f)" if "tree_at t q p0 (frame_sib f)" for p0
    using that assms(2,3) other q(2) Cons by (intro tree_cong [of t _ _ _ t']) auto
  have "frame_at t' p' f"
  proof (cases f)
    case (InL a r)
    then have "left t' a = p'" "right t' a = right t a" using assms(7,8) Cons q(1) by auto
    then show ?thesis using InL sib assms(1) Cons q(1) by auto
  next
    case (InR l a)
    then have "right t' a = p'" "left t' a = left t a" using assms(7,8) Cons q(1) by auto
    then show ?thesis using InR sib assms(1) Cons q(1) by auto
  qed
  moreover have "parent t' q = parent t q" using assms(6) Cons q(1) by auto
  ultimately show ?thesis using assms(1-3) Cons by auto
qed (use assms in simp)

section \<open>Rotations keep the tree\<close>

abbreviation is_left :: "nat \<Rightarrow> frame list \<Rightarrow> bool" where "is_left q C \<equiv> (\<exists>r C'. C = InL q r # C')"
abbreviation is_right :: "nat \<Rightarrow> frame list \<Rightarrow> bool" where "is_right q C \<equiv> (\<exists>l C'. C = InR l q # C')"

lemma tree_ptr: "tree_at t q p T \<Longrightarrow> p = ptr (sentinel t) T"
  by (cases T) simp_all

lemma ptr_in: "ptr s T = s \<or> ptr s T \<in> set (addrs T)"
  by (cases T) simp_all

lemma tree_nodes: "tree_at t q p T \<Longrightarrow> a \<in> set (addrs T) \<Longrightarrow> a \<in> node_set t \<and> a \<noteq> sentinel t"
  by (induction T arbitrary: q p) auto

text \<open>What the code finds out about the parent of a node in a context.\<close>

lemma ctx_parent:
  assumes "ctx_at t a q C" and "a \<notin> set (caddrs C)" and "a \<noteq> sentinel t"
  shows "a = root t \<longleftrightarrow> C = []"
    and "C \<noteq> [] \<Longrightarrow> q \<in> node_set t \<and> q \<noteq> sentinel t \<and> q \<in> set (caddrs C) \<and> (left t q = a \<longleftrightarrow> is_left q C) \<and> (right t q = a \<longleftrightarrow> is_right q C)"
proof -
  show "a = root t \<longleftrightarrow> C = []"
    using ctx_root_in [OF _ assms(1)] assms(1,2) by (cases "C = []") auto
  assume "C \<noteq> []"
  then obtain f C' where C: "C = f # C'" by (cases C) auto
  show "q \<in> node_set t \<and> q \<noteq> sentinel t \<and> q \<in> set (caddrs C) \<and> (left t q = a \<longleftrightarrow> is_left q C) \<and> (right t q = a \<longleftrightarrow> is_right q C)"
  proof (cases f)
    case (InL b r)
    then have "right t q = ptr (sentinel t) r" using assms(1) C tree_ptr [of t q "right t q" r] by auto
    then have "right t q \<noteq> a" using ptr_in [of "sentinel t" r] assms(2,3) C InL by auto
    then show ?thesis using assms(1) C InL by auto
  next
    case (InR l b)
    then have "left t q = ptr (sentinel t) l" using assms(1) C tree_ptr [of t q "left t q" l] by auto
    then have "left t q \<noteq> a" using ptr_in [of "sentinel t" l] assms(2,3) C InR by auto
    then show ?thesis using assms(1) C InR by auto
  qed
qed

text \<open>The fields after a rotation at \<open>a\<close> whose child \<open>b\<close> moves up and whose grandchild \<open>m\<close> changes sides;
  \<open>fl\<close> and \<open>fr\<close> are the child fields of the side \<open>a\<close> goes to and of the other one.\<close>

definition rotated :: "rbtree \<Rightarrow> rbtree \<Rightarrow> nat \<Rightarrow> nat \<Rightarrow> nat \<Rightarrow> nat \<Rightarrow> frame list \<Rightarrow> bool" where
  "rotated t t' q a b m C \<longleftrightarrow> same_nodes t t' \<and> red t' = red t \<and> root t' = (if C = [] then b else root t) \<and>
     (\<forall>v. parent t' v = (if v = a then b else if v = b then q else if v = m \<and> m \<noteq> sentinel t then a else parent t v))"

lemma left_rotate_fields:
  assumes "right t a = b" "parent t a = q" "a \<in> node_set t" "b \<in> node_set t" "a \<noteq> b" "left t b \<in> node_set t" "a \<noteq> left t b" "b \<noteq> left t b"
    and "a = root t \<longleftrightarrow> C = []" "C \<noteq> [] \<Longrightarrow> q \<in> node_set t \<and> q \<noteq> a \<and> q \<noteq> b \<and> (left t q = a \<longleftrightarrow> is_left q C) \<and> (right t q = a \<longleftrightarrow> is_right q C)"
    and "C = [] \<or> is_left q C \<or> is_right q C"
  shows "\<exists>t'. ngx_rbtree_left_rotate t a = Some t' \<and> rotated t t' q a b (left t b) C \<and>
    (\<forall>v. left t' v = (if v = b then a else if v = q \<and> is_left q C then b else left t v)) \<and>
    (\<forall>v. right t' v = (if v = a then left t b else if v = q \<and> is_right q C then b else right t v))"
proof -
  consider "C = []" | "C \<noteq> []" "is_left q C" "\<not> is_right q C" | "C \<noteq> []" "\<not> is_left q C" "is_right q C" using assms(11) by blast
  then show ?thesis
    by cases (use assms(1-10) in \<open>auto simp: ngx_rbtree_left_rotate_def rd_def set_left_def set_right_def set_parent_def
        rotated_def same_nodes_def\<close>)
qed

lemma right_rotate_fields:
  assumes "left t a = b" "parent t a = q" "a \<in> node_set t" "b \<in> node_set t" "a \<noteq> b" "right t b \<in> node_set t" "a \<noteq> right t b" "b \<noteq> right t b"
    and "a = root t \<longleftrightarrow> C = []" "C \<noteq> [] \<Longrightarrow> q \<in> node_set t \<and> q \<noteq> a \<and> q \<noteq> b \<and> (left t q = a \<longleftrightarrow> is_left q C) \<and> (right t q = a \<longleftrightarrow> is_right q C)"
    and "C = [] \<or> is_left q C \<or> is_right q C"
  shows "\<exists>t'. ngx_rbtree_right_rotate t a = Some t' \<and> rotated t t' q a b (right t b) C \<and>
    (\<forall>v. right t' v = (if v = b then a else if v = q \<and> is_right q C then b else right t v)) \<and>
    (\<forall>v. left t' v = (if v = a then right t b else if v = q \<and> is_left q C then b else left t v))"
proof -
  consider "C = []" | "C \<noteq> []" "is_left q C" "\<not> is_right q C" | "C \<noteq> []" "\<not> is_left q C" "is_right q C" using assms(11) by blast
  then show ?thesis
    by cases (use assms(1-10) in \<open>auto simp: ngx_rbtree_right_rotate_def rd_def set_left_def set_right_def set_parent_def
        rotated_def same_nodes_def\<close>)
qed

text \<open>What a subtree and the context know about a rotated store.\<close>

lemma zip_parts:
  assumes "zip_at t T C"
  obtains q where "tree_at t q (ptr (sentinel t) T) T" "ctx_at t (ptr (sentinel t) T) q C" "distinct (addrs T @ caddrs C)"
    "sentinel t \<in> node_set t" "0 \<notin> node_set t"
  using assms by (auto simp: zip_at_def)

lemma ctx_cases: "ctx_at t a q C \<Longrightarrow> C = [] \<or> is_left q C \<or> is_right q C"
proof (cases C)
  case (Cons f C')
  then show "ctx_at t a q C \<Longrightarrow> ?thesis" by (cases f) auto
qed simp

lemma left_rotate_zip:
  assumes "zip_at t (Nd x a (Nd y b z)) C"
  shows "\<exists>t'. ngx_rbtree_left_rotate t a = Some t' \<and> zip_at t' (Nd (Nd x a y) b z) C \<and> same_nodes t t' \<and> red t' = red t \<and>
    parent t' (sentinel t) = parent t (sentinel t)"
proof -
  let ?s = "sentinel t"
  obtain q where tree: "tree_at t q a (Nd x a (Nd y b z))" and ctx: "ctx_at t a q C"
    and dist: "distinct (addrs (Nd x a (Nd y b z)) @ caddrs C)" and s: "?s \<in> node_set t" "0 \<notin> node_set t"
    by (rule zip_parts [OF assms, unfolded ptr.simps])
  have ab: "a \<noteq> b" "a \<in> node_set t" "b \<in> node_set t" "parent t a = q" "right t a = b" "parent t b = a" "a \<noteq> ?s" "b \<noteq> ?s"
    using tree dist by auto
  have sub: "tree_at t a (left t a) x" "tree_at t b (left t b) y" "tree_at t b (right t b) z" using tree by auto
  have out: "a \<notin> set (caddrs C)" "b \<notin> set (caddrs C)" using dist by auto
  note ct = ctx_parent [OF ctx out(1) ab(7)]
  have qab: "C \<noteq> [] \<Longrightarrow> q \<noteq> a \<and> q \<noteq> b" using ct(2) out by blast
  have m: "left t b = ptr ?s y" by (rule tree_ptr [OF sub(2)])
  then have m': "left t b \<in> node_set t" "a \<noteq> left t b" "b \<noteq> left t b"
    using ptr_in [of ?s y] tree_nodes [OF sub(2)] s(1) ab(7,8) dist by auto
  obtain t' where t': "ngx_rbtree_left_rotate t a = Some t'" and rot: "rotated t t' q a b (left t b) C"
    and L: "\<And>v. left t' v = (if v = b then a else if v = q \<and> is_left q C then b else left t v)"
    and R: "\<And>v. right t' v = (if v = a then left t b else if v = q \<and> is_right q C then b else right t v)"
    using left_rotate_fields [OF ab(5,4,2,3,1) m' ct(1) _ ctx_cases [OF ctx]] ct(2) qab by blast
  have P: "parent t' v = (if v = a then b else if v = b then q else if v = left t b \<and> left t b \<noteq> ?s then a else parent t v)" for v
    using rot by (simp add: rotated_def)
  have fr: "same_nodes t t'" "red t' = red t" "root t' = (if C = [] then b else root t)"
    using rot by (simp_all add: rotated_def)
  have fr': "sentinel t' = ?s" "node_set t' = node_set t" using fr(1) by (simp_all add: same_nodes_def)
  have q_out: "v \<noteq> q \<or> C = []" if "v \<in> set (addrs x @ addrs y @ addrs z)" for v
    using that ct(2) dist by auto
  have mx: "left t b \<notin> set (addrs x)" "left t b \<notin> set (addrs z)"
    using ptr_in [of ?s y] dist tree_nodes [OF sub(1)] tree_nodes [OF sub(3)] unfolding m by auto
  have "tree_at t' a (left t a) x"
    by (rule tree_cong [OF sub(1) fr']) (use dist q_out mx in \<open>auto simp: L R P\<close>)
  moreover have "tree_at t' b (right t b) z"
    by (rule tree_cong [OF sub(3) fr']) (use dist q_out mx in \<open>auto simp: L R P\<close>)
  moreover have "tree_at t' a (left t b) y"
  proof (rule tree_reparent [OF sub(2) fr'], goal_cases)
    case 1
    then show ?case using dist by simp
  next
    case 2
    have "v \<noteq> a" "v \<noteq> b" "v \<noteq> ?s" "v \<noteq> q \<or> C = []" if "v \<in> set (addrs y)" for v
      using that dist q_out [of v] tree_nodes [OF sub(2) that] by auto
    then show ?case by (auto simp: L R P)
  qed
  moreover have "left t' a = left t a" "right t' a = left t b" "left t' b = a" "right t' b = right t b"
    using ab(1) qab by (auto simp: L R)
  ultimately have "tree_at t' q b (Nd (Nd x a y) b z)" using ab by (simp add: P fr')
  moreover have "ctx_at t' b q C"
  proof (rule ctx_replace [OF ctx fr'])
    show "distinct (caddrs C)" using dist by simp
    have "left t b \<notin> set (caddrs C) \<or> left t b = ?s" using ptr_in [of ?s y] dist unfolding m by auto
    then show "\<forall>v \<in> set (caddrs C). parent t' v = parent t v" using out by (auto simp: P)
    show "\<forall>v \<in> set (caddrs C). left t' v = (if v = q \<and> is_left q C then b else left t v)" using out by (auto simp: L)
    show "\<forall>v \<in> set (caddrs C). right t' v = (if v = q \<and> is_right q C then b else right t v)" using out by (auto simp: R)
  qed (simp add: fr(3))
  ultimately have "zip_at t' (Nd (Nd x a y) b z) C" using dist s by (auto simp: zip_at_def fr')
  moreover have "parent t' ?s = parent t ?s" using ab(7,8) P [of ?s] by auto
  ultimately show ?thesis using t' fr by blast
qed

lemma right_rotate_zip:
  assumes "zip_at t (Nd (Nd x b y) a z) C"
  shows "\<exists>t'. ngx_rbtree_right_rotate t a = Some t' \<and> zip_at t' (Nd x b (Nd y a z)) C \<and> same_nodes t t' \<and> red t' = red t \<and>
    parent t' (sentinel t) = parent t (sentinel t)"
proof -
  let ?s = "sentinel t"
  obtain q where tree: "tree_at t q a (Nd (Nd x b y) a z)" and ctx: "ctx_at t a q C"
    and dist: "distinct (addrs (Nd (Nd x b y) a z) @ caddrs C)" and s: "?s \<in> node_set t" "0 \<notin> node_set t"
    by (rule zip_parts [OF assms, unfolded ptr.simps])
  have ab: "a \<noteq> b" "a \<in> node_set t" "b \<in> node_set t" "parent t a = q" "left t a = b" "parent t b = a" "a \<noteq> ?s" "b \<noteq> ?s"
    using tree dist by auto
  have sub: "tree_at t b (left t b) x" "tree_at t b (right t b) y" "tree_at t a (right t a) z" using tree by auto
  have out: "a \<notin> set (caddrs C)" "b \<notin> set (caddrs C)" using dist by auto
  note ct = ctx_parent [OF ctx out(1) ab(7)]
  have qab: "C \<noteq> [] \<Longrightarrow> q \<noteq> a \<and> q \<noteq> b" using ct(2) out by blast
  have m: "right t b = ptr ?s y" by (rule tree_ptr [OF sub(2)])
  then have m': "right t b \<in> node_set t" "a \<noteq> right t b" "b \<noteq> right t b"
    using ptr_in [of ?s y] tree_nodes [OF sub(2)] s(1) ab(7,8) dist by auto
  obtain t' where t': "ngx_rbtree_right_rotate t a = Some t'" and rot: "rotated t t' q a b (right t b) C"
    and R: "\<And>v. right t' v = (if v = b then a else if v = q \<and> is_right q C then b else right t v)"
    and L: "\<And>v. left t' v = (if v = a then right t b else if v = q \<and> is_left q C then b else left t v)"
    using right_rotate_fields [OF ab(5,4,2,3,1) m' ct(1) _ ctx_cases [OF ctx]] ct(2) qab by blast
  have P: "parent t' v = (if v = a then b else if v = b then q else if v = right t b \<and> right t b \<noteq> ?s then a else parent t v)" for v
    using rot by (simp add: rotated_def)
  have fr: "same_nodes t t'" "red t' = red t" "root t' = (if C = [] then b else root t)"
    using rot by (simp_all add: rotated_def)
  have fr': "sentinel t' = ?s" "node_set t' = node_set t" using fr(1) by (simp_all add: same_nodes_def)
  have q_out: "v \<noteq> q \<or> C = []" if "v \<in> set (addrs x @ addrs y @ addrs z)" for v
    using that ct(2) dist by auto
  have mx: "right t b \<notin> set (addrs x)" "right t b \<notin> set (addrs z)"
    using ptr_in [of ?s y] dist tree_nodes [OF sub(1)] tree_nodes [OF sub(3)] unfolding m by auto
  have "tree_at t' b (left t b) x"
    by (rule tree_cong [OF sub(1) fr']) (use dist q_out mx in \<open>auto simp: L R P\<close>)
  moreover have "tree_at t' a (right t a) z"
    by (rule tree_cong [OF sub(3) fr']) (use dist q_out mx in \<open>auto simp: L R P\<close>)
  moreover have "tree_at t' a (right t b) y"
  proof (rule tree_reparent [OF sub(2) fr'], goal_cases)
    case 1
    then show ?case using dist by simp
  next
    case 2
    have "v \<noteq> a" "v \<noteq> b" "v \<noteq> ?s" "v \<noteq> q \<or> C = []" if "v \<in> set (addrs y)" for v
      using that dist q_out [of v] tree_nodes [OF sub(2) that] by auto
    then show ?case by (auto simp: L R P)
  qed
  moreover have "right t' a = right t a" "left t' a = right t b" "right t' b = a" "left t' b = left t b"
    using ab(1) qab by (auto simp: L R)
  ultimately have "tree_at t' q b (Nd x b (Nd y a z))" using ab by (simp add: P fr')
  moreover have "ctx_at t' b q C"
  proof (rule ctx_replace [OF ctx fr'])
    show "distinct (caddrs C)" using dist by simp
    have "right t b \<notin> set (caddrs C) \<or> right t b = ?s" using ptr_in [of ?s y] dist unfolding m by auto
    then show "\<forall>v \<in> set (caddrs C). parent t' v = parent t v" using out by (auto simp: P)
    show "\<forall>v \<in> set (caddrs C). left t' v = (if v = q \<and> is_left q C then b else left t v)" using out by (auto simp: L)
    show "\<forall>v \<in> set (caddrs C). right t' v = (if v = q \<and> is_right q C then b else right t v)" using out by (auto simp: R)
  qed (simp add: fr(3))
  ultimately have "zip_at t' (Nd x b (Nd y a z)) C" using dist s by (auto simp: zip_at_def fr')
  moreover have "parent t' ?s = parent t ?s" using ab(7,8) P [of ?s] by auto
  ultimately show ?thesis using t' fr by blast
qed

end
