(* ===== verification/Rbtree_Insert.thy ===== *)
theory Rbtree_Insert
  imports Rbtree "HOL-Library.Multiset"
begin

text \<open>
  Insertion into the red-black tree of \<open>rbtree.c\<close> keeps the tree balanced and puts the node in its place: the
  colour invariants of a subtree and of the way up from it, one lemma per step of the rebalancing loop,
  the loop, the descent, and the theorems.
\<close>

section \<open>Colours\<close>

primrec red_root :: "(nat \<Rightarrow> bool) \<Rightarrow> ptree \<Rightarrow> bool" where
  "red_root c Lf = False"
| "red_root c (Nd l a r) = c a"

primrec bh :: "(nat \<Rightarrow> bool) \<Rightarrow> ptree \<Rightarrow> nat" where
  "bh c Lf = 0"
| "bh c (Nd l a r) = bh c l + (if c a then 0 else 1)"

text \<open>No red node has a red child, and every way down meets the same number of black nodes.\<close>

primrec rb_ok :: "(nat \<Rightarrow> bool) \<Rightarrow> ptree \<Rightarrow> bool" where
  "rb_ok c Lf = True"
| "rb_ok c (Nd l a r) \<longleftrightarrow> (c a \<longrightarrow> \<not> red_root c l \<and> \<not> red_root c r) \<and> bh c l = bh c r \<and> rb_ok c l \<and> rb_ok c r"

text \<open>A way up that fits a black subtree of black height \<open>n\<close>, and whose outermost node is black.\<close>

primrec ctx_ok :: "(nat \<Rightarrow> bool) \<Rightarrow> nat \<Rightarrow> frame list \<Rightarrow> bool" where
  "ctx_ok c n [] = True"
| "ctx_ok c n (f # C) \<longleftrightarrow> rb_ok c (frame_sib f) \<and> bh c (frame_sib f) = n \<and>
     (c (frame_addr f) \<longrightarrow> \<not> red_root c (frame_sib f) \<and> C \<noteq> [] \<and> \<not> c (frame_addr (hd C))) \<and>
     ctx_ok c (n + (if c (frame_addr f) then 0 else 1)) C"

lemma colour_cong:
  "\<forall>a \<in> set (addrs T). c' a = c a \<Longrightarrow> red_root c' T = red_root c T \<and> bh c' T = bh c T \<and> rb_ok c' T = rb_ok c T"
  by (induction T) auto

lemma ctx_ok_cong: "ctx_ok c n C \<Longrightarrow> \<forall>a \<in> set (caddrs C). c' a = c a \<Longrightarrow> ctx_ok c' n C"
proof (induction C arbitrary: n)
  case (Cons f C)
  have "red_root c' (frame_sib f) = red_root c (frame_sib f) \<and> bh c' (frame_sib f) = bh c (frame_sib f) \<and>
      rb_ok c' (frame_sib f) = rb_ok c (frame_sib f)"
    using Cons.prems(2) by (intro colour_cong) auto
  moreover have "C \<noteq> [] \<Longrightarrow> c' (frame_addr (hd C)) = c (frame_addr (hd C))" using Cons.prems(2) by (cases C) auto
  ultimately show ?case using Cons by auto
qed simp

text \<open>A subtree that fits its way up makes a good tree.\<close>

lemma plug_ok:
  "rb_ok c T \<Longrightarrow> ctx_ok c (bh c T) C \<Longrightarrow> red_root c T \<longrightarrow> C = [] \<or> \<not> c (frame_addr (hd C)) \<Longrightarrow>
    rb_ok c (plug T C) \<and> (C \<noteq> [] \<longrightarrow> \<not> red_root c (plug T C))"
proof (induction C arbitrary: T)
  case (Cons f C)
  have "rb_ok c (plug1 T f)" "bh c (plug1 T f) = bh c T + (if c (frame_addr f) then 0 else 1)"
    using Cons.prems by (cases f; auto)+
  moreover have "red_root c (plug1 T f) = c (frame_addr f)" by (cases f) auto
  ultimately show ?case using Cons.IH [of "plug1 T f"] Cons.prems(2) by (cases "C = []") auto
qed simp

section \<open>Moving in the tree\<close>

lemma up_tree:
  "(\<exists>q. tree_at t q (ptr (sentinel t) T) T \<and> ctx_at t (ptr (sentinel t) T) q (f # C)) \<longleftrightarrow>
   (\<exists>q. tree_at t q (ptr (sentinel t) (plug1 T f)) (plug1 T f) \<and> ctx_at t (ptr (sentinel t) (plug1 T f)) q C)"
proof (cases f)
  case (InL a r)
  have "tree_at t a (left t a) T \<longleftrightarrow> tree_at t a (ptr (sentinel t) T) T \<and> left t a = ptr (sentinel t) T"
    using tree_ptr [of t a "left t a" T] by metis
  then show ?thesis by (simp add: InL) blast
next
  case (InR l a)
  have "tree_at t a (right t a) T \<longleftrightarrow> tree_at t a (ptr (sentinel t) T) T \<and> right t a = ptr (sentinel t) T"
    using tree_ptr [of t a "right t a" T] by metis
  then show ?thesis by (simp add: InR) blast
qed

lemma zip_up: "zip_at t T (f # C) = zip_at t (plug1 T f) C"
proof -
  have "distinct (addrs T @ caddrs (f # C)) = distinct (addrs (plug1 T f) @ caddrs C)" by (cases f) auto
  then show ?thesis unfolding zip_at_def up_tree by simp
qed

lemma zip_red [simp]: "zip_at (t\<lparr>red := c\<rparr>) T C = zip_at t T C"
proof -
  have tree: "tree_at (t\<lparr>red := c\<rparr>) q p T = tree_at t q p T" for q p T by (induction T arbitrary: q p) simp_all
  have "frame_at (t\<lparr>red := c\<rparr>) p f = frame_at t p f" for p f by (cases f) (simp_all add: tree)
  then have "ctx_at (t\<lparr>red := c\<rparr>) p q C = ctx_at t p q C" for p q by (induction C arbitrary: p q) simp_all
  then show ?thesis by (simp add: zip_at_def tree)
qed

lemma addrs_plug: "addrs T = addrs T' \<Longrightarrow> addrs (plug T C) = addrs (plug T' C)"
proof (induction C arbitrary: T T')
  case (Cons f C)
  have "addrs (plug1 T f) = addrs (plug1 T' f)" using Cons.prems by (cases f) simp_all
  from Cons.IH [OF this] show ?case by simp
qed simp

section \<open>One step of rebalancing\<close>

text \<open>The state of the loop: the subtree at \<open>node\<close> has a red root, and only its parent may be red too.\<close>

definition fix_inv :: "rbtree \<Rightarrow> ptree \<Rightarrow> nat \<Rightarrow> ptree \<Rightarrow> frame list \<Rightarrow> bool" where
  "fix_inv t l z r C \<longleftrightarrow> zip_at t (Nd l z r) C \<and> red t z \<and> \<not> red t (sentinel t) \<and>
     rb_ok (red t) l \<and> rb_ok (red t) r \<and> bh (red t) l = bh (red t) r \<and> \<not> red_root (red t) l \<and> \<not> red_root (red t) r \<and>
     ctx_ok (red t) (bh (red t) l) C"

text \<open>The state after a rotation: the tree is in order and the loop will stop.\<close>

definition fix_done :: "rbtree \<Rightarrow> nat \<Rightarrow> nat list \<Rightarrow> bool" where
  "fix_done t node as \<longleftrightarrow> (\<exists>T. zip_at t T [] \<and> addrs T = as \<and> rb_ok (red t) T \<and> \<not> red t (sentinel t)) \<and>
     node \<in> node_set t \<and> node \<noteq> root t \<and> parent t node \<in> node_set t \<and> \<not> red t (parent t node)"

text \<open>What the code reads around a node with a parent and a grandparent.\<close>

lemma zip_reads:
  assumes "zip_at t (Nd l z r) (f # g # C)"
  shows "z \<in> node_set t" "z \<noteq> root t" "parent t z = frame_addr f" "frame_addr f \<in> node_set t" "parent t (frame_addr f) = frame_addr g"
    "frame_addr g \<in> node_set t"
    "frame_addr f = left t (frame_addr g) \<longleftrightarrow> (\<exists>u. g = InL (frame_addr g) u)"
    "left t (frame_addr f) = z \<longleftrightarrow> (\<exists>u. f = InL (frame_addr f) u)" "right t (frame_addr f) = z \<longleftrightarrow> (\<exists>u. f = InR u (frame_addr f))"
    "g = InL (frame_addr g) u \<Longrightarrow> right t (frame_addr g) = ptr (sentinel t) u"
    "g = InR u (frame_addr g) \<Longrightarrow> left t (frame_addr g) = ptr (sentinel t) u"
proof -
  obtain q where tree: "tree_at t q z (Nd l z r)" and ctx: "ctx_at t z q (f # g # C)"
    and dist: "distinct (addrs (Nd l z r) @ caddrs (f # g # C))" and s: "sentinel t \<in> node_set t" "0 \<notin> node_set t"
    by (rule zip_parts [OF assms, unfolded ptr.simps])
  have z: "z \<in> node_set t" "parent t z = q" "z \<noteq> sentinel t" using tree by auto
  have f: "q = frame_addr f" "q \<in> node_set t" "q \<noteq> sentinel t" and gctx: "ctx_at t q (parent t q) (g # C)" using ctx by auto
  have g: "parent t q = frame_addr g" "frame_addr g \<in> node_set t" "frame_at t q g" using gctx by auto
  have out: "z \<notin> set (caddrs (f # g # C))" "q \<notin> set (caddrs (g # C))" using dist f(1) by auto
  show "z \<in> node_set t" "parent t z = frame_addr f" "frame_addr f \<in> node_set t" "parent t (frame_addr f) = frame_addr g"
    "frame_addr g \<in> node_set t" using z f g by simp_all
  show "z \<noteq> root t" using ctx_parent(1) [OF ctx out(1) z(3)] by simp
  show "frame_addr f = left t (frame_addr g) \<longleftrightarrow> (\<exists>u. g = InL (frame_addr g) u)"
    using ctx_parent(2) [OF gctx out(2) f(3)] f(1) g(1) by auto
  show "left t (frame_addr f) = z \<longleftrightarrow> (\<exists>u. f = InL (frame_addr f) u)" "right t (frame_addr f) = z \<longleftrightarrow> (\<exists>u. f = InR u (frame_addr f))"
    using ctx_parent(2) [OF ctx out(1) z(3)] f(1) by auto
  show "g = InL (frame_addr g) u \<Longrightarrow> right t (frame_addr g) = ptr (sentinel t) u"
    using g(3) tree_ptr [of t "frame_addr g" "right t (frame_addr g)" u] by (metis frame_at.simps(1))
  show "g = InR u (frame_addr g) \<Longrightarrow> left t (frame_addr g) = ptr (sentinel t) u"
    using g(3) tree_ptr [of t "frame_addr g" "left t (frame_addr g)" u] by (metis frame_at.simps(2))
qed

lemma zip_nodes: "zip_at t T C \<Longrightarrow> a \<in> set (addrs T) \<Longrightarrow> a \<in> node_set t \<and> a \<noteq> sentinel t"
  unfolding zip_at_def using tree_nodes [of t] by blast

lemma zip_distinct: "zip_at t T C \<Longrightarrow> distinct (addrs T @ caddrs C)"
  by (simp add: zip_at_def)

lemma zip_plug: "zip_at t T C = zip_at t (plug T C) []"
  by (induction C arbitrary: T) (simp_all add: zip_up)

text \<open>The uncle is red: recolour and go on two levels up.\<close>

lemma recolour:
  assumes inv: "fix_inv t l z r (f # g # C)" and p: "red t (frame_addr f)" and u: "frame_sib g = Nd ul ua ur" "red t ua"
  shows "\<exists>l' r'. plug1 (plug1 (Nd l z r) f) g = Nd l' (frame_addr g) r' \<and>
    fix_inv (t\<lparr>red := (red t)(frame_addr f := False, ua := False, frame_addr g := True)\<rparr>) l' (frame_addr g) r' C"
proof -
  define c c' where "c = red t" and "c' = (red t)(frame_addr f := False, ua := False, frame_addr g := True)"
  let ?P = "plug1 (Nd l z r) f"
  have zip: "zip_at t (plug1 ?P g) C" using inv by (simp add: fix_inv_def zip_up)
  have dist: "distinct (addrs (Nd l z r) @ caddrs (f # g # C))" using inv zip_distinct unfolding fix_inv_def by blast
  have same: "c' a = c a" if "a \<notin> {frame_addr f, ua, frame_addr g}" for a using that by (simp add: c_def c'_def)
  have set: "c' (frame_addr f) = False" "c' ua = False" "c' (frame_addr g) = True" using dist u(1) by (auto simp: c'_def)
  have ok: "c z" "rb_ok c l" "rb_ok c r" "bh c l = bh c r" "\<not> red_root c l" "\<not> red_root c r" "ctx_ok c (bh c l) (f # g # C)"
    using inv unfolding fix_inv_def c_def by blast+
  have eq: "red_root c' T = red_root c T \<and> bh c' T = bh c T \<and> rb_ok c' T = rb_ok c T" if "T \<in> {l, r, frame_sib f, ul, ur}" for T
    by (rule colour_cong) (use dist u(1) that in \<open>auto intro!: same\<close>)
  have "c' z = c z" by (rule same) (use dist u(1) in auto)
  then have Z: "rb_ok c' (Nd l z r)" "bh c' (Nd l z r) = bh c l" using ok(1-6) eq by simp_all
  then have P: "rb_ok c' ?P" "bh c' ?P = Suc (bh c l)" "\<not> red_root c' ?P"
    using ok(7) eq set(1) p by (cases f; simp add: c_def)+
  have U: "rb_ok c' (frame_sib g)" "bh c' (frame_sib g) = Suc (bh c l)" "\<not> red_root c' (frame_sib g)"
    using ok(7) eq set(2) u p by (simp_all add: c_def)
  have "ctx_ok c (Suc (bh c l)) C" using ok(7) p by (auto simp: c_def)
  then have C: "ctx_ok c' (Suc (bh c l)) C"
    by (rule ctx_ok_cong) (use dist u(1) in \<open>auto intro!: same\<close>)
  have s: "sentinel t \<notin> {frame_addr f, ua, frame_addr g}"
    using zip_nodes [OF zip, of "sentinel t"] u(1) by (cases f; cases g) auto
  then have "\<not> c' (sentinel t)" using inv same by (simp add: fix_inv_def c_def)
  then have n: "\<not> red (t\<lparr>red := c'\<rparr>) (sentinel (t\<lparr>red := c'\<rparr>))" by simp
  have "\<exists>l' r'. plug1 ?P g = Nd l' (frame_addr g) r' \<and> fix_inv (t\<lparr>red := c'\<rparr>) l' (frame_addr g) r' C"
  proof (cases g)
    case (InL a r)
    then show ?thesis using zip P U C set(3) n by (simp add: fix_inv_def)
  next
    case (InR l0 a)
    then show ?thesis using zip P U C set(3) n by (simp add: fix_inv_def)
  qed
  then show ?thesis by (simp only: c'_def)
qed

text \<open>The uncle is black: the turn at the grandparent, on either side.\<close>

lemma turned_ok:
  assumes "rb_ok c x" "rb_ok c y" "rb_ok c u" "bh c x = k" "bh c y = k" "bh c u = k" "\<not> red_root c y" "\<not> red_root c u"
    and "distinct (addrs x @ m # addrs y @ g # addrs u @ caddrs C)" and "ctx_ok c (Suc k) C"
  defines "c' \<equiv> c(m := False, g := True)"
  shows "rb_ok c' (plug (Nd x m (Nd y g u)) C)" "rb_ok c' (plug (Nd (Nd u g y) m x) C)"
proof -
  have eq: "red_root c' T = red_root c T \<and> bh c' T = bh c T \<and> rb_ok c' T = rb_ok c T" if "T \<in> {x, y, u}" for T
    by (rule colour_cong) (use assms(9) that in \<open>auto simp: c'_def\<close>)
  have "ctx_ok c' (Suc k) C" by (rule ctx_ok_cong [OF assms(10)]) (use assms(9) in \<open>auto simp: c'_def\<close>)
  moreover have "\<not> c' m" "c' g" using assms(9) by (auto simp: c'_def)
  ultimately show "rb_ok c' (plug (Nd x m (Nd y g u)) C)" "rb_ok c' (plug (Nd (Nd u g y) m x) C)"
    using assms(1-8) eq plug_ok [of c' "Nd x m (Nd y g u)" C] plug_ok [of c' "Nd (Nd u g y) m x" C] by simp_all
qed

lemma zip_chain:
  assumes "zip_at t (Nd (Nd (Nd l n r) m y) g u) C"
  shows "n \<in> node_set t \<and> m \<in> node_set t \<and> g \<in> node_set t \<and> parent t n = m \<and> parent t m = g"
  using assms by (auto simp: zip_at_def)

lemma zip_chain':
  assumes "zip_at t (Nd u g (Nd y m (Nd l n r))) C"
  shows "n \<in> node_set t \<and> m \<in> node_set t \<and> g \<in> node_set t \<and> parent t n = m \<and> parent t m = g"
  using assms by (auto simp: zip_at_def)

lemma rotated_reads:
  assumes "zip_at t (Nd (Nd l n r) m v) C \<or> zip_at t (Nd v m (Nd l n r)) C"
  shows "n \<in> node_set t" "n \<noteq> root t" "m \<in> node_set t" "parent t n = m"
proof -
  obtain f where "zip_at t (Nd l n r) (f # C)" "frame_addr f = m"
    using assms zip_up [of t "Nd l n r" "InL m v" C] zip_up [of t "Nd l n r" "InR v m" C] by auto
  then obtain q where q: "tree_at t q n (Nd l n r)" "ctx_at t n q (f # C)" "distinct (addrs (Nd l n r) @ caddrs (f # C))"
    using zip_parts [of t "Nd l n r" "f # C", unfolded ptr.simps] by blast
  then show "n \<in> node_set t" "m \<in> node_set t" "parent t n = m" using \<open>frame_addr f = m\<close> by auto
  show "n \<noteq> root t" using ctx_parent(1) [OF q(2)] q(1,3) by auto
qed

text \<open>The turn at the grandparent ends the loop: subtree \<open>x\<close> holds the node the loop goes on with.\<close>

lemma turn:
  assumes x: "x = Nd xl n xr" and "rb_ok (red t) x" "rb_ok (red t) y" "rb_ok (red t) u"
    and "bh (red t) x = k" "bh (red t) y = k" "bh (red t) u = k" "\<not> red_root (red t) y" "\<not> red_root (red t) u"
    and "ctx_ok (red t) (Suc k) C" "\<not> red t (sentinel t)"
  shows "zip_at t (Nd (Nd x m y) g u) C \<Longrightarrow>
      \<exists>t'. insert_turn ngx_rbtree_right_rotate t n = Some (t', n) \<and> same_nodes t t' \<and> fix_done t' n (addrs (plug (Nd (Nd x m y) g u) C))"
    and "zip_at t (Nd u g (Nd y m x)) C \<Longrightarrow>
      \<exists>t'. insert_turn ngx_rbtree_left_rotate t n = Some (t', n) \<and> same_nodes t t' \<and> fix_done t' n (addrs (plug (Nd u g (Nd y m x)) C))"
proof -
  define c' where "c' = (red t)(m := False, g := True)"
  define t1 where "t1 = t\<lparr>red := c'\<rparr>"
  { assume zip: "zip_at t (Nd (Nd x m y) g u) C"
    note ch = zip_chain [OF zip [unfolded x]]
    have dist: "distinct (addrs x @ m # addrs y @ g # addrs u @ caddrs C)" using zip_distinct [OF zip] by simp
    have zip1: "zip_at t1 (Nd (Nd x m y) g u) C" using zip by (simp add: t1_def)
    obtain t2 where t2: "ngx_rbtree_right_rotate t1 g = Some t2" "zip_at t2 (Nd x m (Nd y g u)) C" "same_nodes t1 t2" "red t2 = red t1"
      using right_rotate_zip [OF zip1] by blast
    have "insert_turn ngx_rbtree_right_rotate t n = Some (t2, n)"
      using ch t2(1) by (simp add: insert_turn_def rd_def set_red_def t1_def c'_def)
    moreover have "same_nodes t t2" using t2(3) by (simp add: same_nodes_def t1_def)
    moreover have "fix_done t2 n (addrs (plug (Nd (Nd x m y) g u) C))"
    proof -
      have "zip_at t2 (plug (Nd x m (Nd y g u)) C) []" using t2(2) zip_plug by blast
      moreover have "addrs (plug (Nd x m (Nd y g u)) C) = addrs (plug (Nd (Nd x m y) g u) C)" by (rule addrs_plug) simp
      moreover have "rb_ok (red t2) (plug (Nd x m (Nd y g u)) C)"
        using turned_ok(1) [OF assms(2-9) dist assms(10)] t2(4) by (simp add: t1_def c'_def)
      moreover have "\<not> red t2 (sentinel t2)"
        using assms(11) t2(3,4) zip_nodes [OF zip, of m] zip_nodes [OF zip, of g] by (simp add: t1_def c'_def same_nodes_def)
      moreover have "\<not> red t2 m" using dist t2(4) by (auto simp: t1_def c'_def)
      ultimately show ?thesis
        using rotated_reads [of t2 xl n xr m "Nd y g u" C] t2(2) x by (auto simp: fix_done_def)
    qed
    ultimately show "\<exists>t'. insert_turn ngx_rbtree_right_rotate t n = Some (t', n) \<and> same_nodes t t' \<and>
        fix_done t' n (addrs (plug (Nd (Nd x m y) g u) C))" by blast }
  { assume zip: "zip_at t (Nd u g (Nd y m x)) C"
    note ch = zip_chain' [OF zip [unfolded x]]
    have dist: "distinct (addrs x @ m # addrs y @ g # addrs u @ caddrs C)" using zip_distinct [OF zip] by auto
    have zip1: "zip_at t1 (Nd u g (Nd y m x)) C" using zip by (simp add: t1_def)
    obtain t2 where t2: "ngx_rbtree_left_rotate t1 g = Some t2" "zip_at t2 (Nd (Nd u g y) m x) C" "same_nodes t1 t2" "red t2 = red t1"
      using left_rotate_zip [OF zip1] by blast
    have "insert_turn ngx_rbtree_left_rotate t n = Some (t2, n)"
      using ch t2(1) by (simp add: insert_turn_def rd_def set_red_def t1_def c'_def)
    moreover have "same_nodes t t2" using t2(3) by (simp add: same_nodes_def t1_def)
    moreover have "fix_done t2 n (addrs (plug (Nd u g (Nd y m x)) C))"
    proof -
      have "zip_at t2 (plug (Nd (Nd u g y) m x) C) []" using t2(2) zip_plug by blast
      moreover have "addrs (plug (Nd (Nd u g y) m x) C) = addrs (plug (Nd u g (Nd y m x)) C)" by (rule addrs_plug) simp
      moreover have "rb_ok (red t2) (plug (Nd (Nd u g y) m x) C)"
        using turned_ok(2) [OF assms(2-9) dist assms(10)] t2(4) by (simp add: t1_def c'_def)
      moreover have "\<not> red t2 (sentinel t2)"
        using assms(11) t2(3,4) zip_nodes [OF zip, of m] zip_nodes [OF zip, of g] by (simp add: t1_def c'_def same_nodes_def)
      moreover have "\<not> red t2 m" using dist t2(4) by (auto simp: t1_def c'_def)
      ultimately show ?thesis
        using rotated_reads [of t2 xl n xr m "Nd u g y" C] t2(2) x by (auto simp: fix_done_def)
    qed
    ultimately show "\<exists>t'. insert_turn ngx_rbtree_left_rotate t n = Some (t', n) \<and> same_nodes t t' \<and>
        fix_done t' n (addrs (plug (Nd u g (Nd y m x)) C))" by blast }
qed

text \<open>The outcome of a round: the loop is about to stop, or its invariant holds two levels up.\<close>

definition fix_next :: "rbtree \<Rightarrow> rbtree \<times> nat \<Rightarrow> frame list \<Rightarrow> nat list \<Rightarrow> bool" where
  "fix_next t tn C as \<longleftrightarrow> same_nodes t (fst tn) \<and>
     (fix_done (fst tn) (snd tn) as \<or>
      (\<exists>l r. fix_inv (fst tn) l (snd tn) r C \<and> addrs (plug (Nd l (snd tn) r) C) = as))"

lemma fix_parts:
  assumes "fix_inv t l z r (f # g # C)" and "red t (frame_addr f)"
  shows "zip_at t (Nd l z r) (f # g # C)" "red t z" "\<not> red t (sentinel t)" "rb_ok (red t) (Nd l z r)" "bh (red t) (Nd l z r) = bh (red t) l"
    "rb_ok (red t) l" "rb_ok (red t) r" "bh (red t) r = bh (red t) l" "\<not> red_root (red t) l" "\<not> red_root (red t) r"
    "rb_ok (red t) (frame_sib f)" "bh (red t) (frame_sib f) = bh (red t) l" "\<not> red_root (red t) (frame_sib f)"
    "rb_ok (red t) (frame_sib g)" "bh (red t) (frame_sib g) = bh (red t) l" "ctx_ok (red t) (Suc (bh (red t) l)) C"
  using assms by (auto simp: fix_inv_def)

text \<open>The colour of the uncle as the code reads it; a red one is dealt with in the same way on both sides.\<close>

lemma uncle_reads:
  assumes "fix_inv t l z r (f # g # C)"
  shows "ptr (sentinel t) (frame_sib g) \<in> node_set t"
    "red t (ptr (sentinel t) (frame_sib g)) = red_root (red t) (frame_sib g)"
proof -
  have ctx: "\<exists>q. ctx_at t (ptr (sentinel t) (Nd l z r)) q (f # g # C)" and st: "sentinel t \<in> node_set t" "\<not> red t (sentinel t)"
    using assms by (auto simp: fix_inv_def zip_at_def)
  from ctx have sib: "\<exists>q' p. tree_at t q' p (frame_sib g)" by (cases g) auto
  show "ptr (sentinel t) (frame_sib g) \<in> node_set t" using sib st(1) by (cases "frame_sib g") auto
  show "red t (ptr (sentinel t) (frame_sib g)) = red_root (red t) (frame_sib g)" using st(2) by (cases "frame_sib g") auto
qed

lemma insert_side_recolours:
  assumes inv: "fix_inv t l z r (f # g # C)" and p: "red t (frame_addr f)" and u: "red_root (red t) (frame_sib g)"
    and far: "far t (frame_addr g) = ptr (sentinel t) (frame_sib g)"
  shows "\<exists>tn. insert_side far rot counter t z = Some tn \<and> fix_next t tn C (addrs (plug (Nd l z r) (f # g # C)))"
proof -
  obtain ul ua ur where u: "frame_sib g = Nd ul ua ur" "red t ua" using u by (cases "frame_sib g") auto
  let ?t = "t\<lparr>red := (red t)(frame_addr f := False, ua := False, frame_addr g := True)\<rparr>"
  obtain l' r' where lr: "plug1 (plug1 (Nd l z r) f) g = Nd l' (frame_addr g) r'" "fix_inv ?t l' (frame_addr g) r' C"
    using recolour [OF inv p u] by blast
  have "insert_side far rot counter t z = Some (?t, frame_addr g)"
    using zip_reads(1-6) [OF fix_parts(1) [OF inv p]] uncle_reads [OF inv] far u by (simp add: insert_side_def rd_def set_red_def)
  moreover have "fix_next t (?t, frame_addr g) C (addrs (plug (Nd l z r) (f # g # C)))"
    using lr by (auto simp: fix_next_def same_nodes_def)
  ultimately show ?thesis by blast
qed

lemma insert_side_left:
  assumes inv: "fix_inv t l z r (f # g # C)" and p: "red t (frame_addr f)" and g: "g = InL gg u"
  shows "\<exists>tn. insert_side right ngx_rbtree_right_rotate ngx_rbtree_left_rotate t z = Some tn \<and>
    fix_next t tn C (addrs (plug (Nd l z r) (f # g # C)))"
proof -
  note parts = fix_parts [OF inv p]
  note rd' = zip_reads [OF parts(1)]
  have gg: "frame_addr g = gg" "frame_sib g = u" by (simp_all add: g)
  have temp: "right t gg = ptr (sentinel t) u" using rd'(10) g by simp
  note un = uncle_reads [OF inv, unfolded gg]
  show ?thesis
  proof (cases "red_root (red t) u")
    case True
    then show ?thesis using insert_side_recolours [OF inv p] gg temp by simp
  next
    case False
    note [simp] = gg
    show ?thesis
    proof (cases f)
      case (InL pp s)
      have zip: "zip_at t (Nd (Nd (Nd l z r) pp s) gg u) C" using parts(1) by (simp add: zip_up g InL)
      obtain t' where t': "insert_turn ngx_rbtree_right_rotate t z = Some (t', z)" "same_nodes t t'"
        "fix_done t' z (addrs (plug (Nd (Nd (Nd l z r) pp s) gg u) C))"
        using turn(1) [of "Nd l z r" l z r t s u "bh (red t) l" C pp gg] parts False InL zip g by auto
      have "insert_side right ngx_rbtree_right_rotate ngx_rbtree_left_rotate t z = insert_turn ngx_rbtree_right_rotate t z"
        using rd' temp un False InL by (auto simp: insert_side_def rd_def)
      then show ?thesis using t' by (auto simp: fix_next_def InL g)
    next
      case (InR s pp)
      have zip: "zip_at t (Nd s pp (Nd l z r)) (InL gg u # C)" using parts(1) by (simp add: zip_up g InR)
      obtain t1 where t1: "ngx_rbtree_left_rotate t pp = Some t1" "zip_at t1 (Nd (Nd s pp l) z r) (InL gg u # C)"
        "same_nodes t t1" "red t1 = red t" using left_rotate_zip [OF zip] by blast
      have zip1: "zip_at t1 (Nd (Nd (Nd s pp l) z r) gg u) C" using t1(2) by (simp add: zip_up)
      have x: "rb_ok (red t1) (Nd s pp l)" "bh (red t1) (Nd s pp l) = bh (red t) l"
        using parts p InR by (simp_all add: t1(4))
      have s1: "\<not> red t1 (sentinel t1)" using parts(3) t1(3,4) by (simp add: same_nodes_def)
      obtain t' where t': "insert_turn ngx_rbtree_right_rotate t1 pp = Some (t', pp)" "same_nodes t1 t'"
        "fix_done t' pp (addrs (plug (Nd (Nd (Nd s pp l) z r) gg u) C))"
        using turn(1) [of "Nd s pp l" s pp l t1 r u "bh (red t) l" C z gg] parts False x s1 zip1 g by (auto simp: t1(4))
      have "insert_side right ngx_rbtree_right_rotate ngx_rbtree_left_rotate t z = insert_turn ngx_rbtree_right_rotate t1 pp"
        using rd' temp un False InR t1(1) by (auto simp: insert_side_def rd_def)
      moreover have "addrs (plug (Nd (Nd (Nd s pp l) z r) gg u) C) = addrs (plug (Nd (Nd s pp (Nd l z r)) gg u) C)"
        by (rule addrs_plug) simp
      ultimately show ?thesis using t' t1(3) by (auto simp: fix_next_def InR g same_nodes_def)
    qed
  qed
qed

lemma insert_side_right:
  assumes inv: "fix_inv t l z r (f # g # C)" and p: "red t (frame_addr f)" and g: "g = InR u gg"
  shows "\<exists>tn. insert_side left ngx_rbtree_left_rotate ngx_rbtree_right_rotate t z = Some tn \<and>
    fix_next t tn C (addrs (plug (Nd l z r) (f # g # C)))"
proof -
  note parts = fix_parts [OF inv p]
  note rd' = zip_reads [OF parts(1)]
  have gg: "frame_addr g = gg" "frame_sib g = u" by (simp_all add: g)
  have temp: "left t gg = ptr (sentinel t) u" using rd'(11) g by simp
  note un = uncle_reads [OF inv, unfolded gg]
  show ?thesis
  proof (cases "red_root (red t) u")
    case True
    then show ?thesis using insert_side_recolours [OF inv p] gg temp by simp
  next
    case False
    note [simp] = gg
    show ?thesis
    proof (cases f)
      case (InR s pp)
      have zip: "zip_at t (Nd u gg (Nd s pp (Nd l z r))) C" using parts(1) by (simp add: zip_up g InR)
      obtain t' where t': "insert_turn ngx_rbtree_left_rotate t z = Some (t', z)" "same_nodes t t'"
        "fix_done t' z (addrs (plug (Nd u gg (Nd s pp (Nd l z r))) C))"
        using turn(2) [of "Nd l z r" l z r t s u "bh (red t) l" C gg pp] parts False InR zip g by auto
      have "insert_side left ngx_rbtree_left_rotate ngx_rbtree_right_rotate t z = insert_turn ngx_rbtree_left_rotate t z"
        using rd' temp un False InR by (auto simp: insert_side_def rd_def)
      then show ?thesis using t' by (auto simp: fix_next_def InR g)
    next
      case (InL pp s)
      have zip: "zip_at t (Nd (Nd l z r) pp s) (InR u gg # C)" using parts(1) by (simp add: zip_up g InL)
      obtain t1 where t1: "ngx_rbtree_right_rotate t pp = Some t1" "zip_at t1 (Nd l z (Nd r pp s)) (InR u gg # C)"
        "same_nodes t t1" "red t1 = red t" using right_rotate_zip [OF zip] by blast
      have zip1: "zip_at t1 (Nd u gg (Nd l z (Nd r pp s))) C" using t1(2) by (simp add: zip_up)
      have x: "rb_ok (red t1) (Nd r pp s)" "bh (red t1) (Nd r pp s) = bh (red t) l"
        using parts p InL by (simp_all add: t1(4))
      have s1: "\<not> red t1 (sentinel t1)" using parts(3) t1(3,4) by (simp add: same_nodes_def)
      obtain t' where t': "insert_turn ngx_rbtree_left_rotate t1 pp = Some (t', pp)" "same_nodes t1 t'"
        "fix_done t' pp (addrs (plug (Nd u gg (Nd l z (Nd r pp s))) C))"
        using turn(2) [of "Nd r pp s" r pp s t1 l u "bh (red t) l" C gg z] parts False x s1 zip1 g by (auto simp: t1(4))
      have "insert_side left ngx_rbtree_left_rotate ngx_rbtree_right_rotate t z = insert_turn ngx_rbtree_left_rotate t1 pp"
        using rd' temp un False InL t1(1) by (auto simp: insert_side_def rd_def)
      moreover have "addrs (plug (Nd u gg (Nd l z (Nd r pp s))) C) = addrs (plug (Nd u gg (Nd (Nd l z r) pp s)) C)"
        by (rule addrs_plug) simp
      ultimately show ?thesis using t' t1(3) by (auto simp: fix_next_def InL g same_nodes_def)
    qed
  qed
qed

section \<open>The loop\<close>

text \<open>A coloured tree in the store: the addresses in order.\<close>

definition rb_tree :: "rbtree \<Rightarrow> nat list \<Rightarrow> bool" where
  "rb_tree t as \<longleftrightarrow> (\<exists>T. zip_at t T [] \<and> addrs T = as \<and> rb_ok (red t) T) \<and> \<not> red t (sentinel t)"

lemma insert_fix_stop: "fix_done t node as \<Longrightarrow> insert_fix t node = Some t \<and> rb_tree t as"
  by (auto simp: fix_done_def rb_tree_def insert_fix.simps [of t node] rd_def)

lemma insert_fix_top:
  assumes "fix_inv t l z r C" and "C = [] \<or> \<not> red t (frame_addr (hd C))"
  shows "insert_fix t z = Some t \<and> rb_tree t (addrs (plug (Nd l z r) C))"
proof -
  have ok: "rb_ok (red t) (plug (Nd l z r) C)"
    using assms plug_ok [of "red t" "Nd l z r" C] by (auto simp: fix_inv_def)
  have zip: "zip_at t (Nd l z r) C" "\<not> red t (sentinel t)" using assms(1) by (auto simp: fix_inv_def)
  obtain q where q: "tree_at t q z (Nd l z r)" "ctx_at t z q C" "distinct (addrs (Nd l z r) @ caddrs C)"
    using zip_parts [OF zip(1), unfolded ptr.simps] by blast
  have z: "z \<in> node_set t" "z \<noteq> sentinel t" "parent t z = q" "z \<notin> set (caddrs C)" using q(1,3) by auto
  have "insert_fix t z = Some t"
  proof (cases C)
    case Nil
    then have "z = root t" using q(2) by simp
    then show ?thesis by (subst insert_fix.simps) simp
  next
    case (Cons f C')
    then have "z \<noteq> root t" "q \<in> node_set t" "q = frame_addr f" using ctx_parent [OF q(2) z(4,2)] q(2) by auto
    then show ?thesis using z assms(2) Cons by (simp add: insert_fix.simps [of t z] rd_def)
  qed
  then show ?thesis using ok zip zip_plug [of t "Nd l z r" C] by (auto simp: rb_tree_def)
qed

lemma same_nodes_trans: "same_nodes t t' \<Longrightarrow> same_nodes t' t'' \<Longrightarrow> same_nodes t t''"
  by (simp add: same_nodes_def)

lemma insert_fix_spec:
  "fix_inv t l z r C \<Longrightarrow> \<exists>t'. insert_fix t z = Some t' \<and> same_nodes t t' \<and> rb_tree t' (addrs (plug (Nd l z r) C))"
proof (induction "length C" arbitrary: t l z r C rule: less_induct)
  case less
  show ?case
  proof (cases "C = [] \<or> \<not> red t (frame_addr (hd C))")
    case True
    then show ?thesis using insert_fix_top [OF less.prems] by (auto simp: same_nodes_def)
  next
    case False
    then obtain f C1 where C1: "C = f # C1" "red t (frame_addr f)" by (cases C) auto
    moreover have "C1 \<noteq> []" using less.prems C1 by (auto simp: fix_inv_def)
    ultimately obtain g C' where C: "C = f # g # C'" by (cases C1) auto
    note inv = less.prems [unfolded C] and p = C1(2)
    note rd' = zip_reads [OF fix_parts(1) [OF inv p]]
    have round: "\<exists>tn. (if frame_addr f = left t (frame_addr g)
        then insert_side right ngx_rbtree_right_rotate ngx_rbtree_left_rotate t z
        else insert_side left ngx_rbtree_left_rotate ngx_rbtree_right_rotate t z) = Some tn \<and>
      fix_next t tn C' (addrs (plug (Nd l z r) C))"
    proof (cases g)
      case (InL gg u)
      then show ?thesis using insert_side_left [OF inv p InL] rd'(7) by (simp add: C)
    next
      case (InR u gg)
      then show ?thesis using insert_side_right [OF inv p InR] rd'(7) by (simp add: C)
    qed
    then obtain t1 n1 where round: "(if frame_addr f = left t (frame_addr g)
        then insert_side right ngx_rbtree_right_rotate ngx_rbtree_left_rotate t z
        else insert_side left ngx_rbtree_left_rotate ngx_rbtree_right_rotate t z) = Some (t1, n1)"
      and nxt: "fix_next t (t1, n1) C' (addrs (plug (Nd l z r) C))" by auto
    have unf: "insert_fix t z = insert_fix t1 n1"
      using rd'(1-6) p round by (simp add: insert_fix.simps [of t z] rd_def)
    show ?thesis
    proof (cases "fix_done t1 n1 (addrs (plug (Nd l z r) C))")
      case True
      then show ?thesis using insert_fix_stop [OF True] nxt unf by (auto simp: fix_next_def)
    next
      case False
      then obtain l1 r1 where 1: "fix_inv t1 l1 n1 r1 C'" "addrs (plug (Nd l1 n1 r1) C') = addrs (plug (Nd l z r) C)"
        "same_nodes t t1" using nxt by (auto simp: fix_next_def)
      have "length C' < length C" by (simp add: C)
      from less.hyps [OF this 1(1)] obtain t' where "insert_fix t1 n1 = Some t'" "same_nodes t1 t'"
        "rb_tree t' (addrs (plug (Nd l1 n1 r1) C'))" by blast
      then show ?thesis using 1 unf same_nodes_trans by auto
    qed
  qed
qed

section \<open>The descent\<close>

text \<open>Where the code goes from a subtree when \<open>gl\<close> tells it to go to the left, and the tree it then has.\<close>

primrec hole :: "(nat \<Rightarrow> bool) \<Rightarrow> ptree \<Rightarrow> frame list \<Rightarrow> frame list" where
  "hole gl Lf C = C"
| "hole gl (Nd l a r) C = (if gl a then hole gl l (InL a r # C) else hole gl r (InR l a # C))"

primrec ins :: "(nat \<Rightarrow> bool) \<Rightarrow> nat \<Rightarrow> ptree \<Rightarrow> ptree" where
  "ins gl n Lf = Nd Lf n Lf"
| "ins gl n (Nd l a r) = (if gl a then Nd (ins gl n l) a r else Nd l a (ins gl n r))"

lemma plug_hole: "plug (Nd Lf n Lf) (hole gl T C) = plug (ins gl n T) C"
  by (induction T arbitrary: C) simp_all

lemma addrs_ins:
  "sorted_wrt (\<lambda>a b. gl a \<longrightarrow> gl b) (addrs T) \<Longrightarrow>
    addrs (ins gl n T) = takeWhile (\<lambda>a. \<not> gl a) (addrs T) @ n # dropWhile (\<lambda>a. \<not> gl a) (addrs T)"
proof (induction T)
  case (Nd l a r)
  show ?case
  proof (cases "gl a")
    case True
    have "takeWhile (\<lambda>a. \<not> gl a) (addrs l @ a # addrs r) = takeWhile (\<lambda>a. \<not> gl a) (addrs l)"
      "dropWhile (\<lambda>a. \<not> gl a) (addrs l @ a # addrs r) = dropWhile (\<lambda>a. \<not> gl a) (addrs l) @ a # addrs r"
      using True by (auto simp: takeWhile_append dropWhile_append takeWhile_eq_all_conv [THEN iffD2])
    then show ?thesis using Nd True by (simp add: sorted_wrt_append)
  next
    case False
    then have "\<forall>b \<in> set (addrs l). \<not> gl b" using Nd.prems by (auto simp: sorted_wrt_append)
    then show ?thesis using Nd False by (simp add: sorted_wrt_append takeWhile_append2 dropWhile_append2)
  qed
qed simp

lemma mset_ins: "mset (addrs (ins gl n T)) = add_mset n (mset (addrs T))"
  by (induction T) auto

lemma zip_fresh:
  assumes "zip_at t Lf (f # C)" and "n \<in> node_set t" "n \<noteq> sentinel t" "n \<notin> set (caddrs (f # C))"
    and "a = frame_addr f"
    and t': "t' = t\<lparr>parent := (parent t)(n := a), left := (if is_left a (f # C) then (left t)(a := n) else left t)(n := sentinel t),
      right := (if is_left a (f # C) then right t else (right t)(a := n))(n := sentinel t), red := (red t)(n := True)\<rparr>"
  shows "zip_at t' (Nd Lf n Lf) (f # C)"
proof -
  obtain q where ctx: "ctx_at t (sentinel t) q (f # C)" and dist: "distinct (caddrs (f # C))"
    and s: "sentinel t \<in> node_set t" "0 \<notin> node_set t" using assms(1) by (auto simp: zip_at_def)
  then have q: "q = a" using assms(5) by simp
  have side: "is_left a (f # C) \<longleftrightarrow> \<not> is_right a (f # C)" using assms(5) by (cases f) auto
  have "ctx_at t' n a (f # C)"
  proof (rule ctx_replace [OF ctx [unfolded q]])
    show "distinct (caddrs (f # C))" by (rule dist)
    show "\<forall>v \<in> set (caddrs (f # C)). parent t' v = parent t v" using assms(4) by (auto simp: t')
    show "\<forall>v \<in> set (caddrs (f # C)). left t' v = (if v = a \<and> is_left a (f # C) then n else left t v)"
      using assms(4) by (auto simp: t')
    show "\<forall>v \<in> set (caddrs (f # C)). right t' v = (if v = a \<and> is_right a (f # C) then n else right t v)"
      using assms(4) side by (auto simp: t')
  qed (simp_all add: t')
  moreover have "tree_at t' a n (Nd Lf n Lf)" using assms(2,3) by (simp add: t')
  ultimately show ?thesis using assms(4) dist s by (auto simp: zip_at_def t')
qed

lemma insert_at_spec:
  assumes "zip_at t T C" and "T = Nd l a r" and "n \<in> node_set t" "n \<noteq> sentinel t" "n \<notin> set (addrs T @ caddrs C)"
  shows "\<exists>t'. insert_at lt t a n = Some t' \<and> zip_at t' (Nd Lf n Lf) (hole (\<lambda>b. lt (key t n) (key t b)) T C) \<and>
    same_nodes t t' \<and> red t' = (red t)(n := True)"
  using assms
proof (induction T arbitrary: C l a r)
  case (Nd l1 a1 r1)
  then have eq: "l1 = l" "a1 = a" "r1 = r" by simp_all
  note zip = Nd.prems(1) [unfolded eq] and fresh = Nd.prems(3-5) [unfolded eq]
  note IH = Nd.IH [unfolded eq]
  obtain q where tree: "tree_at t q a (Nd l a r)" and s: "sentinel t \<in> node_set t"
    using zip by (auto simp: zip_at_def)
  then have a: "a \<in> node_set t" "left t a = ptr (sentinel t) l" "right t a = ptr (sentinel t) r"
    using tree_ptr [of t a] by auto
  have down: "zip_at t l (InL a r # C)" "zip_at t r (InR l a # C)" using zip by (simp_all add: zip_up)
  have sub: "ptr (sentinel t) (Nd x b y) \<noteq> sentinel t" if "Nd x b y = l \<or> Nd x b y = r" for x b y
    using tree that by auto
  have an: "a \<noteq> n" using fresh(3) by auto
  show ?case
  proof (cases "lt (key t n) (key t a)")
    case True
    show ?thesis
    proof (cases l)
      case Lf
      have "zip_at (t\<lparr>parent := (parent t)(n := a), left := (left t)(a := n, n := sentinel t),
          right := (right t)(n := sentinel t), red := (red t)(n := True)\<rparr>) (Nd Lf n Lf) (InL a r # C)"
        by (rule zip_fresh [OF down(1) [unfolded Lf] fresh(1,2), of a]) (use fresh(3) in auto)
      then show ?thesis using True Lf a an fresh eq
        by (auto simp: insert_at.simps [of lt t a n] rd_def set_left_def set_right_def set_parent_def set_red_def same_nodes_def)
    next
      case (Nd x b y)
      have "insert_at lt t a n = insert_at lt t b n"
        using True Nd a sub [of x b y] fresh(1) by (simp add: insert_at.simps [of lt t a n] rd_def)
      moreover have "n \<notin> set (addrs l @ caddrs (InL a r # C))" using fresh(3) by auto
      ultimately show ?thesis using IH(1) [OF down(1) Nd fresh(1,2)] True eq by simp
    qed
  next
    case False
    show ?thesis
    proof (cases r)
      case Lf
      have "zip_at (t\<lparr>parent := (parent t)(n := a), left := (left t)(n := sentinel t),
          right := (right t)(a := n, n := sentinel t), red := (red t)(n := True)\<rparr>) (Nd Lf n Lf) (InR l a # C)"
        by (rule zip_fresh [OF down(2) [unfolded Lf] fresh(1,2), of a]) (use fresh(3) in auto)
      then show ?thesis using False Lf a an fresh eq
        by (auto simp: insert_at.simps [of lt t a n] rd_def set_left_def set_right_def set_parent_def set_red_def same_nodes_def)
    next
      case (Nd x b y)
      have "insert_at lt t a n = insert_at lt t b n"
        using False Nd a sub [of x b y] fresh(1) by (simp add: insert_at.simps [of lt t a n] rd_def)
      moreover have "n \<notin> set (addrs r @ caddrs (InR l a # C))" using fresh(3) by auto
      ultimately show ?thesis using IH(2) [OF down(2) Nd fresh(1,2)] False eq by simp
    qed
  qed
qed simp

section \<open>The whole insertion\<close>

lemma fresh_fix_inv:
  assumes "zip_at t T []" and "rb_ok (red t) T" "\<not> red t (sentinel t)" and "zip_at t' (Nd Lf n Lf) (hole gl T [])"
    and "same_nodes t t'" "red t' = (red t)(n := True)" and "n \<notin> set (addrs T)" "n \<noteq> sentinel t" "\<not> red_root (red t) T"
  shows "fix_inv t' Lf n Lf (hole gl T [])"
proof -
  have "ctx_ok c k C \<Longrightarrow> rb_ok c T \<Longrightarrow> bh c T = k \<Longrightarrow> red_root c T \<longrightarrow> C \<noteq> [] \<and> \<not> c (frame_addr (hd C)) \<Longrightarrow>
      ctx_ok c 0 (hole gl T C)" for c k C
  proof (induction T arbitrary: k C)
    case (Nd l a r)
    show ?case using Nd.IH(1) [of "bh c r" "InL a r # C"] Nd.IH(2) [of "bh c r" "InR l a # C"] Nd.prems by auto
  qed simp
  from this [of "red t" "bh (red t) T" "[]"] have ctx: "ctx_ok (red t) 0 (hole gl T [])" using assms(2,9) by simp
  have "set (caddrs (hole gl T C)) \<subseteq> set (addrs T) \<union> set (caddrs C)" for C
  proof (induction T arbitrary: C)
    case (Nd l a r)
    show ?case using Nd.IH(1) [of "InL a r # C"] Nd.IH(2) [of "InR l a # C"] by auto
  qed simp
  from this [of "[]"] have "n \<notin> set (caddrs (hole gl T []))" using assms(7) by auto
  then have "ctx_ok (red t') 0 (hole gl T [])"
    unfolding assms(6) by (intro ctx_ok_cong [OF ctx]) auto
  then show ?thesis using assms(3-6,8) by (simp add: fix_inv_def same_nodes_def)
qed

lemma black_root:
  assumes "rb_tree t as" and "as \<noteq> []"
  shows "\<exists>t'. set_red t (root t) False = Some t' \<and> same_nodes t t' \<and> rb_tree t' as \<and> \<not> red t' (root t')"
proof -
  obtain T where T: "zip_at t T []" "addrs T = as" "rb_ok (red t) T" "\<not> red t (sentinel t)"
    using assms(1) by (auto simp: rb_tree_def)
  then obtain l r where Nd: "T = Nd l (root t) r" "root t \<in> node_set t"
    using assms(2) by (cases T) (auto simp: zip_at_def)
  let ?c = "(red t)(root t := False)"
  have dist: "distinct (addrs T)" using zip_distinct [OF T(1)] by simp
  have eq: "red_root ?c S = red_root (red t) S \<and> bh ?c S = bh (red t) S \<and> rb_ok ?c S = rb_ok (red t) S" if "S \<in> {l, r}" for S
    by (rule colour_cong) (use dist that Nd(1) in auto)
  then have "rb_ok ?c T" using T(3) Nd(1) by auto
  then have "rb_tree (t\<lparr>red := ?c\<rparr>) as" using T by (auto simp: rb_tree_def)
  then show ?thesis using Nd(2) by (simp add: set_red_def same_nodes_def)
qed

lemma insert_spec:
  assumes tree: "rb_tree t as" "\<not> red t (root t)" and n: "n \<in> node_set t" "n \<noteq> sentinel t" "n \<notin> set as"
  shows "\<exists>t' as'. ngx_rbtree_insert lt t n = Some t' \<and> same_nodes t t' \<and> rb_tree t' as' \<and> \<not> red t' (root t') \<and>
    mset as' = add_mset n (mset as) \<and>
    (sorted_wrt (\<lambda>a b. lt (key t n) (key t a) \<longrightarrow> lt (key t n) (key t b)) as \<longrightarrow>
      as' = takeWhile (\<lambda>a. \<not> lt (key t n) (key t a)) as @ n # dropWhile (\<lambda>a. \<not> lt (key t n) (key t a)) as)"
proof -
  obtain T where T: "zip_at t T []" "addrs T = as" "rb_ok (red t) T" "\<not> red t (sentinel t)"
    using tree(1) by (auto simp: rb_tree_def)
  let ?gl = "\<lambda>a. lt (key t n) (key t a)"
  show ?thesis
  proof (cases T)
    case Lf
    let ?t = "t\<lparr>parent := (parent t)(n := 0), left := (left t)(n := sentinel t), right := (right t)(n := sentinel t),
      red := (red t)(n := False), root := n\<rparr>"
    have "root t = sentinel t" using T(1) Lf by (simp add: zip_at_def)
    then have "ngx_rbtree_insert lt t n = Some ?t"
      using n(1) by (simp add: ngx_rbtree_insert_def set_parent_def set_left_def set_right_def set_red_def)
    moreover have "zip_at ?t (Nd Lf n Lf) []" using T(1) n by (simp add: zip_at_def)
    then have "rb_tree ?t [n]" using T(4) by (auto simp: rb_tree_def intro!: exI [of _ "Nd Lf n Lf"])
    ultimately show ?thesis using T(2) Lf by (intro exI [of _ ?t] exI [of _ "[n]"]) (auto simp: same_nodes_def)
  next
    case (Nd l a r)
    have a: "a = root t" "a \<noteq> sentinel t" using T(1) Nd by (auto simp: zip_at_def)
    obtain t1 where t1: "insert_at lt t a n = Some t1" "zip_at t1 (Nd Lf n Lf) (hole ?gl T [])" "same_nodes t t1"
      "red t1 = (red t)(n := True)" using insert_at_spec [OF T(1) Nd n(1,2)] T(2) n(3) by auto
    have "\<not> red_root (red t) T" using tree(2) a Nd by simp
    from fresh_fix_inv [OF T(1,3,4) t1(2-4) n(3) [folded T(2)] n(2) this] obtain t2 where
      t2: "insert_fix t1 n = Some t2" "same_nodes t1 t2" "rb_tree t2 (addrs (ins ?gl n T))"
      using insert_fix_spec [of t1 Lf n Lf "hole ?gl T []"] plug_hole [of n ?gl T "[]"] by auto
    have "addrs (ins ?gl n T) \<noteq> []" using mset_ins [of ?gl n T] by auto
    from black_root [OF t2(3) this] obtain t3 where
      t3: "set_red t2 (root t2) False = Some t3" "same_nodes t2 t3" "rb_tree t3 (addrs (ins ?gl n T))" "\<not> red t3 (root t3)" by blast
    have "ngx_rbtree_insert lt t n = Some t3" using a t1(1) t2(1) t3(1) by (simp add: ngx_rbtree_insert_def)
    moreover have "same_nodes t t3" using t1(3) t2(2) t3(2) same_nodes_trans by blast
    moreover have "mset (addrs (ins ?gl n T)) = add_mset n (mset as)" using mset_ins [of ?gl n T] T(2) by simp
    moreover note addrs_ins [of ?gl T n, unfolded T(2)]
    ultimately show ?thesis using t3(3,4) by (intro exI [of _ t3] exI [of _ "addrs (ins ?gl n T)"]) simp
  qed
qed

section \<open>Depth\<close>

primrec depth :: "ptree \<Rightarrow> nat" where
  "depth Lf = 0"
| "depth (Nd l a r) = Suc (max (depth l) (depth r))"

lemma depth_bh: "rb_ok c T \<Longrightarrow> depth T \<le> 2 * bh c T + (if red_root c T then 1 else 0)"
proof (induction T)
  case (Nd l a r)
  then have "depth l \<le> 2 * bh c l + (if red_root c l then 1 else 0)" "depth r \<le> 2 * bh c l + (if red_root c r then 1 else 0)"
    by auto
  then show ?case using Nd.prems by (auto split: if_splits)
qed simp

lemma bh_size: "rb_ok c T \<Longrightarrow> 2 ^ bh c T \<le> length (addrs T) + 1"
proof (induction T)
  case (Nd l a r)
  then have "2 ^ bh c l \<le> length (addrs l) + 1" "(2 :: nat) ^ bh c l \<le> length (addrs r) + 1" by auto
  then show ?case using Nd.prems by auto
qed simp

section \<open>The interface of the comparison\<close>

lemma sorted_wrt_between:
  "sorted_wrt R xs \<Longrightarrow> sorted_wrt R ys \<Longrightarrow> \<forall>x \<in> set xs. \<forall>y \<in> set ys. R x y \<Longrightarrow> \<forall>x \<in> set xs. R x n \<Longrightarrow>
    \<forall>y \<in> set ys. R n y \<Longrightarrow> sorted_wrt R (xs @ n # ys)"
  by (auto simp: sorted_wrt_append)

text \<open>What a tree asks of the comparison it is given: on the keys in use, \<open>lt\<close> compares positions.\<close>

locale insert_order =
  fixes lt :: "u32 \<Rightarrow> u32 \<Rightarrow> bool" and pos :: "u32 \<Rightarrow> u32" and usable :: "u32 \<Rightarrow> bool"
  assumes lt_pos: "usable a \<Longrightarrow> usable b \<Longrightarrow> lt a b \<longleftrightarrow> pos a < pos b"
begin

lemma insert_in_order:
  assumes "rb_tree t as" "\<not> red t (root t)" and "n \<in> node_set t" "n \<noteq> sentinel t" "n \<notin> set as"
    and "list_all (\<lambda>a. usable (key t a)) (n # as)" and "sorted (map (\<lambda>a. pos (key t a)) as)"
  shows "\<exists>t' as'. ngx_rbtree_insert lt t n = Some t' \<and> same_nodes t t' \<and> rb_tree t' as' \<and> \<not> red t' (root t') \<and>
    sorted (map (\<lambda>a. pos (key t' a)) as') \<and>
    as' = takeWhile (\<lambda>a. pos (key t a) \<le> pos (key t n)) as @ n # dropWhile (\<lambda>a. pos (key t a) \<le> pos (key t n)) as"
proof -
  have eq: "\<not> lt (key t n) (key t a) \<longleftrightarrow> pos (key t a) \<le> pos (key t n)" if "a \<in> set as" for a
    using that assms(6) lt_pos [of "key t n" "key t a"] by (auto simp: list_all_iff)
  let ?P = "\<lambda>a. pos (key t a) \<le> pos (key t n)"
  have tw: "takeWhile (\<lambda>a. \<not> lt (key t n) (key t a)) as = takeWhile ?P as"
    "dropWhile (\<lambda>a. \<not> lt (key t n) (key t a)) as = dropWhile ?P as"
    using eq by (auto intro!: takeWhile_cong dropWhile_cong)
  have wrt: "sorted_wrt (\<lambda>a b. pos (key t a) \<le> pos (key t b)) as" using assms(7) by (simp add: sorted_map)
  then have "sorted_wrt (\<lambda>a b. lt (key t n) (key t a) \<longrightarrow> lt (key t n) (key t b)) as"
    by (rule sorted_wrt_mono_rel [rotated]) (use assms(6) lt_pos in \<open>auto simp: list_all_iff\<close>)
  moreover have "sorted (map (\<lambda>a. pos (key t a)) (takeWhile ?P as @ n # dropWhile ?P as))"
  proof -
    have le: "\<forall>a \<in> set (takeWhile ?P as). ?P a" using set_takeWhileD by fast
    have "sorted_wrt (\<lambda>a b. pos (key t a) \<le> pos (key t b)) (takeWhile ?P as @ dropWhile ?P as)" using wrt by simp
    then have wrt': "sorted_wrt (\<lambda>a b. pos (key t a) \<le> pos (key t b)) (takeWhile ?P as)"
      "sorted_wrt (\<lambda>a b. pos (key t a) \<le> pos (key t b)) (dropWhile ?P as)"
      "\<forall>a \<in> set (takeWhile ?P as). \<forall>b \<in> set (dropWhile ?P as). pos (key t a) \<le> pos (key t b)"
      unfolding sorted_wrt_append by blast+
    have "\<forall>b \<in> set (dropWhile ?P as). pos (key t n) \<le> pos (key t b)"
    proof (cases "dropWhile ?P as")
      case (Cons b bs)
      then have "\<not> ?P b" using hd_dropWhile [of ?P as] by simp
      then show ?thesis using wrt'(2) Cons by auto
    next
      case Nil
      show ?thesis unfolding Nil by simp
    qed
    then show ?thesis unfolding sorted_map by (intro sorted_wrt_between wrt' le)
  qed
  ultimately show ?thesis
    using insert_spec [OF assms(1-5), of lt] by (auto simp: tw same_nodes_def)
qed

end

interpretation by_value: insert_order value_less "\<lambda>k. k" "\<lambda>k. True"
  by unfold_locales (simp add: value_less_def)

interpretation by_timer: insert_order timer_less "\<lambda>k. k - start" "\<lambda>k. k - start < 2 ^ 31" for start
proof
  fix a b :: u32
  assume "a - start < 2 ^ 31" "b - start < 2 ^ 31"
  then have lt: "uint (a - start) < 2 ^ 31" "uint (b - start) < 2 ^ 31" by (simp_all add: word_less_def)
  have "sint (word_of_int (uint (a - start) - uint (b - start)) :: u32) = uint (a - start) - uint (b - start)"
    unfolding sint_word_of_int_u32 by (rule c_int32_id) (use lt uint_ge_0 [of "a - start"] uint_ge_0 [of "b - start"] in linarith)+
  moreover have "(word_of_int (uint (a - start) - uint (b - start)) :: u32) = a - b"
    by (simp flip: wi_hom_sub)
  ultimately show "timer_less a b \<longleftrightarrow> a - start < b - start" by (simp add: timer_less_def word_less_def)
qed

section \<open>The successor\<close>

primrec preds :: "frame list \<Rightarrow> nat list" where
  "preds [] = []"
| "preds (f # C) = preds C @ (case f of InL b r \<Rightarrow> [] | InR l b \<Rightarrow> addrs l @ [b])"

primrec succs :: "frame list \<Rightarrow> nat list" where
  "succs [] = []"
| "succs (f # C) = (case f of InL b r \<Rightarrow> b # addrs r | InR l b \<Rightarrow> []) @ succs C"

lemma addrs_plug_split: "addrs (plug T C) = preds C @ addrs T @ succs C"
  by (induction C arbitrary: T) (auto split: frame.splits)

lemma zip_to: "a \<in> set (addrs T) \<Longrightarrow> \<exists>l r C'. plug T C = plug (Nd l a r) C'"
proof (induction T arbitrary: C)
  case (Nd l b r)
  show ?case
  proof (cases "a = b")
    case False
    then show ?thesis using Nd.IH(1) [of "InL b r # C"] Nd.IH(2) [of "InR l b # C"] Nd.prems by auto
  qed blast
qed simp

lemma min_spec: "tree_at t q a (Nd l a r) \<Longrightarrow> ngx_rbtree_min t a = Some (hd (addrs l @ [a]))"
proof (induction l arbitrary: q a r)
  case Lf
  then show ?case by (simp add: ngx_rbtree_min.simps [of t a] rd_def)
next
  case (Nd x b y)
  then have b: "left t a = b" "a \<in> node_set t" "b \<noteq> sentinel t" "tree_at t a b (Nd x b y)" by auto
  then have "ngx_rbtree_min t a = ngx_rbtree_min t b" by (simp add: ngx_rbtree_min.simps [of t a] rd_def)
  then show ?case using Nd.IH(1) [OF b(4)] by (cases "addrs x") simp_all
qed

lemma climb_spec: "zip_at t (Nd l a r) C \<Longrightarrow> climb t a = Some (hd (succs C @ [0]))"
proof (induction C arbitrary: l a r)
  case Nil
  then have "a = root t" "a \<in> node_set t" by (auto simp: zip_at_def)
  then show ?case by (subst climb.simps) (simp add: rd_def)
next
  case (Cons f C)
  obtain q where q: "tree_at t q a (Nd l a r)" "ctx_at t a q (f # C)" "distinct (addrs (Nd l a r) @ caddrs (f # C))"
    using zip_parts [OF Cons.prems, unfolded ptr.simps] by blast
  have a: "a \<in> node_set t" "a \<noteq> sentinel t" "parent t a = q" "a \<notin> set (caddrs (f # C))" using q(1,3) by auto
  note ct = ctx_parent [OF q(2) a(4,2)]
  show ?case
  proof (cases f)
    case (InL b s)
    then have "left t q = a" "q = b" using ct(2) q(2) by auto
    then show ?thesis using a ct InL by (simp add: climb.simps [of t a] rd_def)
  next
    case (InR s b)
    then have "left t q \<noteq> a" "q = b" using ct(2) q(2) by auto
    moreover have "zip_at t (Nd s b (Nd l a r)) C" using Cons.prems InR by (simp add: zip_up)
    ultimately show ?thesis using a ct InR Cons.IH [of s b "Nd l a r"] by (simp add: climb.simps [of t a] rd_def)
  qed
qed

lemma next_spec:
  assumes "rb_tree t (xs @ a # ys)"
  shows "ngx_rbtree_next t a = Some (hd (ys @ [0]))"
proof -
  obtain T where T: "zip_at t T []" "addrs T = xs @ a # ys" using assms by (auto simp: rb_tree_def)
  then obtain l r C where "plug T [] = plug (Nd l a r) C" using zip_to [of a T "[]"] by auto
  then have zip: "zip_at t (Nd l a r) C" and eq: "xs @ a # ys = (preds C @ addrs l) @ a # (addrs r @ succs C)"
    using T zip_plug [of t "Nd l a r" C] addrs_plug_split [of "Nd l a r" C] by auto
  have dist: "distinct (xs @ a # ys)" using zip_distinct [OF T(1)] T(2) by simp
  then have "a \<notin> set xs" "a \<notin> set ys" by simp_all
  from iffD1 [OF append_Cons_eq_iff [OF this] eq] have ys: "ys = addrs r @ succs C" by (rule conjunct2)
  obtain q where q: "tree_at t q a (Nd l a r)" using zip by (auto simp: zip_at_def)
  then have a: "a \<in> node_set t" "right t a = ptr (sentinel t) r" using tree_ptr by auto
  show ?thesis
  proof (cases r)
    case Lf
    then show ?thesis using climb_spec [OF zip] a ys by (simp add: ngx_rbtree_next_def rd_def)
  next
    case (Nd x b y)
    then have "tree_at t a b (Nd x b y)" "b \<noteq> sentinel t" using q by auto
    then have "ngx_rbtree_next t a = Some (hd (addrs x @ [b]))"
      using min_spec [of t a b x y] a Nd by (simp add: ngx_rbtree_next_def rd_def)
    then show ?thesis using ys Nd by (cases "addrs x") simp_all
  qed
qed

section \<open>Properties\<close>

text \<open>A red-black tree whose root is black, as every operation leaves it.\<close>

definition rb_inv :: "rbtree \<Rightarrow> nat list \<Rightarrow> bool" where
  "rb_inv t as \<longleftrightarrow> rb_tree t as \<and> \<not> red t (root t)"

lemma init_inv:
  "s \<in> node_set t \<Longrightarrow> 0 \<notin> node_set t \<Longrightarrow>
    \<exists>t'. ngx_rbtree_init t s = Some t' \<and> rb_inv t' [] \<and> sentinel t' = s \<and> node_set t' = node_set t \<and> key t' = key t"
  by (auto simp: ngx_rbtree_init_def set_red_def rb_inv_def rb_tree_def zip_at_def intro!: exI [of _ Lf])

text \<open>A store of a sentinel and two timers, the later one behind the wrap of the clock.\<close>

definition timer_store :: rbtree where
  "timer_store = \<lparr>root = 0, sentinel = 0, node_set = {1, 2, 3}, key = (\<lambda>a. if a = 2 then 5 else - 16),
     left = (\<lambda>_. 0), right = (\<lambda>_. 0), parent = (\<lambda>_. 0), red = (\<lambda>_. False)\<rparr>"

lemma timer_store_tree: "\<exists>t. rb_inv t [2, 3] \<and> root t = 2 \<and> key t = key timer_store"
proof -
  let ?t = "timer_store\<lparr>root := 2, sentinel := 1, left := (\<lambda>_. 1), right := (\<lambda>_. 1)(2 := 3), parent := (\<lambda>_. 2)(2 := 0), red := (\<lambda>_. False)(3 := True)\<rparr>"
  have "rb_inv ?t [2, 3]" "key ?t = key timer_store"
    by (auto simp: timer_store_def rb_inv_def rb_tree_def zip_at_def intro!: exI [of _ "Nd Lf 2 (Nd Lf 3 Lf)"])
  then show ?thesis by (intro exI [of _ ?t]) simp
qed

text \<open>C33: Inserting a node of the store into a red-black tree whose keys are in order (the nodes \<open>as\<close> in
  in-order sequence, coloured black at the root, no red node below a red one, equally many black nodes on
  all ways down, parent pointers consistent) ends and leaves such a tree: the node stands behind the last
  node whose key is not larger, no other node, no key and no sentinel has changed, and the keys are in order.\<close>

theorem rbtree_insert_value:
  assumes "rb_inv t as" and "sorted (map (key t) as)" and "n \<in> node_set t" "n \<noteq> sentinel t" "n \<notin> set as"
  shows "\<exists>t' as'. ngx_rbtree_insert value_less t n = Some t' \<and> same_nodes t t' \<and> rb_inv t' as' \<and> sorted (map (key t') as') \<and>
    as' = takeWhile (\<lambda>a. key t a \<le> key t n) as @ n # dropWhile (\<lambda>a. key t a \<le> key t n) as"
  using by_value.insert_in_order [of t as n] assms by (simp add: rb_inv_def list_all_iff)

theorem rbtree_insert_value_witness:
  "\<exists>t0 t1 t2. ngx_rbtree_init timer_store 1 = Some t0 \<and> ngx_rbtree_insert value_less t0 2 = Some t1 \<and>
     ngx_rbtree_insert value_less t1 3 = Some t2 \<and> rb_inv t2 [2, 3]"
proof -
  obtain t0 where t0: "ngx_rbtree_init timer_store 1 = Some t0" "rb_inv t0 []" "sentinel t0 = 1" "node_set t0 = {1, 2, 3}"
    "key t0 = key timer_store" using init_inv [of 1 timer_store] by (auto simp: timer_store_def)
  obtain t1 where t1: "ngx_rbtree_insert value_less t0 2 = Some t1" "same_nodes t0 t1" "rb_inv t1 [2]"
    using by_value.insert_in_order [of t0 "[]" 2] t0 by (auto simp: rb_inv_def)
  then have "key t1 = key timer_store" "node_set t1 = {1, 2, 3}" "sentinel t1 = 1" using t0 by (simp_all add: same_nodes_def)
  then show ?thesis using rbtree_insert_value [of t1 "[2]" 3] t0(1) t1 by (auto simp: timer_store_def)
qed

text \<open>The same for the comparison of timers, across the wrap of 32-bit milliseconds: as long as the times in the
  tree and the new one lie within half the range from some start, the tree stays ordered by the time since
  that start.\<close>

theorem rbtree_insert_timer:
  assumes "rb_inv t as" and "sorted (map (\<lambda>a. key t a - start) as)" and "list_all (\<lambda>a. key t a - start < 2 ^ 31) (n # as)"
    and "n \<in> node_set t" "n \<noteq> sentinel t" "n \<notin> set as"
  shows "\<exists>t' as'. ngx_rbtree_insert timer_less t n = Some t' \<and> same_nodes t t' \<and> rb_inv t' as' \<and>
    sorted (map (\<lambda>a. key t' a - start) as') \<and>
    as' = takeWhile (\<lambda>a. key t a - start \<le> key t n - start) as @ n # dropWhile (\<lambda>a. key t a - start \<le> key t n - start) as"
  using by_timer.insert_in_order [of t as n start] assms by (simp add: rb_inv_def)

theorem rbtree_insert_timer_witness:
  "\<exists>t0 t1 t2. ngx_rbtree_init timer_store 1 = Some t0 \<and> ngx_rbtree_insert timer_less t0 2 = Some t1 \<and>
     ngx_rbtree_insert timer_less t1 3 = Some t2 \<and> rb_inv t2 [3, 2]"
proof -
  obtain t0 where t0: "ngx_rbtree_init timer_store 1 = Some t0" "rb_inv t0 []" "sentinel t0 = 1" "node_set t0 = {1, 2, 3}"
    "key t0 = key timer_store" using init_inv [of 1 timer_store] by (auto simp: timer_store_def)
  obtain t1 where t1: "ngx_rbtree_insert timer_less t0 2 = Some t1" "same_nodes t0 t1" "rb_inv t1 [2]"
    using by_timer.insert_in_order [of t0 "[]" 2 "- 20"] t0 by (auto simp: rb_inv_def timer_store_def)
  then have "key t1 = key timer_store" "node_set t1 = {1, 2, 3}" "sentinel t1 = 1" using t0 by (simp_all add: same_nodes_def)
  then show ?thesis using rbtree_insert_timer [of t1 "[2]" "- 20" 3] t0(1) t1 by (auto simp: timer_store_def)
qed

text \<open>The successor function: from a node of the tree it gives the next one in order, and the null pointer from
  the last one; the two loops end.\<close>

theorem rbtree_next_in_order:
  assumes "rb_inv t (xs @ a # ys)"
  shows "ngx_rbtree_next t a = Some (if ys = [] then 0 else hd ys)"
  using next_spec [of t xs a ys] assms by (simp add: rb_inv_def hd_append)

theorem rbtree_next_in_order_witness:
  "\<exists>t. rb_inv t [2, 3] \<and> ngx_rbtree_next t 2 = Some 3 \<and> ngx_rbtree_next t 3 = Some 0"
  using timer_store_tree rbtree_next_in_order [of _ "[]" 2 "[3]"] rbtree_next_in_order [of _ "[2]" 3 "[]"] by auto

text \<open>Balance: in a tree of \<open>k\<close> nodes no way down is longer than twice the logarithm of \<open>k + 1\<close>.\<close>

theorem rbtree_balanced:
  assumes "rb_inv t as"
  shows "\<exists>T. zip_at t T [] \<and> addrs T = as \<and> 2 ^ depth T \<le> (length as + 1) ^ 2"
proof -
  obtain T where T: "zip_at t T []" "addrs T = as" "rb_ok (red t) T" "\<not> red t (root t)"
    using assms by (auto simp: rb_inv_def rb_tree_def)
  then have "\<not> red_root (red t) T" by (cases T) (auto simp: zip_at_def)
  then have "depth T \<le> 2 * bh (red t) T" using depth_bh [OF T(3)] by simp
  then have "(2 :: nat) ^ depth T \<le> (2 ^ bh (red t) T) ^ 2" by (simp add: power_increasing flip: power_mult mult.commute)
  also have "\<dots> \<le> (length as + 1) ^ 2" using bh_size [OF T(3)] T(2) by (intro power_mono) simp_all
  finally show ?thesis using T by blast
qed

theorem rbtree_balanced_witness: "\<exists>t T. rb_inv t [2, 3] \<and> addrs T = [2, 3] \<and> 2 ^ depth T \<le> (9 :: nat)"
proof -
  obtain t where "rb_inv t [2, 3]" using timer_store_tree by blast
  then show ?thesis using rbtree_balanced [of t "[2, 3]"] by (auto simp: power2_eq_square)
qed

end
