(* ===== verification/Rbtree_Delete.thy ===== *)
theory Rbtree_Delete
  imports Rbtree_Insert
begin

text \<open>
  Deletion from the red-black tree of \<open>rbtree.c\<close>: the rebalancing loop, the removal of a node from its place, and the
  theorem that a deletion keeps the tree in order and balanced.

  The body of the loop exists twice in the code, for a node on the left and on the right. Here a side is a boolean,
  \<open>True\<close> for the left, and each step is proved once.
\<close>

section \<open>Sides\<close>

definition nd :: "bool \<Rightarrow> ptree \<Rightarrow> nat \<Rightarrow> ptree \<Rightarrow> ptree" where
  "nd d T a W = (if d then Nd T a W else Nd W a T)"

definition fr :: "bool \<Rightarrow> nat \<Rightarrow> ptree \<Rightarrow> frame" where
  "fr d a W = (if d then InL a W else InR W a)"

definition child :: "bool \<Rightarrow> rbtree \<Rightarrow> nat \<Rightarrow> nat" where
  "child d = (if d then left else right)"

definition rot :: "bool \<Rightarrow> rbtree \<Rightarrow> nat \<Rightarrow> rbtree option" where
  "rot d = (if d then ngx_rbtree_left_rotate else ngx_rbtree_right_rotate)"

lemma nd_simps [simp]:
  "ptr s (nd d T a W) = a" "red_root c (nd d T a W) = c a" "nd d T a W \<noteq> Lf"
  "rb_ok c (nd d T a W) \<longleftrightarrow> (c a \<longrightarrow> \<not> red_root c T \<and> \<not> red_root c W) \<and> bh c T = bh c W \<and> rb_ok c T \<and> rb_ok c W"
  "set (addrs (nd d T a W)) = insert a (set (addrs T) \<union> set (addrs W))"
  "frame_addr (fr d a W) = a" "frame_sib (fr d a W) = W" "plug1 T (fr d a W) = nd d T a W"
  by (cases d; auto simp: nd_def fr_def)+

lemma child_red [simp]: "child d (t\<lparr>red := c\<rparr>) = child d t"
  by (cases d) (auto simp: child_def fun_eq_iff)

lemma nd_bh: "bh c T = bh c W \<Longrightarrow> bh c (nd d T a W) = bh c T + (if c a then 0 else 1)"
  by (cases d) (simp_all add: nd_def)

lemma nd_distinct [simp]: "distinct (addrs (nd d T a W)) \<longleftrightarrow> a \<notin> set (addrs T) \<and> a \<notin> set (addrs W) \<and>
    set (addrs T) \<inter> set (addrs W) = {} \<and> distinct (addrs T) \<and> distinct (addrs W)"
  by (cases d) (auto simp: nd_def)

lemma nd_flip: "nd (\<not> d) W a T = nd d T a W"
  by (cases d) (simp_all add: nd_def)

lemma frame_side: "\<exists>d. f = fr d (frame_addr f) (frame_sib f)"
proof (cases f)
  case (InL a W)
  then show ?thesis by (intro exI [of _ True]) (simp add: fr_def)
next
  case (InR W a)
  then show ?thesis by (intro exI [of _ False]) (simp add: fr_def)
qed

lemma tree_side: "T \<noteq> Lf \<Longrightarrow> \<exists>x a y. T = nd d x a y"
  by (cases T; cases d) (auto simp: nd_def)

lemma rot_zip:
  assumes "zip_at t (nd d x a (nd d y b z)) C"
  shows "\<exists>t'. rot d t a = Some t' \<and> zip_at t' (nd d (nd d x a y) b z) C \<and> same_nodes t t' \<and> red t' = red t \<and>
    parent t' (sentinel t) = parent t (sentinel t)"
  using assms left_rotate_zip [of t x a y b z C] right_rotate_zip [of t z b y a x C] by (cases d) (simp_all add: nd_def rot_def)

lemma addrs_rot: "addrs (plug (nd d (nd d x a y) b z) C) = addrs (plug (nd d x a (nd d y b z)) C)"
  by (rule addrs_plug) (cases d; simp add: nd_def)

text \<open>What the code reads around a subtree with a parent.\<close>

lemma zip_focus:
  assumes "zip_at t T (fr d p W # C)"
  shows "p \<in> node_set t" "p \<noteq> sentinel t" "child d t p = ptr (sentinel t) T" "child (\<not> d) t p = ptr (sentinel t) W"
    "ptr (sentinel t) T \<in> node_set t" "ptr (sentinel t) W \<in> node_set t" "T \<noteq> Lf \<Longrightarrow> parent t (ptr (sentinel t) T) = p"
    "W \<noteq> Lf \<Longrightarrow> parent t (ptr (sentinel t) W) = p"
proof -
  obtain q where q: "tree_at t q (ptr (sentinel t) T) T" "ctx_at t (ptr (sentinel t) T) q (fr d p W # C)" "sentinel t \<in> node_set t"
    using zip_parts [OF assms] by blast
  then have p: "q = p" "p \<in> node_set t" "p \<noteq> sentinel t" and f: "frame_at t (ptr (sentinel t) T) (fr d p W)" by auto
  then show "p \<in> node_set t" "p \<noteq> sentinel t" by simp_all
  have w: "child d t p = ptr (sentinel t) T" "tree_at t p (child (\<not> d) t p) W"
    using f by (cases d; simp add: fr_def child_def)+
  then show "child d t p = ptr (sentinel t) T" "child (\<not> d) t p = ptr (sentinel t) W" using tree_ptr by auto
  show "ptr (sentinel t) T \<in> node_set t" "T \<noteq> Lf \<Longrightarrow> parent t (ptr (sentinel t) T) = p"
    using q p(1) by (cases T; simp)+
  show "ptr (sentinel t) W \<in> node_set t" "W \<noteq> Lf \<Longrightarrow> parent t (ptr (sentinel t) W) = p"
    using w(2) q(3) by (cases W; simp)+
qed

lemma zip_other: "zip_at t T (fr d p W # C) = zip_at t W (fr (\<not> d) p T # C)"
  by (simp add: zip_up nd_flip)

lemma zip_sib: "zip_at t T (fr d p (nd d' x w y) # C) = zip_at t x (fr d' w y # fr (\<not> d) p T # C)"
  unfolding zip_other [of t T] by (simp add: zip_up)

section \<open>One round of the loop\<close>

text \<open>The loop at the subtree \<open>T\<close>: with its root blackened it would fit its place, unless the root is black already; then the
  place asks for one black node more. The sentinel, when it is the subtree, points to the parent.\<close>

definition del_inv :: "rbtree \<Rightarrow> ptree \<Rightarrow> frame list \<Rightarrow> bool" where
  "del_inv t T C \<longleftrightarrow> zip_at t T C \<and> \<not> red t (sentinel t) \<and>
     (T = Lf \<and> C \<noteq> [] \<longrightarrow> parent t (sentinel t) = frame_addr (hd C)) \<and>
     (let a = ptr (sentinel t) T; c = (red t)(a := False)
      in rb_ok c T \<and> ctx_ok (red t) (bh c T + (if red t a then 0 else 1)) C)"

text \<open>The rest of a round, once the sibling is black, and the last part of it.\<close>

definition side_turn :: "bool \<Rightarrow> rbtree \<Rightarrow> nat \<Rightarrow> nat \<Rightarrow> (rbtree \<times> nat) option" where
  "side_turn d t w temp =
     do { p \<leftarrow> rd parent t temp; t \<leftarrow> ngx_rbt_copy_color t w p;
          p \<leftarrow> rd parent t temp; t \<leftarrow> set_red t p False;
          f \<leftarrow> rd (child (\<not> d)) t w; t \<leftarrow> set_red t f False;
          p \<leftarrow> rd parent t temp; t \<leftarrow> rot d t p; Some (t, root t) }"

definition side_rest :: "bool \<Rightarrow> rbtree \<Rightarrow> nat \<Rightarrow> nat \<Rightarrow> (rbtree \<times> nat) option" where
  "side_rest d t w temp =
     do { l \<leftarrow> rd left t w; l_red \<leftarrow> rd red t l;
          r_red \<leftarrow> (if l_red then Some True else do { r \<leftarrow> rd right t w; rd red t r });
          if \<not> l_red \<and> \<not> r_red
          then do { t \<leftarrow> set_red t w True; p \<leftarrow> rd parent t temp; Some (t, p) }
          else do { f \<leftarrow> rd (child (\<not> d)) t w; f_red \<leftarrow> rd red t f;
                    (t, w) \<leftarrow> (if \<not> f_red
                       then do { n \<leftarrow> rd (child d) t w; t \<leftarrow> set_red t n False;
                                 t \<leftarrow> set_red t w True;
                                 t \<leftarrow> rot (\<not> d) t w;
                                 p \<leftarrow> rd parent t temp; w \<leftarrow> rd (child (\<not> d)) t p; Some (t, w) }
                       else Some (t, w));
                    side_turn d t w temp } }"

lemma delete_side_rest:
  "delete_side (child d) (child (\<not> d)) (rot d) (rot (\<not> d)) t temp =
     do { p \<leftarrow> rd parent t temp; w \<leftarrow> rd (child (\<not> d)) t p;
          w_red \<leftarrow> rd red t w;
          (t, w) \<leftarrow> (if w_red
             then do { t \<leftarrow> set_red t w False;
                       p \<leftarrow> rd parent t temp; t \<leftarrow> set_red t p True;
                       p \<leftarrow> rd parent t temp; t \<leftarrow> rot d t p;
                       p \<leftarrow> rd parent t temp; w \<leftarrow> rd (child (\<not> d)) t p; Some (t, w) }
             else Some (t, w));
          side_rest d t w temp }"
  unfolding delete_side_def side_rest_def side_turn_def by (rule refl)

text \<open>The state there: a subtree that is one black node short, beside a sibling with a black root.\<close>

definition side_inv :: "rbtree \<Rightarrow> ptree \<Rightarrow> bool \<Rightarrow> nat \<Rightarrow> ptree \<Rightarrow> frame list \<Rightarrow> bool" where
  "side_inv t T d p W C \<longleftrightarrow> zip_at t T (fr d p W # C) \<and> \<not> red t (sentinel t) \<and> parent t (ptr (sentinel t) T) = p \<and>
     rb_ok (red t) T \<and> \<not> red_root (red t) T \<and> rb_ok (red t) W \<and> \<not> red_root (red t) W \<and> bh (red t) W = Suc (bh (red t) T) \<and>
     (red t p \<longrightarrow> C \<noteq> [] \<and> \<not> red t (frame_addr (hd C))) \<and> ctx_ok (red t) (Suc (bh (red t) T) + (if red t p then 0 else 1)) C"

text \<open>The nephew on the far side is red: the turn at the parent makes the tree good.\<close>

lemma side_turn_spec:
  assumes inv: "side_inv t T d p (nd d x w y) C" and y: "red_root (red t) y"
  shows "\<exists>t'. side_turn d t w (ptr (sentinel t) T) = Some (t', root t') \<and> same_nodes t t' \<and>
    rb_tree t' (addrs (plug T (fr d p (nd d x w y) # C)))"
proof -
  obtain ya f yb where yf: "y = nd d ya f yb" using y tree_side [of y d] by (cases y) auto
  define c c' where "c = red t" and "c' = (red t)(w := red t p, p := False, f := False)"
  let ?t = "t\<lparr>red := c'\<rparr>"
  have zip: "zip_at t T (fr d p (nd d x w y) # C)" and s: "\<not> c (sentinel t)" and up: "parent t (ptr (sentinel t) T) = p"
    and T: "rb_ok c T" "\<not> red_root c T" and W: "rb_ok c (nd d x w y)" "\<not> c w" "bh c (nd d x w y) = Suc (bh c T)"
    and C: "c p \<longrightarrow> C \<noteq> [] \<and> \<not> c (frame_addr (hd C))" "ctx_ok c (Suc (bh c T) + (if c p then 0 else 1)) C"
    using inv by (simp_all add: side_inv_def c_def)
  have cf: "c f" using y yf by (simp add: c_def)
  have n: "bh c x = bh c T" "bh c y = bh c T" using W nd_bh [of c x y d w] by simp_all
  have dist: "distinct (addrs (nd d T p (nd d x w (nd d ya f yb))) @ caddrs C)"
    using zip_distinct [of t "nd d T p (nd d x w y)" C] zip yf by (simp add: zip_up)
  have ne: "f \<noteq> p" "f \<noteq> w" "w \<noteq> p" using dist by auto
  then have c': "\<not> c' p" "\<not> c' f" "c' w = c p" by (simp_all add: c'_def c_def)
  have same: "c' a = c a" if "a \<notin> {w, p, f}" for a using that by (simp add: c_def c'_def)
  have eq: "red_root c' S = red_root c S \<and> bh c' S = bh c S \<and> rb_ok c' S = rb_ok c S" if "S \<in> {T, x, ya, yb}" for S
    by (rule colour_cong) (use dist that in \<open>auto intro!: same\<close>)
  have Cc': "ctx_ok c' (Suc (bh c T) + (if c p then 0 else 1)) C"
    by (rule ctx_ok_cong [OF C(2)]) (use dist in \<open>auto intro!: same\<close>)
  have hd: "c' (frame_addr (hd C)) = c (frame_addr (hd C))" if "C \<noteq> []"
    using that dist by (cases C) (auto intro!: same)
  note rd1 = zip_focus [OF zip]
  note rd2 = zip_focus [OF zip [unfolded zip_sib zip_other [of t x]]]
  have zip1: "zip_at ?t (nd d T p (nd d x w y)) C" using zip by (simp add: zip_up)
  from rot_zip [OF this] obtain t2 where t2: "rot d ?t p = Some t2" "zip_at t2 (nd d (nd d T p x) w y) C" "same_nodes ?t t2"
    "red t2 = c'" by auto
  have "side_turn d t w (ptr (sentinel t) T) = Some (t2, root t2)"
    using rd1 rd2 up t2(1) yf
    by (simp add: side_turn_def rd_def set_red_def ngx_rbt_copy_color_def c'_def)
  moreover have "same_nodes t t2" using t2(3) by (simp add: same_nodes_def)
  moreover have "rb_tree t2 (addrs (plug T (fr d p (nd d x w y) # C)))"
  proof -
    have yb: "bh c ya = bh c T" "bh c yb = bh c T" using n(2) W yf cf nd_bh [of c ya yb d f] by simp_all
    have "rb_ok c' (nd d (nd d T p x) w y)" "bh c' (nd d (nd d T p x) w y) = Suc (bh c T) + (if c p then 0 else 1)"
      using T W n yb yf eq c' nd_bh [of c' T x d p] nd_bh [of c' ya yb d f] nd_bh [of c' "nd d T p x" y d w] by simp_all
    then have "rb_ok c' (plug (nd d (nd d T p x) w y) C)"
      using plug_ok [of c' "nd d (nd d T p x) w y" C] Cc' C(1) c'(3) hd by auto
    moreover have "zip_at t2 (plug (nd d (nd d T p x) w y) C) []" using t2(2) zip_plug by blast
    moreover have "sentinel t \<notin> {w, p, f}" using dist zip_nodes [OF zip1, of "sentinel t"] yf by auto
    then have "\<not> c' (sentinel t)" using s same by auto
    moreover have "sentinel t2 = sentinel t" using t2(3) by (simp add: same_nodes_def)
    ultimately show ?thesis using t2(4) by (auto simp: rb_tree_def addrs_rot)
  qed
  ultimately show ?thesis by blast
qed

lemma same_nodes_refl: "same_nodes t t"
  by (simp add: same_nodes_def)

text \<open>The rest of the round: either it ends with a good tree and the loop at the root, or the loop goes on at the parent.\<close>

lemma red_ptr: "\<not> red t s \<Longrightarrow> red t (ptr s T) = red_root (red t) T"
  by (cases T) simp_all

lemma side_rest_reads:
  assumes "side_inv t T d p (nd d x w y) C"
  shows "w \<in> node_set t" "rd left t w = Some (left t w)" "rd right t w = Some (right t w)"
    "child d t w = ptr (sentinel t) x" "child (\<not> d) t w = ptr (sentinel t) y"
    "ptr (sentinel t) x \<in> node_set t" "ptr (sentinel t) y \<in> node_set t"
    "red t (ptr (sentinel t) x) = red_root (red t) x" "red t (ptr (sentinel t) y) = red_root (red t) y"
    "ptr (sentinel t) T \<in> node_set t" "parent t (ptr (sentinel t) T) = p" "p \<in> node_set t" "child (\<not> d) t p = w"
    "zip_at t (nd d T p (nd d x w y)) C" "distinct (addrs (nd d T p (nd d x w y)) @ caddrs C)"
proof -
  have zip: "zip_at t T (fr d p (nd d x w y) # C)" and s: "\<not> red t (sentinel t)" and up: "parent t (ptr (sentinel t) T) = p"
    using assms by (simp_all add: side_inv_def)
  show z: "zip_at t (nd d T p (nd d x w y)) C" using zip by (simp add: zip_up)
  show "distinct (addrs (nd d T p (nd d x w y)) @ caddrs C)" using zip_distinct [OF z] .
  show "parent t (ptr (sentinel t) T) = p" by (rule up)
  show "red t (ptr (sentinel t) x) = red_root (red t) x" "red t (ptr (sentinel t) y) = red_root (red t) y"
    using s by (simp_all add: red_ptr)
  note rd2 = zip_focus [OF zip [unfolded zip_sib zip_other [of t x]]]
  show "w \<in> node_set t" "child d t w = ptr (sentinel t) x" "child (\<not> d) t w = ptr (sentinel t) y"
    "ptr (sentinel t) x \<in> node_set t" "ptr (sentinel t) y \<in> node_set t" using rd2 by simp_all
  then show "rd left t w = Some (left t w)" "rd right t w = Some (right t w)" by (simp_all add: rd_def)
  show "ptr (sentinel t) T \<in> node_set t" "p \<in> node_set t" "child (\<not> d) t p = w" using zip_focus [OF zip] by simp_all
qed

lemma side_rest_spec:
  assumes inv: "side_inv t T d p W C"
  shows "\<exists>t' a. side_rest d t (ptr (sentinel t) W) (ptr (sentinel t) T) = Some (t', a) \<and> same_nodes t t' \<and>
    (a = root t' \<and> rb_tree t' (addrs (plug T (fr d p W # C))) \<or>
     (\<exists>T'. del_inv t' T' C \<and> a = ptr (sentinel t) T' \<and> addrs (plug T' C) = addrs (plug T (fr d p W # C)) \<and> red t' a = red t p))"
proof -
  have "W \<noteq> Lf" using inv by (auto simp: side_inv_def)
  then obtain x w y where W: "W = nd d x w y" using tree_side by blast
  note rds = side_rest_reads [OF inv [unfolded W]]
  have parts: "\<not> red t (sentinel t)" "rb_ok (red t) T" "\<not> red_root (red t) T" "rb_ok (red t) W" "\<not> red t w"
    "bh (red t) W = Suc (bh (red t) T)" "red t p \<Longrightarrow> C \<noteq> [] \<and> \<not> red t (frame_addr (hd C))"
    "ctx_ok (red t) (Suc (bh (red t) T) + (if red t p then 0 else 1)) C"
    using inv by (auto simp: side_inv_def W)
  have n: "bh (red t) x = bh (red t) T" "bh (red t) y = bh (red t) T" using parts(4-6) W nd_bh [of "red t" x y d w] by simp_all
  have lr: "(child d = left \<and> child (\<not> d) = right) \<or> (child d = right \<and> child (\<not> d) = left)" by (simp add: child_def)
  consider (black) "\<not> red_root (red t) x" "\<not> red_root (red t) y" | (far) "red_root (red t) y" | (near) "red_root (red t) x" "\<not> red_root (red t) y" by blast
  then show ?thesis
  proof cases
    case black
    let ?c = "(red t)(w := True)"
    let ?T = "nd d T p (nd d x w y)"
    have run: "side_rest d t (ptr (sentinel t) W) (ptr (sentinel t) T) = Some (t\<lparr>red := ?c\<rparr>, p)"
      using lr rds black by (auto simp: W side_rest_def rd_def set_red_def)
    have dist: "distinct (addrs ?T @ caddrs C)" by (rule rds(15))
    define c where "c = ?c(p := False)"
    have same: "c a = red t a" if "a \<notin> {w, p}" for a using that by (simp add: c_def)
    have eq: "red_root c S = red_root (red t) S \<and> bh c S = bh (red t) S \<and> rb_ok c S = rb_ok (red t) S" if "S \<in> {T, x, y}" for S
      by (rule colour_cong) (use dist that in \<open>auto intro!: same\<close>)
    have "c w" "\<not> c p" using dist by (auto simp: c_def)
    then have ok: "rb_ok c ?T" "bh c ?T = Suc (bh (red t) T)"
      using parts(2-4) W black n eq nd_bh [of c x y d w] nd_bh [of c T "nd d x w y" d p] by simp_all
    have "ctx_ok ?c (Suc (bh (red t) T) + (if red t p then 0 else 1)) C"
      by (rule ctx_ok_cong [OF parts(8)]) (use dist in auto)
    moreover have "?c p = red t p" "sentinel t \<noteq> w" using dist zip_nodes [OF rds(14), of w] by auto
    ultimately have "del_inv (t\<lparr>red := ?c\<rparr>) ?T C"
      using ok rds(14) parts(1) by (simp add: del_inv_def c_def Let_def)
    moreover have "red t p = ?c p" using \<open>?c p = red t p\<close> by simp
    ultimately show ?thesis unfolding run by (auto simp: W same_nodes_def intro!: exI [of _ ?T])
  next
    case far
    have "side_rest d t (ptr (sentinel t) W) (ptr (sentinel t) T) = side_turn d t w (ptr (sentinel t) T)"
      using lr rds far by (auto simp: W side_rest_def rd_def)
    then show ?thesis using side_turn_spec [OF inv [unfolded W] far] by (auto simp: W)
  next
    case near
    then obtain xa m xb where x: "x = nd d xa m xb" using tree_side [of x d] by (cases x) auto
    let ?c = "(red t)(m := False, w := True)"
    have "zip_at (t\<lparr>red := ?c\<rparr>) (nd d x w y) (fr (\<not> d) p T # C)" using rds(14) by (simp add: zip_up nd_flip)
    then have "zip_at (t\<lparr>red := ?c\<rparr>) (nd (\<not> d) y w (nd (\<not> d) xb m xa)) (fr (\<not> d) p T # C)" by (simp add: x nd_flip)
    from rot_zip [OF this] obtain t1 where t1: "rot (\<not> d) (t\<lparr>red := ?c\<rparr>) w = Some t1"
      "zip_at t1 (nd (\<not> d) (nd (\<not> d) y w xb) m xa) (fr (\<not> d) p T # C)" "same_nodes t t1" "red t1 = ?c"
      "parent t1 (sentinel t) = parent t (sentinel t)" by (auto simp: same_nodes_def)
    let ?W = "nd d xa m (nd d xb w y)"
    have zip: "zip_at t1 T (fr d p ?W # C)" using t1(2) by (simp add: zip_other [of t1 T] nd_flip)
    have sent: "sentinel t1 = sentinel t" using t1(3) by (simp add: same_nodes_def)
    have dist: "distinct (addrs (nd d T p (nd d x w y)) @ caddrs C)" by (rule rds(15))
    have same: "?c a = red t a" if "a \<notin> {w, m}" for a using that by simp
    have eq: "red_root ?c S = red_root (red t) S \<and> bh ?c S = bh (red t) S \<and> rb_ok ?c S = rb_ok (red t) S" if "S \<in> {T, xa, xb, y}" for S
      by (rule colour_cong) (use dist that x in auto)
    have c: "\<not> ?c m" "?c w" "?c p = red t p" using dist x by auto
    have hd: "?c (frame_addr (hd C)) = red t (frame_addr (hd C))" if "C \<noteq> []"
      using that dist x by (cases C) auto
    have xb: "bh (red t) xa = bh (red t) T" "bh (red t) xb = bh (red t) T" "\<not> red_root (red t) xb" "\<not> red_root (red t) xa"
      using n(1) parts(4) W x near(1) nd_bh [of "red t" xa xb d m] by simp_all
    have "ctx_ok ?c (Suc (bh (red t) T) + (if red t p then 0 else 1)) C"
      by (rule ctx_ok_cong [OF parts(8)]) (use dist x in auto)
    moreover have "rb_ok ?c ?W" "bh ?c ?W = Suc (bh (red t) T)"
      using parts(4) W x near xb n(2) c eq nd_bh [of ?c xb y d w] nd_bh [of ?c xa "nd d xb w y" d m] by simp_all
    moreover have "sentinel t \<notin> {w, m}" using zip_nodes [OF rds(14), of "sentinel t"] x by auto
    moreover have "parent t1 (ptr (sentinel t) T) = p" using zip_focus(7) [OF zip] t1(5) rds(11) sent by (cases T) auto
    ultimately have inv1: "side_inv t1 T d p ?W C"
      using zip parts(1-3,7) c hd eq by (auto simp: side_inv_def t1(4) sent)
    have "red t1 m = False" "red t1 w" using c t1(4) by simp_all
    then have "red_root (red t1) (nd d xb w y)" by simp
    from side_turn_spec [OF inv1 this] obtain t' where t': "side_turn d t1 m (ptr (sentinel t) T) = Some (t', root t')" "same_nodes t1 t'"
      "rb_tree t' (addrs (plug T (fr d p ?W # C)))" by (auto simp: sent)
    note rd1 = zip_focus [OF zip]
    have nodes: "node_set t1 = node_set t" using t1(3) by (simp add: same_nodes_def)
    have m: "child d t w = m" using rds(4) x by simp
    have "side_rest d t (ptr (sentinel t) W) (ptr (sentinel t) T) = side_turn d t1 m (ptr (sentinel t) T)"
      using lr rds near t1(1) rd1 m x \<open>parent t1 (ptr (sentinel t) T) = p\<close> nodes sent
      by (auto simp: W side_rest_def rd_def set_red_def)
    moreover have "addrs ?W = addrs W" using x W by (cases d) (simp_all add: nd_def)
    then have "addrs (plug T (fr d p ?W # C)) = addrs (plug T (fr d p W # C))"
      by (simp add: W del: nd_distinct) (rule addrs_plug, cases d, simp_all add: nd_def)
    ultimately show ?thesis using t' same_nodes_trans [OF t1(3) t'(2)] by auto
  qed
qed

text \<open>A whole round. A red sibling is turned away first; then the parent is red and the loop ends at it.\<close>

lemma delete_side_spec:
  assumes inv: "del_inv t T (fr d p W # C)" and black: "\<not> red t (ptr (sentinel t) T)"
  shows "\<exists>t' a. delete_side (child d) (child (\<not> d)) (rot d) (rot (\<not> d)) t (ptr (sentinel t) T) = Some (t', a) \<and> same_nodes t t' \<and>
    (a = root t' \<and> rb_tree t' (addrs (plug T (fr d p W # C))) \<or>
     (\<exists>T' C'. del_inv t' T' C' \<and> a = ptr (sentinel t) T' \<and> addrs (plug T' C') = addrs (plug T (fr d p W # C)) \<and>
        (red t' a \<or> length C' < Suc (length C))))"
proof -
  define c where "c = red t"
  have s: "\<not> c (sentinel t)" and zip: "zip_at t T (fr d p W # C)" and up: "parent t (ptr (sentinel t) T) = p"
    using inv zip_focus(7) [of t T d p W C] by (cases T; auto simp: del_inv_def c_def)+
  have "c(ptr (sentinel t) T := False) = c" using black by (auto simp: c_def fun_eq_iff)
  then have ok: "rb_ok c T" "\<not> red_root c T" "rb_ok c W" "bh c W = Suc (bh c T)"
    "c p \<Longrightarrow> \<not> red_root c W \<and> C \<noteq> [] \<and> \<not> c (frame_addr (hd C))" "ctx_ok c (Suc (bh c T) + (if c p then 0 else 1)) C"
    using inv black red_ptr [of t "sentinel t" T] s by (auto simp: del_inv_def Let_def c_def)
  note rds = zip_focus [OF zip]
  have cW: "c (ptr (sentinel t) W) = red_root c W" using red_ptr s by (simp add: c_def)
  show ?thesis
  proof (cases "red_root c W")
    case False
    then have si: "side_inv t T d p W C" using s zip up ok by (simp add: side_inv_def c_def)
    have run: "delete_side (child d) (child (\<not> d)) (rot d) (rot (\<not> d)) t (ptr (sentinel t) T) =
        side_rest d t (ptr (sentinel t) W) (ptr (sentinel t) T)"
      using rds up cW False by (simp add: delete_side_rest rd_def c_def)
    show ?thesis using side_rest_spec [OF si] unfolding run by (metis lessI)
  next
    case True
    then have "W \<noteq> Lf" by auto
    then obtain x w y where W: "W = nd d x w y" using tree_side by blast
    have cw: "c w" using True W by simp
    let ?c = "(red t)(w := False, p := True)"
    have zip0: "zip_at (t\<lparr>red := ?c\<rparr>) (nd d T p (nd d x w y)) C" using zip W by (simp add: zip_up)
    from rot_zip [OF this] obtain t1 where t1: "rot d (t\<lparr>red := ?c\<rparr>) p = Some t1" "zip_at t1 (nd d (nd d T p x) w y) C"
      "same_nodes t t1" "red t1 = ?c" "parent t1 (sentinel t) = parent t (sentinel t)" by (auto simp: same_nodes_def)
    let ?C = "fr d w y # C"
    have zip1: "zip_at t1 T (fr d p x # ?C)" using t1(2) by (simp add: zip_up)
    have sent: "sentinel t1 = sentinel t" "node_set t1 = node_set t" using t1(3) by (simp_all add: same_nodes_def)
    note rd1 = zip_focus [OF zip1]
    have up1: "parent t1 (ptr (sentinel t) T) = p" using rd1(7) t1(5) up sent by (cases T) auto
    have dist: "distinct (addrs (nd d T p (nd d x w y)) @ caddrs C)" using zip_distinct [OF zip0] .
    have eq: "red_root ?c S = red_root c S \<and> bh ?c S = bh c S \<and> rb_ok ?c S = rb_ok c S" if "S \<in> {T, x, y}" for S
      by (rule colour_cong) (use dist that in \<open>auto simp: c_def\<close>)
    have n: "bh c x = Suc (bh c T)" "bh c y = Suc (bh c T)" "\<not> red_root c x" "\<not> red_root c y" "rb_ok c x" "rb_ok c y" "\<not> c p"
      using ok(3-5) W True cw nd_bh [of c x y d w] by auto
    have "ctx_ok ?c (Suc (Suc (bh c T))) C"
      by (rule ctx_ok_cong [of c]) (use dist ok(6) n(7) in \<open>auto simp: c_def\<close>)
    moreover have "?c p" "\<not> ?c w" "sentinel t \<notin> {w, p}" using dist zip_nodes [OF zip0, of "sentinel t"] by auto
    ultimately have si: "side_inv t1 T d p x ?C"
      using zip1 s up1 ok(1,2) n eq by (simp add: side_inv_def sent t1(4) c_def)
    have run: "delete_side (child d) (child (\<not> d)) (rot d) (rot (\<not> d)) t (ptr (sentinel t) T) =
        side_rest d t1 (ptr (sentinel t1) x) (ptr (sentinel t1) T)"
      using rds up cW True W t1(1) up1 rd1 sent by (simp add: delete_side_rest rd_def c_def set_red_def fun_upd_def)
    have "addrs (plug T (fr d p x # ?C)) = addrs (plug T (fr d p W # C))" using addrs_rot by (simp add: W)
    moreover have "red t1 p" using \<open>?c p\<close> t1(4) by simp
    ultimately show ?thesis using side_rest_spec [OF si] same_nodes_trans [OF t1(3)] unfolding run sent(1) by metis
  qed
qed

section \<open>The loop\<close>

lemma set_plug: "set (addrs (plug T C)) = set (addrs T) \<union> set (caddrs C)"
proof (induction C arbitrary: T)
  case (Cons f C)
  have "set (addrs (plug1 T f)) = set (addrs T) \<union> insert (frame_addr f) (set (addrs (frame_sib f)))" by (cases f) auto
  then show ?case using Cons.IH [of "plug1 T f"] by auto
qed simp

text \<open>A subtree with a black root that fits its place makes a good tree.\<close>

lemma plugged:
  assumes "zip_at t T C" "\<not> red t (sentinel t)" "rb_ok (red t) T" "\<not> red_root (red t) T" "ctx_ok (red t) (bh (red t) T) C"
  shows "rb_inv t (addrs (plug T C))"
proof -
  have "rb_ok (red t) (plug T C)" "\<not> red_root (red t) (plug T C)"
    using plug_ok [OF assms(3,5)] assms(4) by (cases "C = []"; simp)+
  moreover have zip: "zip_at t (plug T C) []" using assms(1) zip_plug by blast
  moreover have "root t = ptr (sentinel t) (plug T C)" using zip by (simp add: zip_at_def)
  ultimately show ?thesis using assms(2) red_ptr [of t "sentinel t"] by (auto simp: rb_inv_def rb_tree_def)
qed

lemma delete_fix_end:
  assumes "del_inv t T C" and "C = [] \<or> red t (ptr (sentinel t) T)"
  shows "\<exists>t'. delete_fix t (ptr (sentinel t) T) = Some t' \<and> same_nodes t t' \<and> rb_inv t' (addrs (plug T C))"
proof -
  let ?a = "ptr (sentinel t) T" let ?c = "(red t)(?a := False)"
  have zip: "zip_at t T C" and s: "\<not> red t (sentinel t)" and ok: "rb_ok ?c T" "ctx_ok (red t) (bh ?c T + (if red t ?a then 0 else 1)) C"
    using assms(1) by (simp_all add: del_inv_def Let_def)
  obtain q where q: "tree_at t q ?a T" "ctx_at t ?a q C" "sentinel t \<in> node_set t" using zip by (auto simp: zip_at_def)
  have a: "?a \<in> node_set t" using q(1,3) by (cases T) auto
  have top: "C = [] \<Longrightarrow> ?a = root t" using q(2) by simp
  have "delete_fix t ?a = set_red t ?a False" using assms(2) a top by (subst delete_fix.simps) (auto simp: rd_def)
  then have run: "delete_fix t ?a = Some (t\<lparr>red := ?c\<rparr>)" using a by (simp add: set_red_def)
  have "ctx_ok ?c (bh ?c T) C"
  proof (cases "red t ?a")
    case True
    then have "T \<noteq> Lf" using s by auto
    then have "?a \<in> set (addrs T)" by (cases T) auto
    then have "?a \<notin> set (caddrs C)" using zip_distinct [OF zip] unfolding distinct_append by blast
    then have "\<forall>b \<in> set (caddrs C). ?c b = red t b" by (metis fun_upd_other)
    then show ?thesis using ctx_ok_cong [of "red t" _ C ?c] ok(2) True by simp
  qed (use assms(2) in simp)
  moreover have "\<not> red_root ?c T" by (cases T) simp_all
  ultimately have "rb_inv (t\<lparr>red := ?c\<rparr>) (addrs (plug T C))"
    using plugged [of "t\<lparr>red := ?c\<rparr>" T C] ok(1) zip s by simp
  then show ?thesis unfolding run by (simp add: same_nodes_def)
qed

lemma delete_fix_spec:
  "del_inv t T C \<Longrightarrow> \<exists>t'. delete_fix t (ptr (sentinel t) T) = Some t' \<and> same_nodes t t' \<and> rb_inv t' (addrs (plug T C))"
proof (induction "length C" arbitrary: t T C rule: less_induct)
  case less
  let ?a = "ptr (sentinel t) T"
  show ?case
  proof (cases "C = [] \<or> red t ?a")
    case True
    then show ?thesis using delete_fix_end [OF less.prems] by blast
  next
    case False
    then obtain f C1 where "C = f # C1" by (cases C) auto
    then obtain d p W where C: "C = fr d p W # C1" using frame_side [of f] by auto
    have black: "\<not> red t ?a" using False by simp
    have zip: "zip_at t T (fr d p W # C1)" and s: "\<not> red t (sentinel t)" and up: "parent t ?a = p"
      using less.prems zip_focus(7) [of t T d p W C1] unfolding C by (cases T; auto simp: del_inv_def)+
    note rds = zip_focus [OF zip]
    have W: "ptr (sentinel t) W \<noteq> ?a"
    proof -
      have "W \<noteq> Lf" using less.prems black unfolding C by (auto simp: del_inv_def Let_def)
      then obtain x w y where W: "W = Nd x w y" by (cases W) auto
      then have "w \<notin> set (addrs T)" "w \<noteq> sentinel t"
        using zip_distinct [OF zip] zip_nodes [of t "nd d T p W" C1 w] zip by (auto simp: zip_up)
      then show ?thesis using W by (cases T) auto
    qed
    have "?a \<noteq> root t"
    proof -
      obtain q where ctx: "ctx_at t ?a q C" using zip C by (auto simp: zip_at_def)
      have "root t \<in> set (caddrs C)" using ctx_root_in [OF _ ctx] C by simp
      moreover have "?a \<notin> set (caddrs C)"
      proof (cases T)
        case Lf
        then show ?thesis using zip_nodes [of t "plug T C" "[]" "sentinel t"] zip zip_plug [of t T C] set_plug [of T C] C by auto
      next
        case (Nd l b r)
        then have "?a \<in> set (addrs T)" by simp
        then show ?thesis using zip_distinct [OF zip] unfolding C distinct_append by blast
      qed
      ultimately show ?thesis by metis
    qed
    then have unf: "delete_fix t ?a = do { (t, a) \<leftarrow> delete_side (child d) (child (\<not> d)) (rot d) (rot (\<not> d)) t ?a; delete_fix t a }"
      using rds black up W by (cases d) (simp_all add: delete_fix.simps [of t ?a] rd_def child_def rot_def)
    obtain t1 a where r: "delete_side (child d) (child (\<not> d)) (rot d) (rot (\<not> d)) t ?a = Some (t1, a)" "same_nodes t t1"
      and nxt: "a = root t1 \<and> rb_tree t1 (addrs (plug T C)) \<or>
        (\<exists>T' C'. del_inv t1 T' C' \<and> a = ptr (sentinel t) T' \<and> addrs (plug T' C') = addrs (plug T C) \<and> (red t1 a \<or> length C' < length C))"
      using delete_side_spec [OF less.prems [unfolded C] black] unfolding C by auto
    have run: "delete_fix t ?a = delete_fix t1 a" using unf r(1) by simp
    have sent: "sentinel t1 = sentinel t" using r(2) by (simp add: same_nodes_def)
    from nxt show ?thesis
    proof
      assume top: "a = root t1 \<and> rb_tree t1 (addrs (plug T C))"
      have "addrs (plug T C) \<noteq> []" using set_plug [of T C] C by auto
      from black_root [OF _ this, of t1] top show ?thesis
        using r(2) same_nodes_trans unfolding run rb_inv_def by (subst delete_fix.simps) auto
    next
      assume "\<exists>T' C'. del_inv t1 T' C' \<and> a = ptr (sentinel t) T' \<and> addrs (plug T' C') = addrs (plug T C) \<and> (red t1 a \<or> length C' < length C)"
      then obtain T' C' where n: "del_inv t1 T' C'" "a = ptr (sentinel t1) T'" "addrs (plug T' C') = addrs (plug T C)"
        "red t1 a \<or> length C' < length C" by (auto simp: sent)
      from n(4) have "\<exists>t'. delete_fix t1 a = Some t' \<and> same_nodes t1 t' \<and> rb_inv t' (addrs (plug T' C'))"
      proof
        assume "red t1 a"
        then show ?thesis using delete_fix_end [OF n(1)] n(2) by blast
      next
        assume "length C' < length C"
        from less.hyps [OF this n(1)] show ?thesis by (simp add: n(2))
      qed
      then show ?thesis unfolding run n(3) using r(2) same_nodes_trans by blast
    qed
  qed
qed

section \<open>Taking a node out\<close>

text \<open>What a deletion leaves alone.\<close>

definition same_but :: "nat \<Rightarrow> rbtree \<Rightarrow> rbtree \<Rightarrow> bool" where
  "same_but n t t' \<longleftrightarrow> sentinel t' = sentinel t \<and> node_set t' = node_set t \<and> key t' = (key t)(n := 0)"

text \<open>A tree of the store hung into a place.\<close>

lemma put_tree:
  assumes "ctx_at t a q C" "tree_at t q0 (ptr (sentinel t) T) T" and dist: "distinct (addrs T @ caddrs C)"
    and nodes: "sentinel t \<in> node_set t" "0 \<notin> node_set t" "sentinel t' = sentinel t" "node_set t' = node_set t"
    and root': "root t' = (if C = [] then ptr (sentinel t) T else root t)"
    and L: "\<And>v. v \<in> set (addrs T @ caddrs C) \<Longrightarrow> left t' v = (if v = q \<and> is_left q C then ptr (sentinel t) T else left t v)"
    and R: "\<And>v. v \<in> set (addrs T @ caddrs C) \<Longrightarrow> right t' v = (if v = q \<and> is_right q C then ptr (sentinel t) T else right t v)"
    and P: "\<And>v. v \<in> set (addrs T @ caddrs C) \<Longrightarrow> parent t' v = (if v = ptr (sentinel t) T then q' else parent t v)"
    and up: "C \<noteq> [] \<Longrightarrow> q' = q"
  shows "zip_at t' T C"
proof -
  have ptr_out: "ptr (sentinel t) T \<notin> set (caddrs C)"
  proof
    assume in_C: "ptr (sentinel t) T \<in> set (caddrs C)"
    have "v \<noteq> sentinel t" if "v \<in> set (caddrs C)" for v
      using that assms(1)
    proof (induction C arbitrary: a q)
      case (Cons f C)
      then have "v = frame_addr f \<or> v \<in> set (addrs (frame_sib f)) \<or> v \<in> set (caddrs C)" by auto
      moreover have "\<exists>q p. tree_at t q p (frame_sib f)" using Cons.prems by (cases f) auto
      ultimately show ?case using Cons tree_nodes [of t _ _ "frame_sib f" v] by auto
    qed simp
    then have "T \<noteq> Lf" using in_C by (metis ptr.simps(1))
    then have "ptr (sentinel t) T \<in> set (addrs T)" by (cases T) auto
    then show False using dist in_C unfolding distinct_append by blast
  qed
  have q_in: "C \<noteq> [] \<Longrightarrow> q \<in> set (caddrs C)" using assms(1) by (cases C) auto
  have "tree_at t' q' (ptr (sentinel t) T) T"
  proof (rule tree_reparent [OF assms(2) nodes(3,4)])
    show "\<forall>v \<in> set (addrs T). left t' v = left t v \<and> right t' v = right t v \<and> parent t' v = (if v = ptr (sentinel t) T then q' else parent t v)"
    proof
      fix v assume v: "v \<in> set (addrs T)"
      then have "v \<noteq> q \<or> C = []" using q_in dist unfolding distinct_append by blast
      then show "left t' v = left t v \<and> right t' v = right t v \<and> parent t' v = (if v = ptr (sentinel t) T then q' else parent t v)"
        using v L [of v] R [of v] P [of v] by auto
    qed
  qed (use dist in simp)
  moreover have "ctx_at t' (ptr (sentinel t) T) q C"
    by (rule ctx_replace [OF assms(1) nodes(3,4) _ root']) (use dist L R P ptr_out in auto)
  ultimately show ?thesis using dist nodes up by (cases "C = []") (auto simp: zip_at_def)
qed

lemma clear_fields:
  "n \<in> node_set t \<Longrightarrow> delete_clear t n = Some (t\<lparr>left := (left t)(n := 0), right := (right t)(n := 0), parent := (parent t)(n := 0), key := (key t)(n := 0)\<rparr>)"
  by (simp add: delete_clear_def set_left_def set_right_def set_parent_def set_key_def)

lemma blacken:
  assumes "rb_ok c T" "distinct (addrs T)" "\<not> c s"
  defines "c' \<equiv> c(ptr s T := False)"
  shows "rb_ok c' T" "\<not> red_root c' T" "bh c' T = bh c T + (if c (ptr s T) then 1 else 0)"
proof -
  have "bh c' S = bh c S \<and> rb_ok c' S = rb_ok c S" if "ptr s T \<notin> set (addrs S)" for S
    using colour_cong [of S c' c] that by (auto simp: c'_def)
  then show "rb_ok c' T" "\<not> red_root c' T" "bh c' T = bh c T + (if c (ptr s T) then 1 else 0)"
    using assms by (cases T; auto)+
qed

text \<open>A node with at most one child: the child takes its place.\<close>

lemma delete_single:
  assumes zip: "zip_at t (nd d Lf n T) C" and s: "\<not> red t (sentinel t)" and ok: "rb_ok (red t) (nd d Lf n T)"
    and ctx: "ctx_ok (red t) (bh (red t) (nd d Lf n T)) C" and top: "red t n \<longrightarrow> C \<noteq> [] \<and> \<not> red t (frame_addr (hd C))"
    and choose: "delete_choose t n = Some (n, ptr (sentinel t) T)"
  shows "\<exists>t'. ngx_rbtree_delete t n = Some t' \<and> same_but n t t' \<and> rb_inv t' (addrs (plug T C))"
proof -
  let ?a = "ptr (sentinel t) T"
  obtain q where tree: "tree_at t q n (nd d Lf n T)" and cx: "ctx_at t n q C" and dist: "distinct (addrs (nd d Lf n T) @ caddrs C)"
    and nodes: "sentinel t \<in> node_set t" "0 \<notin> node_set t" using zip by (auto simp: zip_at_def)
  have n: "n \<in> node_set t" "n \<noteq> sentinel t" "parent t n = q" using tree by (cases d; simp add: nd_def)+
  obtain p0 where "tree_at t n p0 T" using tree by (cases d) (auto simp: nd_def)
  then have T: "tree_at t n ?a T" using tree_ptr by metis
  have a: "?a \<in> node_set t" "?a \<noteq> n" using T nodes(1) dist n(2) by (cases T; auto)+
  have nC: "n \<notin> set (caddrs C)" "n \<notin> set (addrs T)" "distinct (addrs T @ caddrs C)" using dist by auto
  note ct = ctx_parent [OF cx nC(1) n(2)]
  have q_in: "C \<noteq> [] \<Longrightarrow> q \<in> set (caddrs C)" using cx by (cases C) auto
  let ?r = "\<lambda>t. t\<lparr>left := (left t)(n := 0), right := (right t)(n := 0), parent := (parent t)(n := 0), key := (key t)(n := 0)\<rparr>"
  let ?c = "(red t)(?a := False)"
  have same: "?c (sentinel t) = False" using s by simp
  have T_ok: "rb_ok ?c T" "\<not> red_root ?c T" "bh ?c T = bh (red t) T + (if red t ?a then 1 else 0)"
    using blacken [of "red t" T "sentinel t"] ok s nC(3) by simp_all
  show ?thesis
  proof (cases "C = []")
    case True
    let ?t = "?r (t\<lparr>root := ?a, red := ?c\<rparr>)"
    have "ngx_rbtree_delete t n = Some ?t"
      using choose ct(1) True a(1) n(1) by (simp add: ngx_rbtree_delete_def set_red_def clear_fields)
    moreover have "zip_at ?t T []"
      by (rule put_tree [OF cx [unfolded True] T]) (use nC(2,3) nodes True in \<open>auto\<close>)
    then have "rb_inv ?t (addrs (plug T []))" using plugged [of ?t T "[]"] T_ok same by simp
    ultimately show ?thesis using True by (simp add: same_but_def)
  next
    case False
    have q: "q \<in> node_set t" "q \<noteq> n" "q \<noteq> sentinel t" "n \<noteq> root t" using ct False nC(1) q_in by auto
    define b where "b \<longleftrightarrow> is_left q C"
    let ?t1 = "t\<lparr>left := (if b then (left t)(q := ?a) else left t), right := (if b then right t else (right t)(q := ?a)), parent := (parent t)(?a := q)\<rparr>"
    let ?t = "?r ?t1"
    have side: "is_left q C \<longleftrightarrow> \<not> is_right q C" using ctx_cases [OF cx] False by auto
    have run: "ngx_rbtree_delete t n = (if red t n then Some ?t else delete_fix ?t ?a)"
    proof -
      have "left t q = n \<longleftrightarrow> b" using ct(2) [OF False] by (simp add: b_def)
      then show ?thesis using q a n
        by (cases b) (simp_all add: ngx_rbtree_delete_def choose rd_def set_left_def set_right_def set_parent_def clear_fields eq_commute [of n])
    qed
    have zip1: "zip_at ?t T C"
      by (rule put_tree [OF cx T, where q' = q]) (use nC nodes False side q a b_def in \<open>auto\<close>)
    show ?thesis
    proof (cases "red t n")
      case True
      then have "\<not> red_root (red t) T" "bh (red t) T = bh (red t) (nd d Lf n T)" using ok nd_bh [of "red t" Lf T d n] by auto
      then have "rb_inv ?t (addrs (plug T C))" using plugged [of ?t T C] zip1 s ok ctx by simp
      then show ?thesis using True run by (simp add: same_but_def)
    next
      case False
      have "bh (red t) (nd d Lf n T) = Suc (bh (red t) T)" using ok False nd_bh [of "red t" Lf T d n] by simp
      then have "del_inv ?t T C"
        using zip1 s T_ok ctx cx a(2) n(2) by (cases C) (auto simp: del_inv_def Let_def)
      from delete_fix_spec [OF this] obtain t' where "delete_fix ?t ?a = Some t'" "same_nodes ?t t'" "rb_inv t' (addrs (plug T C))" by auto
      then show ?thesis using False run by (simp add: same_but_def same_nodes_def)
    qed
  qed
qed

text \<open>The way down to a place, with its colours.\<close>

lemma ctx_down:
  "ctx_ok c (bh c (plug T D)) C \<Longrightarrow> rb_ok c (plug T D) \<Longrightarrow> red_root c (plug T D) \<longrightarrow> C \<noteq> [] \<and> \<not> c (frame_addr (hd C)) \<Longrightarrow>
    ctx_ok c (bh c T) (D @ C) \<and> rb_ok c T \<and> (red_root c T \<longrightarrow> D @ C \<noteq> [] \<and> \<not> c (frame_addr (hd (D @ C))))"
proof (induction D arbitrary: T)
  case (Cons f D)
  have IH: "ctx_ok c (bh c (plug1 T f)) (D @ C)" "rb_ok c (plug1 T f)"
    "red_root c (plug1 T f) \<longrightarrow> D @ C \<noteq> [] \<and> \<not> c (frame_addr (hd (D @ C)))" using Cons.IH [of "plug1 T f"] Cons.prems by simp_all
  show ?case
  proof (cases f)
    case (InL a r)
    then show ?thesis using IH by auto
  next
    case (InR l a)
    then show ?thesis using IH by auto
  qed
qed simp

lemma zip_down: "zip_at t (plug T D) C = zip_at t T (D @ C)"
  by (induction D arbitrary: T) (simp_all add: zip_up)

text \<open>The leftmost node of a subtree.\<close>

lemma leftmost: "T \<noteq> Lf \<Longrightarrow> \<exists>b R D. T = plug (Nd Lf b R) D \<and> preds D = [] \<and> (\<forall>f \<in> set D. \<exists>a r. f = InL a r)"
proof (induction T)
  case (Nd l a r)
  show ?case
  proof (cases l)
    case Lf
    then show ?thesis by (intro exI [of _ a] exI [of _ r] exI [of _ "[]"]) simp
  next
    case (Nd x1 x2 x3)
    then have "l \<noteq> Lf" by simp
    from Nd.IH(1) [OF this] obtain b R D where "l = plug (Nd Lf b R) D" "preds D = []" "\<forall>f \<in> set D. \<exists>a r. f = InL a r" by blast
    moreover have "preds (E @ [InL a r]) = preds E" for E by (induction E) simp_all
    ultimately show ?thesis by (intro exI [of _ b] exI [of _ R] exI [of _ "D @ [InL a r]"]) auto
  qed
qed simp

text \<open>A node takes over the place of another one.\<close>

lemma replace_fields:
  assumes nodes: "n \<in> node_set t" "b \<in> node_set t" "temp \<in> node_set t" "p \<in> node_set t" "left t n \<in> node_set t" "right t n \<in> node_set t"
    and ne: "n \<noteq> b" "temp \<noteq> n" "temp \<noteq> b" "parent t b = p" "parent t n = q" "left t n \<noteq> sentinel t"
    and place: "n = root t \<longleftrightarrow> C = []" "C \<noteq> [] \<Longrightarrow> q \<in> node_set t \<and> q \<noteq> n \<and> q \<noteq> b \<and> (left t q = n \<longleftrightarrow> is_left q C) \<and> (right t q = n \<longleftrightarrow> is_right q C)"
      "C = [] \<or> is_left q C \<or> is_right q C"
  shows "\<exists>t'. delete_replace t n b temp = Some t' \<and> same_nodes t t' \<and> red t' = (red t)(b := red t n) \<and>
    root t' = (if C = [] then b else root t) \<and>
    (\<forall>v. left t' v = (if v = b then left t n else if v = q \<and> is_left q C then b else left t v)) \<and>
    (\<forall>v. right t' v = (if v = b then right t n else if v = q \<and> is_right q C then b else right t v)) \<and>
    (\<forall>v. parent t' v = (if v = right t n \<and> v \<noteq> sentinel t then b else if v = left t n then b else if v = b then q
       else if v = temp then (if p = n then b else p) else parent t v))"
proof -
  define up where "up = (if p = n then b else p)"
  let ?t2 = "t\<lparr>left := (left t)(b := left t n), right := (right t)(b := right t n), parent := (parent t)(temp := up, b := q),
    red := (red t)(b := red t n)\<rparr>"
  let ?sp = "\<lambda>t'. t'\<lparr>parent := (if right t n = sentinel t then (parent t')(left t n := b) else (parent t')(left t n := b, right t n := b))\<rparr>"
  define children where "children t3 = do { l \<leftarrow> rd left t3 b; t4 \<leftarrow> (if l \<noteq> sentinel t3 then set_parent t3 l b else Some t3);
      r \<leftarrow> rd right t4 b; if r \<noteq> sentinel t4 then set_parent t4 r b else Some t4 }" for t3
  have step: "delete_replace t n b temp =
      do { t3 \<leftarrow> (if n = root t then Some (?t2\<lparr>root := b\<rparr>)
            else do { p \<leftarrow> rd parent ?t2 n; pl \<leftarrow> rd left ?t2 p; if n = pl then set_left ?t2 p b else set_right ?t2 p b });
           children t3 }"
    unfolding children_def using nodes ne(1-5)
    by (cases "p = n") (simp_all add: delete_replace_def rd_def set_left_def set_right_def set_parent_def set_red_def ngx_rbt_copy_color_def up_def)
  have finish: "children t3 = Some (?sp t3)"
    if "left t3 b = left t n" "right t3 b = right t n" "node_set t3 = node_set t" "sentinel t3 = sentinel t" for t3
    using that nodes ne(6) by (cases "right t n = sentinel t") (simp_all add: children_def rd_def set_parent_def)
  consider "C = []" "n = root t" | "C \<noteq> []" "is_left q C" "\<not> is_right q C" "n \<noteq> root t" "n = left t q"
    | "C \<noteq> []" "\<not> is_left q C" "is_right q C" "n \<noteq> root t" "n \<noteq> left t q" using place by blast
  then show ?thesis
  proof cases
    case 1
    let ?t3 = "?t2\<lparr>root := b\<rparr>"
    have "delete_replace t n b temp = Some (?sp ?t3)" unfolding step using 1 ne(1) by (simp add: finish)
    then show ?thesis using 1 by (auto simp: same_nodes_def up_def)
  next
    case 2
    then have q: "q \<in> node_set t" "q \<noteq> b" "n \<noteq> b" "temp \<noteq> n" using place(2) ne by auto
    let ?t3 = "?t2\<lparr>left := (left t)(b := left t n, q := b)\<rparr>"
    have "delete_replace t n b temp = Some (?sp ?t3)"
      unfolding step using 2(4) 2(5) [symmetric] q nodes ne(5) by (simp add: rd_def set_left_def finish)
    then show ?thesis using 2 q by (auto simp: same_nodes_def up_def)
  next
    case 3
    then have q: "q \<in> node_set t" "q \<noteq> b" "n \<noteq> b" "temp \<noteq> n" using place(2) ne by auto
    let ?t3 = "?t2\<lparr>right := (right t)(b := right t n, q := b)\<rparr>"
    have "delete_replace t n b temp = Some (?sp ?t3)"
      unfolding step using 3(4,5) q nodes ne(5) by (simp add: rd_def set_right_def finish)
    then show ?thesis using 3 q by (auto simp: same_nodes_def up_def)
  qed
qed

lemma ctx_rename:
  assumes "ctx_ok c k (D @ InR l n # C)" and "c' b = c n" and "\<forall>v \<in> set (caddrs D) \<union> set (addrs l) \<union> set (caddrs C). c' v = c v"
  shows "ctx_ok c' k (D @ InR l b # C)"
  using assms(1,3)
proof (induction D arbitrary: k)
  case Nil
  have "red_root c' l = red_root c l \<and> bh c' l = bh c l \<and> rb_ok c' l = rb_ok c l" using Nil.prems(2) by (intro colour_cong) auto
  moreover have "C \<noteq> [] \<Longrightarrow> c' (frame_addr (hd C)) = c (frame_addr (hd C))" using Nil.prems(2) by (cases C) auto
  ultimately show ?case using Nil.prems assms(2) ctx_ok_cong [of c _ C c'] by auto
next
  case (Cons f D)
  have "red_root c' (frame_sib f) = red_root c (frame_sib f) \<and> bh c' (frame_sib f) = bh c (frame_sib f) \<and> rb_ok c' (frame_sib f) = rb_ok c (frame_sib f)"
    using Cons.prems(2) by (intro colour_cong) auto
  moreover have "c' (frame_addr (hd (D @ InR l b # C))) = c (frame_addr (hd (D @ InR l n # C)))"
    using Cons.prems(2) assms(2) by (cases D) auto
  ultimately show ?case using Cons by auto
qed

lemma delete_pair:
  assumes zip: "zip_at t (Nd l n r) C" and lr: "l \<noteq> Lf" "r \<noteq> Lf" and s: "\<not> red t (sentinel t)" and ok: "rb_ok (red t) (Nd l n r)"
    and ctx: "ctx_ok (red t) (bh (red t) (Nd l n r)) C" and top: "red t n \<longrightarrow> C \<noteq> [] \<and> \<not> red t (frame_addr (hd C))"
  shows "\<exists>t'. ngx_rbtree_delete t n = Some t' \<and> same_but n t t' \<and> rb_inv t' (preds C @ addrs l @ addrs r @ succs C)"
proof -
  let ?s = "sentinel t"
  obtain b R D where r: "r = plug (Nd Lf b R) D" "preds D = []" and D: "\<forall>f \<in> set D. \<exists>a r. f = InL a r" using leftmost [OF lr(2)] by blast
  let ?E = "D @ InR l n # C" and ?E' = "D @ InR l b # C" and ?temp = "ptr ?s R" and ?r = "plug R D"
  have "zip_at t (Nd l n r) C = zip_at t (Nd Lf b R) ?E" using zip_down [of t "Nd Lf b R" "D @ [InR l n]" C] r(1) by simp
  then have zipb: "zip_at t (Nd Lf b R) ?E" using zip by simp
  obtain q where q: "tree_at t q n (Nd l n r)" "ctx_at t n q C" "distinct (addrs (Nd l n r) @ caddrs C)" "?s \<in> node_set t" "0 \<notin> node_set t"
    using zip by (auto simp: zip_at_def)
  obtain p where p: "tree_at t p b (Nd Lf b R)" "ctx_at t b p ?E" "distinct (addrs (Nd Lf b R) @ caddrs ?E)" using zipb by (auto simp: zip_at_def)
  have R: "tree_at t b ?temp R" using p(1) tree_ptr by (metis tree_at.simps(2))
  have n: "n \<in> node_set t" "n \<noteq> ?s" "parent t n = q" and b: "b \<in> node_set t" "b \<noteq> ?s" "parent t b = p" "left t b = ?s"
    using q(1) p(1) by auto
  have nb: "n \<noteq> b" "n \<notin> set (addrs R)" "b \<notin> set (addrs R)" "b \<notin> set (caddrs ?E)" "n \<notin> set (caddrs C)" using p(3) by auto
  have temp: "?temp \<in> node_set t" "?temp \<noteq> n" "?temp \<noteq> b" using R q(4) n(2) b(2) nb by (cases R; auto)+
  have pp: "p = (if D = [] then n else frame_addr (hd D))" "p \<in> node_set t" "p \<noteq> ?s" "p \<in> set (caddrs ?E)" using p(2) by (cases D; auto)+
  have pn: "p = n \<longleftrightarrow> D = []" using pp(1) p(3) by (cases D) auto
  have isl: "is_left p ?E \<longleftrightarrow> D \<noteq> []" "is_right p ?E \<longleftrightarrow> D = []" using D pp(1) by (cases D; auto)+
  note ctb = ctx_parent [OF p(2) nb(4) b(2)]
  have b_root: "b \<noteq> root t" using ctb(1) by simp
  have lp: "left t p = b \<longleftrightarrow> D \<noteq> []" using ctb(2) isl by simp
  define u where "u = t\<lparr>left := (if D = [] then left t else (left t)(p := ?temp)), right := (if D = [] then (right t)(p := ?temp) else right t),
    parent := (parent t)(?temp := p)\<rparr>"
  define t1 where "t1 = u\<lparr>parent := parent t\<rparr>"
  have u: "sentinel u = ?s" "node_set u = node_set t" "root u = root t" "red u = red t" by (simp_all add: u_def)
  have zipu: "zip_at u R ?E"
    by (rule put_tree [OF p(2) R, where q' = p]) (use p(3) q(4,5) isl in \<open>auto simp: u_def\<close>)
  then have "zip_at u (Nd l n ?r) C" using zip_down [of u R "D @ [InR l n]" C] by simp
  then obtain q' where q': "tree_at u q' n (Nd l n ?r)" "ctx_at u n q' C" "distinct (addrs (Nd l n ?r) @ caddrs C)"
    by (auto simp: zip_at_def)
  have "parent u n = q" using n(3) temp(2) by (auto simp: u_def)
  then have uq: "tree_at u n (left u n) l" "tree_at u n (right u n) ?r" "ctx_at u n q C" using q' by auto
  have ptrs: "left u n = ptr ?s l" "right u n = ptr ?s ?r" using tree_ptr [OF uq(1)] tree_ptr [OF uq(2)] u by simp_all
  have ln: "left u n \<in> node_set t" "left u n \<noteq> ?s" using uq(1) lr(1) u by (cases l; auto)+
  have rn: "right u n \<in> node_set t" using uq(2) u q(4) by (cases ?r) auto
  have Rr: "set (addrs R) \<subseteq> set (addrs ?r)" using set_plug [of R D] by auto
  have b_out: "b \<notin> set (addrs l @ addrs ?r @ caddrs C)" using nb set_plug [of R D] by auto
  note ct = ctx_parent [OF uq(3) nb(5) n(2) [folded u(1)]]
  have qb: "C \<noteq> [] \<Longrightarrow> q \<noteq> n \<and> q \<noteq> b" using ct(2) nb(5) b_out by auto
  have t1: "left t1 = left u" "right t1 = right u" "node_set t1 = node_set t" "sentinel t1 = ?s" "root t1 = root t" "parent t1 = parent t" "red t1 = red t"
    by (simp_all add: t1_def u)
  have place: "n = root t \<longleftrightarrow> C = []"
    "C \<noteq> [] \<Longrightarrow> q \<in> node_set t \<and> q \<noteq> n \<and> q \<noteq> b \<and> (left u q = n \<longleftrightarrow> is_left q C) \<and> (right u q = n \<longleftrightarrow> is_right q C)"
    using ct qb u(2,3) by simp_all
  obtain t2 where t2: "delete_replace t1 n b ?temp = Some t2" "same_nodes t1 t2" "red t2 = (red t)(b := red t n)" "root t2 = (if C = [] then b else root t)"
    and L2: "\<And>v. left t2 v = (if v = b then left u n else if v = q \<and> is_left q C then b else left u v)"
    and R2: "\<And>v. right t2 v = (if v = b then right u n else if v = q \<and> is_right q C then b else right u v)"
    and P2: "\<And>v. parent t2 v = (if v = right u n \<and> v \<noteq> ?s then b else if v = left u n then b else if v = b then q
       else if v = ?temp then (if p = n then b else p) else parent t v)"
    using replace_fields [of n t1 b ?temp p q C, unfolded t1,
        OF n(1) b(1) temp(1) pp(2) ln(1) rn nb(1) temp(2,3) b(3) n(3) ln(2) place ctx_cases [OF uq(3)]] by blast
  let ?t = "t2\<lparr>left := (left t2)(n := 0), right := (right t2)(n := 0), parent := (parent t2)(n := 0), key := (key t2)(n := 0)\<rparr>"
  have same2: "sentinel t2 = ?s" "node_set t2 = node_set t" "key t2 = key t" using t2(2) by (simp_all add: same_nodes_def t1 t1_def u_def)
  have run: "ngx_rbtree_delete t n = (if red t b then Some ?t else delete_fix ?t ?temp)"
  proof -
    have rt: "tree_at t n (right t n) r" "left t n = ptr ?s l" using q(1) tree_ptr [of t n "left t n" l] by auto
    obtain x y z where xyz: "r = Nd x y z" using lr(2) by (cases r) auto
    have "hd (addrs x @ [y]) = hd (addrs r)" unfolding xyz by (cases "addrs x") auto
    also have "\<dots> = b" unfolding r(1) addrs_plug_split using r(2) by simp
    finally have "ngx_rbtree_min t (right t n) = Some b" using min_spec [of t n y x z] rt(1) xyz by auto
    moreover have "left t n \<noteq> ?s" using rt(2) lr(1) q(1) by (cases l) auto
    moreover have "right t n \<noteq> ?s" using rt(1) xyz by auto
    moreover have "right t b = ?temp" using p(1) tree_ptr by auto
    ultimately have choose: "delete_choose t n = Some (b, ?temp)" using n b by (simp add: delete_choose_def rd_def)
    have "(if b = left t p then set_left t p ?temp else set_right t p ?temp) = Some t1"
      using lp pp(2) by (cases "D = []") (auto simp: set_left_def set_right_def t1_def u_def)
    then show ?thesis
      using choose b b_root pp(2) nb(1) t2(1) n(1) same2 by (simp add: ngx_rbtree_delete_def rd_def clear_fields)
  qed
  have pr: "p = n \<Longrightarrow> right u n = ?temp" using ptrs(2) pn by simp
  have zip3: "zip_at ?t (Nd l b ?r) C"
  proof -
    have lt: "left u n \<in> set (addrs l)" using ln ptrs(1) by (cases l) auto
    have out: "v \<noteq> n" "v \<noteq> b" "C \<noteq> [] \<longrightarrow> v \<noteq> q" if "v \<in> set (addrs l @ addrs ?r)" for v
      using that q'(3) b_out ct(2) by auto
    have zipu': "zip_at u (plug (Nd l n ?r) C) []" using zipu zip_down [of u R "D @ [InR l n]" C] zip_plug [of u "Nd l n ?r" C] by simp
    then have s_out: "?s \<notin> set (addrs l @ addrs ?r @ caddrs C)"
      using zip_nodes [OF zipu', of ?s] set_plug [of "Nd l n ?r" C] u(1) by auto
    have ptr_r: "right u n \<in> set (addrs ?r) \<or> right u n = ?s" using ptrs(2) ptr_in [of ?s ?r] by auto
    have temp_r: "?temp \<in> set (addrs ?r) \<or> ?temp = ?s" using ptr_in [of ?s R] Rr by auto
    have apart: "set (addrs l) \<inter> set (addrs ?r) = {}" "set (addrs l) \<inter> set (caddrs C) = {}" "set (addrs ?r) \<inter> set (caddrs C) = {}"
      using q'(3) unfolding distinct_append by auto
    have Pu: "parent u v = (if v = ?temp then p else parent t v)" for v by (simp add: u_def)
    have fields: "left ?t v = left u v \<and> right ?t v = right u v" if "v \<in> set (addrs l @ addrs ?r)" for v
      using out [OF that] by (auto simp: L2 R2)
    have pl: "parent ?t v = (if v = left u n then b else parent u v)" if "v \<in> set (addrs l)" for v
    proof -
      have "v \<noteq> right u n" "v \<noteq> ?temp" "v \<noteq> n" "v \<noteq> b" using that apart(1) s_out ptr_r temp_r out [of v] by auto
      then show ?thesis by (simp add: P2 Pu)
    qed
    have pr': "parent ?t v = (if v = right u n then b else parent u v)" if "v \<in> set (addrs ?r)" for v
    proof -
      have "v \<noteq> left u n" "v \<noteq> ?s" "v \<noteq> n" "v \<noteq> b" using that apart(1) s_out lt out [of v] by auto
      then show ?thesis using pr by (auto simp: P2 Pu)
    qed
    have "tree_at ?t b (left u n) l" by (rule tree_reparent [OF uq(1)]) (use fields pl same2 u q'(3) in auto)
    moreover have "tree_at ?t b (right u n) ?r" by (rule tree_reparent [OF uq(2)]) (use fields pr' same2 u q'(3) in auto)
    moreover have "parent ?t b = q" "left ?t b = left u n" "right ?t b = right u n"
      using nb(1) b(2) b_out lt ptr_r temp(3) by (auto simp: P2 L2 R2)
    ultimately have "tree_at ?t q b (Nd l b ?r)" using b same2 by simp
    moreover have "ctx_at ?t b q C"
    proof (rule ctx_replace [OF uq(3)])
      show "\<forall>v \<in> set (caddrs C). parent ?t v = parent u v"
      proof
        fix v assume v: "v \<in> set (caddrs C)"
        then have "v \<noteq> left u n" "v \<noteq> right u n" "v \<noteq> ?temp" "v \<noteq> n" "v \<noteq> b"
          using apart s_out lt ptr_r temp_r nb(5) b_out by auto
        then show "parent ?t v = parent u v" by (simp add: P2 Pu)
      qed
      have "v \<noteq> n \<and> v \<noteq> b" if "v \<in> set (caddrs C)" for v using that nb(5) b_out by auto
      then show "\<forall>v \<in> set (caddrs C). left ?t v = (if v = q \<and> is_left q C then b else left u v)"
        "\<forall>v \<in> set (caddrs C). right ?t v = (if v = q \<and> is_right q C then b else right u v)" by (simp_all add: L2 R2)
    qed (use same2 u q'(3) t2(4) in simp_all)
    ultimately show ?thesis using q'(3) b_out q(4,5) same2 by (auto simp: zip_at_def)
  qed
  define c where "c = (red t)(b := red t n)"
  have zipE: "zip_at ?t R ?E'" using zip3 zip_down [of ?t R "D @ [InR l b]" C] by simp
  have red3: "red ?t = c" using t2(3) by (simp add: c_def)
  have s3: "\<not> c ?s" using s b(2) by (simp add: c_def)
  have down: "ctx_ok (red t) (bh (red t) (Nd Lf b R)) ?E" "rb_ok (red t) (Nd Lf b R)"
    using ctx_down [of "red t" "Nd Lf b R" "D @ [InR l n]" C] r(1) ok ctx top by simp_all
  have eqR: "red_root c R = red_root (red t) R \<and> bh c R = bh (red t) R \<and> rb_ok c R = rb_ok (red t) R"
    by (rule colour_cong) (use nb(3) in \<open>auto simp: c_def\<close>)
  have ctx3: "ctx_ok c (bh (red t) (Nd Lf b R)) ?E'"
    by (rule ctx_rename [OF down(1)]) (use nb(4) in \<open>auto simp: c_def\<close>)
  have result: "addrs (plug R ?E') = preds C @ addrs l @ addrs r @ succs C"
    using addrs_plug_split [of "Nd l b ?r" C] addrs_plug_split [of R D] addrs_plug_split [of "Nd Lf b R" D] r by simp
  have same3: "same_but n t t'" if "same_nodes ?t t'" for t' using that same2 by (simp add: same_nodes_def same_but_def)
  show ?thesis
  proof (cases "red t b")
    case True
    then have "\<not> red_root (red t) R" "bh (red t) R = bh (red t) (Nd Lf b R)" "rb_ok (red t) R" using down(2) by auto
    then have "rb_inv ?t (addrs (plug R ?E'))" using plugged [OF zipE] s3 red3 same2(1) eqR ctx3 by simp
    then show ?thesis using run True same3 [of ?t] unfolding result by (simp add: same_nodes_refl)
  next
    case False
    have "rb_ok c R" "distinct (addrs R)" using down(2) eqR p(3) by auto
    note bl = blacken [OF this s3]
    have "parent ?t ?s = frame_addr (hd ?E')" if "R = Lf"
      using that n(2) b(2) ln(2) pn pp(1) P2 [of ?s] by (cases D) auto
    then have "del_inv ?t R ?E'"
      using zipE s3 red3 same2(1) bl ctx3 False down(2) eqR by (auto simp: del_inv_def Let_def)
    from delete_fix_spec [OF this] obtain t' where "delete_fix ?t ?temp = Some t'" "same_nodes ?t t'" "rb_inv t' (addrs (plug R ?E'))"
      using same2(1) by auto
    then show ?thesis using run False same3 unfolding result by auto
  qed
qed

lemma delete_spec:
  assumes "rb_inv t (xs @ n # ys)"
  shows "\<exists>t'. ngx_rbtree_delete t n = Some t' \<and> same_but n t t' \<and> rb_inv t' (xs @ ys)"
proof -
  obtain T where T: "zip_at t T []" "addrs T = xs @ n # ys" "rb_ok (red t) T" "\<not> red t (sentinel t)" "\<not> red t (root t)"
    using assms by (auto simp: rb_inv_def rb_tree_def)
  then obtain l r C where plug: "plug T [] = plug (Nd l n r) C" using zip_to [of n T "[]"] by auto
  then have zip: "zip_at t (Nd l n r) C" and eq: "xs @ n # ys = (preds C @ addrs l) @ n # (addrs r @ succs C)"
    using T zip_plug [of t "Nd l n r" C] addrs_plug_split [of "Nd l n r" C] by auto
  have "distinct (xs @ n # ys)" using zip_distinct [OF T(1)] T(2) by simp
  then have "n \<notin> set xs" "n \<notin> set ys" by simp_all
  from iffD1 [OF append_Cons_eq_iff [OF this] eq] have ys: "xs = preds C @ addrs l" "ys = addrs r @ succs C" by blast+
  have "\<not> red_root (red t) T" using T(1,5) by (cases T) (auto simp: zip_at_def)
  then have down: "ctx_ok (red t) (bh (red t) (Nd l n r)) C" "rb_ok (red t) (Nd l n r)"
    "red t n \<longrightarrow> C \<noteq> [] \<and> \<not> red t (frame_addr (hd C))"
    using ctx_down [of "red t" "Nd l n r" C "[]"] plug T(3) by (simp_all del: bh.simps rb_ok.simps)
  have n: "n \<in> node_set t" "left t n = ptr (sentinel t) l" "right t n = ptr (sentinel t) r"
    using zip tree_ptr by (auto simp: zip_at_def)
  have ptr_l: "l \<noteq> Lf \<Longrightarrow> left t n \<noteq> sentinel t" using zip_nodes [OF zip] n(2) by (cases l) auto
  show ?thesis
  proof (cases "l = Lf")
    case True
    then have "delete_choose t n = Some (n, ptr (sentinel t) r)" using n by (simp add: delete_choose_def rd_def)
    then show ?thesis using delete_single [of t True n r C] zip down T(4) True ys addrs_plug_split [of r C] by (simp add: nd_def)
  next
    case l: False
    show ?thesis
    proof (cases "r = Lf")
      case True
      then have "delete_choose t n = Some (n, ptr (sentinel t) l)" using n ptr_l [OF l] by (simp add: delete_choose_def rd_def)
      then show ?thesis using delete_single [of t False n l C] zip down T(4) True ys addrs_plug_split [of l C] by (simp add: nd_def)
    next
      case False
      then show ?thesis using delete_pair [OF zip l _ T(4) down(2,1,3)] ys by simp
    qed
  qed
qed

end
