(* ===== verification/Rbt_Timer.thy ===== *)
theory Rbt_Timer
  imports Timer_Queue Rbtree_Delete
begin

text \<open>
  The timers of \<open>jiagoushi/chap2.5/test-timer/test-timer/rbt-timer.c\<close> on the red-black tree of theory \<open>Rbtree\<close>: an entry
  is a tree node followed by the pointer to its handler, so that the entry and its node have one address.

  The clock is an argument, and so is what the handlers do: \<open>cb h te\<close> is the call of handler \<open>h\<close> with entry \<open>te\<close>,
  on the state of the rest of the program and the timers. A freed entry is no node any more.
\<close>

section \<open>The timers\<close>

record rbt_timers =
  timer :: rbtree
  te_handler :: "nat \<Rightarrow> nat"

definition rbt_init_timer :: "rbt_timers \<Rightarrow> nat \<Rightarrow> rbt_timers option" where
  "rbt_init_timer st s = do { t \<leftarrow> ngx_rbtree_init (timer st) s; Some (st\<lparr>timer := t\<rparr>) }"

text \<open>The clock is read twice; the first reading is only printed.\<close>

definition rbt_add_timer :: "u32 \<Rightarrow> rbt_timers \<Rightarrow> nat \<Rightarrow> u32 \<Rightarrow> rbt_timers option" where
  "rbt_add_timer now st te msec =
     do { let msec = msec + now;
          t \<leftarrow> set_key (timer st) te msec;
          t \<leftarrow> ngx_rbtree_insert timer_less t te;
          Some (st\<lparr>timer := t\<rparr>) }"

definition rbt_del_timer :: "rbt_timers \<Rightarrow> nat \<Rightarrow> rbt_timers option" where
  "rbt_del_timer st te = do { t \<leftarrow> ngx_rbtree_delete (timer st) te; Some (st\<lparr>timer := t\<rparr>) }"

definition rbt_call :: "(nat \<Rightarrow> nat \<Rightarrow> 'w \<times> rbt_timers \<Rightarrow> ('w \<times> rbt_timers) option) \<Rightarrow> nat \<Rightarrow> 'w \<times> rbt_timers \<Rightarrow> ('w \<times> rbt_timers) option" where
  "rbt_call cb te ws = (if te \<in> node_set (timer (snd ws)) then cb (te_handler (snd ws) te) te ws else None)"

text \<open>\<open>free(te)\<close>\<close>

definition rbt_free :: "rbt_timers \<Rightarrow> nat \<Rightarrow> rbt_timers option" where
  "rbt_free st te =
     (if te \<in> node_set (timer st) then Some (st\<lparr>timer := (timer st)\<lparr>node_set := node_set (timer st) - {te}\<rparr>\<rparr>) else None)"

partial_function (option) rbt_expire_timer ::
  "(nat \<Rightarrow> nat \<Rightarrow> 'w \<times> rbt_timers \<Rightarrow> ('w \<times> rbt_timers) option) \<Rightarrow> u32 \<Rightarrow> 'w \<times> rbt_timers \<Rightarrow> ('w \<times> rbt_timers) option" where
  [code]: "rbt_expire_timer cb now ws =
     (let t = timer (snd ws)
      in if root t = sentinel t then Some ws
         else do { node \<leftarrow> ngx_rbtree_min t (root t);
                   k \<leftarrow> rd key t node;
                   if k > now then Some ws
                   else do { ws \<leftarrow> rbt_call cb node ws;
                             st \<leftarrow> rbt_del_timer (snd ws) node;
                             st \<leftarrow> rbt_free st node;
                             rbt_expire_timer cb now (fst ws, st) } })"

section \<open>The tree as a queue of deadlines\<close>

lemma rb_inv_nodes:
  assumes "rb_inv t as"
  shows "distinct as" "set as \<subseteq> node_set t"
proof -
  obtain T where T: "zip_at t T []" "addrs T = as" using assms by (auto simp: rb_inv_def rb_tree_def)
  then show "distinct as" "set as \<subseteq> node_set t" using zip_distinct [OF T(1)] zip_nodes [OF T(1)] by auto
qed

text \<open>A node outside the tree may be freed.\<close>

lemma rb_inv_free:
  assumes "rb_inv t as" and "a \<notin> set as" "a \<noteq> sentinel t"
  shows "rb_inv (t\<lparr>node_set := node_set t - {a}\<rparr>) as"
proof -
  have "tree_at (t\<lparr>node_set := node_set t - {a}\<rparr>) q p T" if "tree_at t q p T" "a \<notin> set (addrs T)" for q p T
    using that by (induction T arbitrary: q p) auto
  then show ?thesis using assms by (fastforce simp: rb_inv_def rb_tree_def zip_at_def)
qed

lemma rb_inv_malloc:
  assumes "rb_inv t as" and "a \<noteq> 0"
  shows "rb_inv (t\<lparr>node_set := insert a (node_set t)\<rparr>) as"
proof -
  have "tree_at (t\<lparr>node_set := insert a (node_set t)\<rparr>) q p T" if "tree_at t q p T" for q p T
    using that by (induction T arbitrary: q p) auto
  then show ?thesis using assms by (fastforce simp: rb_inv_def rb_tree_def zip_at_def)
qed

text \<open>The first node of the sequence is the minimum.\<close>

lemma rb_min:
  assumes "rb_inv t (a # as)"
  shows "root t \<noteq> sentinel t" "ngx_rbtree_min t (root t) = Some a" "a \<in> node_set t" "a \<noteq> sentinel t"
proof -
  obtain T where T: "zip_at t T []" "addrs T = a # as" using assms by (auto simp: rb_inv_def rb_tree_def)
  then obtain l b r where b: "T = Nd l b r" by (cases T) auto
  then obtain q where "tree_at t q b (Nd l b r)" "b = root t" using T(1) by (auto simp: zip_at_def)
  moreover have "hd (addrs l @ [b]) = a" using T(2) b by (cases "addrs l") auto
  ultimately show "root t \<noteq> sentinel t" "ngx_rbtree_min t (root t) = Some a" using min_spec [of t q b l r] by auto
  show "a \<in> node_set t" "a \<noteq> sentinel t" using zip_nodes [OF T(1), of a] T(2) by simp_all
qed

lemma rb_empty: "rb_inv t [] \<Longrightarrow> root t = sentinel t"
proof -
  assume "rb_inv t []"
  then obtain T where "zip_at t T []" "addrs T = []" by (auto simp: rb_inv_def rb_tree_def)
  then show ?thesis by (cases T) (auto simp: zip_at_def)
qed

text \<open>The timers \<open>as\<close> with the given keys and handlers, beside the other nodes \<open>N\<close> of the store.\<close>

definition rbt_holds :: "nat set \<Rightarrow> (nat \<Rightarrow> u32) \<Rightarrow> (nat \<Rightarrow> nat) \<Rightarrow> rbt_timers \<Rightarrow> nat list \<Rightarrow> bool" where
  "rbt_holds N K H st as \<longleftrightarrow> rb_inv (timer st) as \<and> sorted (map K as) \<and> distinct as \<and>
     (\<forall>a \<in> set as. key (timer st) a = K a) \<and> te_handler st = H \<and> node_set (timer st) = N \<union> set as \<and> N \<inter> set as = {}"

definition rbt_first :: "rbt_timers \<Rightarrow> nat option option" where
  "rbt_first st = (let t = timer st in if root t = sentinel t then Some None else do { a \<leftarrow> ngx_rbtree_min t (root t); Some (Some a) })"

definition rbt_due :: "u32 \<Rightarrow> rbt_timers \<Rightarrow> nat \<Rightarrow> bool option" where
  "rbt_due now st a = do { k \<leftarrow> rd key (timer st) a; Some (\<not> k > now) }"

definition rbt_take :: "nat \<Rightarrow> rbt_timers \<Rightarrow> rbt_timers option" where
  "rbt_take a st = do { st \<leftarrow> rbt_del_timer st a; rbt_free st a }"

lemma rbt_take_holds:
  assumes "rbt_holds N K H st (a # as)"
  shows "\<exists>st'. rbt_take a st = Some st' \<and> rbt_holds N K H st' as"
proof -
  have inv: "rb_inv (timer st) ([] @ a # as)" and a: "a \<notin> set as" "a \<notin> N" using assms by (simp_all add: rbt_holds_def)
  obtain t' where t': "ngx_rbtree_delete (timer st) a = Some t'" "same_but a (timer st) t'" "rb_inv t' as"
    using delete_spec [OF inv] by auto
  have s: "a \<in> node_set t'" "a \<noteq> sentinel t'"
    using rb_min(3,4) inv t'(2) by (auto simp: same_but_def)
  let ?st = "st\<lparr>timer := t'\<lparr>node_set := node_set t' - {a}\<rparr>\<rparr>"
  have "rbt_take a st = Some ?st" using t'(1) s(1) by (simp add: rbt_take_def rbt_del_timer_def rbt_free_def)
  moreover have "rb_inv (timer ?st) as" using rb_inv_free [OF t'(3) a(1) s(2)] by simp
  ultimately show ?thesis using assms a t'(2) by (auto simp: rbt_holds_def same_but_def)
qed

interpretation rbt: deadline_queue "rbt_holds N K H" rbt_first "\<lambda>now a. K a \<le> now" rbt_take rbt_due
  "rbt_call cb" "rbt_expire_timer cb" for N K H cb
proof
  fix st as assume "rbt_holds N K H st as"
  then show "rbt_first st = Some (case as of [] \<Rightarrow> None | a # _ \<Rightarrow> Some a)"
    using rb_min(1,2) [of "timer st"] rb_empty [of "timer st"] by (cases as) (auto simp: rbt_first_def rbt_holds_def)
next
  fix st a as and now :: u32 assume "rbt_holds N K H st (a # as)"
  then show "rbt_due now st a = Some (K a \<le> now)"
    using rb_min(3) [of "timer st" a as] by (auto simp: rbt_due_def rbt_holds_def rd_def not_less)
next
  fix st a as b and now :: u32 assume "rbt_holds N K H st (a # as)" "b \<in> set as" "K b \<le> now"
  then show "K a \<le> now" by (auto simp: rbt_holds_def)
next
  fix st a as assume "rbt_holds N K H st (a # as)"
  then show "\<exists>st'. rbt_take a st = Some st' \<and> rbt_holds N K H st' as" by (rule rbt_take_holds)
next
  fix now :: u32 and w :: 'a and st
  show "rbt_expire_timer cb now (w, st) =
      do { m \<leftarrow> rbt_first st;
           case m of
             None \<Rightarrow> Some (w, st)
           | Some a \<Rightarrow>
               do { d \<leftarrow> rbt_due now st a;
                    if d then do { (w, st) \<leftarrow> rbt_call cb a (w, st); st \<leftarrow> rbt_take a st; rbt_expire_timer cb now (w, st) }
                    else Some (w, st) } }"
  proof (cases "root (timer st) = sentinel (timer st)")
    case False
    show ?thesis
    proof (cases "ngx_rbtree_min (timer st) (root (timer st))")
      case (Some x)
      then show ?thesis using False
        by (cases "rd key (timer st) x"; subst rbt_expire_timer.simps)
          (auto simp: rbt_first_def rbt_due_def rbt_take_def split_def Let_def)
    qed (use False in \<open>subst rbt_expire_timer.simps, simp add: rbt_first_def\<close>)
  qed (subst rbt_expire_timer.simps, simp add: rbt_first_def)
qed

text \<open>The loop over the due timers.\<close>

lemma expire_spec:
  assumes "rb_inv (timer st) as" and "sorted (map (key (timer st)) as)" and "\<And>h te w st. cb h te (w, st) = Some (f h te w, st)"
  shows "\<exists>st'. rbt_expire_timer cb now (w, st) =
      Some (fold (\<lambda>te. f (te_handler st te) te) (filter (\<lambda>te. key (timer st) te \<le> now) as) w, st') \<and>
    rb_inv (timer st') (filter (\<lambda>te. \<not> key (timer st) te \<le> now) as) \<and>
    node_set (timer st') = node_set (timer st) - set (filter (\<lambda>te. key (timer st) te \<le> now) as) \<and>
    (\<forall>te \<in> set as. \<not> key (timer st) te \<le> now \<longrightarrow> key (timer st') te = key (timer st) te)"
proof -
  let ?K = "key (timer st)" and ?H = "te_handler st" and ?N = "node_set (timer st) - set as"
  note as = rb_inv_nodes [OF assms(1)]
  then have "rbt_holds ?N ?K ?H st as" using assms(1,2) by (auto simp: rbt_holds_def)
  moreover have "rbt_call cb a (w, st') = Some (f (?H a) a w, st')" if "rbt_holds ?N ?K ?H st' (a # bs)" for st' a bs w
    using that assms(3) by (auto simp: rbt_call_def rbt_holds_def)
  ultimately obtain st' where "rbt_expire_timer cb now (w, st) = Some (fold (\<lambda>te. f (?H te) te) (filter (\<lambda>te. ?K te \<le> now) as) w, st')"
    "rbt_holds ?N ?K ?H st' (filter (\<lambda>te. \<not> ?K te \<le> now) as)"
    using rbt.expire_due [of ?N ?K ?H st as cb "\<lambda>te. f (?H te) te" now w] by blast
  then show ?thesis using as by (auto simp: rbt_holds_def)
qed

section \<open>Adding a timer\<close>

lemma zip_key [simp]: "zip_at (t\<lparr>key := k\<rparr>) T C = zip_at t T C"
proof -
  have tree: "tree_at (t\<lparr>key := k\<rparr>) q p T = tree_at t q p T" for q p T by (induction T arbitrary: q p) simp_all
  have "frame_at (t\<lparr>key := k\<rparr>) p f = frame_at t p f" for p f by (cases f) (simp_all add: tree)
  then have "ctx_at (t\<lparr>key := k\<rparr>) p q C = ctx_at t p q C" for p q by (induction C arbitrary: p q) simp_all
  then show ?thesis by (simp add: zip_at_def tree)
qed

text \<open>As long as the clock and the times due stay below half the range, the wrapping comparison is the plain one.\<close>

lemma add_timer_spec:
  assumes "rb_inv (timer st) as" "sorted (map (key (timer st)) as)" "list_all (\<lambda>a. key (timer st) a < 2 ^ 31) as"
    and te: "te \<in> node_set (timer st)" "te \<noteq> sentinel (timer st)" "te \<notin> set as" and small: "unat msec + unat now < 2 ^ 31"
  defines "k \<equiv> msec + now" and "K \<equiv> (key (timer st))(te := msec + now)"
  shows "\<exists>st' as'. rbt_add_timer now st te msec = Some st' \<and> rb_inv (timer st') as' \<and> sorted (map K as') \<and>
    as' = takeWhile (\<lambda>a. K a \<le> k) as @ te # dropWhile (\<lambda>a. K a \<le> k) as \<and> list_all (\<lambda>a. K a < 2 ^ 31) as' \<and> unat k = unat msec + unat now \<and>
    key (timer st') = K \<and> te_handler st' = te_handler st \<and> node_set (timer st') = node_set (timer st) \<and> sentinel (timer st') = sentinel (timer st)"
proof -
  let ?t = "timer st\<lparr>key := K\<rparr>"
  have k: "unat k = unat msec + unat now" using small by (simp add: k_def unat_word_ariths)
  then have "k < 2 ^ 31" using small by (simp add: word_less_nat_alt)
  have K: "K te = k" "\<And>a. a \<in> set as \<Longrightarrow> K a = key (timer st) a" using te(3) by (auto simp: K_def k_def)
  have sorted: "sorted (map K as)" using assms(2) K(2) by (simp cong: map_cong)
  have below: "list_all (\<lambda>a. K a < 2 ^ 31) (te # as)" using assms(3) K \<open>k < 2 ^ 31\<close> by (simp add: list_all_iff)
  have "rb_tree ?t as" "\<not> red ?t (root ?t)" using assms(1) by (simp_all add: rb_inv_def rb_tree_def)
  then obtain t' as' where t': "ngx_rbtree_insert timer_less ?t te = Some t'" "same_nodes ?t t'" "rb_tree t' as'" "\<not> red t' (root t')"
    "sorted (map (\<lambda>a. key t' a - 0) as')"
    "as' = takeWhile (\<lambda>a. K a - 0 \<le> K te - 0) as @ te # dropWhile (\<lambda>a. K a - 0 \<le> K te - 0) as"
    using by_timer.insert_in_order [of ?t as te 0] te below sorted by auto
  have "rbt_add_timer now st te msec = Some (st\<lparr>timer := t'\<rparr>)"
    using te(1) t'(1) by (simp add: rbt_add_timer_def set_key_def K_def)
  moreover have "set as' = insert te (set as)" using t'(6) takeWhile_dropWhile_id [of _ as] by (metis Un_insert_right list.simps(15) set_append)
  then have "list_all (\<lambda>a. K a < 2 ^ 31) as'" using below by (simp add: list_all_iff)
  ultimately show ?thesis using t' k by (simp add: rb_inv_def same_nodes_def K(1))
qed

section \<open>Runs\<close>

text \<open>Handlers that only do something outside, written down in a log.\<close>

definition rbt_log :: "nat \<Rightarrow> nat \<Rightarrow> (nat \<times> nat) list \<times> rbt_timers \<Rightarrow> ((nat \<times> nat) list \<times> rbt_timers) option" where
  "rbt_log h te ws = Some (fst ws @ [(h, te)], snd ws)"

text \<open>What a program does with timers: entries are allocated, armed, disarmed, and the loop frees those it fires. The second
  argument holds the armed entries.\<close>

inductive rbt_reach :: "rbt_timers \<Rightarrow> nat set \<Rightarrow> bool" where
  reach_init: "s \<in> node_set (timer st) \<Longrightarrow> 0 \<notin> node_set (timer st) \<Longrightarrow> rbt_init_timer st s = Some st' \<Longrightarrow> rbt_reach st' {}"
| reach_malloc: "rbt_reach st P \<Longrightarrow> te \<notin> node_set (timer st) \<Longrightarrow> te \<noteq> 0 \<Longrightarrow>
    rbt_reach (st\<lparr>timer := (timer st)\<lparr>node_set := insert te (node_set (timer st))\<rparr>, te_handler := (te_handler st)(te := h)\<rparr>) P"
| reach_add: "rbt_reach st P \<Longrightarrow> te \<in> node_set (timer st) \<Longrightarrow> te \<noteq> sentinel (timer st) \<Longrightarrow> te \<notin> P \<Longrightarrow>
    unat msec + unat now < 2 ^ 31 \<Longrightarrow> rbt_add_timer now st te msec = Some st' \<Longrightarrow> rbt_reach st' (insert te P)"
| reach_del: "rbt_reach st P \<Longrightarrow> te \<in> P \<Longrightarrow> rbt_del_timer st te = Some st' \<Longrightarrow> rbt_reach st' (P - {te})"
| reach_expire: "rbt_reach st P \<Longrightarrow> rbt_expire_timer rbt_log now ([], st) = Some (log, st') \<Longrightarrow> rbt_reach st' (P - snd ` set log)"

definition rbt_armed :: "rbt_timers \<Rightarrow> nat list \<Rightarrow> bool" where
  "rbt_armed st as \<longleftrightarrow> rb_inv (timer st) as \<and> sorted (map (key (timer st)) as) \<and> list_all (\<lambda>a. key (timer st) a < 2 ^ 31) as"

lemma log_fold: "fold (\<lambda>te w. w @ [(h te, te)]) as w = w @ map (\<lambda>te. (h te, te)) as"
  by (induction as arbitrary: w) simp_all

lemma reach_armed: "rbt_reach st P \<Longrightarrow> \<exists>as. set as = P \<and> distinct as \<and> rbt_armed st as"
proof (induction rule: rbt_reach.induct)
  case (reach_init s st st')
  then have "rb_inv (timer st') []" using init_inv [of s "timer st"] by (auto simp: rbt_init_timer_def)
  then show ?case by (simp add: rbt_armed_def)
next
  case (reach_malloc st P te h)
  then obtain as where as: "set as = P" "distinct as" "rbt_armed st as" by blast
  then have "rb_inv (timer st) as" by (simp add: rbt_armed_def)
  from rb_inv_malloc [OF this reach_malloc.hyps(3)] as show ?case by (auto simp: rbt_armed_def)
next
  case (reach_add st P te msec now st')
  then obtain as where as: "set as = P" "distinct as" "rbt_armed st as" by blast
  let ?K = "(key (timer st))(te := msec + now)"
  from as(3) obtain as' where as': "rb_inv (timer st') as'" "sorted (map ?K as')" "list_all (\<lambda>a. ?K a < 2 ^ 31) as'"
    "as' = takeWhile (\<lambda>a. ?K a \<le> msec + now) as @ te # dropWhile (\<lambda>a. ?K a \<le> msec + now) as" "key (timer st') = ?K"
    using add_timer_spec [of st as te msec now] reach_add.hyps(2-6) as(1) by (auto simp: rbt_armed_def)
  have "set as' = insert te P"
    using as'(4) takeWhile_dropWhile_id [of _ as] as(1) by (metis Un_insert_right list.simps(15) set_append)
  moreover have "distinct as'" using rb_inv_nodes(1) [OF as'(1)] .
  moreover have "rbt_armed st' as'" using as'(1-3,5) by (simp add: rbt_armed_def)
  ultimately show ?case by blast
next
  case (reach_del st P te st')
  then obtain as where as: "set as = P" "distinct as" "rbt_armed st as" by blast
  then obtain xs ys where xy: "as = xs @ te # ys" using reach_del.hyps(2) split_list by metis
  from as(3) have "rb_inv (timer st) (xs @ te # ys)" unfolding xy rbt_armed_def by blast
  from delete_spec [OF this] reach_del.hyps(3) have st': "rb_inv (timer st') (xs @ ys)" "key (timer st') = (key (timer st))(te := 0)"
    by (auto simp: rbt_del_timer_def same_but_def)
  have out: "te \<notin> set (xs @ ys)" using as(2) xy by auto
  then have eq: "map (key (timer st')) (xs @ ys) = map (key (timer st)) (xs @ ys)" using st'(2) by auto
  have "sorted (map (key (timer st)) (xs @ ys))" using as(3) unfolding xy rbt_armed_def by (simp add: sorted_append)
  moreover have "list_all (\<lambda>a. key (timer st') a < 2 ^ 31) (xs @ ys)" using as(3) unfolding xy rbt_armed_def st'(2) by (simp add: list_all_iff)
  ultimately have "rbt_armed st' (xs @ ys)" using st'(1) unfolding rbt_armed_def eq by simp
  moreover have "set (xs @ ys) = P - {te}" "distinct (xs @ ys)" using as(1,2) xy by auto
  ultimately show ?case by (intro exI [of _ "xs @ ys"]) simp
next
  case (reach_expire st P now log st')
  then obtain as where as: "set as = P" "distinct as" "rbt_armed st as" by blast
  let ?on = "filter (\<lambda>te. key (timer st) te \<le> now) as" and ?off = "filter (\<lambda>te. \<not> key (timer st) te \<le> now) as"
  have "rb_inv (timer st) as" "sorted (map (key (timer st)) as)" using as(3) by (simp_all add: rbt_armed_def)
  from expire_spec [OF this, of rbt_log "\<lambda>h te w. w @ [(h, te)]" now "[]"] reach_expire.hyps(2)
  have st': "rb_inv (timer st') ?off" "log = fold (\<lambda>te w. w @ [(te_handler st te, te)]) ?on []"
    "\<forall>te \<in> set as. \<not> key (timer st) te \<le> now \<longrightarrow> key (timer st') te = key (timer st) te" by (auto simp: rbt_log_def)
  have "snd ` set log = set ?on" unfolding st'(2) log_fold by force
  then have "set ?off = P - snd ` set log" using as(1) by auto
  moreover have "map (key (timer st')) ?off = map (key (timer st)) ?off" using st'(3) by auto
  moreover have "sorted (map (key (timer st)) ?off)" using as(3) sorted_filter [of "key (timer st)" as] by (auto simp: rbt_armed_def)
  moreover have "list_all (\<lambda>a. key (timer st') a < 2 ^ 31) ?off" using as(3) st'(3) by (auto simp: rbt_armed_def list_all_iff)
  moreover have "distinct ?off" using as(2) by simp
  ultimately show ?case using st'(1) unfolding rbt_armed_def by metis
qed

section \<open>Properties\<close>

text \<open>C38: Deletion: a node of a red-black tree, wherever it stands, is taken out of the sequence of nodes, and what is left is
  a red-black tree again (black root, no red node below a red one, equally many black nodes on all ways
  down, consistent parent pointers); the loop ends, and no key but that of the node has changed.\<close>

theorem rbt_del_timer_removes:
  assumes "rb_inv (timer st) (xs @ te # ys)"
  shows "\<exists>st'. rbt_del_timer st te = Some st' \<and> rb_inv (timer st') (xs @ ys) \<and>
    key (timer st') = (key (timer st))(te := 0) \<and> sentinel (timer st') = sentinel (timer st) \<and> node_set (timer st') = node_set (timer st)"
  using delete_spec [OF assms] by (auto simp: rbt_del_timer_def same_but_def)

theorem rbt_del_timer_removes_witness:
  "\<exists>t st'. rb_inv t [2, 3] \<and> rbt_del_timer \<lparr>timer = t, te_handler = (\<lambda>_. 0)\<rparr> 2 = Some st' \<and> rb_inv (timer st') [3]"
proof -
  obtain t where t: "rb_inv t [2, 3]" using timer_store_tree by blast
  then show ?thesis using rbt_del_timer_removes [of "\<lparr>timer = t, te_handler = (\<lambda>_. 0)\<rparr>" "[]" 2 "[3]"] by auto
qed

text \<open>The loop over the due timers: on a tree whose keys are in order, with handlers that leave the timers alone, exactly the
  entries whose key does not lie behind the clock are fired, each once, in the order of their keys; they are
  taken out of the tree and freed; the others stay, in a well-formed tree, and no other node is freed.\<close>

theorem rbt_expire_fires_due:
  assumes "rb_inv (timer st) as" and "sorted (map (key (timer st)) as)" and "\<And>h te w st. cb h te (w, st) = Some (f h te w, st)"
  shows "\<exists>st'. rbt_expire_timer cb now (w, st) =
      Some (fold (\<lambda>te. f (te_handler st te) te) (filter (\<lambda>te. key (timer st) te \<le> now) as) w, st') \<and>
    rb_inv (timer st') (filter (\<lambda>te. \<not> key (timer st) te \<le> now) as) \<and>
    node_set (timer st') = node_set (timer st) - set (filter (\<lambda>te. key (timer st) te \<le> now) as)"
  using expire_spec [of st as cb f now w, OF assms] by blast

theorem rbt_expire_fires_due_witness:
  "\<exists>t st'. rb_inv t [2, 3] \<and> rbt_expire_timer rbt_log 100 ([], \<lparr>timer = t, te_handler = (\<lambda>_. 9)\<rparr>) = Some ([(9, 2)], st') \<and>
     rb_inv (timer st') [3]"
proof -
  obtain t where t: "rb_inv t [2, 3]" "key t = key timer_store" using timer_store_tree by (elim exE conjE) (rule that)
  let ?st = "\<lparr>timer = t, te_handler = (\<lambda>_. 9)\<rparr>"
  have "rb_inv (timer ?st) [2, 3]" "sorted (map (key (timer ?st)) [2, 3])" using t by (simp_all add: timer_store_def)
  from rbt_expire_fires_due [OF this, of rbt_log "\<lambda>h te w. w @ [(h, te)]" 100 "[]"]
  obtain st' where "rbt_expire_timer rbt_log 100 ([], ?st) = Some ([(9, 2)], st')" "rb_inv (timer st') [3]"
    using t(2) by (auto simp: rbt_log_def timer_store_def)
  then show ?thesis using t(1) by blast
qed

text \<open>C39: A program that allocates, arms and disarms timers and runs the loop, with a clock and times below \<open>2 ^ 31\<close>: the armed
  entries are always the nodes of a well-formed tree in the order of their keys; arming a free entry, disarming an
  armed one and the loop never fail; and a run of the loop calls the handlers of exactly the armed entries
  whose time has come, in the order of their times.\<close>

theorem rbt_timers_sound:
  assumes "rbt_reach st P"
  shows "(\<exists>as. set as = P \<and> distinct as \<and> rb_inv (timer st) as \<and> sorted (map (key (timer st)) as)) \<and>
    (te \<in> node_set (timer st) - P - {sentinel (timer st)} \<and> unat msec + unat now < 2 ^ 31 \<longrightarrow> rbt_add_timer now st te msec \<noteq> None) \<and>
    (te \<in> P \<longrightarrow> rbt_del_timer st te \<noteq> None) \<and>
    (\<exists>fired st'. rbt_expire_timer rbt_log now ([], st) = Some (map (\<lambda>te. (te_handler st te, te)) fired, st') \<and>
       set fired = {te \<in> P. key (timer st) te \<le> now} \<and> distinct fired \<and> sorted (map (key (timer st)) fired))"
proof -
  obtain as where as: "set as = P" "distinct as" "rb_inv (timer st) as" "sorted (map (key (timer st)) as)"
    "list_all (\<lambda>a. key (timer st) a < 2 ^ 31) as" using reach_armed [OF assms] by (auto simp: rbt_armed_def)
  have "rbt_add_timer now st te msec \<noteq> None" if "te \<in> node_set (timer st) - P - {sentinel (timer st)}" "unat msec + unat now < 2 ^ 31"
  proof -
    have "te \<in> node_set (timer st)" "te \<noteq> sentinel (timer st)" "te \<notin> set as" using that(1) as(1) by auto
    from add_timer_spec [OF as(3-5) this that(2)] show ?thesis by blast
  qed
  moreover have "rbt_del_timer st te \<noteq> None" if armed: "te \<in> P"
  proof -
    obtain xs ys where xy: "as = xs @ te # ys" using armed as(1) split_list [of te as] by blast
    from delete_spec [OF as(3) [unfolded xy]] show ?thesis by (auto simp: rbt_del_timer_def)
  qed
  moreover have "\<exists>fired st'. rbt_expire_timer rbt_log now ([], st) = Some (map (\<lambda>te. (te_handler st te, te)) fired, st') \<and>
       set fired = {te \<in> P. key (timer st) te \<le> now} \<and> distinct fired \<and> sorted (map (key (timer st)) fired)"
    using expire_spec [OF as(3,4), of rbt_log "\<lambda>h te w. w @ [(h, te)]" now "[]"] as
    by (intro exI [of _ "filter (\<lambda>te. key (timer st) te \<le> now) as"]) (auto simp: rbt_log_def log_fold sorted_filter)
  ultimately show ?thesis using as by blast
qed

lemma first_timer:
  obtains st0 st1 where "rbt_init_timer \<lparr>timer = timer_store, te_handler = (\<lambda>_. 9)\<rparr> 1 = Some st0" "rb_inv (timer st0) []"
    "2 \<in> node_set (timer st0)" "sentinel (timer st0) = 1" "te_handler st0 = (\<lambda>_. 9)" "rbt_reach st0 {}"
    "rbt_add_timer 10 st0 2 20 = Some st1" "rbt_reach st1 {2}" "key (timer st1) 2 = 30" "te_handler st1 2 = 9"
proof -
  have s: "1 \<in> node_set timer_store" "0 \<notin> node_set timer_store" "2 \<in> node_set timer_store" by (simp_all add: timer_store_def)
  from init_inv [OF s(1,2)] obtain t where t: "ngx_rbtree_init timer_store 1 = Some t" "rb_inv t []" "sentinel t = 1" "node_set t = node_set timer_store"
    by blast
  let ?st0 = "\<lparr>timer = t, te_handler = (\<lambda>_. 9)\<rparr>"
  have init: "rbt_init_timer \<lparr>timer = timer_store, te_handler = (\<lambda>_. 9)\<rparr> 1 = Some ?st0" using t(1) by (simp add: rbt_init_timer_def)
  have r0: "rbt_reach ?st0 {}" by (rule reach_init [OF _ _ init]) (use s in simp_all)
  have "rb_inv (timer ?st0) []" "sorted (map (key (timer ?st0)) [])" "list_all (\<lambda>a. key (timer ?st0) a < 2 ^ 31) []"
    "2 \<in> node_set (timer ?st0)" "2 \<noteq> sentinel (timer ?st0)" "2 \<notin> set []" "unat (20 :: u32) + unat (10 :: u32) < 2 ^ 31"
    using t s(3) by simp_all
  from add_timer_spec [OF this] obtain st1 where st1: "rbt_add_timer 10 ?st0 2 20 = Some st1"
    "key (timer st1) = (key (timer ?st0))(2 := 20 + 10)" "te_handler st1 = te_handler ?st0" by blast
  have "rbt_reach st1 (insert 2 {})" by (rule reach_add [OF r0 _ _ _ _ st1(1)]) (use t s(3) in simp_all)
  then show thesis using that [of ?st0 st1] init t r0 st1 s(3) by simp
qed

theorem rbt_timers_sound_witness:
  "\<exists>st0 st1. rbt_init_timer \<lparr>timer = timer_store, te_handler = (\<lambda>_. 9)\<rparr> 1 = Some st0 \<and> rbt_add_timer 10 st0 2 20 = Some st1 \<and>
     rbt_reach st1 {2} \<and> (\<exists>st2. rbt_expire_timer rbt_log 30 ([], st1) = Some ([(9, 2)], st2))"
proof -
  obtain st0 st1 where r: "rbt_init_timer \<lparr>timer = timer_store, te_handler = (\<lambda>_. 9)\<rparr> 1 = Some st0"
    "rbt_add_timer 10 st0 2 20 = Some st1" "rbt_reach st1 {2}" "key (timer st1) 2 = 30" "te_handler st1 2 = 9" by (rule first_timer)
  from rbt_timers_sound [OF r(3), of 2 0 30, THEN conjunct2, THEN conjunct2, THEN conjunct2] obtain fired st2 where
    f: "rbt_expire_timer rbt_log 30 ([], st1) = Some (map (\<lambda>te. (te_handler st1 te, te)) fired, st2)"
      "set fired = {te \<in> {2}. key (timer st1) te \<le> 30}" "distinct fired" by blast
  have "x \<in> set fired \<longleftrightarrow> x = 2" for x unfolding f(2) by (cases "x = 2") (use r(4) in simp_all)
  then have "set fired = {2}" by blast
  moreover from this have "length fired = 1" using distinct_card [OF f(3)] by simp
  ultimately have "fired = [2]" by (cases fired) auto
  then show ?thesis using r f(1) by auto
qed

text \<open>Across the wrap of the 32-bit clock the loop is wrong, although the tree keeps its order: it compares a key with the
  clock as plain numbers, so that a timer whose time due has wrapped is fired at once, at the very millisecond
  it was armed.\<close>

theorem rbt_wrapped_fires_at_once:
  assumes "rb_inv (timer st) []" and "te \<in> node_set (timer st)" "te \<noteq> sentinel (timer st)" and "2 ^ 32 \<le> unat msec + unat now"
  shows "\<exists>st1 st2. rbt_add_timer now st te msec = Some st1 \<and> rbt_expire_timer rbt_log now ([], st1) = Some ([(te_handler st te, te)], st2)"
proof -
  let ?t = "timer st\<lparr>key := (key (timer st))(te := msec + now)\<rparr>"
  have "rb_tree ?t []" "\<not> red ?t (root ?t)" using assms(1) by (simp_all add: rb_inv_def rb_tree_def)
  then obtain t' where t': "ngx_rbtree_insert timer_less ?t te = Some t'" "same_nodes ?t t'" "rb_inv t' [te]"
    using insert_spec [of ?t "[]" te timer_less] assms(2,3) by (auto simp: rb_inv_def)
  let ?st = "st\<lparr>timer := t'\<rparr>"
  have add: "rbt_add_timer now st te msec = Some ?st" using assms(2) t'(1) by (simp add: rbt_add_timer_def set_key_def)
  have "unat (msec + now) = unat msec + unat now - 2 ^ 32"
    using assms(4) unsigned_less [of msec, where 'a = nat] unsigned_less [of now, where 'a = nat] by (simp add: unat_word_ariths mod_if)
  then have "msec + now \<le> now" using unsigned_less [of msec, where 'a = nat] by (simp add: word_le_nat_alt)
  then have "key (timer ?st) te \<le> now" using t'(2) by (simp add: same_nodes_def)
  then show ?thesis using expire_spec [of ?st "[te]" rbt_log "\<lambda>h te w. w @ [(h, te)]" now "[]"] t'(3) add by (auto simp: rbt_log_def)
qed

theorem rbt_wrapped_fires_at_once_witness:
  "\<exists>st0 st1 st2. rbt_init_timer \<lparr>timer = timer_store, te_handler = (\<lambda>_. 9)\<rparr> 1 = Some st0 \<and> rbt_add_timer (- 1000) st0 2 3000 = Some st1 \<and>
     rbt_expire_timer rbt_log (- 1000) ([], st1) = Some ([(9, 2)], st2)"
proof -
  obtain st0 where r: "rbt_init_timer \<lparr>timer = timer_store, te_handler = (\<lambda>_. 9)\<rparr> 1 = Some st0" "rb_inv (timer st0) []"
    "2 \<in> node_set (timer st0)" "sentinel (timer st0) = 1" "te_handler st0 = (\<lambda>_. 9)" by (rule first_timer)
  have "2 \<noteq> sentinel (timer st0)" "2 ^ 32 \<le> unat (3000 :: u32) + unat (- 1000 :: u32)" using r(4) by simp_all
  from rbt_wrapped_fires_at_once [OF r(2,3) this] show ?thesis using r(1,5) by auto
qed

end
