(* ===== verification/Skiplist.thy ===== *)
theory Skiplist
  imports Prelude
begin

text \<open>
  The skip list of the timer study (\<open>jiagoushi/chap2.5/test-timer/test-timer/skiplist.c\<close>): creation, random
  levels, insertion, minimum and the two deletions.

  The nodes live in a store from addresses to records, because every level is a linked list through the
  same nodes; address 0 is the null pointer. A read of a freed or missing node, of a level a node does not
  have, or through the null pointer is \<open>None\<close>, and so is a walk that does not end. What \<open>malloc\<close> answers and
  what the random generator draws are arguments.
\<close>

section \<open>Data\<close>

record zskiplistNode =
  score :: u64
  handler :: nat
  forward :: "nat list"

record zskiplist =
  header :: nat
  zlength :: int
  zlevel :: nat
  store :: "nat \<rightharpoonup> zskiplistNode"

definition ZSKIPLIST_MAXLEVEL :: nat where "ZSKIPLIST_MAXLEVEL = 32"

text \<open>\<open>x->level[i].forward\<close>, read and written.\<close>

definition fwd :: "zskiplist \<Rightarrow> nat \<Rightarrow> nat \<Rightarrow> nat option" where
  "fwd z x i = (case store z x of None \<Rightarrow> None | Some n \<Rightarrow> if i < length (forward n) then Some (forward n ! i) else None)"

definition set_fwd :: "zskiplist \<Rightarrow> nat \<Rightarrow> nat \<Rightarrow> nat \<Rightarrow> zskiplist option" where
  "set_fwd z x i y =
     (case store z x of
        None \<Rightarrow> None
      | Some n \<Rightarrow>
          if i < length (forward n) then Some (z\<lparr>store := (store z)(x \<mapsto> n\<lparr>forward := (forward n)[i := y]\<rparr>)\<rparr>) else None)"

section \<open>Creation\<close>

text \<open>The pointers of a new node are whatever the memory held.\<close>

definition zslCreateNode :: "(nat \<Rightarrow> nat) \<Rightarrow> nat \<Rightarrow> u64 \<Rightarrow> nat \<Rightarrow> zskiplistNode" where
  "zslCreateNode junk level s func = \<lparr>score = s, handler = func, forward = map junk [0..<level]\<rparr>"

definition zslCreate :: "(nat \<Rightarrow> nat) \<Rightarrow> nat option \<Rightarrow> zskiplist option" where
  "zslCreate junk malloc =
     (case malloc of
        None \<Rightarrow> None
      | Some h \<Rightarrow>
          let n = zslCreateNode junk ZSKIPLIST_MAXLEVEL 0 0
          in Some \<lparr>header = h, zlength = 0, zlevel = 1,
               store = [h \<mapsto> n\<lparr>forward := map (\<lambda>j. 0) (forward n)\<rparr>]\<rparr>)"

text \<open>\<open>zslRandomLevel\<close>: one more level for every draw below a quarter of 0xFFFF.\<close>

fun random_level :: "u32 list \<Rightarrow> nat \<Rightarrow> nat option" where
  "random_level [] level = None"
| "random_level (r # rs) level = (if 4 * uint (r AND 0xFFFF) < 0xFFFF then random_level rs (level + 1) else Some level)"

definition zslRandomLevel :: "u32 list \<Rightarrow> nat option" where
  "zslRandomLevel draws =
     map_option (\<lambda>level. if level < ZSKIPLIST_MAXLEVEL then level else ZSKIPLIST_MAXLEVEL) (random_level draws 1)"

section \<open>Search and insertion\<close>

partial_function (option) walk :: "zskiplist \<Rightarrow> nat \<Rightarrow> u64 \<Rightarrow> nat \<Rightarrow> nat option" where
  [code]: "walk z i s x =
     do { y \<leftarrow> fwd z x i;
          if y = 0 then Some x
          else do { n \<leftarrow> store z y; if score n < s then walk z i s y else Some x } }"

text \<open>The loop over the levels, from the top; \<open>update\<close> is the list of where each level stopped.\<close>

primrec find_update :: "zskiplist \<Rightarrow> u64 \<Rightarrow> nat \<Rightarrow> nat \<Rightarrow> nat list option" where
  "find_update z s 0 x = Some []"
| "find_update z s (Suc i) x =
     do { x' \<leftarrow> walk z i s x; us \<leftarrow> find_update z s i x'; Some (us @ [x']) }"

text \<open>The loop that links the new node into its levels.\<close>

fun link_levels :: "zskiplist \<Rightarrow> nat \<Rightarrow> nat list \<Rightarrow> nat \<Rightarrow> zskiplist option" where
  "link_levels z x [] i = Some z"
| "link_levels z x (u # us) i =
     do { y \<leftarrow> fwd z u i; z \<leftarrow> set_fwd z x i y; z \<leftarrow> set_fwd z u i x; link_levels z x us (i + 1) }"

definition zslInsert :: "(nat \<Rightarrow> nat) \<Rightarrow> nat option \<Rightarrow> u32 list \<Rightarrow> zskiplist \<Rightarrow> u64 \<Rightarrow> nat \<Rightarrow> (zskiplist \<times> nat) option" where
  "zslInsert junk malloc draws z s func =
     do { update \<leftarrow> find_update z s (zlevel z) (header z);
          level \<leftarrow> zslRandomLevel draws;
          let update = take level (update @ replicate (level - zlevel z) (header z));
          let z = (if level > zlevel z then z\<lparr>zlevel := level\<rparr> else z);
          x \<leftarrow> malloc;
          let z = z\<lparr>store := (store z)(x \<mapsto> zslCreateNode junk level s func)\<rparr>;
          z \<leftarrow> link_levels z x update 0;
          Some (z\<lparr>zlength := zlength z + 1\<rparr>, x) }"

definition zslMin :: "zskiplist \<Rightarrow> nat option" where
  "zslMin z = fwd z (header z) 0"

section \<open>Deletion\<close>

text \<open>For each level \<open>i\<close> and node \<open>u\<close> of a list: if \<open>x\<close> is behind \<open>u\<close> on that level, unlink it.\<close>

fun unlink_levels :: "zskiplist \<Rightarrow> nat \<Rightarrow> (nat \<times> nat) list \<Rightarrow> zskiplist option" where
  "unlink_levels z x [] = Some z"
| "unlink_levels z x ((i, u) # us) =
     do { y \<leftarrow> fwd z u i;
          z \<leftarrow> (if y = x then do { y' \<leftarrow> fwd z x i; set_fwd z u i y' } else Some z);
          unlink_levels z x us }"

text \<open>The loop that lowers the level while the top one is empty, by the level.\<close>

primrec lower :: "zskiplist \<Rightarrow> nat \<Rightarrow> nat option" where
  "lower z 0 = Some 0"
| "lower z (Suc l) = (if 0 < l then do { y \<leftarrow> fwd z (header z) l; if y = 0 then lower z l else Some (Suc l) } else Some (Suc l))"

definition lower_level :: "zskiplist \<Rightarrow> zskiplist option" where
  "lower_level z = do { l \<leftarrow> lower z (zlevel z); Some (z\<lparr>zlevel := l, zlength := zlength z - 1\<rparr>) }"

definition zslDeleteNode :: "zskiplist \<Rightarrow> nat \<Rightarrow> nat list \<Rightarrow> zskiplist option" where
  "zslDeleteNode z x update = do { z \<leftarrow> unlink_levels z x (zip [0..<zlevel z] update); lower_level z }"

definition zslDeleteHead :: "zskiplist \<Rightarrow> zskiplist option" where
  "zslDeleteHead z =
     do { x \<leftarrow> zslMin z;
          if x = 0 then Some z
          else do { z \<leftarrow> unlink_levels z x (map (\<lambda>i. (i, header z)) (rev [0..<zlevel z])); lower_level z } }"

text \<open>The node removed is freed.\<close>

definition zslDelete :: "zskiplist \<Rightarrow> nat \<Rightarrow> zskiplist option" where
  "zslDelete z zn =
     do { n \<leftarrow> store z zn;
          update \<leftarrow> find_update z (score n) (zlevel z) (header z);
          x \<leftarrow> fwd z (hd update) 0;
          if x = 0 then Some z
          else do { m \<leftarrow> store z x;
                    if score n = score m
                    then do { z \<leftarrow> zslDeleteNode z x update; Some (z\<lparr>store := (store z)(x := None)\<rparr>) }
                    else Some z } }"

text \<open>The addresses that \<open>zslFree\<close> hands back after the header.\<close>

partial_function (option) free_nodes :: "zskiplist \<Rightarrow> nat \<Rightarrow> nat list option" where
  [code]: "free_nodes z node =
     (if node = 0 then Some []
      else do { n \<leftarrow> fwd z node 0; rest \<leftarrow> free_nodes (z\<lparr>store := (store z)(node := None)\<rparr>) n; Some (node # rest) })"

definition zslFree :: "zskiplist \<Rightarrow> nat list option" where
  "zslFree z =
     do { node \<leftarrow> fwd z (header z) 0;
          rest \<leftarrow> free_nodes (z\<lparr>store := (store z)(header z := None)\<rparr>) node;
          Some (header z # rest) }"

section \<open>The list that the levels represent\<close>

definition score_of :: "zskiplist \<Rightarrow> nat \<Rightarrow> u64" where "score_of z y = score (the (store z y))"
definition handler_of :: "zskiplist \<Rightarrow> nat \<Rightarrow> nat" where "handler_of z y = handler (the (store z y))"
definition height :: "zskiplist \<Rightarrow> nat \<Rightarrow> nat" where "height z y = length (forward (the (store z y)))"

primrec path :: "zskiplist \<Rightarrow> nat \<Rightarrow> nat \<Rightarrow> nat list \<Rightarrow> bool" where
  "path z i x [] \<longleftrightarrow> fwd z x i = Some 0"
| "path z i x (y # ys) \<longleftrightarrow> fwd z x i = Some y \<and> y \<noteq> 0 \<and> path z i y ys"

text \<open>Level \<open>i\<close> runs through the nodes that are higher than \<open>i\<close>, in the order of the bottom level.\<close>

definition chain :: "zskiplist \<Rightarrow> nat \<Rightarrow> nat list \<Rightarrow> nat list" where
  "chain z i ys = filter (\<lambda>y. i < height z y) ys"

definition skip_inv :: "zskiplist \<Rightarrow> nat list \<Rightarrow> bool" where
  "skip_inv z ys \<longleftrightarrow> distinct (header z # ys) \<and> header z \<noteq> 0 \<and> 0 \<notin> set ys \<and>
     store z (header z) \<noteq> None \<and> height z (header z) = 32 \<and>
     (\<forall>y \<in> set ys. store z y \<noteq> None \<and> 1 \<le> height z y \<and> height z y \<le> zlevel z) \<and>
     (\<forall>i < 32. path z i (header z) (chain z i ys)) \<and> sorted (map (score_of z) ys) \<and>
     1 \<le> zlevel z \<and> zlevel z \<le> 32 \<and> zlength z = int (length ys)"

lemma path_append: "path z i x (as @ y # bs) \<Longrightarrow> path z i y bs"
  by (induction as arbitrary: x) auto

lemma path_cong: "path z i x ys \<Longrightarrow> (\<And>v. v \<in> set (x # ys) \<Longrightarrow> fwd z' v i = fwd z v i) \<Longrightarrow> path z' i x ys"
  by (induction ys arbitrary: x) auto

lemma path_last: "path z i x ys \<Longrightarrow> fwd z (last (x # ys)) i = Some 0"
  by (induction ys arbitrary: x) auto

text \<open>Linking a node in behind the last of \<open>as\<close>, on one level.\<close>

lemma path_insert:
  assumes "path z i x (as @ bs)" and "distinct (x # as @ bs)" and "a \<notin> set (x # as @ bs)" and "a \<noteq> 0"
    and "\<And>v. fwd z' v i = (if v = last (x # as) then Some a else if v = a then fwd z (last (x # as)) i else fwd z v i)"
  shows "path z' i x (as @ a # bs)"
  using assms
proof (induction as arbitrary: x)
  case Nil
  have "path z' i a bs"
  proof (cases bs)
    case Nil
    then show ?thesis using Nil.prems by auto
  next
    case (Cons b cs)
    have "path z' i b cs" using Nil.prems Cons by (intro path_cong [of z i b cs z']) auto
    then show ?thesis using Nil.prems Cons by auto
  qed
  then show ?case using Nil.prems by simp
next
  case (Cons y as)
  have "path z' i y (as @ a # bs)" using Cons.prems by (intro Cons.IH) auto
  moreover have "x \<noteq> last (y # as)" using Cons.prems(2) last_in_set [of "y # as"] by (auto simp del: last.simps)
  ultimately show ?case using Cons.prems by auto
qed

text \<open>Unlinking the first node.\<close>

lemma path_remove:
  assumes "path z i x (a # bs)" and "distinct (x # a # bs)" and "fwd z' x i = fwd z a i" and "\<And>v. v \<noteq> x \<Longrightarrow> fwd z' v i = fwd z v i"
  shows "path z' i x bs"
proof (cases bs)
  case (Cons b cs)
  have "fwd z' v i = fwd z v i" if v: "v \<in> set (b # cs)" for v
    using v assms(2) Cons by (intro assms(4)) auto
  then have "path z' i b cs" using assms(1) Cons by (intro path_cong [of z i b cs z']) auto
  then show ?thesis using assms Cons by simp
qed (use assms in simp)

section \<open>Writing a pointer\<close>

text \<open>Two states with the same frame: everything but the pointers.\<close>

definition same_frame :: "zskiplist \<Rightarrow> zskiplist \<Rightarrow> bool" where
  "same_frame z z' \<longleftrightarrow> score_of z' = score_of z \<and> handler_of z' = handler_of z \<and> height z' = height z \<and> (\<forall>v. (store z' v = None) = (store z v = None)) \<and>
     header z' = header z \<and> zlevel z' = zlevel z \<and> zlength z' = zlength z"

lemma same_frame_trans: "same_frame z z1 \<Longrightarrow> same_frame z1 z2 \<Longrightarrow> same_frame z z2"
  and same_frame_refl: "same_frame z z"
  by (simp_all add: same_frame_def)

lemma set_fwd_Some:
  assumes "fwd z x i \<noteq> None"
  shows "\<exists>z'. set_fwd z x i y = Some z' \<and> same_frame z z' \<and>
    (\<forall>v j. fwd z' v j = (if v = x \<and> j = i then Some y else fwd z v j))"
proof -
  obtain n where n: "store z x = Some n" "i < length (forward n)"
    using assms by (auto simp: fwd_def split: option.splits if_splits)
  then show ?thesis
    by (auto simp: set_fwd_def fwd_def same_frame_def score_of_def handler_of_def height_def nth_list_update fun_eq_iff)
qed

lemma link_levels_spec:
  assumes "x \<notin> set us" and "\<And>j. j < length us \<Longrightarrow> fwd z (us ! j) (i + j) \<noteq> None \<and> fwd z x (i + j) \<noteq> None"
  shows "\<exists>z'. link_levels z x us i = Some z' \<and> same_frame z z' \<and>
    (\<forall>v j. fwd z' v j = (if i \<le> j \<and> j < i + length us
       then if v = us ! (j - i) then Some x else if v = x then fwd z (us ! (j - i)) j else fwd z v j
       else fwd z v j))"
  using assms
proof (induction us arbitrary: z i)
  case Nil
  then show ?case by (auto simp: same_frame_def)
next
  case (Cons u us)
  have u: "fwd z u i \<noteq> None" "fwd z x i \<noteq> None" "u \<noteq> x" using Cons.prems(2) [of 0] Cons.prems(1) by auto
  obtain y where y: "fwd z u i = Some y" using u(1) by blast
  obtain z1 where z1: "set_fwd z x i y = Some z1" "\<And>v j. fwd z1 v j = (if v = x \<and> j = i then Some y else fwd z v j)"
    "same_frame z z1" using set_fwd_Some [OF u(2), of y] by blast
  have "fwd z1 u i \<noteq> None" using u by (simp add: z1(2))
  from set_fwd_Some [OF this, of x] obtain z2 where z2: "set_fwd z1 u i x = Some z2"
    "\<And>v j. fwd z2 v j = (if v = u \<and> j = i then Some x else fwd z1 v j)" "same_frame z1 z2" by blast
  have later: "fwd z2 v j = fwd z v j" if "j \<noteq> i" for v j using that by (simp add: z2(2) z1(2))
  have "\<exists>z'. link_levels z2 x us (i + 1) = Some z' \<and> same_frame z2 z' \<and>
    (\<forall>v j. fwd z' v j = (if i + 1 \<le> j \<and> j < i + 1 + length us
       then if v = us ! (j - (i + 1)) then Some x else if v = x then fwd z2 (us ! (j - (i + 1))) j else fwd z2 v j
       else fwd z2 v j))"
    using Cons.prems(1) Cons.prems(2) [of "Suc _"] by (intro Cons.IH) (auto simp: later)
  then obtain z' where z': "link_levels z2 x us (i + 1) = Some z'" "same_frame z2 z'"
    "\<And>v j. fwd z' v j = (if i + 1 \<le> j \<and> j < i + 1 + length us
       then if v = us ! (j - (i + 1)) then Some x else if v = x then fwd z2 (us ! (j - (i + 1))) j else fwd z2 v j
       else fwd z2 v j)" by blast
  have "link_levels z x (u # us) i = Some z'" using y z1(1) z2(1) z'(1) by simp
  moreover have "same_frame z z'" using z'(2) z1(3) z2(3) same_frame_trans by blast
  moreover have "fwd z' v j = (if i \<le> j \<and> j < i + length (u # us)
       then if v = (u # us) ! (j - i) then Some x else if v = x then fwd z ((u # us) ! (j - i)) j else fwd z v j
       else fwd z v j)" for v j
  proof (cases "j = i")
    case True
    then show ?thesis using u(3) y by (simp add: z'(3) z2(2) z1(2))
  next
    case False
    then have "i < j \<Longrightarrow> (u # us) ! (j - i) = us ! (j - (i + 1))" by (simp add: nth_Cons')
    then show ?thesis using False by (auto simp: z'(3) later)
  qed
  ultimately show ?case by blast
qed

section \<open>Searching\<close>

lemma walk_spec:
  "path z i x ys \<Longrightarrow> \<forall>y \<in> set ys. store z y \<noteq> None \<Longrightarrow>
    walk z i s x = Some (last (x # takeWhile (\<lambda>y. score_of z y < s) ys))"
proof (induction ys arbitrary: x)
  case Nil
  then show ?case by (subst walk.simps) simp
next
  case (Cons y ys)
  then obtain n where n: "store z y = Some n" by auto
  then have "score_of z y = score n" by (simp add: score_of_def)
  then show ?case using Cons n by (subst walk.simps) auto
qed

text \<open>The last node before score \<open>s\<close> on level \<open>i\<close>.\<close>

definition pred_at :: "zskiplist \<Rightarrow> u64 \<Rightarrow> nat list \<Rightarrow> nat \<Rightarrow> nat" where
  "pred_at z s ys i = last (header z # chain z i (takeWhile (\<lambda>y. score_of z y < s) ys))"

lemma takeWhile_filter:
  "sorted (map f ys) \<Longrightarrow> takeWhile (\<lambda>y. f y < s) (filter P ys) = filter P (takeWhile (\<lambda>y. f y < (s :: u64)) ys)"
proof (induction ys)
  case (Cons y ys)
  show ?case
  proof (cases "f y < s")
    case False
    then have "\<forall>x \<in> set ys. \<not> f x < s" using Cons.prems by force
    then have "\<forall>x \<in> set (filter P ys). \<not> f x < s" by simp
    then have "takeWhile (\<lambda>y. f y < s) (filter P ys) = []" by (cases "filter P ys") simp_all
    then show ?thesis using False by simp
  qed (use Cons in simp)
qed simp

lemma takeWhile_split: "takeWhile P xs = as @ x # cs \<Longrightarrow> \<exists>bs. xs = as @ x # bs \<and> cs = takeWhile P bs"
proof (induction as arbitrary: xs)
  case Nil
  then show ?case by (cases xs) (auto split: if_splits)
next
  case (Cons a as)
  then obtain xs' where "xs = a # xs'" "takeWhile P xs' = as @ x # cs" by (cases xs) (auto split: if_splits)
  then show ?case using Cons.IH [of xs'] by auto
qed

lemma find_update_spec:
  assumes inv: "skip_inv z ys"
  shows "l \<le> 32 \<Longrightarrow> x = header z \<or> (x \<in> set (takeWhile (\<lambda>y. score_of z y < s) ys) \<and> l \<le> height z x) \<Longrightarrow>
    find_update z s l x = Some (map (pred_at z s ys) [0..<l])"
proof (induction l arbitrary: x)
  case (Suc l)
  let ?lt = "\<lambda>y. score_of z y < s"
  have path: "path z l (header z) (chain z l ys)" and sorted: "sorted (map (score_of z) ys)"
    and ok: "\<forall>y \<in> set ys. store z y \<noteq> None" using inv Suc.prems(1) by (simp_all add: skip_inv_def)
  have tw: "takeWhile ?lt (chain z l ys) = chain z l (takeWhile ?lt ys)"
    unfolding chain_def by (rule takeWhile_filter [OF sorted])
  have "walk z l s x = Some (pred_at z s ys l)"
  proof (cases "x = header z")
    case True
    have "\<forall>y \<in> set (chain z l ys). store z y \<noteq> None" using ok by (simp add: chain_def)
    from walk_spec [OF path this, of s] show ?thesis unfolding True tw pred_at_def .
  next
    case False
    then have "x \<in> set (takeWhile ?lt (chain z l ys))" using Suc.prems(2) unfolding tw by (simp add: chain_def)
    then obtain as cs where tx: "takeWhile ?lt (chain z l ys) = as @ x # cs" by (meson split_list)
    from takeWhile_split [OF this] obtain bs where bs: "chain z l ys = as @ x # bs" "cs = takeWhile ?lt bs" by blast
    have "path z l x bs" using path unfolding bs(1) by (rule path_append)
    moreover have "\<forall>y \<in> set bs. store z y \<noteq> None"
    proof -
      have "set bs \<subseteq> set (chain z l ys)" unfolding bs(1) by auto
      then show ?thesis using ok by (auto simp: chain_def)
    qed
    ultimately have "walk z l s x = Some (last (x # cs))" unfolding bs(2) by (rule walk_spec)
    then show ?thesis using tx unfolding tw by (simp add: pred_at_def)
  qed
  moreover have "pred_at z s ys l = header z \<or>
      pred_at z s ys l \<in> set (takeWhile ?lt ys) \<and> l \<le> height z (pred_at z s ys l)"
  proof (cases "chain z l (takeWhile ?lt ys) = []")
    case False
    then have "pred_at z s ys l \<in> set (chain z l (takeWhile ?lt ys))" by (simp add: pred_at_def)
    then show ?thesis by (auto simp: chain_def)
  qed (simp add: pred_at_def)
  ultimately show ?case using Suc.IH [of "pred_at z s ys l"] Suc.prems(1) by simp
qed simp

section \<open>Insertion\<close>

lemma random_level_ge: "random_level draws l = Some m \<Longrightarrow> l \<le> m"
  by (induction draws l rule: random_level.induct) (auto split: if_splits)

lemma zslRandomLevel_range: "zslRandomLevel draws = Some l \<Longrightarrow> 1 \<le> l \<and> l \<le> 32"
  using random_level_ge by (auto simp: zslRandomLevel_def ZSKIPLIST_MAXLEVEL_def split: if_splits)

lemma fwd_height: "fwd z x i \<noteq> None \<longleftrightarrow> store z x \<noteq> None \<and> i < height z x"
  by (auto simp: fwd_def height_def split: option.splits)

text \<open>The chain of level \<open>i\<close> is empty above the level of the list, so the header precedes everything there.\<close>

lemma pred_at_header: "skip_inv z ys \<Longrightarrow> zlevel z \<le> i \<Longrightarrow> pred_at z s ys i = header z"
proof -
  assume inv: "skip_inv z ys" and i: "zlevel z \<le> i"
  have "\<forall>y \<in> set ys. height z y \<le> i" using inv i by (auto simp: skip_inv_def)
  then have "chain z i (takeWhile (\<lambda>y. score_of z y < s) ys) = []"
    by (auto simp: chain_def filter_empty_conv not_less dest: set_takeWhileD)
  then show ?thesis by (simp add: pred_at_def)
qed

lemma pred_at_in: "pred_at z s ys i = header z \<or> pred_at z s ys i \<in> set ys \<and> i < height z (pred_at z s ys i)"
proof (cases "chain z i (takeWhile (\<lambda>y. score_of z y < s) ys) = []")
  case False
  then have "pred_at z s ys i \<in> set (chain z i (takeWhile (\<lambda>y. score_of z y < s) ys))" by (simp add: pred_at_def)
  then show ?thesis by (auto simp: chain_def dest: set_takeWhileD)
qed (simp add: pred_at_def)

lemma pred_at_fwd: "skip_inv z ys \<Longrightarrow> i < 32 \<Longrightarrow> fwd z (pred_at z s ys i) i \<noteq> None"
  using pred_at_in [of z s ys i] unfolding fwd_height by (auto simp: skip_inv_def)

lemma dropWhile_ge:
  "sorted (map f ys) \<Longrightarrow> \<forall>y \<in> set (dropWhile (\<lambda>y. f y < s) ys). (s :: u64) \<le> f y"
  by (induction ys) (auto simp: not_less intro: order_trans)

lemma insert_update:
  assumes inv: "skip_inv z ys" and "l \<le> 32"
  shows "\<exists>us. find_update z s (zlevel z) (header z) = Some us \<and>
    take l (us @ replicate (l - zlevel z) (header z)) = map (pred_at z s ys) [0..<l]"
proof -
  have "find_update z s (zlevel z) (header z) = Some (map (pred_at z s ys) [0..<zlevel z])"
    using inv by (intro find_update_spec [OF inv]) (simp_all add: skip_inv_def)
  moreover have "take l (map (pred_at z s ys) [0..<zlevel z] @ replicate (l - zlevel z) (header z)) = map (pred_at z s ys) [0..<l]"
    by (rule nth_equalityI) (use pred_at_header [OF inv] in \<open>auto simp: nth_append\<close>)
  ultimately show ?thesis by blast
qed

lemma zslInsert_spec:
  assumes inv: "skip_inv z ys" and x: "x \<noteq> 0" "store z x = None" and l: "zslRandomLevel draws = Some l"
  shows "\<exists>z'. zslInsert junk (Some x) draws z s func = Some (z', x) \<and>
    skip_inv z' (takeWhile (\<lambda>y. score_of z y < s) ys @ x # dropWhile (\<lambda>y. score_of z y < s) ys) \<and>
    score_of z' = (score_of z)(x := s) \<and> handler_of z' = (handler_of z)(x := func)"
proof -
  let ?lt = "\<lambda>y. score_of z y < s" and ?h = "header z"
  define P D us where "P = takeWhile ?lt ys" and "D = dropWhile ?lt ys" and "us = map (pred_at z s ys) [0..<l]"
  have ys: "ys = P @ D" by (simp add: P_def D_def)
  have l32: "1 \<le> l" "l \<le> 32" using zslRandomLevel_range [OF l] by simp_all
  have xout: "x \<noteq> ?h" "x \<notin> set ys" using inv x(2) by (auto simp: skip_inv_def)
  obtain us0 where us0: "find_update z s (zlevel z) ?h = Some us0" "take l (us0 @ replicate (l - zlevel z) ?h) = us"
    using insert_update [OF inv l32(2)] by (auto simp: us_def)
  define z1 where "z1 = (if l > zlevel z then z\<lparr>zlevel := l\<rparr> else z)"
  define z2 where "z2 = z1\<lparr>store := (store z1)(x \<mapsto> zslCreateNode junk l s func)\<rparr>"
  have z2h: "handler_of z2 = (handler_of z)(x := func)"
    by (auto simp: z2_def z1_def zslCreateNode_def handler_of_def fun_eq_iff)
  have z2: "score_of z2 = (score_of z)(x := s)" "height z2 = (height z)(x := l)" "store z2 x \<noteq> None"
    "\<And>v. v \<noteq> x \<Longrightarrow> store z2 v = store z v" "header z2 = ?h" "zlevel z2 = max (zlevel z) l" "zlength z2 = zlength z"
    "\<And>v j. v \<noteq> x \<Longrightarrow> fwd z2 v j = fwd z v j"
    by (auto simp: z2_def z1_def zslCreateNode_def score_of_def height_def fwd_def fun_eq_iff)
  have us: "x \<notin> set us" "length us = l" "\<And>j. j < l \<Longrightarrow> us ! j = pred_at z s ys j"
    using pred_at_in [of z s ys] xout by (auto simp: us_def)
  have "\<exists>z'. link_levels z2 x us 0 = Some z' \<and> same_frame z2 z' \<and>
    (\<forall>v j. fwd z' v j = (if 0 \<le> j \<and> j < 0 + length us
       then if v = us ! (j - 0) then Some x else if v = x then fwd z2 (us ! (j - 0)) j else fwd z2 v j else fwd z2 v j))"
  proof (rule link_levels_spec [OF us(1)])
    fix j assume j: "j < length us"
    then have "us ! j \<noteq> x" using us(1) nth_mem by metis
    then show "fwd z2 (us ! j) (0 + j) \<noteq> None \<and> fwd z2 x (0 + j) \<noteq> None"
      using j us l32 pred_at_fwd [OF inv, of j s] z2(2,3,8) iffD2 [OF fwd_height [of z2 x j]] by simp
  qed
  then obtain z3 where z3: "link_levels z2 x us 0 = Some z3" "same_frame z2 z3"
    "\<And>v j. fwd z3 v j = (if j < l then if v = us ! j then Some x else if v = x then fwd z2 (us ! j) j else fwd z2 v j else fwd z2 v j)"
    unfolding us(2) by auto
  define z' where "z' = z3\<lparr>zlength := zlength z3 + 1\<rparr>"
  have z': "score_of z' = score_of z2" "height z' = height z2" "\<And>v. store z' v = None \<longleftrightarrow> store z2 v = None"
    "header z' = ?h" "zlevel z' = max (zlevel z) l" "zlength z' = zlength z + 1" "\<And>v j. fwd z' v j = fwd z3 v j"
    using z3(2) z2(5-7) by (auto simp: z'_def same_frame_def score_of_def [abs_def] height_def [abs_def] fwd_def)
  have "handler_of z' = handler_of z2" using z3(2) by (auto simp: z'_def same_frame_def handler_of_def [abs_def])
  note z'h = this [unfolded z2h]
  have "zslInsert junk (Some x) draws z s func = Some (z', x)"
    using us0 l z3(1) by (simp add: zslInsert_def Let_def z1_def [symmetric] z2_def [symmetric] z'_def)
  moreover have "skip_inv z' (P @ x # D)"
  proof -
    have dist: "distinct (?h # P @ D)" using inv ys by (simp add: skip_inv_def)
    have "path z' j ?h (chain z' j (P @ x # D))" if j: "j < 32" for j
    proof -
      have ch: "chain z' j Q = chain z j Q" if "x \<notin> set Q" for Q
        using that by (auto simp: chain_def z' z2 intro!: filter_cong)
      have old: "path z j ?h (chain z j P @ chain z j D)" using inv j ys by (simp add: skip_inv_def chain_def)
      have sub: "set (chain z j P @ chain z j D) \<subseteq> set ys" unfolding ys by (auto simp: chain_def)
      have new: "path z2 j ?h (chain z j P @ chain z j D)"
        by (rule path_cong [OF old]) (use sub xout in \<open>auto intro!: z2(8)\<close>)
      have out: "x \<notin> set P" "x \<notin> set D" using xout ys by auto
      show ?thesis
      proof (cases "j < l")
        case True
        have "path z' j ?h (chain z j P @ x # chain z j D)"
        proof (rule path_insert [OF new])
          show "distinct (?h # chain z j P @ chain z j D)" using dist by (auto simp: chain_def)
          show "x \<notin> set (?h # chain z j P @ chain z j D)" using sub xout by auto
          show "x \<noteq> 0" by (rule x(1))
          show "fwd z' v j = (if v = last (?h # chain z j P) then Some x
              else if v = x then fwd z2 (last (?h # chain z j P)) j else fwd z2 v j)" for v
            using True us(3) [of j] by (simp add: z'(7) z3(3) pred_at_def P_def)
        qed
        moreover have "chain z' j (P @ x # D) = chain z j P @ x # chain z j D"
          using True ch out by (simp add: chain_def z' z2)
        ultimately show ?thesis by simp
      next
        case False
        have "chain z' j (P @ x # D) = chain z j P @ chain z j D"
          using False ch out by (simp add: chain_def z' z2)
        moreover have "path z' j ?h (chain z j P @ chain z j D)"
          by (rule path_cong [OF new]) (use False in \<open>simp add: z'(7) z3(3)\<close>)
        ultimately show ?thesis by simp
      qed
    qed
    moreover have "sorted (map (score_of z') (P @ x # D))"
    proof -
      have sorted: "sorted (map (score_of z) ys)" using inv by (simp add: skip_inv_def)
      have "\<forall>y \<in> set D. s \<le> score_of z y" unfolding D_def by (rule dropWhile_ge [OF sorted])
      moreover have "\<forall>y \<in> set P. score_of z y \<le> s" unfolding P_def by (auto dest: set_takeWhileD)
      moreover have m: "map (score_of z') (P @ x # D) = map (score_of z) P @ s # map (score_of z) D"
        using xout ys by (auto simp: z' z2)
      ultimately show ?thesis using sorted unfolding ys m by (auto simp: sorted_append)
    qed
    ultimately show ?thesis
      using inv x xout l32 ys by (auto simp: skip_inv_def z' z2 le_max_iff_disj)
  qed
  ultimately show ?thesis using z'(1) z2(1) z'h by (auto simp: P_def D_def)
qed

section \<open>Removing the first node\<close>

lemma unlink_head:
  assumes "\<And>i. i \<in> set is \<Longrightarrow> fwd z h i \<noteq> None \<and> (fwd z h i = Some x \<longrightarrow> fwd z x i \<noteq> None)" and "x \<noteq> h" and "distinct is"
  shows "\<exists>z'. unlink_levels z x (map (\<lambda>i. (i, h)) is) = Some z' \<and> same_frame z z' \<and>
    (\<forall>v j. fwd z' v j = (if v = h \<and> j \<in> set is \<and> fwd z h j = Some x then fwd z x j else fwd z v j))"
  using assms
proof (induction "is" arbitrary: z)
  case Nil
  then show ?case by (simp add: same_frame_refl)
next
  case (Cons i is')
  have i: "fwd z h i \<noteq> None" "fwd z h i = Some x \<longrightarrow> fwd z x i \<noteq> None" using Cons.prems(1) [of i] by simp_all
  obtain z1 where z1: "(if the (fwd z h i) = x then do { y' \<leftarrow> fwd z x i; set_fwd z h i y' } else Some z) = Some z1"
    "same_frame z z1" "\<And>v j. fwd z1 v j = (if v = h \<and> j = i \<and> fwd z h i = Some x then fwd z x i else fwd z v j)"
  proof (cases "fwd z h i = Some x")
    case True
    then obtain y' where y': "fwd z x i = Some y'" using i(2) by blast
    from set_fwd_Some [OF i(1), of y'] True y' that show thesis by auto
  next
    case False
    then show thesis using that [of z] i(1) by (auto simp: same_frame_refl)
  qed
  have later: "fwd z1 v j = fwd z v j" if "j \<noteq> i \<or> v \<noteq> h" for v j using that by (auto simp: z1(3))
  have "\<exists>z'. unlink_levels z1 x (map (\<lambda>i. (i, h)) is') = Some z' \<and> same_frame z1 z' \<and>
    (\<forall>v j. fwd z' v j = (if v = h \<and> j \<in> set is' \<and> fwd z1 h j = Some x then fwd z1 x j else fwd z1 v j))"
  proof (rule Cons.IH)
    fix k assume k: "k \<in> set is'"
    then have "k \<noteq> i" using Cons.prems(3) by auto
    then show "fwd z1 h k \<noteq> None \<and> (fwd z1 h k = Some x \<longrightarrow> fwd z1 x k \<noteq> None)"
      using Cons.prems(1) [of k] k later by simp
  qed (use Cons.prems in simp_all)
  then obtain z' where z': "unlink_levels z1 x (map (\<lambda>i. (i, h)) is') = Some z'" "same_frame z1 z'"
    "\<And>v j. fwd z' v j = (if v = h \<and> j \<in> set is' \<and> fwd z1 h j = Some x then fwd z1 x j else fwd z1 v j)" by blast
  have "unlink_levels z x (map (\<lambda>i. (i, h)) (i # is')) = Some z'"
    using i(1) z1(1) z'(1) by auto
  moreover have "same_frame z z'" using z1(2) z'(2) same_frame_trans by blast
  moreover have "fwd z' v j = (if v = h \<and> j \<in> set (i # is') \<and> fwd z h j = Some x then fwd z x j else fwd z v j)" for v j
    using Cons.prems(2,3) by (cases "j = i") (auto simp: z'(3) z1(3))
  ultimately show ?case by blast
qed

text \<open>Lowering stops at a level that is still used, or at one.\<close>

lemma lower_spec:
  assumes "\<And>i. i < 32 \<Longrightarrow> path z i (header z) (chain z i ys)"
  shows "l \<le> 32 \<Longrightarrow> 1 \<le> l \<Longrightarrow> \<forall>y \<in> set ys. height z y \<le> l \<Longrightarrow>
    \<exists>l'. lower z l = Some l' \<and> 1 \<le> l' \<and> l' \<le> l \<and> (\<forall>y \<in> set ys. height z y \<le> l')"
proof (induction l)
  case (Suc l)
  show ?case
  proof (cases "0 < l")
    case True
    have path: "path z l (header z) (chain z l ys)" using assms Suc.prems(1) by simp
    show ?thesis
    proof (cases "chain z l ys")
      case Nil
      then have "\<forall>y \<in> set ys. height z y \<le> l" by (auto simp: chain_def filter_empty_conv not_less)
      then obtain l' where "lower z l = Some l'" "1 \<le> l'" "l' \<le> l" "\<forall>y \<in> set ys. height z y \<le> l'"
        using Suc True by auto
      then show ?thesis using path Nil True by auto
    next
      case (Cons y cs)
      then show ?thesis using path True Suc.prems by auto
    qed
  qed (use Suc.prems in auto)
qed simp

lemma zslDeleteHead_spec:
  assumes inv: "skip_inv z (x # ys)"
  shows "\<exists>z'. zslDeleteHead z = Some z' \<and> skip_inv z' ys \<and> score_of z' = score_of z \<and> handler_of z' = handler_of z"
proof -
  let ?h = "header z" and ?is = "rev [0..<zlevel z]"
  have xs: "x \<noteq> ?h" "x \<noteq> 0" "?h \<notin> set ys" "x \<notin> set ys" "1 \<le> height z x" "height z x \<le> zlevel z" "store z x \<noteq> None" "zlevel z \<le> 32"
    using inv by (auto simp: skip_inv_def)
  have path: "path z j ?h (chain z j (x # ys))" if "j < 32" for j using inv that by (simp add: skip_inv_def)
  have min: "zslMin z = Some x" using path [of 0] xs(5) by (simp add: zslMin_def chain_def)
  have first: "fwd z ?h j = Some x \<longleftrightarrow> j < height z x" if j: "j < 32" for j
  proof (cases "j < height z x")
    case True
    then show ?thesis using path [OF j] by (simp add: chain_def)
  next
    case False
    have out: "x \<notin> set (chain z j ys)" using xs(4) by (simp add: chain_def)
    have "path z j ?h (chain z j ys)" using False path [OF j] by (simp add: chain_def)
    then show ?thesis using False out xs(2) by (cases "chain z j ys") auto
  qed
  have "\<exists>z1. unlink_levels z x (map (\<lambda>i. (i, ?h)) ?is) = Some z1 \<and> same_frame z z1 \<and>
    (\<forall>v j. fwd z1 v j = (if v = ?h \<and> j \<in> set ?is \<and> fwd z ?h j = Some x then fwd z x j else fwd z v j))"
  proof (rule unlink_head)
    fix i assume "i \<in> set ?is"
    then have i: "i < 32" using xs(8) by simp
    then show "fwd z ?h i \<noteq> None \<and> (fwd z ?h i = Some x \<longrightarrow> fwd z x i \<noteq> None)"
      using first [OF i] inv xs(7) by (simp only: fwd_height) (simp add: skip_inv_def)
  qed (use xs(1) in simp_all)
  then obtain z1 where z1: "unlink_levels z x (map (\<lambda>i. (i, ?h)) ?is) = Some z1" "same_frame z z1"
    "\<And>v j. fwd z1 v j = (if v = ?h \<and> j \<in> set ?is \<and> fwd z ?h j = Some x then fwd z x j else fwd z v j)" by blast
  have fr: "score_of z1 = score_of z" "height z1 = height z" "header z1 = ?h" "zlevel z1 = zlevel z" "zlength z1 = zlength z"
    "\<And>v. (store z1 v = None) = (store z v = None)" using z1(2) by (auto simp: same_frame_def)
  have ch: "chain z1 j ys = chain z j ys" for j by (simp add: chain_def fr)
  have paths: "path z1 j ?h (chain z1 j ys)" if j: "j < 32" for j
  proof (cases "j < height z x")
    case True
    have "path z j ?h (x # chain z j ys)" using path [OF j] True by (simp add: chain_def)
    then show ?thesis unfolding ch
    proof (rule path_remove)
      show "distinct (?h # x # chain z j ys)" using inv by (auto simp: skip_inv_def chain_def)
      show "fwd z1 ?h j = fwd z x j" using True first [OF j] xs(6) by (simp add: z1(3))
    qed (simp add: z1(3))
  next
    case False
    have "path z j ?h (chain z j ys)" using path [OF j] False by (simp add: chain_def)
    then show ?thesis unfolding ch by (rule path_cong) (use False first [OF j] in \<open>auto simp: z1(3)\<close>)
  qed
  have "\<forall>y \<in> set ys. height z1 y \<le> zlevel z" using inv by (auto simp: skip_inv_def fr)
  then obtain l' where l': "lower z1 (zlevel z1) = Some l'" "1 \<le> l'" "l' \<le> zlevel z" "\<forall>y \<in> set ys. height z1 y \<le> l'"
    using lower_spec [of z1 ys "zlevel z"] paths xs(5,6,8) by (auto simp: fr)
  define z' where "z' = z1\<lparr>zlevel := l', zlength := zlength z1 - 1\<rparr>"
  have z': "score_of z' = score_of z" "height z' = height z" "header z' = ?h" "zlevel z' = l'" "zlength z' = zlength z - 1"
    "\<And>v. (store z' v = None) = (store z v = None)" "\<And>v j. fwd z' v j = fwd z1 v j"
    using fr by (auto simp: z'_def score_of_def [abs_def] height_def [abs_def] fwd_def)
  have "handler_of z' = handler_of z" using z1(2) by (auto simp: z'_def same_frame_def handler_of_def [abs_def])
  note z'h = this
  have "path z' j ?h (chain z' j ys)" if "j < 32" for j
    using path_cong [OF paths [OF that], of z'] by (simp add: z' fr chain_def)
  then have "skip_inv z' ys"
    using inv l' xs(8) by (auto simp: skip_inv_def z' fr)
  moreover have "zslDeleteHead z = Some z'"
    using min xs(2) z1(1) l'(1) by (simp add: zslDeleteHead_def lower_level_def z'_def)
  ultimately show ?thesis using z'(1) z'h by blast
qed

lemma zslMin_spec: "skip_inv z ys \<Longrightarrow> zslMin z = Some (if ys = [] then 0 else hd ys)"
proof -
  assume inv: "skip_inv z ys"
  have "path z 0 (header z) (chain z 0 ys)" "\<forall>y \<in> set ys. 0 < height z y" using inv by (auto simp: skip_inv_def)
  then have "path z 0 (header z) ys" by (simp add: chain_def filter_True)
  then show ?thesis by (cases ys) (simp_all add: zslMin_def)
qed

section \<open>Properties\<close>

lemma zslCreate_inv: "h \<noteq> 0 \<Longrightarrow> zslCreate junk (Some h) = Some z \<Longrightarrow> skip_inv z []"
  by (auto simp: zslCreate_def Let_def skip_inv_def zslCreateNode_def ZSKIPLIST_MAXLEVEL_def chain_def fwd_def height_def)

text \<open>C32: Insertion into a well-formed skip list (all levels linked through the nodes that reach them, scores in
  order on the bottom level) ends, whatever level the random draws give, and leaves a well-formed list in
  which the new node stands before the first node whose score is not smaller; no other node's score or
  place changes, the new node's pointers need not have been initialised.\<close>

theorem skiplist_insert:
  assumes "skip_inv z ys" and "x \<noteq> 0" "store z x = None" and "zslRandomLevel draws = Some l"
  shows "\<exists>z'. zslInsert junk (Some x) draws z s func = Some (z', x) \<and>
    skip_inv z' (takeWhile (\<lambda>y. score_of z y < s) ys @ x # dropWhile (\<lambda>y. score_of z y < s) ys) \<and>
    score_of z' = (score_of z)(x := s)"
  using zslInsert_spec [OF assms] by blast

theorem skiplist_insert_witness:
  "\<exists>z z'. zslCreate (\<lambda>_. 77) (Some 1) = Some z \<and>
     zslInsert (\<lambda>_. 99) (Some 2) [3, 5, 40000] z 10 0 = Some (z', 2) \<and> skip_inv z' [2] \<and> score_of z' 2 = 10"
proof -
  obtain z where z: "zslCreate (\<lambda>_. 77) (Some 1) = Some z" by (simp add: zslCreate_def Let_def)
  then have "skip_inv z []" using zslCreate_inv [of 1] by simp
  moreover have "store z 2 = None" using z by (auto simp: zslCreate_def Let_def)
  moreover have "zslRandomLevel [3, 5, 40000] = Some 3" by (simp add: zslRandomLevel_def ZSKIPLIST_MAXLEVEL_def)
  ultimately show ?thesis using skiplist_insert [of z "[]" 2 "[3, 5, 40000]" 3 "\<lambda>_. 99" 10 0] z by auto
qed

text \<open>The minimum is the first node, and \<open>zslDeleteHead\<close> removes exactly it: the level may shrink, the rest of
  the list stays in order; on an empty list nothing changes. Taking nodes from the head until the list is
  empty therefore yields the scores in ascending order.\<close>

theorem skiplist_delete_head:
  assumes "skip_inv z ys"
  shows "zslMin z = Some (if ys = [] then 0 else hd ys) \<and>
    (\<exists>z'. zslDeleteHead z = Some z' \<and> skip_inv z' (tl ys) \<and> score_of z' = score_of z)"
proof (cases ys)
  case Nil
  then show ?thesis using zslMin_spec [OF assms] assms by (simp add: zslDeleteHead_def)
next
  case (Cons y ys')
  then show ?thesis using zslMin_spec [OF assms] zslDeleteHead_spec [of z y ys'] assms by auto
qed

theorem skiplist_delete_head_witness:
  "\<exists>z z1 z2. zslCreate (\<lambda>_. 77) (Some 1) = Some z \<and> zslInsert (\<lambda>_. 99) (Some 2) [3, 5, 40000] z 10 0 = Some (z1, 2) \<and>
     zslMin z1 = Some 2 \<and> zslDeleteHead z1 = Some z2 \<and> skip_inv z2 []"
proof -
  obtain z where z: "zslCreate (\<lambda>_. 77) (Some 1) = Some z" by (simp add: zslCreate_def Let_def)
  then have "skip_inv z []" using zslCreate_inv [of 1] by simp
  moreover have "store z 2 = None" using z by (auto simp: zslCreate_def Let_def)
  moreover have "zslRandomLevel [3, 5, 40000] = Some 3" by (simp add: zslRandomLevel_def ZSKIPLIST_MAXLEVEL_def)
  ultimately obtain z1 where z1: "zslInsert (\<lambda>_. 99) (Some 2) [3, 5, 40000] z 10 0 = Some (z1, 2)" "skip_inv z1 [2]"
    using zslInsert_spec [of z "[]" 2 "[3, 5, 40000]" 3 "\<lambda>_. 99" 10 0] by auto
  then show ?thesis using skiplist_delete_head [of z1 "[2]"] z by auto
qed

text \<open>\<open>zslDelete\<close> looks for the score of the node it is given, not for the node: with two timers of the same
  score, deleting the one inserted first removes and frees the one inserted last.\<close>

theorem skiplist_delete_wrong:
  "(do { z \<leftarrow> zslCreate (\<lambda>_. 0) (Some 1);
         (z, a) \<leftarrow> zslInsert (\<lambda>_. 0) (Some 2) [40000] z 10 0;
         (z, b) \<leftarrow> zslInsert (\<lambda>_. 0) (Some 3) [40000] z 10 0;
         z \<leftarrow> zslDelete z a;
         Some (store z a = None, store z b = None, zslMin z, zlength z) }) = Some (False, True, Some 2, 1)"
  by code_simp

end
