(* ===== verification/Sl_Timer.thy ===== *)
theory Sl_Timer
  imports Timer_Queue Skiplist
begin

text \<open>
  The timers of \<open>jiagoushi/chap2.5/test-timer/test-timer/sl-timer.c\<close> on the skip list of theory \<open>Skiplist\<close>: a timer is a
  node whose score is the time it is due.

  The clock, the allocator and the random draws are arguments, and so is what the handlers do: \<open>cb h x\<close> is the
  call of handler \<open>h\<close> with node \<open>x\<close>, on the state of the rest of the program and the list.
\<close>

definition sl_init_timer :: "(nat \<Rightarrow> nat) \<Rightarrow> nat option \<Rightarrow> zskiplist option" where
  "sl_init_timer junk malloc = zslCreate junk malloc"

definition sl_add_timer :: "(nat \<Rightarrow> nat) \<Rightarrow> nat option \<Rightarrow> u32 list \<Rightarrow> u32 \<Rightarrow> zskiplist \<Rightarrow> u32 \<Rightarrow> nat \<Rightarrow> (zskiplist \<times> nat) option" where
  "sl_add_timer junk malloc draws now zsl msec func = zslInsert junk malloc draws zsl (ucast (msec + now)) func"

definition sl_del_timer :: "zskiplist \<Rightarrow> nat \<Rightarrow> zskiplist option" where
  "sl_del_timer zsl zn = zslDelete zsl zn"

text \<open>The call through the function pointer of a node.\<close>

definition sl_call :: "(nat \<Rightarrow> nat \<Rightarrow> 'w \<times> zskiplist \<Rightarrow> ('w \<times> zskiplist) option) \<Rightarrow> nat \<Rightarrow> 'w \<times> zskiplist \<Rightarrow> ('w \<times> zskiplist) option" where
  "sl_call cb x wz = do { n \<leftarrow> store (snd wz) x; cb (handler n) x wz }"

partial_function (option) sl_expire_timer ::
  "(nat \<Rightarrow> nat \<Rightarrow> 'w \<times> zskiplist \<Rightarrow> ('w \<times> zskiplist) option) \<Rightarrow> u32 \<Rightarrow> 'w \<times> zskiplist \<Rightarrow> ('w \<times> zskiplist) option" where
  [code]: "sl_expire_timer cb now wz =
     do { x \<leftarrow> zslMin (snd wz);
          if x = 0 then Some wz
          else do { n \<leftarrow> store (snd wz) x;
                    if score n > ucast now then Some wz
                    else do { wz \<leftarrow> sl_call cb x wz;
                              z \<leftarrow> zslDeleteHead (snd wz);
                              sl_expire_timer cb now (fst wz, z) } } }"

section \<open>The list as a queue of deadlines\<close>

text \<open>The list holds the timers \<open>as\<close>, with the given scores and handlers.\<close>

definition sl_holds :: "(nat \<Rightarrow> u64) \<Rightarrow> (nat \<Rightarrow> nat) \<Rightarrow> zskiplist \<Rightarrow> nat list \<Rightarrow> bool" where
  "sl_holds K H z as \<longleftrightarrow> skip_inv z as \<and> (\<forall>a \<in> set as. score_of z a = K a \<and> handler_of z a = H a)"

definition sl_first :: "zskiplist \<Rightarrow> nat option option" where
  "sl_first z = do { x \<leftarrow> zslMin z; Some (if x = 0 then None else Some x) }"

definition sl_due :: "u32 \<Rightarrow> zskiplist \<Rightarrow> nat \<Rightarrow> bool option" where
  "sl_due now z x = do { n \<leftarrow> store z x; Some (\<not> score n > ucast now) }"

interpretation sl: deadline_queue "sl_holds K H" sl_first "\<lambda>now a. K a \<le> ucast now" "\<lambda>a z. zslDeleteHead z" sl_due
  "sl_call cb" "sl_expire_timer cb" for K H cb
proof
  fix z as assume holds: "sl_holds K H z as"
  then have "0 \<notin> set as" by (simp add: sl_holds_def skip_inv_def)
  then show "sl_first z = Some (case as of [] \<Rightarrow> None | a # _ \<Rightarrow> Some a)"
    using zslMin_spec [of z as] holds by (cases as) (auto simp: sl_first_def sl_holds_def)
next
  fix z a as now assume holds: "sl_holds K H z (a # as)"
  then obtain n where "store z a = Some n" by (auto simp: sl_holds_def skip_inv_def)
  then show "sl_due now z a = Some (K a \<le> ucast now)"
    using holds by (auto simp: sl_due_def sl_holds_def score_of_def)
next
  fix z a as b and now :: u32 assume "sl_holds K H z (a # as)" "b \<in> set as" "K b \<le> ucast now"
  then show "K a \<le> ucast now" by (auto simp: sl_holds_def skip_inv_def)
next
  fix z a as assume "sl_holds K H z (a # as)"
  then show "\<exists>z'. zslDeleteHead z = Some z' \<and> sl_holds K H z' as"
    using zslDeleteHead_spec [of z a as] by (auto simp: sl_holds_def)
next
  fix now :: u32 and w :: 'a and z
  show "sl_expire_timer cb now (w, z) =
      do { m \<leftarrow> sl_first z;
           case m of
             None \<Rightarrow> Some (w, z)
           | Some a \<Rightarrow>
               do { d \<leftarrow> sl_due now z a;
                    if d then do { (w, z) \<leftarrow> sl_call cb a (w, z); z \<leftarrow> zslDeleteHead z; sl_expire_timer cb now (w, z) }
                    else Some (w, z) } }"
  proof (cases "zslMin z")
    case (Some x)
    then show ?thesis
      by (cases "store z x"; subst sl_expire_timer.simps) (auto simp: sl_first_def sl_due_def split_def)
  qed (subst sl_expire_timer.simps, simp add: sl_first_def)
qed

section \<open>Handlers that arm timers\<close>

text \<open>What a handler may do while the loop runs: leave the timers that are there, with their scores and handlers, in their order,
  and arm any number of timers that are due later than now. In particular it may leave the list alone, or arm itself again.\<close>

definition arms_later :: "u32 \<Rightarrow> (nat \<Rightarrow> nat \<Rightarrow> 'w \<times> zskiplist \<Rightarrow> ('w \<times> zskiplist) option) \<Rightarrow> (nat \<Rightarrow> nat \<Rightarrow> 'w \<Rightarrow> 'w) \<Rightarrow> bool" where
  "arms_later now cb f \<longleftrightarrow> (\<forall>z as a w. skip_inv z as \<and> a \<in> set as \<longrightarrow>
     (\<exists>z' bs. cb (handler_of z a) a (w, z) = Some (f (handler_of z a) a w, z') \<and> skip_inv z' bs \<and>
       filter (\<lambda>x. x \<in> set as) bs = as \<and>
       (\<forall>x \<in> set as. score_of z' x = score_of z x \<and> handler_of z' x = handler_of z x) \<and>
       (\<forall>x \<in> set bs. x \<notin> set as \<longrightarrow> ucast now < score_of z' x)))"

text \<open>One turn of the loop: after the call of a due head and its removal the other timers are there, in their order, and what else is
  there is not due.\<close>

lemma sl_turn:
  assumes arms: "arms_later now cb f" and inv: "skip_inv z (a # t)" and due: "score_of z a \<le> ucast now"
  obtains z2 t1 where "sl_expire_timer cb now (w, z) = sl_expire_timer cb now (f (handler_of z a) a w, z2)" "skip_inv z2 t1"
    "filter (\<lambda>x. x \<in> set t) t1 = t" "\<forall>x \<in> set t. score_of z2 x = score_of z x \<and> handler_of z2 x = handler_of z x"
    "\<forall>x \<in> set t1. x \<notin> set t \<longrightarrow> ucast now < score_of z2 x"
proof -
  obtain z1 bs where c: "cb (handler_of z a) a (w, z) = Some (f (handler_of z a) a w, z1)" and inv1: "skip_inv z1 bs"
    and keep: "filter (\<lambda>x. x \<in> set (a # t)) bs = a # t"
    and old: "\<forall>x \<in> set (a # t). score_of z1 x = score_of z x \<and> handler_of z1 x = handler_of z x"
    and new: "\<forall>x \<in> set bs. x \<notin> set (a # t) \<longrightarrow> ucast now < score_of z1 x"
  proof -
    have a: "skip_inv z (a # t) \<and> a \<in> set (a # t)" using inv by simp
    show thesis using arms [unfolded arms_later_def, rule_format, OF a, of w] that by blast
  qed
  have "a \<in> set bs" using arg_cong [OF keep, of set] by auto
  then obtain b t1 where b: "bs = b # t1" by (cases bs) auto
  have "b = a"
  proof (cases "b \<in> set (a # t)")
    case True
    then show ?thesis using keep b by simp
  next
    case False
    then have "ucast now < score_of z1 b" using new b by simp
    moreover have "score_of z1 b \<le> score_of z1 a" using inv1 b \<open>a \<in> set bs\<close> by (auto simp: skip_inv_def)
    ultimately show ?thesis using old due by simp
  qed
  have d: "a \<notin> set t" "a \<notin> set t1" using inv inv1 b \<open>b = a\<close> by (auto simp: skip_inv_def)
  obtain z2 where z2: "zslDeleteHead z1 = Some z2" "skip_inv z2 t1" "score_of z2 = score_of z1" "handler_of z2 = handler_of z1"
    using zslDeleteHead_spec [of z1 a t1] inv1 b \<open>b = a\<close> by blast
  have "filter (\<lambda>x. x \<in> set (a # t)) t1 = t" using keep b \<open>b = a\<close> by simp
  moreover have "filter (\<lambda>x. x \<in> set (a # t)) t1 = filter (\<lambda>x. x \<in> set t) t1" using d(2) by (auto intro: filter_cong)
  ultimately have f: "filter (\<lambda>x. x \<in> set t) t1 = t" by simp
  have n: "\<forall>x \<in> set t1. x \<notin> set t \<longrightarrow> ucast now < score_of z2 x" using new b d(2) by (auto simp: z2(3))
  have o: "\<forall>x \<in> set t. score_of z2 x = score_of z x \<and> handler_of z2 x = handler_of z x" using old by (simp add: z2(3,4))
  obtain m where m: "store z a = Some m" using inv by (auto simp: skip_inv_def)
  then have h: "handler m = handler_of z a" "score m = score_of z a" by (simp_all add: handler_of_def score_of_def)
  have "zslMin z = Some a" "a \<noteq> 0" using zslMin_spec [OF inv] inv by (auto simp: skip_inv_def)
  moreover have "\<not> ucast now < score_of z a" using due by simp
  ultimately have "sl_expire_timer cb now (w, z) = sl_expire_timer cb now (f (handler_of z a) a w, z2)"
    using m h c z2(1) by (subst sl_expire_timer.simps) (simp add: sl_call_def)
  then show thesis by (rule that [OF _ z2(2) f o n])
qed

lemma filter_filter_sub: "(\<And>x. x \<in> set xs \<Longrightarrow> P x \<Longrightarrow> Q x) \<Longrightarrow> filter P xs = filter P (filter Q xs)"
  by (induction xs) auto

text \<open>Of a list that came through one turn and then through the others, the same elements are left, in the same order.\<close>

lemma filter_through:
  assumes "filter (\<lambda>x. x \<in> set t) t1 = t" and "\<forall>x \<in> set t. Q x \<longleftrightarrow> R x" and "filter (\<lambda>x. x \<in> set t1 \<and> Q x) bs = filter Q t1"
  shows "filter (\<lambda>x. x \<in> set t \<and> R x) bs = filter R t"
proof -
  let ?N = "\<lambda>x. x \<in> set t \<and> R x"
  have sub: "x \<in> set t1 \<and> Q x" if "?N x" for x using that assms(2) arg_cong [OF assms(1), of set] by auto
  have "filter ?N bs = filter ?N (filter (\<lambda>x. x \<in> set t1 \<and> Q x) bs)" by (rule filter_filter_sub) (use sub in blast)
  also have "\<dots> = filter ?N t1" unfolding assms(3) by (rule filter_filter_sub [symmetric]) (use sub in blast)
  also have "\<dots> = filter ?N (filter (\<lambda>x. x \<in> set t) t1)" by (rule filter_filter_sub) simp
  also have "\<dots> = filter R t" unfolding assms(1) by (rule filter_cong) auto
  finally show ?thesis .
qed

text \<open>The loop, by the number of timers that are due.\<close>

lemma sl_expire_arms:
  assumes "skip_inv z as" and "arms_later now cb f"
  shows "\<exists>z' bs. sl_expire_timer cb now (w, z) =
      Some (fold (\<lambda>x. f (handler_of z x) x) (filter (\<lambda>x. score_of z x \<le> ucast now) as) w, z') \<and>
    sorted (map (score_of z) as) \<and> skip_inv z' bs \<and> (\<forall>x \<in> set bs. ucast now < score_of z' x) \<and>
    filter (\<lambda>x. x \<in> set as \<and> ucast now < score_of z x) bs = filter (\<lambda>x. ucast now < score_of z x) as \<and>
    (\<forall>x \<in> set as. ucast now < score_of z x \<longrightarrow> score_of z' x = score_of z x \<and> handler_of z' x = handler_of z x)"
  using assms(1)
proof (induction "length (filter (\<lambda>x. score_of z x \<le> ucast now) as)" arbitrary: z as w)
  case 0
  then have "filter (\<lambda>x. score_of z x \<le> ucast now) as = []" by simp
  then have later: "\<forall>x \<in> set as. ucast now < score_of z x" by (simp add: filter_empty_conv not_le)
  have "sl_expire_timer cb now (w, z) = Some (w, z)"
  proof (cases as)
    case Nil
    then show ?thesis using zslMin_spec [OF 0(2)] by (subst sl_expire_timer.simps) simp
  next
    case (Cons a t)
    then obtain n where n: "store z a = Some n" using 0(2) by (auto simp: skip_inv_def)
    then have "ucast now < score n" using later Cons by (auto simp: score_of_def)
    then show ?thesis using zslMin_spec [OF 0(2)] Cons n by (subst sl_expire_timer.simps) simp
  qed
  moreover have "sorted (map (score_of z) as)" using 0(2) by (simp add: skip_inv_def)
  moreover have "filter (\<lambda>x. score_of z x \<le> ucast now) as = []" using 0(1) by simp
  moreover have "filter (\<lambda>x. x \<in> set as \<and> ucast now < score_of z x) as = filter (\<lambda>x. ucast now < score_of z x) as"
    by (rule filter_cong) simp_all
  ultimately show ?case using 0(2) later by (intro exI [of _ z] exI [of _ as]) simp
next
  case (Suc k)
  let ?due = "\<lambda>z x. score_of z x \<le> ucast now" and ?later = "\<lambda>z x. ucast now < score_of z x"
  have s: "sorted (map (score_of z) as)" using Suc.prems by (simp add: skip_inv_def)
  obtain a t where as: "as = a # t" using Suc.hyps(2) by (cases as) simp_all
  have a: "?due z a"
  proof (rule ccontr)
    assume n: "\<not> ?due z a"
    then have "\<not> ?due z x" if "x \<in> set as" for x using s that as by auto
    then show False using Suc.hyps(2) by simp
  qed
  obtain z2 t1 where step: "sl_expire_timer cb now (w, z) = sl_expire_timer cb now (f (handler_of z a) a w, z2)" and inv: "skip_inv z2 t1"
    and keep: "filter (\<lambda>x. x \<in> set t) t1 = t" and old: "\<forall>x \<in> set t. score_of z2 x = score_of z x \<and> handler_of z2 x = handler_of z x"
    and new: "\<forall>x \<in> set t1. x \<notin> set t \<longrightarrow> ?later z2 x"
    by (rule sl_turn [OF assms(2) Suc.prems [unfolded as] a])
  have in1: "x \<in> set t1" if "x \<in> set t" for x using that arg_cong [OF keep, of set] by auto
  have "filter (?due z2) t1 = filter (?due z2) (filter (\<lambda>x. x \<in> set t) t1)"
    by (rule filter_filter_sub) (use new in auto)
  also have "\<dots> = filter (?due z) t" unfolding keep by (rule filter_cong) (use old in auto)
  finally have due1: "filter (?due z2) t1 = filter (?due z) t" .
  have len: "k = length (filter (?due z2) t1)" using Suc.hyps(2) a as due1 by simp
  obtain z' bs where ih: "sl_expire_timer cb now (f (handler_of z a) a w, z2) =
      Some (fold (\<lambda>x. f (handler_of z2 x) x) (filter (?due z2) t1) (f (handler_of z a) a w), z')"
    "skip_inv z' bs" "\<forall>x \<in> set bs. ?later z' x" "filter (\<lambda>x. x \<in> set t1 \<and> ?later z2 x) bs = filter (?later z2) t1"
    "\<forall>x \<in> set t1. ?later z2 x \<longrightarrow> score_of z' x = score_of z2 x \<and> handler_of z' x = handler_of z2 x"
    using Suc.hyps(1) [OF len inv, of "f (handler_of z a) a w"] by blast
  have "fold (\<lambda>x. f (handler_of z2 x) x) (filter (?due z) t) v = fold (\<lambda>x. f (handler_of z x) x) (filter (?due z) t) v" for v
    by (rule fold_cong) (use old in auto)
  then have r: "sl_expire_timer cb now (w, z) = Some (fold (\<lambda>x. f (handler_of z x) x) (filter (?due z) as) w, z')"
    using step ih(1) a by (simp add: as due1)
  let ?N = "\<lambda>x. x \<in> set t \<and> ?later z x"
  have "filter ?N bs = filter (?later z) t" by (rule filter_through [OF keep _ ih(4)]) (use old in simp)
  moreover have "(\<lambda>x. x \<in> set as \<and> ?later z x) = ?N" using a by (auto simp: as fun_eq_iff not_less)
  moreover have "filter (?later z) as = filter (?later z) t" using a by (simp add: as not_less)
  ultimately have f: "filter (\<lambda>x. x \<in> set as \<and> ?later z x) bs = filter (?later z) as" by simp
  have o: "\<forall>x \<in> set as. ?later z x \<longrightarrow> score_of z' x = score_of z x \<and> handler_of z' x = handler_of z x"
    using ih(5) old in1 a by (auto simp: as not_less)
  show ?case by (intro exI [of _ z'] exI [of _ bs] conjI r s ih(2,3) f o)
qed

text \<open>With handlers that leave the list alone it is left with exactly the timers that were not due.\<close>

lemma sl_expire_quiet:
  assumes "skip_inv z as" and "\<And>h x w z. cb h x (w, z) = Some (f h x w, z)"
  shows "\<exists>z'. sl_expire_timer cb now (w, z) =
      Some (fold (\<lambda>x. f (handler_of z x) x) (filter (\<lambda>x. score_of z x \<le> ucast now) as) w, z') \<and>
    skip_inv z' (filter (\<lambda>x. \<not> score_of z x \<le> ucast now) as)"
proof -
  let ?K = "score_of z" and ?H = "handler_of z"
  have "sl_call cb a (w, z') = Some (f (?H a) a w, z')" if "sl_holds ?K ?H z' (a # bs)" for z' a bs w
    using that assms(2) by (auto simp: sl_call_def sl_holds_def skip_inv_def handler_of_def)
  moreover have "sl_holds ?K ?H z as" using assms(1) by (simp add: sl_holds_def)
  ultimately show ?thesis
    using sl.expire_due [of ?K ?H z as cb "\<lambda>x. f (?H x) x" now w] by (auto simp: sl_holds_def)
qed

text \<open>A handler that notes its call and arms itself again, fifty milliseconds after the millisecond 120 that the loop runs for.\<close>

definition rearm :: "nat \<Rightarrow> nat \<Rightarrow> (nat \<times> nat) list \<times> zskiplist \<Rightarrow> ((nat \<times> nat) list \<times> zskiplist) option" where
  "rearm h x wz = (case wz of (w, z) \<Rightarrow>
     if store z 3 = None
     then do { (z, b) \<leftarrow> sl_add_timer (\<lambda>_. 7) (Some 3) [40000] 120 z 50 h; Some (w @ [(h, x)], z) }
     else Some (w @ [(h, x)], z))"

lemma rearm_arms_later: "arms_later 120 rearm (\<lambda>h x w. w @ [(h, x)])"
  unfolding arms_later_def
proof (intro allI impI, elim conjE)
  fix z as a and w :: "(nat \<times> nat) list" assume inv: "skip_inv z as" and "a \<in> set as"
  show "\<exists>z' bs. rearm (handler_of z a) a (w, z) = Some (w @ [(handler_of z a, a)], z') \<and> skip_inv z' bs \<and>
       filter (\<lambda>x. x \<in> set as) bs = as \<and>
       (\<forall>x \<in> set as. score_of z' x = score_of z x \<and> handler_of z' x = handler_of z x) \<and>
       (\<forall>x \<in> set bs. x \<notin> set as \<longrightarrow> ucast (120 :: u32) < score_of z' x)"
  proof (cases "store z 3")
    case None
    let ?lt = "\<lambda>y. score_of z y < 170"
    have out: "3 \<notin> set as" using inv None by (auto simp: skip_inv_def)
    have "zslRandomLevel [40000] = Some 1" by (simp add: zslRandomLevel_def ZSKIPLIST_MAXLEVEL_def)
    then obtain z' where i: "zslInsert (\<lambda>_. 7) (Some 3) [40000] z 170 (handler_of z a) = Some (z', 3)"
      "skip_inv z' (takeWhile ?lt as @ 3 # dropWhile ?lt as)"
      "score_of z' = (score_of z)(3 := 170)" "handler_of z' = (handler_of z)(3 := handler_of z a)"
      using zslInsert_spec [OF inv _ None] by fastforce
    have r: "rearm (handler_of z a) a (w, z) = Some (w @ [(handler_of z a, a)], z')"
      using None i(1) by (simp add: rearm_def sl_add_timer_def)
    have all: "filter (\<lambda>x. x \<in> set as) (takeWhile ?lt as) = takeWhile ?lt as" "filter (\<lambda>x. x \<in> set as) (dropWhile ?lt as) = dropWhile ?lt as"
      by (auto simp: filter_id_conv dest: set_takeWhileD set_dropWhileD)
    have keep: "filter (\<lambda>x. x \<in> set as) (takeWhile ?lt as @ 3 # dropWhile ?lt as) = as" using all out by simp
    have old: "\<forall>x \<in> set as. score_of z' x = score_of z x \<and> handler_of z' x = handler_of z x" using out by (auto simp: i(3,4))
    have new: "\<forall>x \<in> set (takeWhile ?lt as @ 3 # dropWhile ?lt as). x \<notin> set as \<longrightarrow> ucast (120 :: u32) < score_of z' x"
      by (auto simp: i(3) dest: set_takeWhileD set_dropWhileD)
    show ?thesis by (intro exI [of _ z'] exI [of _ "takeWhile ?lt as @ 3 # dropWhile ?lt as"] conjI r i(2) keep old new)
  next
    case (Some n)
    then show ?thesis using inv by (intro exI [of _ z] exI [of _ as]) (simp add: rearm_def)
  qed
qed

section \<open>Properties\<close>

text \<open>C40: The loop over the due timers, with handlers that return and may arm new timers, themselves included, as long as these are due later
  than the millisecond the loop runs for, and leave the timers that are there as they are: on a well-formed list the loop ends and
  reads no node that is not there; it has called the handler of every timer that was due, each once with its node, in the order of
  their scores, and no other; what is left is a well-formed list in which nothing is due, and the timers that were not due
  stand in it in their order with their scores and handlers.\<close>

theorem sl_expire_fires_due:
  assumes "skip_inv z as" and "arms_later now cb f"
  shows "\<exists>z' bs. sl_expire_timer cb now (w, z) =
      Some (fold (\<lambda>x. f (handler_of z x) x) (filter (\<lambda>x. score_of z x \<le> ucast now) as) w, z') \<and>
    sorted (map (score_of z) as) \<and> skip_inv z' bs \<and> (\<forall>x \<in> set bs. ucast now < score_of z' x) \<and>
    filter (\<lambda>x. x \<in> set as \<and> ucast now < score_of z x) bs = filter (\<lambda>x. ucast now < score_of z x) as \<and>
    (\<forall>x \<in> set as. ucast now < score_of z x \<longrightarrow> score_of z' x = score_of z x \<and> handler_of z' x = handler_of z x)"
  using assms by (rule sl_expire_arms)

theorem sl_expire_fires_due_witness:
  "\<exists>z0 z1 z2 bs. sl_init_timer (\<lambda>_. 7) (Some 1) = Some z0 \<and> sl_add_timer (\<lambda>_. 7) (Some 2) [40000] 100 z0 20 5 = Some (z1, 2) \<and>
     sl_expire_timer rearm 120 ([], z1) = Some ([(5, 2)], z2) \<and> skip_inv z2 bs \<and> list_all (\<lambda>x. 120 < score_of z2 x) bs"
proof -
  obtain z0 where z0: "zslCreate (\<lambda>_. 7) (Some 1) = Some z0" by (simp add: zslCreate_def Let_def)
  then have "skip_inv z0 []" "store z0 2 = None" using zslCreate_inv [of 1] by (auto simp: zslCreate_def Let_def)
  moreover have "zslRandomLevel [40000] = Some 1" by (simp add: zslRandomLevel_def ZSKIPLIST_MAXLEVEL_def)
  ultimately obtain z1 where z1: "zslInsert (\<lambda>_. 7) (Some 2) [40000] z0 120 5 = Some (z1, 2)" "skip_inv z1 [2]"
    "score_of z1 2 = 120" "handler_of z1 2 = 5"
    using zslInsert_spec [of z0 "[]" 2 "[40000]" 1 "\<lambda>_. 7" 120 5] by auto
  moreover have "ucast (20 + 100 :: u32) = (120 :: u64)" by simp
  ultimately show ?thesis
    using sl_expire_fires_due [OF z1(2) rearm_arms_later, of "[]"] z0
    by (auto simp: sl_init_timer_def sl_add_timer_def list_all_iff)
qed

text \<open>A handler that arms a timer for the same millisecond is called a second time and its new timer is lost: the new node
  stands before its equals, so that the head that is removed is the new one.\<close>

theorem sl_rearm_fires_twice:
  "(do { z \<leftarrow> sl_init_timer (\<lambda>_. 0) (Some 1);
         (z, a) \<leftarrow> sl_add_timer (\<lambda>_. 0) (Some 2) [40000] 100 z 20 5;
         sl_expire_timer (\<lambda>h x (w, z).
            if w = [] then do { (z, b) \<leftarrow> sl_add_timer (\<lambda>_. 0) (Some 3) [40000] 120 z 0 6; Some (w @ [(h, x)], z) }
            else Some (w @ [(h, x)], z)) 120 ([], z) } \<bind> (\<lambda>(w, z). Some (w, zlength z))) = Some ([(5, 2), (5, 2)], 0)"
  by code_simp

end
