(* ===== verification/Spec2Isabelle.thy ===== *)
theory Spec2Isabelle
  imports Kcp_Theorems P2p_Theorems Nty_Theorems Nty_Tree Dns Base64 Des Md5 Aes Xxtea Util_Cgi Kmp Btree Mempool Rbt_Timer Sl_Timer
begin

text \<open>
  A verification library for the C components of this repository.

  The repository is a collection of studies, exercises and third-party sources. Modelled here is the C code
  that has an algorithm or a protocol of its own: a reliable transport, the ciphers and codecs of a cloud
  disk, containers, timers built on them, and string routines. All paths below are under \<open>src/cpp\<close>.

  \<^bold>\<open>How the code is modelled.\<close> A C function is a HOL function on explicit state. A \<open>struct\<close> is a \<open>record\<close>, an integer of
  \<open>n\<close> bits an \<open>n word\<close> (plain \<open>int\<close> where the code's values cannot overflow), a buffer the list of its bytes. What the
  code must not do, such as reading or writing outside an object, following a null or freed pointer, failing an
  \<open>assert\<close>, is the result \<open>None\<close>; error codes are values of the result. Loops are structural recursions or \<open>function\<close>s
  with a termination proof; loops that may not end (walks through pointers, searches that follow a table) are
  \<open>partial_function (option)\<close>, where not ending is \<open>None\<close> too, so that every theorem of the form
  \<open>f x = Some y\<close> says that the code ends, stays inside its objects and returns \<open>y\<close>. Nodes that the code rewires through
  pointers live in a store of addresses. What is outside the program (allocators, the clock, random draws,
  callbacks, the network) is an argument.

  \<^bold>\<open>Common ground.\<close>
    \<^item> \<open>Prelude\<close>: machine types, C's signed reading and truncating division, the collections
      of simplification rules.
    \<^item> \<open>Cstring\<close>: \<open>char\<close> arrays with their terminator, \<open>strlen\<close>, \<open>strstr\<close>, \<open>strncpy\<close>.

  \<^bold>\<open>The KCP transport\<close> (\<open>jiagoushi/chap5.1/kcp-20201022/ikcp.c\<close>, \<open>ikcp.h\<close>). The user's messages enter by \<open>ikcp_send\<close>,
  are cut into segments, wait in \<open>snd_queue\<close>, move to \<open>snd_buf\<close> and leave in datagrams by \<open>ikcp_flush\<close>; the peer's datagrams
  enter by \<open>ikcp_input\<close>, which files acknowledgements and data in \<open>rcv_buf\<close>, from where segments move in order to \<open>rcv_queue\<close>
  and to the user by \<open>ikcp_recv\<close>. The record \<open>ikcpcb\<close> is \<open>struct IKCPCB\<close>, field by field.
    \<^item> \<open>Kcp_Codec\<close>: the header's fields and their encoding (locale \<open>field_codec\<close>, interpreted for 8, 16 and 32 bits), \<open>_itimediff\<close>.
    \<^item> \<open>Kcp_Control\<close>: the control block, creation, release, configuration. \<open>Kcp_Send\<close>, \<open>Kcp_Recv\<close>, \<open>Kcp_Input\<close>, \<open>Kcp_Flush\<close>: the
      operations, each cut at the stages of the source. The loop that doubles the acknowledgement block has 30
      units of fuel: it starts at 8, so that it has reached \<open>2 ^ 31\<close> after 28 doublings, and beyond that size the code itself does not end.
    \<^item> \<open>Kcp_Safety\<close>, \<open>Kcp_Invariant\<close>, \<open>Kcp_Api\<close>: the well-formedness invariant \<open>kcb_inv\<close>, its preservation by every call, and the
      API as a machine (locale \<open>guarded_machine\<close>, theory \<open>Guarded_Machine\<close>): any sequence of calls within their preconditions runs to
      completion. \<open>Kcp_Window\<close>: the receive window stays ordered and bounded. \<open>Kcp_Wire\<close>: what a flush puts on
      the wire, and what \<open>ikcp_check\<close> promises.
    \<^item> \<open>Kcp_Transport\<close>: two peers and a network that loses, repeats and reorders datagrams (\<open>kcp_reach\<close>, an inductive
      relation); the refinement to a reliable channel. \<open>Kcp_Theorems\<close>: the properties, with instances.

  \<^bold>\<open>The DNS client\<close> (\<open>lingshengxueyuan/coroutine/async_dns_client_noblock.c\<close>). \<open>Dns\<close>: the request for a host, names with compression
  pointers (\<open>name_at\<close> says when one ends), the answers of a response whose owners are pointers, as the code takes them to be
  (\<open>record_reads\<close>).

  \<^bold>\<open>Ciphers, digests and codecs.\<close> The cloud disk (\<open>lingshengxueyuan/HuLianWangYunPan/0voice-cloud-disk/common\<close>) uses the first
  three; the last two are \<open>lingshengxueyuan/chap4.3/protocol/3-security\<close>.
    \<^item> \<open>Base64\<close> (\<open>base64.c\<close>): decoding undoes encoding.
    \<^item> \<open>Des\<close> (\<open>des.c\<close>): the bit-sliced cipher with its tables, the buffer and
      password routines; decryption by way of the locale \<open>feistel_network\<close>. The size of an \<open>unsigned long\<close>
      is an argument: with four bytes decryption undoes encryption, with eight no result is defined.
    \<^item> \<open>Md5\<close> (\<open>md5.c\<close>): the incremental interface computes the RFC 1321 digest however the message is
      cut (locale \<open>block_hash\<close>); the unrolled steps are the RFC's loop.
    \<^item> \<open>Aes\<close> (\<open>tiny-AES-c/aes.c\<close>): key expansion, the cipher and its inverse, ECB, CBC and CTR for the three key sizes, which the
      code chooses by macro and the model by an argument.
    \<^item> \<open>Xxtea\<close> (\<open>xxtea/xxtea.c\<close>): \<open>btea\<close> in both directions.

  \<^bold>\<open>Strings.\<close>
    \<^item> \<open>Util_Cgi\<close> (\<open>common/util_cgi.c\<close> of the cloud disk): trimming, searching, query strings, suffixes, replacing.
    \<^item> \<open>Kmp\<close> (\<open>lingshengxueyuan/chap1.1/kmp.c\<close>): three table routines, which agree, and three searches, of which one agrees with \<open>strstr\<close>.

  \<^bold>\<open>Containers and memory.\<close>
    \<^item> \<open>Btree\<close> (\<open>lingshengxueyuan/chap1.3/code/btree.c\<close>): insertion keeps a B-tree and adds the key in order; deletion does not.
    \<^item> \<open>Mempool\<close> (\<open>lingshengxueyuan/chap3.3/mmpool.c\<close>): blocks, large requests, reset; along the calls of \<open>mp_run\<close>, an
      inductive relation, regions are disjoint. It asks of a request that aligns that the aligned start of no block from \<open>current\<close> on lies
      behind the end of that block (\<open>starts_in_blocks\<close>), which requests for multiples of 32 keep so; \<open>mp_pool_defects\<close> shows what
      happens otherwise.
    \<^item> \<open>Skiplist\<close> (\<open>jiagoushi/chap2.5/test-timer/test-timer/skiplist.c\<close>): the levels as paths through one store; insertion
      and removal of the head.
    \<^item> \<open>Rbtree\<close> (\<open>rbtree.c\<close>, \<open>rbtree.h\<close> there): nodes with parent pointers in a store. A tree in the store is described by a
      subtree and the way up from it (\<open>zip_at\<close>); a rotation is one lemma. \<open>Rbtree_Insert\<close>: colours, the rebalancing loop,
      the descent, the successor; locale \<open>insert_order\<close> for the two comparisons. \<open>Rbtree_Delete\<close>: removal, with both sides
      of the loop proved at once.

  \<^bold>\<open>Timers\<close> (\<open>rbt-timer.c\<close> and \<open>sl-timer.c\<close> there). \<open>Timer_Queue\<close>: the clock and the locale \<open>deadline_queue\<close>, the contract between
  the loop over the due timers and its container. \<open>Rbt_Timer\<close> and \<open>Sl_Timer\<close> interpret it on the tree and on the list;
  \<open>rbt_reach\<close> is what a program may do with timers, \<open>arms_later\<close> what a handler may do while the loop over the list runs.

  \<^bold>\<open>The rendezvous service\<close> (\<open>jiagoushi/chap4.4/p2p\<close>). Clients log in at a server, which tells one the address of another so that the two can
  talk directly.
    \<^item> \<open>P2p_Wire\<close> (\<open>p2p.h\<close>): the requests, addresses as bytes, the clock of the time stamps.
    \<^item> \<open>P2p_Server\<close> (\<open>p2p_server.c\<close>): the table of clients, the requests, a turn of the loop; the abstract service is a directory and the
      entry written last (\<open>spec_turn\<close>), and \<open>server_pre\<close> says exactly when a turn is defined (\<open>guarded_machine\<close>).
    \<^item> \<open>P2p_Client\<close> (\<open>p2p_client.c\<close>): a turn of the receiving and of the sending thread.
    \<^item> \<open>P2p_System\<close>: server and clients on a network that loses, repeats and delays: the steps (\<open>p2p_step\<close>, an inductive relation), the states they
      reach from the start (\<open>p2p_reach\<close>) and from any state (\<open>p2p_leads\<close>), and the
      invariant \<open>good_system\<close>. \<open>P2p_Theorems\<close>: the properties, with instances.

  \<^bold>\<open>The coroutine scheduler\<close> (\<open>jiagoushi/chap2.7/NtyCo/core\<close>). Sleepers and waiters in two trees, a queue of the ready, and the loop that
  resumes them. The trees are the macros of \<open>nty_tree.h\<close>, of which the contract is used: a tree is the sequence of its nodes; what a coroutine does between two switches is an argument.
    \<^item> \<open>Nty_Schedule\<close> (\<open>nty_schedule.c\<close>, and the bookkeeping in \<open>nty_coroutine.c\<close> and \<open>nty_socket.c\<close>): state, operations, the
      search for a free microsecond. \<open>Nty_Tree\<close> (\<open>nty_tree.h\<close>): \<open>RB_FIND\<close>, \<open>RB_MINMAX\<close> and \<open>RB_INSERT\<close> up to the recolouring, on nodes in
      a store, keep that contract; \<open>RB_INSERT_COLOR\<close> and \<open>RB_REMOVE\<close> are not modelled. \<open>Nty_Calls\<close>: the operations as a \<open>guarded_machine\<close> with the invariant \<open>sched_ok\<close>.
    \<^item> \<open>Nty_Run\<close>: resuming, the loops over sleepers, ready coroutines and events, \<open>nty_schedule_run\<close>; what coroutines may do so
      that a round of the ready queue is fair (\<open>polite\<close>) and the loop over the sleepers ends (\<open>resting\<close>). \<open>Nty_Theorems\<close>: the properties, with instances.

  \<^bold>\<open>What the theorems rest on.\<close> The lemmas of the component theories; of the components themselves no theorem assumes more than
  their well-formedness, which their constructors establish and their operations keep. What is outside the program is
  unconstrained, except where a property and its text say otherwise: allocators are asked to succeed or to answer with fresh addresses;
  handlers of timers only to note their call (tree) or to arm nothing for the current millisecond (list); coroutines not to end one
  another, and, in the loop over the sleepers, to leave the others asleep and to lie down only for later than the clock gets while the loop runs;
  the 8-byte \<open>long\<close> is excluded where the DES routines are to return. Known gaps of the code are theorems too (a wrong search, a clock that wraps, an MTU
  lowered under queued data), so that the limits of the other theorems are seen to be needed.

  \<^bold>\<open>Not modelled.\<close> Output and logging; \<open>main\<close> functions and demonstrations; freeing a whole structure where nothing but
  calls of \<open>free\<close> happens; the CGI programs of the cloud disk and its clients of MySQL, Redis and FastDFS (they
  format requests and hand them to services); event loops over \<open>epoll\<close>, DPDK and netmap, the coroutines' stacks and
  socket wrappers, the DNS client's sockets and thread, kernel modules (system calls, context switches); the third-party trees kept for study (Redis, nginx, Lua, the
  Linux kernels, brpc, protobuf, FUSE, the ZooKeeper client, cJSON). Time and space are not modelled, and neither is the
  interleaving of threads inside one call.
\<close>

end
